(* ===== verification/Chan_Buffer.thy ===== *)
theory Chan_Buffer
  imports Prelude
begin

text \<open>
  The bounded ring buffer of \<open>p3-concurrent-channels/buffer.c\<close>: \<open>buffer_t\<close> with its
  fields, one definition per function, the representation invariant, and the refinement of
  the ring to the FIFO list of the elements it holds.
\<close>

section \<open>State and operations\<close>

record buffer_t =
  buf_size :: u64
  buf_next :: u64
  buf_capacity :: u64
  buf_data :: "u64 list" \<comment> \<open>the cells \<open>malloc\<close> reserved\<close>

definition BUFFER_EMPTY :: u64 where
  "BUFFER_EMPTY = - 1"

text \<open>
  \<open>ok_struct\<close> and \<open>ok_data\<close> say whether the two calls of \<open>malloc\<close> succeed, \<open>fresh\<close> is
  what the new array happens to hold. The byte count \<open>capacity * sizeof(void*)\<close> is
  computed in 64 bits. Neither result is checked: the first one is dereferenced at once.
\<close>

definition buffer_create :: "bool \<Rightarrow> bool \<Rightarrow> (nat \<Rightarrow> u64) \<Rightarrow> u64 \<Rightarrow> buffer_t option" where
  "buffer_create ok_struct ok_data fresh capacity =
     (if \<not> ok_struct then None
      else Some \<lparr>buf_size = 0, buf_next = 0, buf_capacity = capacity,
        buf_data = (if ok_data then map fresh [0..<unat (capacity * 8) div 8] else [])\<rparr>)"

definition buffer_add :: "u64 \<Rightarrow> buffer_t \<Rightarrow> (bool \<times> buffer_t) option" where
  "buffer_add d b =
     (if buf_size b \<ge> buf_capacity b then Some (False, b)
      else let pos0 = buf_next b + buf_size b;
               pos = (if pos0 \<ge> buf_capacity b then pos0 - buf_capacity b else pos0)
           in do {
             cells \<leftarrow> array_set (buf_data b) (unat pos) d;
             Some (True, b\<lparr>buf_data := cells, buf_size := buf_size b + 1\<rparr>)
           })"

definition buffer_remove :: "buffer_t \<Rightarrow> (u64 \<times> buffer_t) option" where
  "buffer_remove b =
     (if buf_size b > 0 then do {
        d \<leftarrow> array_get (buf_data b) (unat (buf_next b));
        let nx = buf_next b + 1;
        Some (d, b\<lparr>buf_size := buf_size b - 1,
                   buf_next := (if nx \<ge> buf_capacity b then nx - buf_capacity b else nx)\<rparr>)
      } else Some (BUFFER_EMPTY, b))"

text \<open>The owner's pointer after \<open>buffer_free\<close> denotes no object any more.\<close>

definition buffer_free :: "buffer_t \<Rightarrow> buffer_t option" where
  "buffer_free b = None"

definition buffer_capacity :: "buffer_t \<Rightarrow> u64" where
  "buffer_capacity b = buf_capacity b"

definition buffer_current_size :: "buffer_t \<Rightarrow> u64" where
  "buffer_current_size b = buf_size b"

definition peek_buffer :: "u64 \<Rightarrow> buffer_t \<Rightarrow> u64 option" where
  "peek_buffer index b = array_get (buf_data b) (unat index)"

section \<open>The interface of a bounded FIFO queue\<close>

text \<open>
  What a client of the ring may rely on, over the list \<open>items\<close> of the elements held: an
  addition appends while there is room and changes nothing otherwise, a removal takes
  the oldest element, or returns the mark when there is none.
\<close>

locale bounded_fifo =
  fixes inv :: "'b \<Rightarrow> bool" and items :: "'b \<Rightarrow> 'e list" and cap :: "'b \<Rightarrow> nat"
    and mark :: 'e
    and add :: "'e \<Rightarrow> 'b \<Rightarrow> (bool \<times> 'b) option" and remove :: "'b \<Rightarrow> ('e \<times> 'b) option"
  assumes items_le_cap: "inv b \<Longrightarrow> length (items b) \<le> cap b"
    and add_room: "inv b \<Longrightarrow> length (items b) < cap b \<Longrightarrow>
      \<exists>b'. add d b = Some (True, b') \<and> inv b' \<and> items b' = items b @ [d] \<and> cap b' = cap b"
    and add_full: "inv b \<Longrightarrow> length (items b) = cap b \<Longrightarrow> add d b = Some (False, b)"
    and remove_some: "inv b \<Longrightarrow> items b = x # xs \<Longrightarrow>
      \<exists>b'. remove b = Some (x, b') \<and> inv b' \<and> items b' = xs \<and> cap b' = cap b"
    and remove_none: "inv b \<Longrightarrow> items b = [] \<Longrightarrow> remove b = Some (mark, b)"

text \<open>Sequences of calls, on an implementation and on the abstract queue.\<close>

datatype 'e fifo_op = Put 'e | Get
datatype 'e fifo_out = Added bool | Got 'e

fun run_ops :: "('e \<Rightarrow> 'b \<Rightarrow> (bool \<times> 'b) option) \<Rightarrow> ('b \<Rightarrow> ('e \<times> 'b) option) \<Rightarrow>
    'e fifo_op list \<Rightarrow> 'b \<Rightarrow> ('e fifo_out list \<times> 'b) option" where
  "run_ops ad rm [] b = Some ([], b)"
| "run_ops ad rm (Put d # ops) b =
     do { (r, b') \<leftarrow> ad d b; (outs, b'') \<leftarrow> run_ops ad rm ops b'; Some (Added r # outs, b'') }"
| "run_ops ad rm (Get # ops) b =
     do { (x, b') \<leftarrow> rm b; (outs, b'') \<leftarrow> run_ops ad rm ops b'; Some (Got x # outs, b'') }"

fun queue_ops :: "nat \<Rightarrow> 'e \<Rightarrow> 'e fifo_op list \<Rightarrow> 'e list \<Rightarrow> 'e fifo_out list \<times> 'e list" where
  "queue_ops n m [] q = ([], q)"
| "queue_ops n m (Put d # ops) q =
     (if length q < n then case queue_ops n m ops (q @ [d]) of (outs, q') \<Rightarrow> (Added True # outs, q')
      else case queue_ops n m ops q of (outs, q') \<Rightarrow> (Added False # outs, q'))"
| "queue_ops n m (Get # ops) q =
     (case q of [] \<Rightarrow> (case queue_ops n m ops [] of (outs, q') \<Rightarrow> (Got m # outs, q'))
      | x # xs \<Rightarrow> (case queue_ops n m ops xs of (outs, q') \<Rightarrow> (Got x # outs, q')))"

context bounded_fifo
begin

lemma run_refines_queue:
  "inv b \<Longrightarrow> \<exists>b'. run_ops add remove ops b = Some (fst (queue_ops (cap b) mark ops (items b)), b') \<and>
     inv b' \<and> items b' = snd (queue_ops (cap b) mark ops (items b)) \<and> cap b' = cap b"
proof (induction ops arbitrary: b)
  case Nil
  then show ?case by simp
next
  case (Cons op ops)
  show ?case
  proof (cases op)
    case (Put d)
    show ?thesis
    proof (cases "length (items b) < cap b")
      case True
      with add_room [OF Cons.prems, of d] obtain b1 where b1: "add d b = Some (True, b1)" "inv b1"
        "items b1 = items b @ [d]" "cap b1 = cap b" by auto
      from Cons.IH [OF b1(2)] b1 True Put show ?thesis
        by (auto split: prod.splits)
    next
      case False
      with items_le_cap [OF Cons.prems] have "length (items b) = cap b" by simp
      with Cons.IH [OF Cons.prems] add_full [OF Cons.prems, of d] Put show ?thesis
        by (auto split: prod.splits)
    qed
  next
    case Get
    show ?thesis
    proof (cases "items b")
      case Nil
      with Cons.IH [OF Cons.prems] remove_none [OF Cons.prems] Get show ?thesis
        by (auto split: prod.splits)
    next
      case (Cons x xs)
      with remove_some [OF Cons.prems, of x xs] obtain b1 where b1: "remove b = Some (x, b1)"
        "inv b1" "items b1 = xs" "cap b1 = cap b" by auto
      from Cons.IH [OF b1(2)] b1 Get \<open>items b = x # xs\<close> show ?thesis
        by (auto split: prod.splits)
    qed
  qed
qed

end

section \<open>The ring implements the queue\<close>

definition buf_inv :: "buffer_t \<Rightarrow> bool" where
  "buf_inv b \<longleftrightarrow> length (buf_data b) = unat (buf_capacity b) \<and> unat (buf_capacity b) < 2 ^ 61 \<and>
     buf_next b < buf_capacity b \<and> buf_size b \<le> buf_capacity b"

definition buf_items :: "buffer_t \<Rightarrow> u64 list" where
  "buf_items b = map (\<lambda>i. buf_data b ! ((unat (buf_next b) + i) mod unat (buf_capacity b)))
     [0..<unat (buf_size b)]"

lemma length_buf_items [simp]: "length (buf_items b) = unat (buf_size b)"
  by (simp add: buf_items_def)

lemma buffer_create_inv:
  assumes "0 < capacity" "unat capacity < 2 ^ 61"
  shows "\<exists>b. buffer_create True True fresh capacity = Some b \<and> buf_inv b \<and> buf_items b = [] \<and>
    buf_capacity b = capacity"
  using assms
  by (simp add: buffer_create_def buf_inv_def buf_items_def unat_word_ariths)

text \<open>The index computed by \<open>buffer_add\<close> is the ring position behind the last element.\<close>

lemma ring_pos:
  assumes "buf_inv b" "buf_size b < buf_capacity b"
  shows "unat (let pos0 = buf_next b + buf_size b
     in if pos0 \<ge> buf_capacity b then pos0 - buf_capacity b else pos0) =
     (unat (buf_next b) + unat (buf_size b)) mod unat (buf_capacity b)"
proof -
  let ?n = "unat (buf_next b)" and ?s = "unat (buf_size b)" and ?c = "unat (buf_capacity b)"
  from assms have lt: "?n < ?c" "?s < ?c" "?c < 2 ^ 61"
    by (simp_all add: buf_inv_def word_less_unat)
  then have sum: "unat (buf_next b + buf_size b) = ?n + ?s"
    by (simp add: word_nat)
  show ?thesis
  proof (cases "?c \<le> ?n + ?s")
    case True
    then have "buf_capacity b \<le> buf_next b + buf_size b"
      by (simp add: word_le_unat sum)
    moreover from True lt have "(?n + ?s) mod ?c = ?n + ?s - ?c"
      by (simp add: le_mod_geq)
    ultimately show ?thesis
      by (simp add: word_nat sum)
  next
    case False
    then show ?thesis by (simp add: word_le_unat sum)
  qed
qed

lemma mod_add_inj:
  fixes n i j c :: nat
  assumes "i < c" "j < c" "(n + i) mod c = (n + j) mod c"
  shows "i = j"
proof -
  have "i mod c = j mod c"
    using assms(3) by (simp add: mod_eq_iff_dvd_symdiff_nat)
  with assms(1,2) show ?thesis by simp
qed

lemma buffer_add_room:
  assumes inv: "buf_inv b" and room: "length (buf_items b) < unat (buf_capacity b)"
  shows "\<exists>b'. buffer_add d b = Some (True, b') \<and> buf_inv b' \<and> buf_items b' = buf_items b @ [d] \<and>
    buf_capacity b' = buf_capacity b"
proof -
  let ?n = "unat (buf_next b)" and ?s = "unat (buf_size b)" and ?c = "unat (buf_capacity b)"
  let ?p = "(?n + ?s) mod ?c"
  let ?b = "b\<lparr>buf_data := (buf_data b)[?p := d], buf_size := buf_size b + 1\<rparr>"
  from room have lt: "buf_size b < buf_capacity b" by (simp add: word_less_unat)
  from inv have c: "?c < 2 ^ 61" "length (buf_data b) = ?c" "?n < ?c"
    by (simp_all add: buf_inv_def word_less_unat)
  from lt c have s1: "unat (buf_size b + 1) = Suc ?s"
    by (simp add: word_nat word_less_unat)
  from c have p: "?p < length (buf_data b)" by simp
  have add: "buffer_add d b = Some (True, ?b)"
    using lt p by (simp add: buffer_add_def ring_pos [OF inv lt, unfolded Let_def])
  have "buf_inv ?b"
    using inv lt s1 by (simp add: buf_inv_def word_le_unat word_less_unat)
  moreover have "buf_items ?b = buf_items b @ [d]"
  proof (rule nth_equalityI)
    show "length (buf_items ?b) = length (buf_items b @ [d])" by (simp add: s1)
  next
    fix i assume "i < length (buf_items ?b)"
    then have i: "i \<le> ?s" by (simp add: s1)
    have *: "(buf_data b)[?p := d] ! ((?n + i) mod ?c) = buf_data b ! ((?n + i) mod ?c)" if "i < ?s"
    proof (rule nth_list_update_neq)
      from that lt have "i < ?c" "?s < ?c" by (simp_all add: word_less_unat)
      then show "?p \<noteq> (?n + i) mod ?c"
        using mod_add_inj [of i ?c ?s ?n] that by auto
    qed
    from i s1 p * show "buf_items ?b ! i = (buf_items b @ [d]) ! i"
      by (cases "i < ?s") (simp_all add: buf_items_def nth_append del: upt_Suc)
  qed
  ultimately show ?thesis using add by auto
qed

lemma buffer_add_full:
  "buf_inv b \<Longrightarrow> length (buf_items b) = unat (buf_capacity b) \<Longrightarrow> buffer_add d b = Some (False, b)"
  by (simp add: buffer_add_def word_le_unat)

lemma buffer_remove_some:
  assumes inv: "buf_inv b" and items: "buf_items b = x # xs"
  shows "\<exists>b'. buffer_remove b = Some (x, b') \<and> buf_inv b' \<and> buf_items b' = xs \<and>
    buf_capacity b' = buf_capacity b"
proof -
  let ?n = "unat (buf_next b)" and ?s = "unat (buf_size b)" and ?c = "unat (buf_capacity b)"
  let ?nx = "if buf_next b + 1 \<ge> buf_capacity b then buf_next b + 1 - buf_capacity b
    else buf_next b + 1"
  let ?b = "b\<lparr>buf_size := buf_size b - 1, buf_next := ?nx\<rparr>"
  from inv have c: "?c < 2 ^ 61" "length (buf_data b) = ?c" "?n < ?c"
    by (simp_all add: buf_inv_def word_less_unat)
  from arg_cong [OF items, of length] have s: "?s = Suc (length xs)" by simp
  then have pos: "buf_size b > 0" by (simp add: word_less_unat)
  have s1: "unat (buf_size b - 1) = length xs"
    using pos s by (simp add: unat_minus_one)
  have nx: "unat ?nx = (?n + 1) mod ?c"
  proof (cases "?n + 1 = ?c")
    case True
    then have "unat (buf_next b + 1) = ?c" using c by (simp add: word_nat)
    then have "buf_next b + 1 = buf_capacity b" by (simp add: word_unat_eq_iff)
    with True show ?thesis by simp
  next
    case False
    then show ?thesis using c by (simp add: word_le_unat word_nat)
  qed
  have hd: "buf_data b ! ?n = x"
    using arg_cong [OF items, of "\<lambda>l. l ! 0"] s c by (simp add: buf_items_def del: upt_Suc)
  have rem: "buffer_remove b = Some (x, ?b)"
    using pos c hd by (simp add: buffer_remove_def Let_def)
  have "buf_inv ?b"
    using inv c s s1 nx by (auto simp: buf_inv_def word_le_unat word_less_unat)
  moreover have "buf_items ?b = xs"
  proof (rule nth_equalityI)
    show "length (buf_items ?b) = length xs" by (simp add: s1)
  next
    fix i assume "i < length (buf_items ?b)"
    then have i: "i < length xs" by (simp add: s1)
    have "xs ! i = buf_items b ! Suc i" by (simp add: items)
    also have "\<dots> = buf_data b ! ((?n + Suc i) mod ?c)"
      using i s by (simp add: buf_items_def del: upt_Suc)
    finally show "buf_items ?b ! i = xs ! i"
      using i s1 nx by (simp add: buf_items_def mod_simps)
  qed
  ultimately show ?thesis using rem by auto
qed

lemma buffer_remove_none:
  "buf_inv b \<Longrightarrow> buf_items b = [] \<Longrightarrow> buffer_remove b = Some (BUFFER_EMPTY, b)"
  using length_buf_items [of b] by (simp add: buffer_remove_def unat_0_iff)

interpretation ring: bounded_fifo buf_inv buf_items "\<lambda>b. unat (buf_capacity b)" BUFFER_EMPTY
  buffer_add buffer_remove
proof (unfold_locales, goal_cases)
  case (1 b)
  then show ?case by (simp add: buf_inv_def word_le_unat)
next
  case (2 b d)
  then show ?case using buffer_add_room by fastforce
next
  case (3 b d)
  then show ?case by (simp add: buffer_add_full)
next
  case (4 b x xs)
  then show ?case using buffer_remove_some by fastforce
next
  case (5 b)
  then show ?case by (simp add: buffer_remove_none)
qed

section \<open>Properties\<close>

text \<open>C9: A buffer made by \<open>buffer_create\<close> with a capacity of 1 to \<open>2^61 - 1\<close> answers every
  sequence of additions and removals exactly as a FIFO queue of that capacity does (a full
  queue refuses, an empty one returns \<open>BUFFER_EMPTY\<close>), never touches a cell outside its
  array, and holds what the queue holds.\<close>

theorem buffer_run_refines_queue:
  assumes "0 < capacity" and "unat capacity < 2 ^ 61"
  shows "\<exists>b b'. buffer_create True True fresh capacity = Some b \<and>
    run_ops buffer_add buffer_remove ops b =
      Some (fst (queue_ops (unat capacity) BUFFER_EMPTY ops []), b') \<and>
    buf_inv b' \<and> buf_items b' = snd (queue_ops (unat capacity) BUFFER_EMPTY ops [])"
proof -
  from buffer_create_inv [OF assms] obtain b where
    b: "buffer_create True True fresh capacity = Some b" "buf_inv b" "buf_items b = []"
      "buf_capacity b = capacity" by auto
  from ring.run_refines_queue [OF b(2), of ops] b show ?thesis by auto
qed

theorem buffer_run_refines_queue_witness:
  "\<exists>b b'. buffer_create True True (\<lambda>_. 0) 2 = Some b \<and>
    run_ops buffer_add buffer_remove [Put 5, Put 6, Put 7, Get, Get, Get] b =
      Some ([Added True, Added True, Added False, Got 5, Got 6, Got BUFFER_EMPTY], b') \<and>
    buf_inv b' \<and> buf_items b' = []"
  using buffer_run_refines_queue [of 2 "\<lambda>_. 0" "[Put 5, Put 6, Put 7, Get, Get, Get]"] by simp

text \<open>From a capacity of \<open>2^61\<close> on, the byte count of the array wraps around: the buffer is
  created without a cell, and the first addition writes outside it.\<close>

theorem buffer_create_size_wraps:
  "\<exists>b. buffer_create True True fresh (2 ^ 61) = Some b \<and> buf_data b = [] \<and> buffer_add d b = None"
  by (simp add: buffer_create_def buffer_add_def)

end
