(* ===== verification/Dlink.thy ===== *)
theory Dlink
  imports Prelude
begin

text \<open>
  Doubly linked chains of 64-bit addresses. \<open>L a = Some (n, p)\<close> says that the cell at
  address \<open>a\<close> links forward to \<open>n\<close> and backward to \<open>p\<close>. The list of the channels
  (\<open>linked_list.c\<close>) and the segregated free lists of the allocator (\<open>mm.c\<close>) are both
  chains of this kind, and share the lemmas on splicing a cell in and out.
\<close>

type_synonym links = "u64 \<Rightarrow> (u64 \<times> u64) option"

text \<open>
  \<open>dseg L pv p as pv' q\<close>: following the forward links from \<open>p\<close> visits the cells \<open>as\<close> and
  then reaches \<open>q\<close>; the backward links agree, the first one being \<open>pv\<close>; \<open>pv'\<close> is the
  last cell, or \<open>pv\<close> for an empty segment.
\<close>

fun dseg :: "links \<Rightarrow> u64 \<Rightarrow> u64 \<Rightarrow> u64 list \<Rightarrow> u64 \<Rightarrow> u64 \<Rightarrow> bool" where
  "dseg L pv p [] pv' q \<longleftrightarrow> p = q \<and> pv' = pv"
| "dseg L pv p (a # as) pv' q \<longleftrightarrow>
     p = a \<and> a \<noteq> NULL \<and> (\<exists>r. L a = Some (r, pv) \<and> dseg L a r as pv' q)"

lemma distinct_neighbours:
  assumes "distinct (as @ x # bs)"
  shows "as \<noteq> [] \<Longrightarrow> last as \<noteq> x" and "bs \<noteq> [] \<Longrightarrow> hd bs \<noteq> x"
    and "as \<noteq> [] \<Longrightarrow> bs \<noteq> [] \<Longrightarrow> last as \<noteq> hd bs"
proof -
  from assms have d: "x \<notin> set as" "x \<notin> set bs" "set as \<inter> set bs = {}" by auto
  show "as \<noteq> [] \<Longrightarrow> last as \<noteq> x" using d last_in_set [of as] by auto
  show "bs \<noteq> [] \<Longrightarrow> hd bs \<noteq> x" using d list.set_sel(1) [of bs] by auto
  show "as \<noteq> [] \<Longrightarrow> bs \<noteq> [] \<Longrightarrow> last as \<noteq> hd bs"
    using d last_in_set [of as] list.set_sel(1) [of bs] by (metis disjoint_iff)
qed

text \<open>A whole chain starts with a NULL backward link and ends with a NULL forward link.\<close>

definition dchain :: "links \<Rightarrow> u64 \<Rightarrow> u64 list \<Rightarrow> bool" where
  "dchain L p as \<longleftrightarrow> (\<exists>pv'. dseg L NULL p as pv' NULL) \<and> distinct as"

lemma dseg_append:
  "dseg L pv p (as @ bs) pv' q \<longleftrightarrow> (\<exists>m r. dseg L pv p as m r \<and> dseg L m r bs pv' q)"
  by (induction as arbitrary: pv p) auto

lemma dseg_cong: "(\<And>a. a \<in> set as \<Longrightarrow> L' a = L a) \<Longrightarrow> dseg L' pv p as m q = dseg L pv p as m q"
  by (induction as arbitrary: pv p) auto

lemma dseg_last: "dseg L pv p as m q \<Longrightarrow> m = (if as = [] then pv else last as)"
  by (induction as arbitrary: pv p) auto

lemma dseg_first: "dseg L pv p as m q \<Longrightarrow> p = (if as = [] then q else hd as)"
  by (cases as) auto

lemma dseg_not_NULL: "dseg L pv p as m q \<Longrightarrow> NULL \<notin> set as"
  by (induction as arbitrary: pv p) auto

lemma dseg_links: "dseg L pv p as m q \<Longrightarrow> a \<in> set as \<Longrightarrow> L a \<noteq> None"
  by (induction as arbitrary: pv p) auto

text \<open>Redirecting the last forward link.\<close>

lemma dseg_last_upd:
  assumes "dseg L pv p as m q" "as \<noteq> []" "distinct as"
    and "L' m = Some (x, snd (the (L m)))" "\<And>a. a \<in> set as \<Longrightarrow> a \<noteq> m \<Longrightarrow> L' a = L a"
  shows "dseg L' pv p as m x"
  using assms
proof (induction as arbitrary: pv p)
  case Nil
  then show ?case by simp
next
  case (Cons a as)
  show ?case
  proof (cases "as = []")
    case True
    with Cons.prems show ?thesis by auto
  next
    case False
    from Cons.prems obtain r where r: "L a = Some (r, pv)" "dseg L a r as m q" "p = a" "a \<noteq> NULL"
      by auto
    from dseg_last [OF r(2)] False have "m \<in> set as" by simp
    with Cons.prems have "a \<noteq> m" by auto
    with Cons.prems(5) r(1) have "L' a = Some (r, pv)" by simp
    moreover have "dseg L' a r as m x"
      using Cons.IH [OF r(2) False] Cons.prems by simp
    ultimately show ?thesis using r by simp
  qed
qed

text \<open>Redirecting the first backward link.\<close>

lemma dseg_first_upd:
  assumes "dseg L pv p as m q" "as \<noteq> []" "distinct as"
    and "L' p = Some (fst (the (L p)), x)" "\<And>a. a \<in> set as \<Longrightarrow> a \<noteq> p \<Longrightarrow> L' a = L a"
  shows "dseg L' x p as m q"
proof (cases as)
  case (Cons a bs)
  with assms(1) obtain r where r: "L a = Some (r, pv)" "dseg L a r bs m q" "p = a" "a \<noteq> NULL"
    by auto
  have "dseg L' a r bs m q"
    using r(2) by (subst dseg_cong [of bs L' L]) (use assms(3,5) Cons r in auto)
  with r assms(4) Cons show ?thesis by simp
qed (use assms in simp)

lemma dchain_head: "dchain L p as \<Longrightarrow> p = (if as = [] then NULL else hd as)"
  by (auto simp: dchain_def dest: dseg_first)

lemma dchain_empty [simp]: "dchain L NULL as \<longleftrightarrow> as = []"
  by (cases as) (auto simp: dchain_def)

lemma dchain_cong:
  "dchain L p as \<Longrightarrow> (\<And>a. a \<in> set as \<Longrightarrow> L' a = L a) \<Longrightarrow> dchain L' p as"
  using dseg_cong [of as L' L] by (simp add: dchain_def)

lemma dchain_distinct: "dchain L p as \<Longrightarrow> distinct as"
  by (simp add: dchain_def)

lemma dchain_not_NULL: "dchain L p as \<Longrightarrow> NULL \<notin> set as"
  by (auto simp: dchain_def dest: dseg_not_NULL)

lemma dchain_links: "dchain L p as \<Longrightarrow> a \<in> set as \<Longrightarrow> L a \<noteq> None"
  unfolding dchain_def using dseg_links by blast

text \<open>The links of a cell in the middle of a chain name its neighbours.\<close>

lemma dchain_cell:
  assumes "dchain L p (as @ x # bs)"
  shows "L x = Some (if bs = [] then NULL else hd bs, if as = [] then NULL else last as)"
proof -
  from assms obtain pv' m r where m: "dseg L NULL p as m r" and "dseg L m r (x # bs) pv' NULL"
    unfolding dchain_def dseg_append by blast
  then obtain s where "L x = Some (s, m)" "dseg L x s bs pv' NULL" by auto
  with dseg_last [OF m] show ?thesis by (auto dest: dseg_first)
qed

text \<open>
  Splicing a cell into a chain: the new cell links its two neighbours, the neighbour before
  it is redirected forward to it, the one behind it backward.
\<close>

lemma dchain_insert:
  assumes ch: "dchain L p (as @ bs)" and x: "x \<notin> set (as @ bs)" "x \<noteq> NULL"
    and Lx: "L' x = Some (if bs = [] then NULL else hd bs, if as = [] then NULL else last as)"
    and La: "as \<noteq> [] \<Longrightarrow> L' (last as) = Some (x, snd (the (L (last as))))"
    and Lb: "bs \<noteq> [] \<Longrightarrow> L' (hd bs) = Some (fst (the (L (hd bs))), x)"
    and rest: "\<And>a. a \<in> set (as @ bs) \<Longrightarrow> a \<noteq> last as \<or> as = [] \<Longrightarrow> a \<noteq> hd bs \<or> bs = [] \<Longrightarrow>
      L' a = L a"
  shows "dchain L' (if as = [] then x else p) (as @ x # bs)"
proof -
  from ch obtain pv' m r where m: "dseg L NULL p as m r" and r: "dseg L m r bs pv' NULL"
    and dist: "distinct (as @ bs)"
    unfolding dchain_def dseg_append by blast
  have mlast: "m = (if as = [] then NULL else last as)" by (rule dseg_last [OF m])
  have rhd: "r = (if bs = [] then NULL else hd bs)" by (rule dseg_first [OF r])
  have disj: "as \<noteq> [] \<Longrightarrow> bs \<noteq> [] \<Longrightarrow> last as \<noteq> hd bs"
    using dist by (cases bs) auto
  have A: "dseg L' NULL (if as = [] then x else p) as m x"
  proof (cases "as = []")
    case True
    with m show ?thesis by simp
  next
    case False
    have "dseg L' NULL p as m x"
    proof (rule dseg_last_upd [OF m False])
      show "distinct as" using dist by simp
      show "L' m = Some (x, snd (the (L m)))" using La False mlast by simp
      fix a assume a: "a \<in> set as" "a \<noteq> m"
      then have "a \<noteq> hd bs \<or> bs = []" using dist by (cases bs) auto
      with a mlast False show "L' a = L a" by (intro rest) auto
    qed
    with False show ?thesis by simp
  qed
  have B: "dseg L' x r bs (if bs = [] then x else pv') NULL"
  proof (cases "bs = []")
    case True
    with r show ?thesis by simp
  next
    case False
    have "dseg L' x r bs pv' NULL"
    proof (rule dseg_first_upd [OF r False])
      show "distinct bs" using dist by simp
      show "L' r = Some (fst (the (L r)), x)" using Lb False rhd by simp
      fix a assume a: "a \<in> set bs" "a \<noteq> r"
      then have "a \<noteq> last as \<or> as = []" using dist last_in_set [of as]
        by (cases "as = []") (auto simp: disjoint_iff)
      with a rhd False show "L' a = L a" by (intro rest) auto
    qed
    with False show ?thesis by simp
  qed
  have "dseg L' m x (x # bs) (if bs = [] then x else pv') NULL"
    using B x Lx mlast rhd by auto
  with A have "dseg L' NULL (if as = [] then x else p) (as @ x # bs) (if bs = [] then x else pv') NULL"
    unfolding dseg_append by blast
  with dist x show ?thesis unfolding dchain_def by auto
qed

text \<open>Taking a cell out: its two neighbours are linked to each other.\<close>

lemma dchain_remove:
  assumes ch: "dchain L p (as @ x # bs)"
    and La: "as \<noteq> [] \<Longrightarrow> L' (last as) =
      Some (if bs = [] then NULL else hd bs, snd (the (L (last as))))"
    and Lb: "bs \<noteq> [] \<Longrightarrow> L' (hd bs) =
      Some (fst (the (L (hd bs))), if as = [] then NULL else last as)"
    and rest: "\<And>a. a \<in> set (as @ bs) \<Longrightarrow> a \<noteq> last as \<or> as = [] \<Longrightarrow> a \<noteq> hd bs \<or> bs = [] \<Longrightarrow>
      L' a = L a"
  shows "dchain L' (if as = [] then (if bs = [] then NULL else hd bs) else p) (as @ bs)"
proof -
  from ch obtain pv' m r where m: "dseg L NULL p as m x"
    and r: "dseg L x r bs pv' NULL" and dist: "distinct (as @ x # bs)"
    unfolding dchain_def dseg_append by auto
  have mlast: "m = (if as = [] then NULL else last as)" by (rule dseg_last [OF m])
  have rhd: "r = (if bs = [] then NULL else hd bs)" by (rule dseg_first [OF r])
  have A: "dseg L' NULL (if as = [] then r else p) as m r"
  proof (cases "as = []")
    case True
    with m show ?thesis by simp
  next
    case False
    have "dseg L' NULL p as m r"
    proof (rule dseg_last_upd [OF m False])
      show "distinct as" using dist by simp
      show "L' m = Some (r, snd (the (L m)))" using La False mlast rhd by simp
      fix a assume a: "a \<in> set as" "a \<noteq> m"
      then have "a \<noteq> hd bs \<or> bs = []" using dist by (cases bs) auto
      with a mlast False show "L' a = L a" by (intro rest) auto
    qed
    with False show ?thesis by simp
  qed
  have B: "dseg L' m r bs (if bs = [] then m else pv') NULL"
  proof (cases "bs = []")
    case True
    with r show ?thesis by simp
  next
    case False
    have "dseg L' m r bs pv' NULL"
    proof (rule dseg_first_upd [OF r False])
      show "distinct bs" using dist by simp
      show "L' r = Some (fst (the (L r)), m)" using Lb False mlast rhd by simp
      fix a assume a: "a \<in> set bs" "a \<noteq> r"
      then have "a \<noteq> last as \<or> as = []" using dist last_in_set [of as]
        by (cases "as = []") (auto simp: disjoint_iff)
      with a rhd False show "L' a = L a" by (intro rest) auto
    qed
    with False show ?thesis by simp
  qed
  from A B have "dseg L' NULL (if as = [] then r else p) (as @ bs) (if bs = [] then m else pv') NULL"
    unfolding dseg_append by blast
  with dist rhd show ?thesis unfolding dchain_def by auto
qed

end
