(* ===== verification/Linked_List.thy ===== *)
theory Linked_List
  imports Dlink
begin

text \<open>
  The doubly linked list of \<open>p3-concurrent-channels/linked_list.c\<close>, on an explicit heap of
  nodes: \<open>nodes p\<close> is the node at address \<open>p\<close>, \<open>None\<close> when no node lives there. A loop over
  the list is a partial function into \<open>option\<close>, so that following a dangling pointer and
  running forever are both \<open>None\<close>.
\<close>

section \<open>State and operations\<close>

record list_node_t =
  node_next :: u64
  node_prev :: u64
  node_data :: u64

record list_t =
  list_head :: u64
  list_cnt :: u64

type_synonym node_heap = "u64 \<rightharpoonup> list_node_t"

text \<open>\<open>ok\<close>: the \<open>malloc\<close> of the list structure succeeds.\<close>

definition list_create :: "bool \<Rightarrow> list_t option" where
  "list_create ok = (if ok then Some \<lparr>list_head = NULL, list_cnt = 0\<rparr> else None)"

partial_function (option) free_nodes :: "u64 \<Rightarrow> node_heap \<Rightarrow> node_heap option" where
  "free_nodes current h =
     (if current = NULL then Some h
      else case h current of None \<Rightarrow> None
        | Some n \<Rightarrow> free_nodes (node_next n) (h(current := None)))"

text \<open>Frees every node, then the list structure itself, which the caller drops.\<close>

definition list_destroy :: "list_t \<Rightarrow> node_heap \<Rightarrow> node_heap option" where
  "list_destroy l h = free_nodes (list_head l) h"

definition list_begin :: "list_t \<Rightarrow> u64" where
  "list_begin l = list_head l"

definition list_next :: "node_heap \<Rightarrow> u64 \<Rightarrow> u64 option" where
  "list_next h node = (if node \<noteq> NULL then map_option node_next (h node) else Some NULL)"

definition list_data :: "node_heap \<Rightarrow> u64 \<Rightarrow> u64 option" where
  "list_data h node = (if node \<noteq> NULL then map_option node_data (h node) else Some NULL)"

definition list_count :: "list_t \<Rightarrow> u64" where
  "list_count l = list_cnt l"

partial_function (option) find_from :: "node_heap \<Rightarrow> u64 \<Rightarrow> u64 \<Rightarrow> u64 option" where
  "find_from h d current =
     (if current = NULL then Some NULL
      else case h current of None \<Rightarrow> None
        | Some n \<Rightarrow> if node_data n = d then Some current else find_from h d (node_next n))"

definition list_find :: "list_t option \<Rightarrow> node_heap \<Rightarrow> u64 \<Rightarrow> u64 option" where
  "list_find l h d = (case l of None \<Rightarrow> Some NULL | Some l \<Rightarrow> find_from h d (list_head l))"

text \<open>\<open>p\<close> is the address \<open>malloc\<close> returns for the new node, \<open>NULL\<close> when it fails.\<close>

definition list_insert :: "u64 \<Rightarrow> u64 \<Rightarrow> list_t option \<Rightarrow> node_heap \<Rightarrow>
    (list_t option \<times> node_heap) option" where
  "list_insert p d l h =
     (case l of None \<Rightarrow> Some (None, h)
      | Some l \<Rightarrow>
        if p = NULL then Some (Some l, h)
        else do {
          let h1 = h(p \<mapsto> \<lparr>node_next = list_head l, node_prev = NULL, node_data = d\<rparr>);
          h2 \<leftarrow> (if list_head l \<noteq> NULL
                then case h1 (list_head l) of None \<Rightarrow> None
                  | Some n \<Rightarrow> Some (h1(list_head l \<mapsto> n\<lparr>node_prev := p\<rparr>))
                else Some h1);
          Some (Some (l\<lparr>list_head := p, list_cnt := list_cnt l + 1\<rparr>), h2)
        })"

definition list_remove :: "u64 \<Rightarrow> list_t option \<Rightarrow> node_heap \<Rightarrow>
    (list_t option \<times> node_heap) option" where
  "list_remove node l h =
     (case l of None \<Rightarrow> Some (None, h)
      | Some l \<Rightarrow>
        if node = NULL then Some (Some l, h)
        else do {
          n \<leftarrow> h node;
          (l1, h1) \<leftarrow> (if node_prev n \<noteq> NULL
             then case h (node_prev n) of None \<Rightarrow> None
               | Some q \<Rightarrow> Some (l, h(node_prev n \<mapsto> q\<lparr>node_next := node_next n\<rparr>))
             else Some (l\<lparr>list_head := node_next n\<rparr>, h));
          n1 \<leftarrow> h1 node;
          h2 \<leftarrow> (if node_next n1 \<noteq> NULL
             then case h1 (node_next n1) of None \<Rightarrow> None
               | Some q \<Rightarrow> Some (h1(node_next n1 \<mapsto> q\<lparr>node_prev := node_prev n1\<rparr>))
             else Some h1);
          Some (Some (l1\<lparr>list_cnt := list_cnt l1 - 1\<rparr>), h2(node := None))
        })"

text \<open>
  \<open>list_foreach\<close> posts the semaphore each node's data points to. A semaphore that does not
  exist is undefined; one at \<open>SEM_VALUE_MAX\<close> is left as it is (\<open>sem_post\<close> then fails, and
  the result is ignored).
\<close>

type_synonym sem_heap = "u64 \<rightharpoonup> nat"

definition SEM_VALUE_MAX :: nat where
  "SEM_VALUE_MAX = 2147483647"

definition sem_inc :: "nat \<Rightarrow> nat" where
  "sem_inc v = (if v < SEM_VALUE_MAX then v + 1 else v)"

definition sem_post_at :: "u64 \<Rightarrow> sem_heap \<Rightarrow> sem_heap option" where
  "sem_post_at a s = (case s a of None \<Rightarrow> None | Some v \<Rightarrow> Some (s(a \<mapsto> sem_inc v)))"

partial_function (option) foreach_from :: "node_heap \<Rightarrow> u64 \<Rightarrow> sem_heap \<Rightarrow> sem_heap option" where
  "foreach_from h cur s =
     (if cur = NULL then Some s
      else case h cur of None \<Rightarrow> None
        | Some n \<Rightarrow> (case sem_post_at (node_data n) s of None \<Rightarrow> None
            | Some s' \<Rightarrow> foreach_from h (node_next n) s'))"

definition list_foreach :: "list_t \<Rightarrow> node_heap \<Rightarrow> sem_heap \<Rightarrow> sem_heap option" where
  "list_foreach l h s = foreach_from h (list_head l) s"

section \<open>The list a heap represents\<close>

text \<open>
  \<open>list_rep h l xs\<close>: the structure \<open>l\<close> owns the nodes of \<open>xs\<close>, a list of addresses with
  their data, linked in this order in both directions, and counts them.
\<close>

definition node_links :: "node_heap \<Rightarrow> links" where
  "node_links h a = map_option (\<lambda>n. (node_next n, node_prev n)) (h a)"

lemma node_links_Some:
  "node_links h a = Some l \<longleftrightarrow> (\<exists>n. h a = Some n \<and> l = (node_next n, node_prev n))"
  by (auto simp: node_links_def)

lemma node_links_cong: "h' a = h a \<Longrightarrow> node_links h' a = node_links h a"
  by (simp add: node_links_def)

definition list_rep :: "node_heap \<Rightarrow> list_t \<Rightarrow> (u64 \<times> u64) list \<Rightarrow> bool" where
  "list_rep h l xs \<longleftrightarrow> dchain (node_links h) (list_head l) (map fst xs) \<and>
     (\<forall>x \<in> set xs. map_option node_data (h (fst x)) = Some (snd x)) \<and>
     list_cnt l = of_nat (length xs)"

definition addr_of :: "u64 \<Rightarrow> (u64 \<times> u64) list \<Rightarrow> u64" where
  "addr_of d xs = (case find (\<lambda>x. snd x = d) xs of None \<Rightarrow> NULL | Some x \<Rightarrow> fst x)"

lemma addr_of_simps [simp]:
  "addr_of d [] = NULL" "addr_of d (x # xs) = (if snd x = d then fst x else addr_of d xs)"
  by (simp_all add: addr_of_def)

lemma addr_of_split:
  "d \<in> snd ` set xs \<Longrightarrow> \<exists>ys zs. xs = ys @ (addr_of d xs, d) # zs \<and> d \<notin> snd ` set ys"
proof (induction xs)
  case (Cons x xs)
  show ?case
  proof (cases "snd x = d")
    case True
    then have "x # xs = [] @ (addr_of d (x # xs), d) # xs" by (cases x) simp
    then show ?thesis by force
  next
    case False
    with Cons obtain ys zs where *: "xs = ys @ (addr_of d xs, d) # zs" "d \<notin> snd ` set ys" by auto
    from False have "addr_of d (x # xs) = addr_of d xs" by simp
    with *(1) have "x # xs = (x # ys) @ (addr_of d (x # xs), d) # zs" by simp
    moreover have "d \<notin> snd ` set (x # ys)" using * False by auto
    ultimately show ?thesis by blast
  qed
qed simp

lemma addr_of_NULL: "d \<notin> snd ` set xs \<Longrightarrow> addr_of d xs = NULL"
  by (induction xs) auto

lemma list_create_rep: "\<exists>l. list_create True = Some l \<and> list_rep h l []"
  by (simp add: list_create_def list_rep_def dchain_def)

text \<open>A node heap that agrees on the nodes of a list represents the same list.\<close>

lemma list_rep_cong:
  assumes "list_rep h l xs" "\<And>a. a \<in> fst ` set xs \<Longrightarrow> h' a = h a"
  shows "list_rep h' l xs"
proof -
  have "dchain (node_links h') (list_head l) (map fst xs)"
  proof (rule dchain_cong)
    show "dchain (node_links h) (list_head l) (map fst xs)" using assms(1) by (simp add: list_rep_def)
    fix a assume "a \<in> set (map fst xs)"
    with assms(2) show "node_links h' a = node_links h a" by (intro node_links_cong) simp
  qed
  moreover have "\<forall>x \<in> set xs. map_option node_data (h' (fst x)) = Some (snd x)"
    using assms by (simp add: list_rep_def)
  ultimately show ?thesis using assms(1) by (simp add: list_rep_def)
qed

lemma list_rep_alloc: "list_rep h l xs \<Longrightarrow> a \<in> fst ` set xs \<Longrightarrow> h a \<noteq> None"
  by (force simp: list_rep_def)

lemma list_rep_node:
  assumes "list_rep h l (ys @ (a, d) # zs)"
  shows "h a = Some \<lparr>node_next = if zs = [] then NULL else fst (hd zs),
    node_prev = if ys = [] then NULL else fst (last ys), node_data = d\<rparr>"
proof -
  from assms have ch: "dchain (node_links h) (list_head l) (map fst ys @ a # map fst zs)"
    and d: "map_option node_data (h a) = Some d"
    by (simp_all add: list_rep_def)
  from dchain_cell [OF ch] d show ?thesis
    by (cases "h a") (auto simp: node_links_def last_map hd_map)
qed

section \<open>Searching and walking\<close>

lemma find_from_seg:
  "dseg (node_links h) pv p (map fst xs) m NULL \<Longrightarrow>
   \<forall>x \<in> set xs. map_option node_data (h (fst x)) = Some (snd x) \<Longrightarrow>
   find_from h d p = Some (addr_of d xs)"
proof (induction xs arbitrary: pv p)
  case Nil
  then show ?case by (simp add: find_from.simps)
next
  case (Cons x xs)
  then obtain r n where r: "h p = Some n" "node_next n = r" "p = fst x" "p \<noteq> NULL" "node_data n = snd x"
    "dseg (node_links h) (fst x) r (map fst xs) m NULL"
    by (cases x) (auto simp: node_links_Some)
  from Cons.IH [OF r(6)] Cons.prems have "find_from h d r = Some (addr_of d xs)" by simp
  with r show ?case by (subst find_from.simps) simp
qed

lemma list_find_rep: "list_rep h l xs \<Longrightarrow> list_find (Some l) h d = Some (addr_of d xs)"
  unfolding list_find_def list_rep_def dchain_def by (auto intro: find_from_seg)

lemma list_find_found:
  assumes "list_rep h l xs" "d \<in> snd ` set xs"
  shows "\<exists>ys a zs. xs = ys @ (a, d) # zs \<and> d \<notin> snd ` set ys \<and> list_find (Some l) h d = Some a \<and>
    a \<noteq> NULL"
proof -
  from addr_of_split [OF assms(2)] obtain ys zs where xs: "xs = ys @ (addr_of d xs, d) # zs"
    "d \<notin> snd ` set ys" by blast
  then have "(addr_of d xs, d) \<in> set xs" by (metis in_set_conv_decomp)
  then have "addr_of d xs \<in> set (map fst xs)" by force
  moreover from assms(1) have "NULL \<notin> set (map fst xs)"
    unfolding list_rep_def using dchain_not_NULL by blast
  ultimately have "addr_of d xs \<noteq> NULL" by metis
  with xs list_find_rep [OF assms(1)] show ?thesis by blast
qed

lemma free_nodes_seg:
  "dseg (node_links h) pv p as m NULL \<Longrightarrow> distinct as \<Longrightarrow>
   free_nodes p h = Some (\<lambda>a. if a \<in> set as then None else h a)"
proof (induction as arbitrary: h pv p)
  case Nil
  then show ?case by (simp add: free_nodes.simps)
next
  case (Cons a as)
  then obtain n where n: "h a = Some n" "p = a" "a \<noteq> NULL"
    "dseg (node_links h) a (node_next n) as m NULL" by (auto simp: node_links_Some)
  have "dseg (node_links (h(a := None))) a (node_next n) as m NULL"
    by (subst dseg_cong [where L = "node_links h"])
      (use n Cons.prems in \<open>auto intro: node_links_cong\<close>)
  with Cons.IH Cons.prems
  have "free_nodes (node_next n) (h(a := None)) = Some (\<lambda>b. if b \<in> set as then None else (h(a := None)) b)"
    by simp
  with n show ?case by (subst free_nodes.simps) (auto simp: fun_eq_iff)
qed

text \<open>\<open>list_destroy\<close> frees the nodes of the list, each once, and no other.\<close>

lemma list_destroy_rep:
  "list_rep h l xs \<Longrightarrow> list_destroy l h = Some (\<lambda>a. if a \<in> fst ` set xs then None else h a)"
  unfolding list_destroy_def list_rep_def dchain_def by (auto dest: free_nodes_seg)

fun post_all :: "u64 list \<Rightarrow> sem_heap \<Rightarrow> sem_heap option" where
  "post_all [] s = Some s"
| "post_all (d # ds) s = do { s' \<leftarrow> sem_post_at d s; post_all ds s' }"

lemma foreach_from_seg:
  "dseg (node_links h) pv p (map fst xs) m NULL \<Longrightarrow>
   \<forall>x \<in> set xs. map_option node_data (h (fst x)) = Some (snd x) \<Longrightarrow>
   foreach_from h p s = post_all (map snd xs) s"
proof (induction xs arbitrary: pv p s)
  case Nil
  then show ?case by (simp add: foreach_from.simps)
next
  case (Cons x xs)
  then obtain r n where r: "h p = Some n" "node_next n = r" "p = fst x" "p \<noteq> NULL" "node_data n = snd x"
    "dseg (node_links h) (fst x) r (map fst xs) m NULL"
    by (cases x) (auto simp: node_links_Some)
  from Cons.IH [OF r(6)] Cons.prems
  have "\<And>s'. foreach_from h r s' = post_all (map snd xs) s'" by simp
  with r show ?case by (subst foreach_from.simps) (simp split: option.splits)
qed

text \<open>\<open>list_foreach\<close> posts the semaphores of the list in list order.\<close>

lemma list_foreach_rep: "list_rep h l xs \<Longrightarrow> list_foreach l h s = post_all (map snd xs) s"
  unfolding list_foreach_def list_rep_def dchain_def by (auto intro: foreach_from_seg)

section \<open>Inserting and removing\<close>

lemma list_rep_head: "list_rep h l xs \<Longrightarrow> list_head l = (if xs = [] then NULL else fst (hd xs))"
  unfolding list_rep_def by (auto dest!: dchain_head simp: hd_map)

lemma list_insert_rep:
  assumes rep: "list_rep h l xs" and p: "p \<noteq> NULL" "h p = None"
  shows "\<exists>l' h'. list_insert p d (Some l) h = Some (Some l', h') \<and> list_rep h' l' ((p, d) # xs) \<and>
    (\<forall>a. a \<notin> insert p (fst ` set xs) \<longrightarrow> h' a = h a)"
proof -
  let ?h1 = "h(p \<mapsto> \<lparr>node_next = list_head l, node_prev = NULL, node_data = d\<rparr>)"
  let ?l = "l\<lparr>list_head := p, list_cnt := list_cnt l + 1\<rparr>"
  from rep have ch: "dchain (node_links h) (list_head l) ([] @ map fst xs)"
    and data: "\<forall>x \<in> set xs. map_option node_data (h (fst x)) = Some (snd x)"
    and cnt: "list_cnt l = of_nat (length xs)" by (simp_all add: list_rep_def)
  have fresh: "p \<notin> fst ` set xs" using list_rep_alloc [OF rep] p by blast
  show ?thesis
  proof (cases xs)
    case Nil
    with ch p cnt have "list_insert p d (Some l) h = Some (Some ?l, ?h1)" "list_head l = NULL"
      by (auto simp: list_insert_def dchain_def)
    moreover have "list_rep ?h1 ?l [(p, d)]"
      using Nil p calculation cnt by (auto simp: list_rep_def dchain_def node_links_def)
    ultimately show ?thesis using Nil by (intro exI [of _ ?l] exI [of _ ?h1]) auto
  next
    case (Cons x ys)
    obtain a e where x: "x = (a, e)" by force
    from list_rep_node [of h l "[]" a e ys] rep Cons x obtain n where n: "h a = Some n"
      "node_data n = e" by auto
    from list_rep_head [OF rep] Cons x have hd: "list_head l = a" by simp
    from ch Cons x hd have a: "a \<noteq> NULL" by (auto simp: dchain_def)
    from fresh Cons x have "a \<noteq> p" by auto
    let ?h2 = "?h1(a \<mapsto> n\<lparr>node_prev := p\<rparr>)"
    have ins: "list_insert p d (Some l) h = Some (Some ?l, ?h2)"
      using p hd a n \<open>a \<noteq> p\<close> by (simp add: list_insert_def)
    have "dchain (node_links ?h2) (if ([] :: u64 list) = [] then p else list_head l) ([] @ p # map fst xs)"
    proof (rule dchain_insert [OF ch])
      show "p \<notin> set ([] @ map fst xs)" using fresh by simp
      show "node_links ?h2 p = Some (if map fst xs = [] then NULL else hd (map fst xs),
          if ([] :: u64 list) = [] then NULL else last [])"
        using hd Cons x \<open>a \<noteq> p\<close> by (simp add: node_links_def)
      show "node_links ?h2 (hd (map fst xs)) = Some (fst (the (node_links h (hd (map fst xs)))), p)"
        using Cons x n by (simp add: node_links_def)
    qed (use p Cons x fresh in \<open>auto simp: node_links_def\<close>)
    moreover have "\<forall>y \<in> set ((p, d) # xs). map_option node_data (?h2 (fst y)) = Some (snd y)"
      using data n fresh \<open>a \<noteq> p\<close> Cons x by (auto simp: image_iff)
    ultimately have "list_rep ?h2 ?l ((p, d) # xs)"
      using cnt by (simp add: list_rep_def)
    with ins Cons x show ?thesis by (intro exI [of _ ?l] exI [of _ ?h2]) auto
  qed
qed

lemma list_remove_rep:
  assumes rep: "list_rep h l (ys @ (a, d) # zs)"
  shows "\<exists>l' h'. list_remove a (Some l) h = Some (Some l', h') \<and> list_rep h' l' (ys @ zs) \<and>
    h' a = None \<and> (\<forall>b. b \<notin> fst ` set (ys @ (a, d) # zs) \<longrightarrow> h' b = h b)"
proof -
  let ?as = "map fst ys" and ?bs = "map fst zs"
  let ?nx = "if ?bs = [] then NULL else hd ?bs" and ?pv = "if ?as = [] then NULL else last ?as"
  from rep have ch: "dchain (node_links h) (list_head l) (?as @ a # ?bs)"
    and data: "\<forall>x \<in> set (ys @ (a, d) # zs). map_option node_data (h (fst x)) = Some (snd x)"
    and cnt: "list_cnt l = of_nat (length (ys @ (a, d) # zs))" by (simp_all add: list_rep_def)
  have n: "h a = Some \<lparr>node_next = ?nx, node_prev = ?pv, node_data = d\<rparr>"
    using list_rep_node [OF rep] by (simp add: last_map hd_map)
  have notnull: "NULL \<notin> set (?as @ a # ?bs)" by (rule dchain_not_NULL [OF ch])
  have dist: "distinct (?as @ a # ?bs)" by (rule dchain_distinct [OF ch])
  have pv0: "?pv \<noteq> NULL \<longleftrightarrow> ?as \<noteq> []" using notnull last_in_set [of ?as] by fastforce
  have nx0: "?nx \<noteq> NULL \<longleftrightarrow> ?bs \<noteq> []" using notnull list.set_sel(1) [of ?bs] by fastforce
  have alloc: "\<exists>n. h b = Some n" if "b \<in> set (?as @ a # ?bs)" for b
    using list_rep_alloc [OF rep, of b] that by auto
  define h1 where "h1 = (if ?as = [] then h
    else h(?pv \<mapsto> (the (h ?pv))\<lparr>node_next := ?nx\<rparr>))"
  define h2 where "h2 = (if ?bs = [] then h1
    else h1(?nx \<mapsto> (the (h1 ?nx))\<lparr>node_prev := ?pv\<rparr>))"
  define l1 where "l1 = (if ?as = [] then l\<lparr>list_head := ?nx\<rparr> else l)"
  let ?l = "l1\<lparr>list_cnt := list_cnt l1 - 1\<rparr>"
  have pv_mem: "?as \<noteq> [] \<Longrightarrow> last ?as \<in> set ?as" and nx_mem: "?bs \<noteq> [] \<Longrightarrow> hd ?bs \<in> set ?bs"
    using last_in_set [of ?as] list.set_sel(1) [of ?bs] by blast+
  have neq: "?as \<noteq> [] \<Longrightarrow> last ?as \<noteq> a" "?bs \<noteq> [] \<Longrightarrow> hd ?bs \<noteq> a"
    "?as \<noteq> [] \<Longrightarrow> ?bs \<noteq> [] \<Longrightarrow> last ?as \<noteq> hd ?bs"
    using distinct_neighbours [OF dist] by blast+
  have h1a: "h1 a = h a" using neq by (auto simp: h1_def)
  have h1nx: "?bs \<noteq> [] \<Longrightarrow> h1 ?nx = h ?nx" using neq by (auto simp: h1_def)
  have rem: "list_remove a (Some l) h = Some (Some ?l, h2(a := None))"
  proof -
    from n obtain nd where nd: "h a = Some nd" "node_prev nd = ?pv" "node_next nd = ?nx" by simp
    have s1: "(if node_prev nd \<noteq> NULL
        then case h (node_prev nd) of None \<Rightarrow> None
          | Some q \<Rightarrow> Some (l, h(node_prev nd \<mapsto> q\<lparr>node_next := node_next nd\<rparr>))
        else Some (l\<lparr>list_head := node_next nd\<rparr>, h)) = Some (l1, h1)"
      unfolding nd(2,3) using pv0 alloc [of "last ?as"] pv_mem by (auto simp: l1_def h1_def)
    have s2: "(if node_next nd \<noteq> NULL
        then case h1 (node_next nd) of None \<Rightarrow> None
          | Some q \<Rightarrow> Some (h1(node_next nd \<mapsto> q\<lparr>node_prev := node_prev nd\<rparr>))
        else Some h1) = Some h2"
      unfolding nd(2,3) using nx0 alloc [of "hd ?bs"] nx_mem h1nx by (auto simp: h2_def)
    have "a \<noteq> NULL" using notnull by auto
    with nd(1) h1a show ?thesis
      by (simp only: list_remove_def option.case Option.bind_lunit prod.case s1 s2 if_False)
  qed
  have L2: "h2 b = h b" if "?as = [] \<or> b \<noteq> last ?as" "?bs = [] \<or> b \<noteq> hd ?bs" for b
    using that by (cases "?as = []"; cases "?bs = []") (simp_all add: h2_def h1_def)
  have Lpv: "?as \<noteq> [] \<Longrightarrow> h2 (last ?as) = Some ((the (h (last ?as)))\<lparr>node_next := ?nx\<rparr>)"
    using neq by (auto simp: h2_def h1_def)
  have Lnx: "?bs \<noteq> [] \<Longrightarrow> h2 (hd ?bs) = Some ((the (h (hd ?bs)))\<lparr>node_prev := ?pv\<rparr>)"
    using neq h1nx by (auto simp: h2_def)
  have "dchain (node_links (h2(a := None)))
      (if ?as = [] then (if ?bs = [] then NULL else hd ?bs) else list_head l) (?as @ ?bs)"
  proof (rule dchain_remove [OF ch])
    show "?as \<noteq> [] \<Longrightarrow> node_links (h2(a := None)) (last ?as) =
        Some (?nx, snd (the (node_links h (last ?as))))"
      using Lpv neq alloc [of "last ?as"] pv_mem by (auto simp: node_links_def)
    show "?bs \<noteq> [] \<Longrightarrow> node_links (h2(a := None)) (hd ?bs) =
        Some (fst (the (node_links h (hd ?bs))), ?pv)"
      using Lnx neq alloc [of "hd ?bs"] nx_mem by (auto simp: node_links_def)
    fix b assume b: "b \<in> set (?as @ ?bs)" "b \<noteq> last ?as \<or> ?as = []" "b \<noteq> hd ?bs \<or> ?bs = []"
    from b(1) dist have "b \<noteq> a" by (metis disjoint_insert(1) distinct.simps(2) distinct_append
          list.simps(15) set_append Un_iff)
    then show "node_links (h2(a := None)) b = node_links h b"
      using b(2,3) L2 [of b] by (intro node_links_cong) auto
  qed
  moreover have "map_option node_data ((h2(a := None)) (fst x)) = Some (snd x)"
    if x: "x \<in> set (ys @ zs)" for x
  proof -
    from x dist have "fst x \<noteq> a" by auto
    from x data have d: "map_option node_data (h (fst x)) = Some (snd x)" by auto
    show ?thesis
      using \<open>fst x \<noteq> a\<close> d L2 [of "fst x"] Lpv Lnx
      by (cases "?as \<noteq> [] \<and> fst x = last ?as"; cases "?bs \<noteq> [] \<and> fst x = hd ?bs") auto
  qed
  ultimately have rep': "list_rep (h2(a := None)) ?l (ys @ zs)"
    using cnt by (auto simp: list_rep_def l1_def)
  have frame: "(h2(a := None)) b = h b" if "b \<notin> fst ` set (ys @ (a, d) # zs)" for b
    using that pv_mem nx_mem L2 [of b] by (auto simp: image_Un)
  show ?thesis
    using rem rep' frame by (intro exI [of _ ?l] exI [of _ "h2(a := None)"]) simp
qed

end
