(* ===== verification/Channel.thy ===== *)
theory Channel
  imports Chan_Buffer Linked_List
begin

text \<open>
  The channels of \<open>p3-concurrent-channels/channel.c\<close>, one call at a time: what each
  function does when no other thread interferes. A call either returns, or blocks in a
  \<open>sem_wait\<close> or a lock that nobody will release, or is undefined (\<open>None\<close>). The
  interleavings of several calls are the subject of the theory \<open>Channel_Wakeup\<close>.
\<close>

section \<open>State\<close>

datatype chan_status = SUCCESS | WOULDBLOCK | OTHER_ERROR | CLOSED_ERROR | DESTROY_ERROR

text \<open>
  \<open>chan_t\<close>: the buffer and the two lists are owned by the channel (\<open>None\<close> is the NULL
  pointer), semaphores are their values, a lock is whether it is held.
\<close>

record chan_t =
  ch_buffer :: "buffer_t option"
  recv_list :: "list_t option"
  send_list :: "list_t option"
  closed :: bool
  mutex :: nat
  available :: nat
  used :: nat
  recv_lock :: bool
  send_lock :: bool

text \<open>What a call on one channel sees: the channel, the heap of list nodes, and the semaphores
  of the threads that wait in \<open>channel_select\<close>.\<close>

record chan_env =
  chan :: chan_t
  env_nodes :: node_heap
  env_sems :: sem_heap

record world =
  chans :: "u64 \<rightharpoonup> chan_t"
  nodes :: node_heap
  sems :: sem_heap

datatype reply = Returns chan_status | Blocks

section \<open>\<open>channel_create\<close>\<close>

text \<open>
  \<open>sem_init\<close> with a value above \<open>SEM_VALUE_MAX\<close> fails and leaves the semaphore as \<open>malloc\<close>
  returned it (\<open>garbage\<close>); the result is not checked. The value itself is the size cut to
  32 bits.
\<close>

definition sem_init :: "nat \<Rightarrow> nat \<Rightarrow> nat" where
  "sem_init garbage v = (if v \<le> SEM_VALUE_MAX then v else garbage)"

text \<open>\<open>p\<close>: the address \<open>malloc\<close> returns for the channel; the flags say whether the other
  allocations succeed.\<close>

definition channel_create :: "u64 \<Rightarrow> bool \<Rightarrow> bool \<Rightarrow> bool \<Rightarrow> bool \<Rightarrow> (nat \<Rightarrow> u64) \<Rightarrow> nat \<Rightarrow> u64 \<Rightarrow>
    world \<Rightarrow> (u64 \<times> world) option" where
  "channel_create p ok_struct ok_data ok_recv ok_send fresh garbage sz w =
     (if p = NULL then Some (NULL, w)
      else if sz > 0 then do {
        b \<leftarrow> buffer_create ok_struct ok_data fresh sz;
        Some (p, w\<lparr>chans := (chans w)(p \<mapsto>
          \<lparr>ch_buffer = Some b, recv_list = list_create ok_recv, send_list = list_create ok_send,
           closed = False, mutex = sem_init garbage 1,
           available = sem_init garbage (unat (ucast sz :: u32)), used = sem_init garbage 0,
           recv_lock = False, send_lock = False\<rparr>)\<rparr>)
      }
      else Some (NULL, w))"

section \<open>\<open>channel_send\<close>, \<open>channel_receive\<close> and \<open>channel_close\<close>\<close>

text \<open>The block that wakes up the threads waiting in \<open>channel_select\<close>: walk the list if it is
  not empty. The callers hold the lock of the list.\<close>

definition notify_list :: "list_t option \<Rightarrow> chan_env \<Rightarrow> chan_env option" where
  "notify_list lst e = do {
     l \<leftarrow> lst;
     if list_count l > 0 then do {
       s \<leftarrow> list_foreach l (env_nodes e) (env_sems e);
       Some (e\<lparr>env_sems := s\<rparr>)
     } else Some e
   }"

definition notify_send_list :: "chan_env \<Rightarrow> (bool \<times> chan_env) option" where
  "notify_send_list e =
     (if send_lock (chan e) then Some (False, e)
      else do { e' \<leftarrow> notify_list (send_list (chan e)) e; Some (True, e') })"

definition notify_recv_list :: "chan_env \<Rightarrow> (bool \<times> chan_env) option" where
  "notify_recv_list e =
     (if recv_lock (chan e) then Some (False, e)
      else do { e' \<leftarrow> notify_list (recv_list (chan e)) e; Some (True, e') })"

abbreviation on_chan :: "(chan_t \<Rightarrow> chan_t) \<Rightarrow> chan_env \<Rightarrow> chan_env" where
  "on_chan f e \<equiv> e\<lparr>chan := f (chan e)\<rparr>"

text \<open>The decrement of a successful \<open>sem_wait\<close>, and \<open>sem_post\<close>, on the channel's semaphores.\<close>

definition wait_mutex where "wait_mutex = on_chan (mutex_update (\<lambda>v. v - 1))"
definition post_mutex where "post_mutex = on_chan (mutex_update sem_inc)"
definition wait_available where "wait_available = on_chan (available_update (\<lambda>v. v - 1))"
definition post_available where "post_available = on_chan (available_update sem_inc)"
definition wait_used where "wait_used = on_chan (used_update (\<lambda>v. v - 1))"
definition post_used where "post_used = on_chan (used_update sem_inc)"

definition send_on :: "u64 \<Rightarrow> bool \<Rightarrow> chan_env \<Rightarrow> (reply \<times> chan_env) option" where
  "send_on d blocking e =
     (if available (chan e) = 0 then
        if blocking then Some (Blocks, e)
        else if mutex (chan e) = 0 then Some (Blocks, e)
        else let e1 = wait_mutex e in
          if closed (chan e1) then Some (Returns CLOSED_ERROR, post_mutex e1)
          else Some (Returns WOULDBLOCK, post_mutex e1)
      else let e1 = wait_available e in
        if mutex (chan e1) = 0 then Some (Blocks, e1)
        else let e2 = wait_mutex e1 in
          if closed (chan e2) then Some (Returns CLOSED_ERROR, post_available (post_mutex e2))
          else do {
            b \<leftarrow> ch_buffer (chan e2);
            (added, b') \<leftarrow> buffer_add d b;
            let e3 = on_chan (ch_buffer_update (\<lambda>_. Some b')) e2;
            if \<not> added then Some (Returns OTHER_ERROR, post_mutex e3)
            else do {
              let e4 = post_used (post_mutex e3);
              (locked, e5) \<leftarrow> notify_send_list e4;
              Some (if locked then Returns SUCCESS else Blocks, e5)
            }
          })"

text \<open>The result is the status, and what is stored in \<open>*data\<close> if anything is.\<close>

definition receive_on :: "bool \<Rightarrow> chan_env \<Rightarrow> (reply \<times> u64 option \<times> chan_env) option" where
  "receive_on blocking e =
     (if used (chan e) = 0 then
        if blocking then Some (Blocks, None, e)
        else if mutex (chan e) = 0 then Some (Blocks, None, e)
        else let e1 = wait_mutex e in
          if closed (chan e1) then Some (Returns CLOSED_ERROR, None, post_used (post_mutex e1))
          else Some (Returns WOULDBLOCK, None, post_mutex e1)
      else let e1 = wait_used e in
        if mutex (chan e1) = 0 then Some (Blocks, None, e1)
        else let e2 = wait_mutex e1 in
          if closed (chan e2) then Some (Returns CLOSED_ERROR, None, post_used (post_mutex e2))
          else do {
            b \<leftarrow> ch_buffer (chan e2);
            (remData, b') \<leftarrow> buffer_remove b;
            let e3 = on_chan (ch_buffer_update (\<lambda>_. Some b')) e2;
            if remData = BUFFER_EMPTY then Some (Returns OTHER_ERROR, None, post_mutex e3)
            else do {
              let e4 = post_available (post_mutex e3);
              (locked, e5) \<leftarrow> notify_recv_list e4;
              Some (if locked then Returns SUCCESS else Blocks, Some remData, e5)
            }
          })"

definition close_on :: "chan_env \<Rightarrow> (reply \<times> chan_env) option" where
  "close_on e =
     (if mutex (chan e) = 0 then Some (Blocks, e)
      else let e1 = wait_mutex e in
        if closed (chan e1) then Some (Returns CLOSED_ERROR, post_mutex e1)
        else do {
          let e2 = post_mutex (post_used (post_available (on_chan (closed_update (\<lambda>_. True)) e1)));
          (locked, e3) \<leftarrow> notify_send_list e2;
          if \<not> locked then Some (Blocks, e3)
          else do {
            (locked, e4) \<leftarrow> notify_recv_list e3;
            Some (if locked then Returns SUCCESS else Blocks, e4)
          }
        })"

text \<open>The functions themselves take a pointer to the channel.\<close>

definition env_of :: "world \<Rightarrow> chan_t \<Rightarrow> chan_env" where
  "env_of w ch = \<lparr>chan = ch, env_nodes = nodes w, env_sems = sems w\<rparr>"

definition put_env :: "u64 \<Rightarrow> chan_env \<Rightarrow> world \<Rightarrow> world" where
  "put_env c e w = w\<lparr>chans := (chans w)(c \<mapsto> chan e), nodes := env_nodes e, sems := env_sems e\<rparr>"

definition channel_send :: "u64 \<Rightarrow> u64 \<Rightarrow> bool \<Rightarrow> world \<Rightarrow> (reply \<times> world) option" where
  "channel_send c d blocking w =
     (if c = NULL then Some (Returns OTHER_ERROR, w)
      else do {
        ch \<leftarrow> chans w c;
        (r, e) \<leftarrow> send_on d blocking (env_of w ch);
        Some (r, put_env c e w)
      })"

definition channel_receive :: "u64 \<Rightarrow> bool \<Rightarrow> world \<Rightarrow> (reply \<times> u64 option \<times> world) option" where
  "channel_receive c blocking w =
     (if c = NULL then Some (Returns OTHER_ERROR, None, w)
      else do {
        ch \<leftarrow> chans w c;
        (r, d, e) \<leftarrow> receive_on blocking (env_of w ch);
        Some (r, d, put_env c e w)
      })"

definition channel_close :: "u64 \<Rightarrow> world \<Rightarrow> (reply \<times> world) option" where
  "channel_close c w =
     (if c = NULL then Some (Returns OTHER_ERROR, w)
      else do {
        ch \<leftarrow> chans w c;
        (r, e) \<leftarrow> close_on (env_of w ch);
        Some (r, put_env c e w)
      })"

section \<open>\<open>channel_destroy\<close>\<close>

definition channel_destroy :: "u64 \<Rightarrow> world \<Rightarrow> (chan_status \<times> world) option" where
  "channel_destroy c w =
     (if c = NULL then Some (OTHER_ERROR, w)
      else do {
        ch \<leftarrow> chans w c;
        if \<not> closed ch then Some (DESTROY_ERROR, w)
        else do {
          rl \<leftarrow> recv_list ch;
          h1 \<leftarrow> list_destroy rl (nodes w);
          sl \<leftarrow> send_list ch;
          h2 \<leftarrow> list_destroy sl h1;
          b \<leftarrow> ch_buffer ch;
          let freed = buffer_free b;
          Some (SUCCESS, w\<lparr>nodes := h2, chans := (chans w)(c := None)\<rparr>)
        }
      })"

section \<open>The abstract channel\<close>

text \<open>
  A channel is a FIFO queue of bounded capacity with a closed flag. The specification of the
  operations on it, for a caller that nobody disturbs:
\<close>

record abs_chan =
  a_cap :: nat
  a_items :: "u64 list"
  a_closed :: bool

definition spec_send :: "u64 \<Rightarrow> bool \<Rightarrow> abs_chan \<Rightarrow> reply \<times> abs_chan" where
  "spec_send d blocking a =
     (if a_closed a then (Returns CLOSED_ERROR, a)
      else if length (a_items a) < a_cap a
        then (Returns SUCCESS, a\<lparr>a_items := a_items a @ [d]\<rparr>)
      else (if blocking then Blocks else Returns WOULDBLOCK, a))"

definition spec_receive :: "bool \<Rightarrow> abs_chan \<Rightarrow> reply \<times> u64 option \<times> abs_chan" where
  "spec_receive blocking a =
     (if a_closed a then (Returns CLOSED_ERROR, None, a)
      else case a_items a of
          x # xs \<Rightarrow> (Returns SUCCESS, Some x, a\<lparr>a_items := xs\<rparr>)
        | [] \<Rightarrow> (if blocking then Blocks else Returns WOULDBLOCK, None, a))"

definition spec_close :: "abs_chan \<Rightarrow> reply \<times> abs_chan" where
  "spec_close a =
     (if a_closed a then (Returns CLOSED_ERROR, a) else (Returns SUCCESS, a\<lparr>a_closed := True\<rparr>))"

text \<open>
  The waiting threads: the lists represent some nodes, and every semaphore they name exists.
\<close>

definition waiters_ok :: "chan_env \<Rightarrow> list_t option \<Rightarrow> u64 list \<Rightarrow> bool" where
  "waiters_ok e lst ds \<longleftrightarrow> (\<exists>l xs. lst = Some l \<and> list_rep (env_nodes e) l xs \<and> map snd xs = ds \<and>
     (\<forall>d \<in> set ds. env_sems e d \<noteq> None))"

text \<open>
  \<open>chan_rep e a\<close>: a channel on which no call is in progress represents the abstract channel
  \<open>a\<close>. While it is open its semaphores count the free and the used slots; once it is closed
  both can be waited for without blocking, which is what wakes up everybody.
\<close>

definition chan_rep :: "chan_env \<Rightarrow> abs_chan \<Rightarrow> bool" where
  "chan_rep e a \<longleftrightarrow> (let ch = chan e in
     mutex ch = 1 \<and> \<not> recv_lock ch \<and> \<not> send_lock ch \<and> closed ch = a_closed a \<and>
     a_cap a \<le> SEM_VALUE_MAX \<and> BUFFER_EMPTY \<notin> set (a_items a) \<and>
     (\<exists>b. ch_buffer ch = Some b \<and> buf_inv b \<and> buf_items b = a_items a \<and>
        unat (buf_capacity b) = a_cap a) \<and>
     (\<exists>ds. waiters_ok e (recv_list ch) ds) \<and> (\<exists>ds. waiters_ok e (send_list ch) ds) \<and>
     (if a_closed a then 0 < available ch \<and> 0 < used ch
      else available ch + length (a_items a) = a_cap a \<and> used ch = length (a_items a)))"

lemmas sem_ops = wait_mutex_def post_mutex_def wait_available_def post_available_def
  wait_used_def post_used_def

lemma sem_inc_pos [simp]: "0 < sem_inc v"
  by (simp add: sem_inc_def SEM_VALUE_MAX_def)

lemma sem_inc_small [simp]: "v < SEM_VALUE_MAX \<Longrightarrow> sem_inc v = v + 1"
  by (simp add: sem_inc_def)

lemma sem_inc_0 [simp]: "sem_inc 0 = Suc 0"
  by (simp add: SEM_VALUE_MAX_def)

lemma post_all_ok:
  "(\<forall>d \<in> set ds. s d \<noteq> None) \<Longrightarrow>
   \<exists>s'. post_all ds s = Some s' \<and> dom s' = dom s \<and> (\<forall>d \<in> set ds. 0 < the (s' d)) \<and>
     (\<forall>d. d \<notin> set ds \<longrightarrow> s' d = s d) \<and> (\<forall>d. the (s d) \<le> the (s' d) \<or> s d = None)"
proof (induction ds arbitrary: s)
  case (Cons d ds)
  then obtain v where v: "s d = Some v" by auto
  let ?s = "s(d \<mapsto> sem_inc v)"
  from Cons.prems have "\<forall>d \<in> set ds. ?s d \<noteq> None" by simp
  from Cons.IH [OF this] obtain s' where s': "post_all ds ?s = Some s'" "dom s' = dom ?s"
    "\<forall>d \<in> set ds. 0 < the (s' d)" "\<forall>d. d \<notin> set ds \<longrightarrow> s' d = ?s d"
    "\<forall>d. the (?s d) \<le> the (s' d) \<or> ?s d = None" by blast
  have "post_all (d # ds) s = Some s'" using v s'(1) by (simp add: sem_post_at_def)
  moreover have "dom s' = dom s" using s'(2) v by auto
  moreover have "\<forall>x \<in> set (d # ds). 0 < the (s' x)"
  proof -
    have "sem_inc v \<le> the (s' d)" using s'(5) [rule_format, of d] by simp
    then have "0 < the (s' d)" by (rule order_less_le_trans [OF sem_inc_pos])
    with s'(3) show ?thesis by simp
  qed
  moreover have "\<forall>x. x \<notin> set (d # ds) \<longrightarrow> s' x = s x" using s'(4) by simp
  moreover have "the (s x) \<le> the (s' x) \<or> s x = None" for x
    using s'(5) [rule_format, of x] v by (cases "x = d") (auto simp: sem_inc_def split: if_splits)
  ultimately show ?case by blast
qed simp

lemma list_rep_count_pos:
  assumes "list_rep h l xs"
  shows "list_count l > 0 \<longleftrightarrow> xs \<noteq> []"
proof -
  from assms have ch: "dchain (node_links h) (list_head l) (map fst xs)" by (simp add: list_rep_def)
  have "card (set (map fst xs)) < card (UNIV :: u64 set)"
    using dchain_not_NULL [OF ch] by (intro psubset_card_mono) auto
  then have "length xs < 2 ^ 64"
    using distinct_card [OF dchain_distinct [OF ch]] by (simp add: card_word)
  then show ?thesis
    using assms by (simp add: list_rep_def list_count_def word_less_unat unat_of_nat)
qed

text \<open>Notifying the waiters always succeeds, changes only their semaphores, and leaves each of
  them with a positive one.\<close>

lemma notify_list_ok:
  assumes "waiters_ok e lst ds"
  shows "\<exists>s. notify_list lst e = Some (e\<lparr>env_sems := s\<rparr>) \<and> dom s = dom (env_sems e) \<and>
    (\<forall>d \<in> set ds. 0 < the (s d))"
proof -
  from assms obtain l xs where l: "lst = Some l" "list_rep (env_nodes e) l xs" "map snd xs = ds"
    "\<forall>d \<in> set ds. env_sems e d \<noteq> None" by (auto simp: waiters_ok_def)
  show ?thesis
  proof (cases "xs = []")
    case True
    with l list_rep_count_pos [OF l(2)] show ?thesis
      by (auto simp: notify_list_def intro!: exI [of _ "env_sems e"])
  next
    case False
    from post_all_ok [OF l(4)] obtain s where "post_all ds (env_sems e) = Some s"
      "dom s = dom (env_sems e)" "\<forall>d \<in> set ds. 0 < the (s d)" by blast
    with l False list_rep_count_pos [OF l(2)] list_foreach_rep [OF l(2)] show ?thesis
      by (auto simp: notify_list_def)
  qed
qed

lemma waiters_ok_cong:
  "env_nodes e' = env_nodes e \<Longrightarrow> dom (env_sems e') = dom (env_sems e) \<Longrightarrow>
   waiters_ok e' lst ds = waiters_ok e lst ds"
  by (auto simp: waiters_ok_def domIff set_eq_iff)

text \<open>Notification under the lock, for a quiet channel.\<close>

lemma notify_send_list_ok:
  assumes "waiters_ok e (send_list (chan e)) ds" "\<not> send_lock (chan e)"
  shows "\<exists>s. notify_send_list e = Some (True, e\<lparr>env_sems := s\<rparr>) \<and> dom s = dom (env_sems e) \<and>
    (\<forall>d \<in> set ds. 0 < the (s d))"
  using notify_list_ok [OF assms(1)] assms(2) by (auto simp: notify_send_list_def)

lemma notify_recv_list_ok:
  assumes "waiters_ok e (recv_list (chan e)) ds" "\<not> recv_lock (chan e)"
  shows "\<exists>s. notify_recv_list e = Some (True, e\<lparr>env_sems := s\<rparr>) \<and> dom s = dom (env_sems e) \<and>
    (\<forall>d \<in> set ds. 0 < the (s d))"
  using notify_list_ok [OF assms(1)] assms(2) by (auto simp: notify_recv_list_def)

text \<open>Rebuilding \<open>chan_rep\<close> after a call: the lists are as before, the semaphores exist as before.\<close>

lemma chan_repI:
  assumes rep: "chan_rep e a"
    and ch: "mutex (chan e') = 1" "\<not> recv_lock (chan e')" "\<not> send_lock (chan e')"
      "closed (chan e') = a_closed a'" "recv_list (chan e') = recv_list (chan e)"
      "send_list (chan e') = send_list (chan e)" "ch_buffer (chan e') = Some b"
    and b: "buf_inv b" "buf_items b = a_items a'" "unat (buf_capacity b) = a_cap a'"
      "a_cap a' \<le> SEM_VALUE_MAX" "BUFFER_EMPTY \<notin> set (a_items a')"
    and cnt: "a_closed a' \<Longrightarrow> 0 < available (chan e') \<and> 0 < used (chan e')"
      "\<not> a_closed a' \<Longrightarrow> available (chan e') + length (a_items a') = a_cap a' \<and>
        used (chan e') = length (a_items a')"
    and s: "env_nodes e' = env_nodes e" "dom (env_sems e') = dom (env_sems e)"
  shows "chan_rep e' a'"
proof -
  have w: "waiters_ok e' l ds = waiters_ok e l ds" for l ds
    by (rule waiters_ok_cong) (simp_all add: s)
  from rep have "\<exists>ds. waiters_ok e' (recv_list (chan e')) ds"
    "\<exists>ds. waiters_ok e' (send_list (chan e')) ds"
    unfolding w ch by (simp_all add: chan_rep_def Let_def)
  with ch b cnt show ?thesis unfolding chan_rep_def Let_def by simp
qed

lemma chan_repD:
  assumes "chan_rep e a"
  shows "mutex (chan e) = 1" "\<not> recv_lock (chan e)" "\<not> send_lock (chan e)"
    "closed (chan e) = a_closed a" "a_cap a \<le> SEM_VALUE_MAX" "BUFFER_EMPTY \<notin> set (a_items a)"
    "a_closed a \<Longrightarrow> 0 < available (chan e) \<and> 0 < used (chan e)"
    "\<not> a_closed a \<Longrightarrow> available (chan e) + length (a_items a) = a_cap a"
    "\<not> a_closed a \<Longrightarrow> used (chan e) = length (a_items a)"
    "\<exists>ds. waiters_ok e (recv_list (chan e)) ds" "\<exists>ds. waiters_ok e (send_list (chan e)) ds"
  using assms by (auto simp: chan_rep_def Let_def)

lemma chan_rep_buffer:
  assumes "chan_rep e a"
  obtains b where "ch_buffer (chan e) = Some b" "buf_inv b" "buf_items b = a_items a"
    "unat (buf_capacity b) = a_cap a"
  using assms by (auto simp: chan_rep_def Let_def)

text \<open>A call on a channel leaves its lists and the set of existing semaphores alone.\<close>

definition same_lists :: "chan_env \<Rightarrow> chan_env \<Rightarrow> bool" where
  "same_lists e e' \<longleftrightarrow> env_nodes e' = env_nodes e \<and> dom (env_sems e') = dom (env_sems e) \<and>
     recv_list (chan e') = recv_list (chan e) \<and> send_list (chan e') = send_list (chan e)"

section \<open>Refinement\<close>

lemma send_on_refines:
  assumes rep: "chan_rep e a" and d: "d \<noteq> BUFFER_EMPTY"
  shows "\<exists>e'. send_on d blocking e = Some (fst (spec_send d blocking a), e') \<and>
    chan_rep e' (snd (spec_send d blocking a)) \<and> same_lists e e'"
proof -
  note D = chan_repD [OF rep]
  from chan_rep_buffer [OF rep] obtain b where b: "ch_buffer (chan e) = Some b" "buf_inv b"
    "buf_items b = a_items a" "unat (buf_capacity b) = a_cap a" by blast
  have same: "chan_rep e' a"
    if "mutex (chan e') = 1" "\<not> recv_lock (chan e')" "\<not> send_lock (chan e')"
      "closed (chan e') = closed (chan e)" "recv_list (chan e') = recv_list (chan e)"
      "send_list (chan e') = send_list (chan e)" "ch_buffer (chan e') = Some b"
      "a_closed a \<Longrightarrow> 0 < available (chan e') \<and> 0 < used (chan e')"
      "\<not> a_closed a \<Longrightarrow> available (chan e') = available (chan e) \<and> used (chan e') = used (chan e)"
      "env_nodes e' = env_nodes e" "env_sems e' = env_sems e" for e'
    by (rule chan_repI [OF rep, where b = b]) (use that D b in auto)
  show ?thesis
  proof (cases "a_closed a")
    case True
    let ?e = "post_available (post_mutex (wait_mutex (wait_available e)))"
    have "send_on d blocking e = Some (Returns CLOSED_ERROR, ?e)"
      using D True by (simp add: send_on_def sem_ops Let_def)
    moreover have "chan_rep ?e a"
      by (rule same) (use D True b in \<open>simp_all add: sem_ops\<close>)
    ultimately show ?thesis using True by (auto simp: spec_send_def sem_ops same_lists_def)
  next
    case open': False
    show ?thesis
    proof (cases "length (a_items a) < a_cap a")
      case False
      with D open' have "available (chan e) = 0" by simp
      moreover have "chan_rep (post_mutex (wait_mutex e)) a"
        by (rule same) (use D open' b in \<open>simp_all add: sem_ops\<close>)
      ultimately show ?thesis using D open' False rep
        by (auto simp: send_on_def spec_send_def Let_def sem_ops same_lists_def)
    next
      case room: True
      with D open' have av: "available (chan e) > 0" by simp
      from buffer_add_room [OF b(2), of d] room b obtain b' where b': "buffer_add d b = Some (True, b')"
        "buf_inv b'" "buf_items b' = a_items a @ [d]" "buf_capacity b' = buf_capacity b" by auto
      let ?e4 = "post_used (post_mutex (on_chan (ch_buffer_update (\<lambda>_. Some b'))
        (wait_mutex (wait_available e))))"
      from D obtain ds where "waiters_ok e (send_list (chan e)) ds" by blast
      then have "waiters_ok ?e4 (send_list (chan ?e4)) ds"
        using waiters_ok_cong [of ?e4 e] by (simp add: sem_ops)
      from notify_send_list_ok [OF this] D obtain s where
        s: "notify_send_list ?e4 = Some (True, ?e4\<lparr>env_sems := s\<rparr>)" "dom s = dom (env_sems e)"
        by (auto simp: sem_ops)
      have "send_on d blocking e = Some (Returns SUCCESS, ?e4\<lparr>env_sems := s\<rparr>)"
        using D open' av b b' s(1) by (simp add: send_on_def Let_def sem_ops)
      moreover have "chan_rep (?e4\<lparr>env_sems := s\<rparr>) (a\<lparr>a_items := a_items a @ [d]\<rparr>)"
        by (rule chan_repI [OF rep, where b = b'])
          (use D open' room av b b' d s(2) in \<open>simp_all add: sem_ops\<close>)
      ultimately show ?thesis using open' room s(2)
        by (auto simp: spec_send_def sem_ops same_lists_def)
    qed
  qed
qed

lemma receive_on_refines:
  assumes rep: "chan_rep e a"
  shows "\<exists>e'. receive_on blocking e = Some (fst (spec_receive blocking a),
      fst (snd (spec_receive blocking a)), e') \<and>
    chan_rep e' (snd (snd (spec_receive blocking a))) \<and> same_lists e e'"
proof -
  note D = chan_repD [OF rep]
  from chan_rep_buffer [OF rep] obtain b where b: "ch_buffer (chan e) = Some b" "buf_inv b"
    "buf_items b = a_items a" "unat (buf_capacity b) = a_cap a" by blast
  show ?thesis
  proof (cases "a_closed a")
    case True
    let ?e = "post_used (post_mutex (wait_mutex (wait_used e)))"
    have "receive_on blocking e = Some (Returns CLOSED_ERROR, None, ?e)"
      using D True by (simp add: receive_on_def sem_ops Let_def)
    moreover have "chan_rep ?e a"
      by (rule chan_repI [OF rep, where b = b]) (use D True b in \<open>simp_all add: sem_ops\<close>)
    ultimately show ?thesis using True by (auto simp: spec_receive_def sem_ops same_lists_def)
  next
    case open': False
    show ?thesis
    proof (cases "a_items a")
      case Nil
      with D open' have "used (chan e) = 0" by simp
      moreover have "chan_rep (post_mutex (wait_mutex e)) a"
        by (rule chan_repI [OF rep, where b = b]) (use D open' b in \<open>simp_all add: sem_ops\<close>)
      ultimately show ?thesis using D open' Nil rep
        by (auto simp: receive_on_def spec_receive_def Let_def sem_ops same_lists_def)
    next
      case (Cons x xs)
      with D open' have us: "used (chan e) > 0" by simp
      from buffer_remove_some [OF b(2), of x xs] Cons b obtain b' where b': "buffer_remove b = Some (x, b')"
        "buf_inv b'" "buf_items b' = xs" "buf_capacity b' = buf_capacity b" by auto
      from D Cons have x: "x \<noteq> BUFFER_EMPTY" by auto
      let ?e4 = "post_available (post_mutex (on_chan (ch_buffer_update (\<lambda>_. Some b'))
        (wait_mutex (wait_used e))))"
      from D obtain ds where "waiters_ok e (recv_list (chan e)) ds" by blast
      then have "waiters_ok ?e4 (recv_list (chan ?e4)) ds"
        using waiters_ok_cong [of ?e4 e] by (simp add: sem_ops)
      from notify_recv_list_ok [OF this] D obtain s where
        s: "notify_recv_list ?e4 = Some (True, ?e4\<lparr>env_sems := s\<rparr>)" "dom s = dom (env_sems e)"
        by (auto simp: sem_ops)
      have "receive_on blocking e = Some (Returns SUCCESS, Some x, ?e4\<lparr>env_sems := s\<rparr>)"
        using D open' us b b' x s(1) by (simp add: receive_on_def Let_def sem_ops)
      moreover have "chan_rep (?e4\<lparr>env_sems := s\<rparr>) (a\<lparr>a_items := xs\<rparr>)"
        by (rule chan_repI [OF rep, where b = b'])
          (use D(1-6) D(8) [OF open'] D(9) [OF open'] Cons open' us b b' s(2)
            in \<open>simp_all add: sem_ops\<close>)
      ultimately show ?thesis using open' Cons s(2)
        by (auto simp: spec_receive_def sem_ops same_lists_def)
    qed
  qed
qed

lemma close_on_refines:
  assumes rep: "chan_rep e a"
  shows "\<exists>e'. close_on e = Some (fst (spec_close a), e') \<and> chan_rep e' (snd (spec_close a)) \<and>
    same_lists e e'"
proof -
  note D = chan_repD [OF rep]
  from chan_rep_buffer [OF rep] obtain b where b: "ch_buffer (chan e) = Some b" "buf_inv b"
    "buf_items b = a_items a" "unat (buf_capacity b) = a_cap a" by blast
  show ?thesis
  proof (cases "a_closed a")
    case True
    have "close_on e = Some (Returns CLOSED_ERROR, post_mutex (wait_mutex e))"
      using D True by (simp add: close_on_def sem_ops Let_def)
    moreover have "chan_rep (post_mutex (wait_mutex e)) a"
      by (rule chan_repI [OF rep, where b = b]) (use D True b in \<open>simp_all add: sem_ops\<close>)
    ultimately show ?thesis using True by (auto simp: spec_close_def sem_ops same_lists_def)
  next
    case False
    let ?e2 = "post_mutex (post_used (post_available (on_chan (closed_update (\<lambda>_. True))
      (wait_mutex e))))"
    from D obtain ds es where w: "waiters_ok e (send_list (chan e)) ds"
      "waiters_ok e (recv_list (chan e)) es" by blast
    then have "waiters_ok ?e2 (send_list (chan ?e2)) ds"
      using waiters_ok_cong [of ?e2 e] by (simp add: sem_ops)
    from notify_send_list_ok [OF this] D obtain s where
      s: "notify_send_list ?e2 = Some (True, ?e2\<lparr>env_sems := s\<rparr>)" "dom s = dom (env_sems e)"
      by (auto simp: sem_ops)
    let ?e3 = "?e2\<lparr>env_sems := s\<rparr>"
    from w have "waiters_ok ?e3 (recv_list (chan ?e3)) es"
      using waiters_ok_cong [of ?e3 e] s(2) by (simp add: sem_ops)
    from notify_recv_list_ok [OF this] D obtain t where
      t: "notify_recv_list ?e3 = Some (True, ?e3\<lparr>env_sems := t\<rparr>)" "dom t = dom s"
      by (auto simp: sem_ops)
    have "close_on e = Some (Returns SUCCESS, ?e3\<lparr>env_sems := t\<rparr>)"
      using D False s(1) t(1) by (simp add: close_on_def Let_def sem_ops)
    moreover have "chan_rep (?e3\<lparr>env_sems := t\<rparr>) (a\<lparr>a_closed := True\<rparr>)"
      by (rule chan_repI [OF rep, where b = b])
        (use D(1-6) b s(2) t(2) in \<open>simp_all add: sem_ops\<close>)
    ultimately show ?thesis using False s(2) t(2)
      by (auto simp: spec_close_def sem_ops same_lists_def)
  qed
qed

text \<open>A new channel represents the empty open queue of the requested capacity.\<close>

lemma channel_create_rep:
  assumes "p \<noteq> NULL" "0 < sz" "unat sz \<le> SEM_VALUE_MAX"
  shows "\<exists>ch. channel_create p True True True True fresh garbage sz w =
      Some (p, w\<lparr>chans := (chans w)(p \<mapsto> ch)\<rparr>) \<and>
    chan_rep (env_of w ch) \<lparr>a_cap = unat sz, a_items = [], a_closed = False\<rparr>"
proof -
  from assms(3) have sz: "unat sz < 2 ^ 31" by (simp add: SEM_VALUE_MAX_def)
  then have cast: "unat (ucast sz :: u32) = unat sz"
    by (simp add: unsigned_ucast_eq take_bit_eq_mod)
  from sz have "unat sz < 2 ^ 61" by simp
  from buffer_create_inv [OF assms(2) this] obtain b where
    b: "buffer_create True True fresh sz = Some b" "buf_inv b" "buf_items b = []" "buf_capacity b = sz"
    by blast
  from list_create_rep [of "nodes w"] obtain l where
    l: "list_create True = Some l" "list_rep (nodes w) l []" by blast
  let ?ch = "\<lparr>ch_buffer = Some b, recv_list = Some l, send_list = Some l, closed = False,
    mutex = 1, available = unat sz, used = 0, recv_lock = False, send_lock = False\<rparr>"
  have "channel_create p True True True True fresh garbage sz w =
      Some (p, w\<lparr>chans := (chans w)(p \<mapsto> ?ch)\<rparr>)"
    using assms b(1) l(1) cast by (simp add: channel_create_def sem_init_def SEM_VALUE_MAX_def)
  moreover have "waiters_ok (env_of w ?ch) (Some l) []"
    using l by (simp add: waiters_ok_def env_of_def)
  then have "chan_rep (env_of w ?ch) \<lparr>a_cap = unat sz, a_items = [], a_closed = False\<rparr>"
    using b assms by (auto simp: chan_rep_def env_of_def)
  ultimately show ?thesis by blast
qed

text \<open>A successful send posts every waiter of the send list, a successful receive every waiter of
  the receive list.\<close>

lemma notify_list_wakes:
  "waiters_ok e lst ds \<Longrightarrow> notify_list lst e = Some e' \<Longrightarrow> d \<in> set ds \<Longrightarrow> 0 < the (env_sems e' d)"
  using notify_list_ok [of e lst ds] by auto

lemma send_on_wakes:
  assumes "send_on d blocking e = Some (Returns SUCCESS, e')" "waiters_ok e (send_list (chan e)) ds"
    "x \<in> set ds"
  shows "0 < the (env_sems e' x)"
proof -
  from assms(1) obtain e4 e5 where n: "notify_send_list e4 = Some (True, e5)" "e5 = e'"
    "env_nodes e4 = env_nodes e" "env_sems e4 = env_sems e" "send_list (chan e4) = send_list (chan e)"
    by (auto simp: send_on_def Let_def sem_ops split: if_splits Option.bind_splits)
  then have "waiters_ok e4 (send_list (chan e4)) ds"
    using assms(2) waiters_ok_cong [of e4 e] by simp
  with n assms(3) show ?thesis
    by (auto simp: notify_send_list_def split: if_splits Option.bind_splits intro: notify_list_wakes)
qed

end
