(* ===== verification/Channel_Select.thy ===== *)
theory Channel_Select
  imports Channel
begin

text \<open>
  \<open>channel_select\<close> of \<open>p3-concurrent-channels/channel.c\<close>, again for a caller that nobody
  disturbs: it registers a semaphore of its own with every channel of the array, tries the
  operations in order, and either removes its registrations and returns, or goes to sleep
  on the semaphore.
\<close>

section \<open>The code\<close>

record select_t =
  sel_channel :: u64
  is_send :: bool
  sel_data :: u64

text \<open>The list, and its lock, that the direction of an entry selects.\<close>

definition wait_list :: "bool \<Rightarrow> chan_t \<Rightarrow> list_t option" where
  "wait_list dir ch = (if dir then recv_list ch else send_list ch)"

definition set_wait_list :: "bool \<Rightarrow> list_t option \<Rightarrow> chan_t \<Rightarrow> chan_t" where
  "set_wait_list dir l ch = (if dir then ch\<lparr>recv_list := l\<rparr> else ch\<lparr>send_list := l\<rparr>)"

definition wait_lock :: "bool \<Rightarrow> chan_t \<Rightarrow> bool" where
  "wait_lock dir ch = (if dir then recv_lock ch else send_lock ch)"

text \<open>
  One round of the first loop. \<open>local\<close> is the address of the caller's semaphore, \<open>malloc\<close> the
  allocator's answer for a heap of nodes (\<open>NULL\<close> when it fails). The flag is \<open>False\<close> when the
  call blocks on the lock.
\<close>

definition register_entry :: "(node_heap \<Rightarrow> u64) \<Rightarrow> u64 \<Rightarrow> u64 \<times> bool \<Rightarrow> world \<Rightarrow>
    (bool \<times> world) option" where
  "register_entry malloc local k w = do {
     ch \<leftarrow> chans w (fst k);
     if wait_lock (snd k) ch then Some (False, w)
     else do {
       p \<leftarrow> list_find (wait_list (snd k) ch) (nodes w) local;
       if p = NULL then do {
         (l, h) \<leftarrow> list_insert (malloc (nodes w)) local (wait_list (snd k) ch) (nodes w);
         Some (True, w\<lparr>chans := (chans w)(fst k \<mapsto> set_wait_list (snd k) l ch), nodes := h\<rparr>)
       } else Some (True, w)
     }
   }"

definition unregister_entry :: "u64 \<Rightarrow> u64 \<times> bool \<Rightarrow> world \<Rightarrow> (bool \<times> world) option" where
  "unregister_entry local k w = do {
     ch \<leftarrow> chans w (fst k);
     if wait_lock (snd k) ch then Some (False, w)
     else do {
       p \<leftarrow> list_find (wait_list (snd k) ch) (nodes w) local;
       if p \<noteq> NULL then do {
         (l, h) \<leftarrow> list_remove p (wait_list (snd k) ch) (nodes w);
         Some (True, w\<lparr>chans := (chans w)(fst k \<mapsto> set_wait_list (snd k) l ch), nodes := h\<rparr>)
       } else Some (True, w)
     }
   }"

text \<open>The loops over the array: \<open>body\<close> for each index in turn, on the entry it reads.\<close>

fun for_entries :: "(u64 \<times> bool \<Rightarrow> 'w \<Rightarrow> (bool \<times> 'w) option) \<Rightarrow> select_t list \<Rightarrow> nat list \<Rightarrow>
    'w \<Rightarrow> (bool \<times> 'w) option" where
  "for_entries body sel [] w = Some (True, w)"
| "for_entries body sel (i # is) w = do {
     s \<leftarrow> array_get sel i;
     (ok, w1) \<leftarrow> body (sel_channel s, is_send s) w;
     if ok then for_entries body sel is w1 else Some (False, w1)
   }"

text \<open>One attempt, and the inner loop of attempts. The received message is stored in the entry.\<close>

definition try_entry :: "select_t \<Rightarrow> world \<Rightarrow> (reply \<times> select_t \<times> world) option" where
  "try_entry s w =
     (if is_send s then do {
        (r, w') \<leftarrow> channel_send (sel_channel s) (sel_data s) False w;
        Some (r, s, w')
      } else do {
        (r, d, w') \<leftarrow> channel_receive (sel_channel s) False w;
        Some (r, (case d of None \<Rightarrow> s | Some v \<Rightarrow> s\<lparr>sel_data := v\<rparr>), w')
      })"

partial_function (option) select_scan :: "u64 \<Rightarrow> u64 \<Rightarrow> select_t list \<Rightarrow> world \<Rightarrow>
    (reply \<times> u64 \<times> select_t list \<times> world) option" where
  "select_scan count i sel w = do {
     s \<leftarrow> array_get sel (unat i);
     (r, s', w') \<leftarrow> try_entry s w;
     let sel' = sel[unat i := s'];
     if r \<noteq> Returns WOULDBLOCK \<or> i = count - 1 then Some (r, i, sel', w')
     else select_scan count (i + 1) sel' w'
   }"

datatype select_reply =
    SelReturns chan_status u64 \<comment> \<open>the status, and \<open>*selected_index\<close>\<close>
  | SelWaits \<comment> \<open>asleep on the caller's semaphore\<close>
  | SelBlocks \<comment> \<open>blocked on a lock or a mutex\<close>

partial_function (option) select_loop :: "u64 \<Rightarrow> u64 \<Rightarrow> select_t list \<Rightarrow> world \<Rightarrow>
    (select_reply \<times> select_t list \<times> world) option" where
  "select_loop local count sel w = do {
     (r, i, sel', w1) \<leftarrow> select_scan count 0 sel w;
     (case r of
        Blocks \<Rightarrow> Some (SelBlocks, sel', w1)
      | Returns status \<Rightarrow>
          if status \<noteq> WOULDBLOCK then do {
            (ok, w2) \<leftarrow> for_entries (unregister_entry local) sel' [0..<unat count] w1;
            Some (if ok then (SelReturns status i, sel', w2\<lparr>sems := (sems w2)(local := None)\<rparr>)
                  else (SelBlocks, sel', w2))
          } else do {
            v \<leftarrow> sems w1 local;
            if v > 0 then select_loop local count sel' (w1\<lparr>sems := (sems w1)(local \<mapsto> v - 1)\<rparr>)
            else Some (SelWaits, sel', w1)
          })
   }"

definition channel_select :: "(node_heap \<Rightarrow> u64) \<Rightarrow> u64 \<Rightarrow> u64 \<Rightarrow> select_t list \<Rightarrow> world \<Rightarrow>
    (select_reply \<times> select_t list \<times> world) option" where
  "channel_select malloc local count sel w = do {
     (ok, w1) \<leftarrow> for_entries (register_entry malloc local) sel [0..<unat count]
        (w\<lparr>sems := (sems w)(local \<mapsto> 0)\<rparr>);
     if ok then select_loop local count sel w1 else Some (SelBlocks, sel, w1)
   }"

section \<open>The interface of the waiter lists\<close>

text \<open>
  What \<open>channel_select\<close> needs of its registrations: \<open>members w k\<close> are the semaphores
  registered under the key \<open>k\<close>, \<open>ok n w\<close> says that the state is well formed and that memory
  allows \<open>n\<close> more registrations. Registering adds the caller once, unregistering removes
  one registration, and neither touches another key.
\<close>

locale waiter_registry =
  fixes ok :: "nat \<Rightarrow> 'w \<Rightarrow> bool" and keys :: "'w \<Rightarrow> 'k set"
    and members :: "'w \<Rightarrow> 'k \<Rightarrow> u64 list" and me :: u64
    and reg unreg :: "'k \<Rightarrow> 'w \<Rightarrow> (bool \<times> 'w) option"
  assumes reg_ok: "ok (Suc n) w \<Longrightarrow> k \<in> keys w \<Longrightarrow>
      \<exists>w'. reg k w = Some (True, w') \<and> ok n w' \<and> keys w' = keys w \<and>
        members w' = (members w)(k := if me \<in> set (members w k) then members w k else me # members w k)"
    and unreg_ok: "ok n w \<Longrightarrow> k \<in> keys w \<Longrightarrow>
      \<exists>w'. unreg k w = Some (True, w') \<and> ok n w' \<and> keys w' = keys w \<and>
        members w' = (members w)(k := remove1 me (members w k))"

text \<open>The loop over a list of keys.\<close>

fun for_keys :: "('k \<Rightarrow> 'w \<Rightarrow> (bool \<times> 'w) option) \<Rightarrow> 'k list \<Rightarrow> 'w \<Rightarrow> (bool \<times> 'w) option" where
  "for_keys body [] w = Some (True, w)"
| "for_keys body (k # ks) w =
     do { (ok, w1) \<leftarrow> body k w; if ok then for_keys body ks w1 else Some (False, w1) }"

lemma remove1_once: "count_list xs x \<le> 1 \<Longrightarrow> x \<notin> set (remove1 x xs)"
  by (induction xs) (auto simp: count_list_0_iff split: if_splits)

context waiter_registry
begin

lemma register_all:
  "ok (length ks + n) w \<Longrightarrow> set ks \<subseteq> keys w \<Longrightarrow>
   \<exists>w'. for_keys reg ks w = Some (True, w') \<and> ok n w' \<and> keys w' = keys w \<and>
     (\<forall>k. members w' k = (if k \<in> set ks \<and> me \<notin> set (members w k) then me # members w k
       else members w k))"
proof (induction ks arbitrary: w)
  case (Cons k ks)
  from Cons.prems have "ok (Suc (length ks + n)) w" "k \<in> keys w" by simp_all
  from reg_ok [OF this] obtain w1 where w1: "reg k w = Some (True, w1)" "ok (length ks + n) w1"
    "keys w1 = keys w"
    "members w1 = (members w)(k := if me \<in> set (members w k) then members w k else me # members w k)"
    by blast
  from Cons.IH [OF w1(2)] Cons.prems w1(3) obtain w2 where w2: "for_keys reg ks w1 = Some (True, w2)"
    "ok n w2" "keys w2 = keys w"
    "\<forall>k. members w2 k = (if k \<in> set ks \<and> me \<notin> set (members w1 k) then me # members w1 k
       else members w1 k)" by auto
  have "members w2 k' = (if k' \<in> set (k # ks) \<and> me \<notin> set (members w k') then me # members w k'
      else members w k')" for k'
    using w2(4) [rule_format, of k'] w1(4) by (cases "k' = k") (auto split: if_splits)
  with w1 w2 show ?case by auto
qed simp

lemma unregister_all:
  "ok n w \<Longrightarrow> set ks \<subseteq> keys w \<Longrightarrow> (\<And>k. count_list (members w k) me \<le> 1) \<Longrightarrow>
   \<exists>w'. for_keys unreg ks w = Some (True, w') \<and> ok n w' \<and> keys w' = keys w \<and>
     (\<forall>k. members w' k = (if k \<in> set ks then remove1 me (members w k) else members w k))"
proof (induction ks arbitrary: w)
  case (Cons k ks)
  from Cons.prems unreg_ok [of n w k] obtain w1 where w1: "unreg k w = Some (True, w1)" "ok n w1"
    "keys w1 = keys w" "members w1 = (members w)(k := remove1 me (members w k))" by auto
  have once: "me \<notin> set (remove1 me (members w k))"
    using Cons.prems(3) by (rule remove1_once)
  have "count_list (members w1 k') me \<le> 1" for k'
    using Cons.prems(3) [of k'] once w1(4) by (auto simp: count_list_0_iff)
  from Cons.IH [OF w1(2) _ this] Cons.prems(2) w1(3) obtain w2 where
    w2: "for_keys unreg ks w1 = Some (True, w2)" "ok n w2" "keys w2 = keys w"
    "\<forall>k. members w2 k = (if k \<in> set ks then remove1 me (members w1 k) else members w1 k)" by auto
  have "members w2 k' = (if k' \<in> set (k # ks) then remove1 me (members w k') else members w k')" for k'
    using w2(4) [rule_format, of k'] w1(4) once
    by (cases "k' = k") (auto simp: remove1_idem)
  with w1 w2 show ?case by auto
qed simp

end

section \<open>The registry of a world\<close>

text \<open>\<open>chan_core\<close>: the part of \<open>chan_rep\<close> that does not concern the waiter lists.\<close>

definition chan_core :: "chan_t \<Rightarrow> abs_chan \<Rightarrow> bool" where
  "chan_core ch a \<longleftrightarrow>
     mutex ch = 1 \<and> \<not> recv_lock ch \<and> \<not> send_lock ch \<and> closed ch = a_closed a \<and>
     a_cap a \<le> SEM_VALUE_MAX \<and> BUFFER_EMPTY \<notin> set (a_items a) \<and>
     (\<exists>b. ch_buffer ch = Some b \<and> buf_inv b \<and> buf_items b = a_items a \<and>
        unat (buf_capacity b) = a_cap a) \<and>
     (if a_closed a then 0 < available ch \<and> 0 < used ch
      else available ch + length (a_items a) = a_cap a \<and> used ch = length (a_items a))"

lemma chan_rep_core: "chan_rep e a \<longleftrightarrow> chan_core (chan e) a \<and>
    (\<exists>ds. waiters_ok e (recv_list (chan e)) ds) \<and> (\<exists>ds. waiters_ok e (send_list (chan e)) ds)"
  by (auto simp: chan_rep_def chan_core_def Let_def)

lemma chan_core_set_list [simp]: "chan_core (set_wait_list dir l ch) a = chan_core ch a"
  by (simp add: chan_core_def set_wait_list_def)

lemma wait_list_set [simp]:
  "wait_list dir' (set_wait_list dir l ch) = (if dir' = dir then l else wait_list dir' ch)"
  by (simp add: wait_list_def set_wait_list_def)

lemma chan_core_unlocked: "chan_core ch a \<Longrightarrow> \<not> wait_lock dir ch"
  by (simp add: chan_core_def wait_lock_def)

text \<open>
  \<open>registry w ws\<close>: under each key (a channel and a direction) the channel's list represents
  the nodes \<open>ws\<close> of that key, the semaphores they name exist, and no two lists share a node.
\<close>

definition registry :: "world \<Rightarrow> (u64 \<times> bool \<Rightarrow> (u64 \<times> u64) list) \<Rightarrow> bool" where
  "registry w ws \<longleftrightarrow>
     (\<forall>c ch dir. chans w c = Some ch \<longrightarrow> (\<exists>l. wait_list dir ch = Some l \<and>
        list_rep (nodes w) l (ws (c, dir)) \<and> (\<forall>x \<in> set (ws (c, dir)). sems w (snd x) \<noteq> None))) \<and>
     (\<forall>k k'. k \<noteq> k' \<longrightarrow> fst k \<in> dom (chans w) \<longrightarrow> fst k' \<in> dom (chans w) \<longrightarrow>
        fst ` set (ws k) \<inter> fst ` set (ws k') = {})"

definition world_ok :: "world \<Rightarrow> (u64 \<rightharpoonup> abs_chan) \<Rightarrow> bool" where
  "world_ok w A \<longleftrightarrow> NULL \<notin> dom (chans w) \<and> dom (chans w) = dom A \<and> (\<exists>ws. registry w ws) \<and>
     (\<forall>c ch. chans w c = Some ch \<longrightarrow> chan_core ch (the (A c)))"

text \<open>The semaphores registered under a key, read off the heap.\<close>

partial_function (option) data_from :: "node_heap \<Rightarrow> u64 \<Rightarrow> u64 list option" where
  "data_from h p =
     (if p = NULL then Some []
      else case h p of None \<Rightarrow> None
        | Some n \<Rightarrow> do { ds \<leftarrow> data_from h (node_next n); Some (node_data n # ds) })"

definition wait_members :: "world \<Rightarrow> u64 \<times> bool \<Rightarrow> u64 list" where
  "wait_members w k = (case chans w (fst k) of None \<Rightarrow> []
     | Some ch \<Rightarrow> (case wait_list (snd k) ch of None \<Rightarrow> []
         | Some l \<Rightarrow> (case data_from (nodes w) (list_head l) of None \<Rightarrow> [] | Some ds \<Rightarrow> ds)))"

lemma data_from_seg:
  "dseg (node_links h) pv p (map fst xs) m NULL \<Longrightarrow>
   \<forall>x \<in> set xs. map_option node_data (h (fst x)) = Some (snd x) \<Longrightarrow>
   data_from h p = Some (map snd xs)"
proof (induction xs arbitrary: pv p)
  case Nil
  then show ?case by (simp add: data_from.simps)
next
  case (Cons x xs)
  then obtain r n where r: "h p = Some n" "node_next n = r" "p = fst x" "p \<noteq> NULL" "node_data n = snd x"
    "dseg (node_links h) (fst x) r (map fst xs) m NULL"
    by (cases x) (auto simp: node_links_Some)
  from Cons.IH [OF r(6)] Cons.prems have "data_from h r = Some (map snd xs)" by simp
  with r show ?case by (subst data_from.simps) simp
qed

lemma data_from_rep: "list_rep h l xs \<Longrightarrow> data_from h (list_head l) = Some (map snd xs)"
  unfolding list_rep_def dchain_def by (auto intro: data_from_seg)

lemma registryD:
  "registry w ws \<Longrightarrow> chans w c = Some ch \<Longrightarrow>
   \<exists>l. wait_list dir ch = Some l \<and> list_rep (nodes w) l (ws (c, dir)) \<and>
     (\<forall>x \<in> set (ws (c, dir)). sems w (snd x) \<noteq> None)"
  unfolding registry_def by blast

lemma registry_disj:
  "registry w ws \<Longrightarrow> k \<noteq> k' \<Longrightarrow> fst k \<in> dom (chans w) \<Longrightarrow> fst k' \<in> dom (chans w) \<Longrightarrow>
   fst ` set (ws k) \<inter> fst ` set (ws k') = {}"
  unfolding registry_def by blast

lemma registryI:
  "(\<And>c ch dir. chans w c = Some ch \<Longrightarrow> \<exists>l. wait_list dir ch = Some l \<and>
      list_rep (nodes w) l (ws (c, dir)) \<and> (\<forall>x \<in> set (ws (c, dir)). sems w (snd x) \<noteq> None)) \<Longrightarrow>
   (\<And>k k'. k \<noteq> k' \<Longrightarrow> fst k \<in> dom (chans w) \<Longrightarrow> fst k' \<in> dom (chans w) \<Longrightarrow>
      fst ` set (ws k) \<inter> fst ` set (ws k') = {}) \<Longrightarrow> registry w ws"
  unfolding registry_def by blast

lemma registry_members:
  assumes "registry w ws"
  shows "wait_members w k = (if fst k \<in> dom (chans w) then map snd (ws k) else [])"
proof (cases "chans w (fst k)")
  case None
  then show ?thesis by (simp add: wait_members_def domIff)
next
  case (Some ch)
  from registryD [OF assms Some, of "snd k"] obtain l where
    "wait_list (snd k) ch = Some l" "list_rep (nodes w) l (ws k)" by auto
  with Some data_from_rep show ?thesis by (simp add: wait_members_def domIff)
qed

text \<open>Replacing the list under one key.\<close>

lemma registry_update:
  assumes reg: "registry w ws" and ch: "chans w (fst k) = Some ch"
    and rep: "list_rep h' l' xs'" and sub: "fst ` set xs' \<subseteq> F"
    and frame: "\<And>a. a \<notin> F \<Longrightarrow> h' a = nodes w a"
    and F: "\<And>k'. k' \<noteq> k \<Longrightarrow> fst k' \<in> dom (chans w) \<Longrightarrow> fst ` set (ws k') \<inter> F = {}"
    and s: "\<And>x. x \<in> set xs' \<Longrightarrow> sems w (snd x) \<noteq> None"
  shows "registry (w\<lparr>chans := (chans w)(fst k \<mapsto> set_wait_list (snd k) (Some l') ch), nodes := h'\<rparr>)
    (ws(k := xs'))"
proof (rule registryI, goal_cases)
  case (1 c ch' dir)
  show ?case
  proof (cases "(c, dir) = k")
    case True
    then have "wait_list dir ch' = Some l'" using 1 by auto
    with True rep s show ?thesis by simp
  next
    case False
    obtain ch0 where ch0: "chans w c = Some ch0" "wait_list dir ch' = wait_list dir ch0"
      using 1 ch False by (cases "c = fst k") (auto simp: prod_eq_iff split: if_splits)
    from registryD [OF reg ch0(1), of dir] obtain l where l: "wait_list dir ch0 = Some l"
      "list_rep (nodes w) l (ws (c, dir))" "\<forall>x \<in> set (ws (c, dir)). sems w (snd x) \<noteq> None" by blast
    have "list_rep h' l (ws (c, dir))"
    proof (rule list_rep_cong [OF l(2)])
      fix a assume "a \<in> fst ` set (ws (c, dir))"
      with F [OF False] ch0 show "h' a = nodes w a" by (intro frame) auto
    qed
    with False l ch0 show ?thesis by simp
  qed
next
  case (2 k1 k2)
  then have d: "fst k1 \<in> dom (chans w)" "fst k2 \<in> dom (chans w)" using ch by auto
  show ?case
  proof (cases "k1 = k \<or> k2 = k")
    case True
    with 2(1) d F [of k1] F [of k2] sub show ?thesis
      by (elim disjE) (simp_all, blast+)
  next
    case False
    with registry_disj [OF reg 2(1) d] show ?thesis by simp
  qed
qed

lemma registry_sems:
  assumes "registry w ws" "dom (sems w) \<subseteq> dom s"
  shows "registry (w\<lparr>sems := s\<rparr>) ws"
proof (rule registryI, goal_cases)
  case (1 c ch dir)
  then have "chans w c = Some ch" by simp
  from registryD [OF assms(1) this, of dir] assms(2) show ?case by (fastforce simp: subset_iff domIff)
next
  case (2 k k')
  then show ?case using registry_disj [OF assms(1)] by simp
qed

section \<open>Registering and unregistering\<close>

text \<open>
  What is needed of \<open>malloc\<close>: while fewer than \<open>N\<close> nodes are allocated it finds room for
  another one, at an address that is not in use.
\<close>

definition malloc_upto :: "nat \<Rightarrow> (node_heap \<Rightarrow> u64) \<Rightarrow> bool" where
  "malloc_upto N m \<longleftrightarrow>
     (\<forall>h. finite (dom h) \<longrightarrow> card (dom h) < N \<longrightarrow> m h \<noteq> NULL \<and> h (m h) = None)"

definition registry_ok :: "(u64 \<rightharpoonup> abs_chan) \<Rightarrow> (node_heap \<Rightarrow> u64) \<Rightarrow> u64 \<Rightarrow> nat \<Rightarrow> world \<Rightarrow> bool" where
  "registry_ok A malloc me n w \<longleftrightarrow> world_ok w A \<and> sems w me \<noteq> None \<and> finite (dom (nodes w)) \<and>
     (\<exists>N. malloc_upto N malloc \<and> card (dom (nodes w)) + n \<le> N)"

lemma world_okD:
  assumes "world_ok w A" "chans w c = Some ch"
  shows "c \<noteq> NULL" "c \<in> dom A" "chan_core ch (the (A c))" "\<not> wait_lock dir ch"
proof -
  show *: "chan_core ch (the (A c))" using assms by (simp add: world_ok_def)
  show "c \<noteq> NULL" "c \<in> dom A" using assms by (auto simp: world_ok_def)
  show "\<not> wait_lock dir ch" by (rule chan_core_unlocked [OF *])
qed

lemma world_ok_update:
  assumes "world_ok w A" "chans w c = Some ch" "registry w' ws'"
    "chans w' = (chans w)(c \<mapsto> ch')" "chan_core ch' a'"
  shows "world_ok w' (A(c \<mapsto> a'))"
  using assms unfolding world_ok_def by (auto split: if_splits)

lemma map_upd_the: "c \<in> dom A \<Longrightarrow> A(c \<mapsto> the (A c)) = A"
  by (auto simp: fun_eq_iff)

lemma register_step:
  assumes ok: "registry_ok A malloc me (Suc n) w" and k: "fst k \<in> dom (chans w)"
  shows "\<exists>w'. register_entry malloc me k w = Some (True, w') \<and> registry_ok A malloc me n w' \<and>
    dom (chans w') = dom (chans w) \<and> wait_members w' = (wait_members w)
      (k := if me \<in> set (wait_members w k) then wait_members w k else me # wait_members w k)"
proof -
  from ok have world: "world_ok w A" and me: "sems w me \<noteq> None"
    and fin: "finite (dom (nodes w))" by (simp_all add: registry_ok_def)
  from ok obtain N where N: "malloc_upto N malloc" "card (dom (nodes w)) + Suc n \<le> N"
    unfolding registry_ok_def by blast
  from world obtain ws where reg: "registry w ws" unfolding world_ok_def by blast
  from k obtain ch where ch: "chans w (fst k) = Some ch" by auto
  note D = world_okD [OF world ch]
  from registryD [OF reg ch, of "snd k"] obtain l where l: "wait_list (snd k) ch = Some l"
    "list_rep (nodes w) l (ws k)" "\<forall>x \<in> set (ws k). sems w (snd x) \<noteq> None" by auto
  from registry_members [OF reg] k have mem: "wait_members w k = map snd (ws k)" by simp
  show ?thesis
  proof (cases "me \<in> snd ` set (ws k)")
    case True
    with list_find_found [OF l(2) True] D l(1) ch
    have "register_entry malloc me k w = Some (True, w)" by (auto simp: register_entry_def)
    moreover have "registry_ok A malloc me n w"
      using ok unfolding registry_ok_def by (auto intro: exI [of _ N] simp: N)
    moreover have "me \<in> set (wait_members w k)" using mem True by simp
    ultimately show ?thesis by simp
  next
    case False
    let ?p = "malloc (nodes w)"
    from N fin have p: "?p \<noteq> NULL" "nodes w ?p = None" by (auto simp: malloc_upto_def)
    from list_insert_rep [OF l(2) p, of me] obtain l' h' where
      ins: "list_insert ?p me (Some l) (nodes w) = Some (Some l', h')"
        "list_rep h' l' ((?p, me) # ws k)"
        "\<forall>a. a \<notin> insert ?p (fst ` set (ws k)) \<longrightarrow> h' a = nodes w a" by blast
    let ?w = "w\<lparr>chans := (chans w)(fst k \<mapsto> set_wait_list (snd k) (Some l') ch), nodes := h'\<rparr>"
    have step: "register_entry malloc me k w = Some (True, ?w)"
      using ch D l(1) list_find_rep [OF l(2), of me] addr_of_NULL [OF False] ins(1)
      by (simp add: register_entry_def)
    have alloc: "a \<in> dom (nodes w)" if "a \<in> fst ` set (ws k')" "fst k' \<in> dom (chans w)" for a k'
    proof -
      from that(2) obtain ch' where "chans w (fst k') = Some ch'" by auto
      from registryD [OF reg this, of "snd k'"] obtain l2 where "list_rep (nodes w) l2 (ws k')"
        by auto
      from list_rep_alloc [OF this that(1)] show ?thesis by auto
    qed
    have reg': "registry ?w (ws(k := (?p, me) # ws k))"
    proof (rule registry_update [OF reg ch ins(2), where F = "insert ?p (fst ` set (ws k))"])
      fix k' assume k': "k' \<noteq> k" "fst k' \<in> dom (chans w)"
      from alloc [OF _ k'(2)] p(2) have "?p \<notin> fst ` set (ws k')" by fastforce
      with registry_disj [OF reg k'(1,2) k] show "fst ` set (ws k') \<inter> insert ?p (fst ` set (ws k)) = {}"
        by simp
    qed (use ins(3) l(3) me in auto)
    have "dom h' \<subseteq> insert ?p (dom (nodes w))"
    proof
      fix a assume a: "a \<in> dom h'"
      show "a \<in> insert ?p (dom (nodes w))"
        using a ins(3) alloc [of a k] k by (cases "a \<in> insert ?p (fst ` set (ws k))") auto
    qed
    then have "finite (dom h')" "card (dom h') \<le> Suc (card (dom (nodes w)))"
      using fin card_mono [of "insert ?p (dom (nodes w))" "dom h'"] p(2)
      by (auto intro: finite_subset simp: card_insert_if split: if_splits)
    moreover have "world_ok ?w (A(fst k \<mapsto> the (A (fst k))))"
      by (rule world_ok_update [OF world ch reg', where ch' = "set_wait_list (snd k) (Some l') ch"]) (use D in simp_all)
    then have "world_ok ?w A" using D(2) by (simp only: map_upd_the)
    ultimately have "registry_ok A malloc me n ?w"
      using me N unfolding registry_ok_def by (auto intro!: exI [of _ N])
    moreover have "dom (chans ?w) = dom (chans w)" using ch by auto
    moreover from this have "wait_members ?w = (wait_members w)(k := me # wait_members w k)"
      using registry_members [OF reg'] registry_members [OF reg] k by (auto simp: fun_eq_iff)
    moreover have "me \<notin> set (wait_members w k)" using mem False by simp
    ultimately show ?thesis using step by auto
  qed
qed

text \<open>The nodes of the registry are allocated.\<close>

lemma registry_alloc:
  assumes reg: "registry w ws" and a: "a \<in> fst ` set (ws k)" "fst k \<in> dom (chans w)"
  shows "nodes w a \<noteq> None"
proof -
  from a(2) obtain ch where "chans w (fst k) = Some ch" by auto
  from registryD [OF reg this, of "snd k"] obtain l where "list_rep (nodes w) l (ws k)" by auto
  from list_rep_alloc [OF this a(1)] show ?thesis .
qed

lemma unregister_step:
  assumes ok: "registry_ok A malloc me n w" and k: "fst k \<in> dom (chans w)"
  shows "\<exists>w'. unregister_entry me k w = Some (True, w') \<and> registry_ok A malloc me n w' \<and>
    dom (chans w') = dom (chans w) \<and>
    wait_members w' = (wait_members w)(k := remove1 me (wait_members w k))"
proof -
  from ok have world: "world_ok w A" and me: "sems w me \<noteq> None"
    and fin: "finite (dom (nodes w))" by (simp_all add: registry_ok_def)
  from ok obtain N where N: "malloc_upto N malloc" "card (dom (nodes w)) + n \<le> N"
    unfolding registry_ok_def by blast
  from world obtain ws where reg: "registry w ws" unfolding world_ok_def by blast
  from k obtain ch where ch: "chans w (fst k) = Some ch" by auto
  note D = world_okD [OF world ch]
  from registryD [OF reg ch, of "snd k"] obtain l where l: "wait_list (snd k) ch = Some l"
    "list_rep (nodes w) l (ws k)" "\<forall>x \<in> set (ws k). sems w (snd x) \<noteq> None" by auto
  from registry_members [OF reg] k have mem: "wait_members w k = map snd (ws k)" by simp
  show ?thesis
  proof (cases "me \<in> snd ` set (ws k)")
    case False
    then have "unregister_entry me k w = Some (True, w)"
      using ch D l(1) list_find_rep [OF l(2), of me] addr_of_NULL [OF False]
      by (simp add: unregister_entry_def)
    moreover have "remove1 me (wait_members w k) = wait_members w k"
      using mem False by (simp add: remove1_idem)
    ultimately show ?thesis using ok by simp
  next
    case True
    from list_find_found [OF l(2) True] obtain xs a ys where
      s: "ws k = xs @ (a, me) # ys" "me \<notin> snd ` set xs"
        "list_find (Some l) (nodes w) me = Some a" "a \<noteq> NULL" by blast
    from list_remove_rep [of "nodes w" l xs a me ys] l(2) s(1) obtain l' h' where
      rem: "list_remove a (Some l) (nodes w) = Some (Some l', h')" "list_rep h' l' (xs @ ys)"
        "h' a = None" "\<forall>b. b \<notin> fst ` set (ws k) \<longrightarrow> h' b = nodes w b" by auto
    let ?w = "w\<lparr>chans := (chans w)(fst k \<mapsto> set_wait_list (snd k) (Some l') ch), nodes := h'\<rparr>"
    have step: "unregister_entry me k w = Some (True, ?w)"
      using ch D l(1) s rem(1) by (simp add: unregister_entry_def)
    have reg': "registry ?w (ws(k := xs @ ys))"
    proof (rule registry_update [OF reg ch rem(2), where F = "fst ` set (ws k)"])
      fix k' assume "k' \<noteq> k" "fst k' \<in> dom (chans w)"
      from registry_disj [OF reg this k] show "fst ` set (ws k') \<inter> fst ` set (ws k) = {}" .
    qed (use rem(4) l(3) s(1) in auto)
    have sub: "dom h' \<subseteq> dom (nodes w)"
    proof
      fix b assume b: "b \<in> dom h'"
      show "b \<in> dom (nodes w)"
        using b rem(4) registry_alloc [OF reg _ k, of b] by (cases "b \<in> fst ` set (ws k)") auto
    qed
    then have "finite (dom h')" "card (dom h') \<le> card (dom (nodes w))"
      using fin by (auto intro: finite_subset card_mono)
    moreover have "world_ok ?w (A(fst k \<mapsto> the (A (fst k))))"
      by (rule world_ok_update [OF world ch reg', where ch' = "set_wait_list (snd k) (Some l') ch"]) (use D in simp_all)
    then have "world_ok ?w A" using D(2) by (simp only: map_upd_the)
    ultimately have "registry_ok A malloc me n ?w"
      using me N unfolding registry_ok_def by (auto intro!: exI [of _ N])
    moreover have "dom (chans ?w) = dom (chans w)" using ch by auto
    moreover from this have "wait_members ?w = (wait_members w)(k := map snd (xs @ ys))"
      using registry_members [OF reg'] registry_members [OF reg] k by (auto simp: fun_eq_iff)
    moreover have "remove1 me (wait_members w k) = map snd (xs @ ys)"
      using mem s by (simp add: remove1_append image_iff)
    ultimately show ?thesis using step by auto
  qed
qed

interpretation sel: waiter_registry "registry_ok A malloc me" "\<lambda>w. dom (chans w) \<times> UNIV"
  wait_members me "register_entry malloc me" "unregister_entry me" for A malloc me
proof (unfold_locales, goal_cases)
  case (1 n w k)
  then show ?case using register_step [of A malloc me n w k] by (auto simp: mem_Times_iff)
next
  case (2 n w k)
  then show ?case using unregister_step [of A malloc me n w k] by (auto simp: mem_Times_iff)
qed

section \<open>One attempt\<close>

text \<open>The specification of an attempt: the operation of the abstract channel.\<close>

definition spec_entry :: "select_t \<Rightarrow> abs_chan \<Rightarrow> reply \<times> select_t \<times> abs_chan" where
  "spec_entry s a =
     (if is_send s then (case spec_send (sel_data s) False a of (r, a') \<Rightarrow> (r, s, a'))
      else (case spec_receive False a of
          (r, d, a') \<Rightarrow> (r, (case d of None \<Rightarrow> s | Some v \<Rightarrow> s\<lparr>sel_data := v\<rparr>), a')))"

lemma env_of_simps [simp]:
  "chan (env_of w ch) = ch" "env_nodes (env_of w ch) = nodes w" "env_sems (env_of w ch) = sems w"
  by (simp_all add: env_of_def)

lemma put_env_simps [simp]:
  "chans (put_env c e w) = (chans w)(c \<mapsto> chan e)" "nodes (put_env c e w) = env_nodes e"
  "sems (put_env c e w) = env_sems e"
  by (simp_all add: put_env_def)

lemma world_ok_rep:
  assumes world: "world_ok w A" and ch: "chans w c = Some ch"
  shows "chan_rep (env_of w ch) (the (A c))"
proof -
  from world obtain ws where reg: "registry w ws" unfolding world_ok_def by blast
  have "\<exists>ds. waiters_ok (env_of w ch) (wait_list dir ch) ds" for dir
  proof -
    from registryD [OF reg ch, of dir] obtain l where "wait_list dir ch = Some l"
      "list_rep (nodes w) l (ws (c, dir))" "\<forall>x \<in> set (ws (c, dir)). sems w (snd x) \<noteq> None" by blast
    then have "waiters_ok (env_of w ch) (wait_list dir ch) (map snd (ws (c, dir)))"
      by (auto simp: waiters_ok_def)
    then show ?thesis ..
  qed
  from this [of True] this [of False] world_okD(3) [OF world ch] show ?thesis
    by (simp add: chan_rep_core wait_list_def)
qed

lemma put_env_ok:
  assumes world: "world_ok w A" and ch: "chans w c = Some ch" and rep: "chan_rep e a"
    and same: "same_lists (env_of w ch) e"
  shows "world_ok (put_env c e w) (A(c \<mapsto> a))" "wait_members (put_env c e w) = wait_members w"
proof -
  from world obtain ws where reg: "registry w ws" unfolding world_ok_def by blast
  have lists: "wait_list dir (chan e) = wait_list dir ch" for dir
    using same by (simp add: same_lists_def wait_list_def)
  have reg': "registry (put_env c e w) ws"
  proof (rule registryI, goal_cases)
    case (1 c' ch' dir)
    then obtain ch0 where "chans w c' = Some ch0" "wait_list dir ch' = wait_list dir ch0"
      using ch lists by (auto split: if_splits)
    with registryD [OF reg this(1), of dir] same show ?case
      by (auto simp: same_lists_def domIff set_eq_iff)
  next
    case (2 k k')
    from ch have "dom (chans (put_env c e w)) = dom (chans w)" by auto
    with 2(2,3) have "fst k \<in> dom (chans w)" "fst k' \<in> dom (chans w)" by (simp_all only:)
    from registry_disj [OF reg 2(1) this] show ?case .
  qed
  show "world_ok (put_env c e w) (A(c \<mapsto> a))"
    by (rule world_ok_update [OF world ch reg', where ch' = "chan e"])
      (use rep in \<open>simp_all add: chan_rep_core\<close>)
  show "wait_members (put_env c e w) = wait_members w"
    using registry_members [OF reg] registry_members [OF reg'] ch by (auto simp: fun_eq_iff)
qed

lemma send_on_wouldblock:
  "send_on d blocking e = Some (Returns WOULDBLOCK, e') \<Longrightarrow> env_sems e' = env_sems e"
  by (auto simp: send_on_def Let_def sem_ops split: if_splits Option.bind_splits)

lemma receive_on_wouldblock:
  "receive_on blocking e = Some (Returns WOULDBLOCK, d, e') \<Longrightarrow> env_sems e' = env_sems e"
  by (auto simp: receive_on_def Let_def sem_ops split: if_splits Option.bind_splits)

definition entry_ok :: "(u64 \<rightharpoonup> abs_chan) \<Rightarrow> select_t \<Rightarrow> bool" where
  "entry_ok A s \<longleftrightarrow> sel_channel s \<in> dom A \<and> (is_send s \<longrightarrow> sel_data s \<noteq> BUFFER_EMPTY)"

text \<open>\<open>tried w w' A'\<close>: what attempts leave behind.\<close>

definition tried :: "world \<Rightarrow> world \<Rightarrow> (u64 \<rightharpoonup> abs_chan) \<Rightarrow> bool" where
  "tried w w' A' \<longleftrightarrow> world_ok w' A' \<and> wait_members w' = wait_members w \<and> nodes w' = nodes w \<and>
     dom (sems w') = dom (sems w) \<and> dom (chans w') = dom (chans w)"

lemma try_entry_ok:
  assumes world: "world_ok w A" and s: "entry_ok A s"
    and spec: "spec_entry s (the (A (sel_channel s))) = (r, s', a)"
  shows "\<exists>w'. try_entry s w = Some (r, s', w') \<and> tried w w' (A(sel_channel s \<mapsto> a)) \<and>
    (r = Returns WOULDBLOCK \<longrightarrow> sems w' = sems w)"
proof -
  let ?c = "sel_channel s"
  from world s have "?c \<in> dom (chans w)" by (simp add: world_ok_def entry_ok_def)
  then obtain ch where ch: "chans w ?c = Some ch" by auto
  from world_okD(1) [OF world ch] have c: "?c \<noteq> NULL" .
  note rep = world_ok_rep [OF world ch]
  have done': "tried w (put_env ?c e w) (A(?c \<mapsto> a))"
    if "chan_rep e a" "same_lists (env_of w ch) e" for e
    using put_env_ok [OF world ch that] that(2) ch by (auto simp: tried_def same_lists_def)
  show ?thesis
  proof (cases "is_send s")
    case True
    with s have "sel_data s \<noteq> BUFFER_EMPTY" by (simp add: entry_ok_def)
    from send_on_refines [OF rep this, of False] True spec obtain e where
      e: "send_on (sel_data s) False (env_of w ch) = Some (r, e)" "chan_rep e a"
        "same_lists (env_of w ch) e" "s' = s"
      by (auto simp: spec_entry_def split: prod.splits)
    then have "try_entry s w = Some (r, s', put_env ?c e w)"
      using True c ch by (simp add: try_entry_def channel_send_def)
    with done' [OF e(2,3)] e(1) show ?thesis
      by (auto dest: send_on_wouldblock)
  next
    case False
    from receive_on_refines [OF rep, of False] False spec obtain d e where
      e: "receive_on False (env_of w ch) = Some (r, d, e)" "chan_rep e a"
        "same_lists (env_of w ch) e" "s' = (case d of None \<Rightarrow> s | Some v \<Rightarrow> s\<lparr>sel_data := v\<rparr>)"
      by (auto simp: spec_entry_def split: prod.splits)
    then have "try_entry s w = Some (r, s', put_env ?c e w)"
      using False c ch by (simp add: try_entry_def channel_receive_def)
    with done' [OF e(2,3)] e(1) show ?thesis
      by (auto dest: receive_on_wouldblock)
  qed
qed

section \<open>The loops\<close>

lemma for_entries_keys:
  "\<forall>i \<in> set is. i < length sel \<Longrightarrow> for_entries body sel is w =
     for_keys body (map (\<lambda>i. (sel_channel (sel ! i), is_send (sel ! i))) is) w"
  by (induction "is" arbitrary: w) (auto intro!: arg_cong [of _ _ "Option.bind _"] simp: fun_eq_iff)

definition sel_keys :: "select_t list \<Rightarrow> (u64 \<times> bool) list" where
  "sel_keys sel = map (\<lambda>s. (sel_channel s, is_send s)) sel"

lemma for_entries_all:
  "for_entries body sel [0..<length sel] w = for_keys body (sel_keys sel) w"
proof -
  have "map (\<lambda>i. (sel_channel (sel ! i), is_send (sel ! i))) [0..<length sel] = sel_keys sel"
    by (rule nth_equalityI) (simp_all add: sel_keys_def)
  with for_entries_keys [of "[0..<length sel]" sel body w] show ?thesis by simp
qed

lemma spec_entry_wouldblock:
  "spec_entry s a = (Returns WOULDBLOCK, s', a') \<Longrightarrow> s' = s \<and> a' = a"
  by (auto simp: spec_entry_def spec_send_def spec_receive_def
      split: prod.splits if_splits list.splits option.splits)

lemma spec_entry_never_blocks: "fst (spec_entry s a) \<noteq> Blocks"
  by (simp add: spec_entry_def spec_send_def spec_receive_def split: prod.splits list.splits)

lemma spec_entry_key: "spec_entry s a = (r, s', a') \<Longrightarrow>
  sel_channel s' = sel_channel s \<and> is_send s' = is_send s"
  by (auto simp: spec_entry_def split: prod.splits if_splits option.splits)

text \<open>The entries before \<open>j\<close> can do nothing; the inner loop comes to \<open>j\<close> with them untouched.\<close>

definition idle_until :: "(u64 \<rightharpoonup> abs_chan) \<Rightarrow> select_t list \<Rightarrow> nat \<Rightarrow> bool" where
  "idle_until A sel j \<longleftrightarrow>
     (\<forall>i < j. fst (spec_entry (sel ! i) (the (A (sel_channel (sel ! i))))) = Returns WOULDBLOCK)"

lemma tried_idle:
  assumes world: "world_ok w A" and s: "entry_ok A s"
    and idle: "fst (spec_entry s (the (A (sel_channel s)))) = Returns WOULDBLOCK"
  shows "\<exists>w'. try_entry s w = Some (Returns WOULDBLOCK, s, w') \<and> tried w w' A \<and> sems w' = sems w"
proof -
  obtain s' a where e: "spec_entry s (the (A (sel_channel s))) = (Returns WOULDBLOCK, s', a)"
    using idle by (cases "spec_entry s (the (A (sel_channel s)))") auto
  from spec_entry_wouldblock [OF e] have "s' = s" "a = the (A (sel_channel s))" by simp_all
  moreover from s have "sel_channel s \<in> dom A" by (simp add: entry_ok_def)
  ultimately show ?thesis using try_entry_ok [OF world s e] map_upd_the by metis
qed

lemma tried_trans: "tried w w1 A1 \<Longrightarrow> tried w1 w2 A2 \<Longrightarrow> tried w w2 A2"
  by (simp add: tried_def)

lemma select_scan_ready:
  assumes "world_ok w A" "\<forall>s \<in> set sel. entry_ok A s" "length sel = unat count"
    and "unat i \<le> j" "j < length sel" "idle_until A sel j"
    and "spec_entry (sel ! j) (the (A (sel_channel (sel ! j)))) = (r, s', a)" "r \<noteq> Returns WOULDBLOCK"
  shows "\<exists>w'. select_scan count i sel w = Some (r, of_nat j, sel[j := s'], w') \<and>
    tried w w' (A(sel_channel (sel ! j) \<mapsto> a))"
  using assms
proof (induction "j - unat i" arbitrary: i w)
  case 0
  then have ij: "unat i = j" by simp
  from 0 have "entry_ok A (sel ! j)" by simp
  from try_entry_ok [OF 0(2) this 0(8)] obtain w' where
    "try_entry (sel ! j) w = Some (r, s', w')" "tried w w' (A(sel_channel (sel ! j) \<mapsto> a))" by blast
  with 0 ij show ?case by (subst select_scan.simps) auto
next
  case (Suc n)
  then have i: "unat i < j" by simp
  with Suc.prems have "entry_ok A (sel ! unat i)"
    "fst (spec_entry (sel ! unat i) (the (A (sel_channel (sel ! unat i))))) = Returns WOULDBLOCK"
    by (auto simp: idle_until_def)
  from tried_idle [OF Suc.prems(1) this] obtain w1 where
    w1: "try_entry (sel ! unat i) w = Some (Returns WOULDBLOCK, sel ! unat i, w1)" "tried w w1 A" by blast
  have i1: "unat (i + 1) = unat i + 1"
    using i Suc.prems unat_lt64 [of count] by (intro unat_inc_small) simp
  have "i \<noteq> count - 1"
  proof
    assume "i = count - 1"
    then have "unat i + 1 = unat count" using i1 by simp
    with i Suc.prems show False by simp
  qed
  moreover have "n = j - unat (i + 1)" "unat (i + 1) \<le> j" "world_ok w1 A"
    using Suc.hyps(2) i i1 w1(2) by (simp_all add: tried_def)
  with Suc.hyps(1) [of "i + 1" w1] Suc.prems obtain w2 where
    "select_scan count (i + 1) sel w1 = Some (r, of_nat j, sel[j := s'], w2)"
    "tried w1 w2 (A(sel_channel (sel ! j) \<mapsto> a))" by blast
  ultimately show ?case using w1 i Suc.prems tried_trans
    by (subst select_scan.simps) auto
qed

lemma select_scan_idle:
  assumes "world_ok w A" "\<forall>s \<in> set sel. entry_ok A s" "length sel = unat count"
    and "unat i < length sel" "idle_until A sel (length sel)"
  shows "\<exists>w' j. select_scan count i sel w = Some (Returns WOULDBLOCK, j, sel, w') \<and>
    tried w w' A \<and> sems w' = sems w"
  using assms
proof (induction "length sel - unat i" arbitrary: i w)
  case (Suc n)
  from Suc.prems have "entry_ok A (sel ! unat i)"
    "fst (spec_entry (sel ! unat i) (the (A (sel_channel (sel ! unat i))))) = Returns WOULDBLOCK"
    by (auto simp: idle_until_def)
  from tried_idle [OF Suc.prems(1) this] obtain w1 where
    w1: "try_entry (sel ! unat i) w = Some (Returns WOULDBLOCK, sel ! unat i, w1)" "tried w w1 A"
      "sems w1 = sems w" by blast
  show ?case
  proof (cases "i = count - 1")
    case True
    with w1 Suc.prems show ?thesis by (subst select_scan.simps) auto
  next
    case False
    have "unat i + 1 \<noteq> unat count"
    proof
      assume "unat i + 1 = unat count"
      then have "of_nat (unat i + 1) = (of_nat (unat count) :: u64)" by simp
      with False show False by (simp add: algebra_simps)
    qed
    with Suc.prems have "unat i + 1 < length sel" by simp
    moreover from this have i1: "unat (i + 1) = unat i + 1"
      using Suc.prems unat_lt64 [of count] by (intro unat_inc_small) simp
    ultimately have "n = length sel - unat (i + 1)" "unat (i + 1) < length sel" "world_ok w1 A"
      using Suc.hyps(2) w1(2) by (simp_all add: tried_def)
    with Suc.hyps(1) [of "i + 1" w1] Suc.prems obtain w2 j where
      "select_scan count (i + 1) sel w1 = Some (Returns WOULDBLOCK, j, sel, w2)"
      "tried w1 w2 A" "sems w2 = sems w1" by blast
    with w1 Suc.prems tried_trans False show ?thesis
      by (subst select_scan.simps) auto
  qed
qed simp

section \<open>A whole call\<close>

text \<open>The preconditions of a call: a fresh semaphore, memory for the registrations.\<close>

definition select_pre :: "(node_heap \<Rightarrow> u64) \<Rightarrow> u64 \<Rightarrow> u64 \<Rightarrow> select_t list \<Rightarrow> (u64 \<rightharpoonup> abs_chan) \<Rightarrow>
    world \<Rightarrow> bool" where
  "select_pre malloc local count sel A w \<longleftrightarrow> world_ok w A \<and> (\<forall>s \<in> set sel. entry_ok A s) \<and>
     length sel = unat count \<and> sems w local = None \<and> finite (dom (nodes w)) \<and>
     malloc_upto (card (dom (nodes w)) + length sel) malloc"

lemma world_ok_sems:
  assumes world: "world_ok w A" and s: "\<And>x k. x \<in> set (wait_members w k) \<Longrightarrow> s x \<noteq> None"
  shows "world_ok (w\<lparr>sems := s\<rparr>) A" "wait_members (w\<lparr>sems := s\<rparr>) = wait_members w"
proof -
  from world obtain ws where reg: "registry w ws" unfolding world_ok_def by blast
  have reg': "registry (w\<lparr>sems := s\<rparr>) ws"
  proof (rule registryI, goal_cases)
    case (1 c ch dir)
    then have ch: "chans w c = Some ch" by simp
    then have "wait_members w (c, dir) = map snd (ws (c, dir))"
      using registry_members [OF reg, of "(c, dir)"] by auto
    then have "\<forall>x \<in> set (ws (c, dir)). s (snd x) \<noteq> None" using s [of _ "(c, dir)"] by auto
    with registryD [OF reg ch, of dir] show ?case by auto
  next
    case (2 k k')
    then show ?case using registry_disj [OF reg] by simp
  qed
  from world reg' show "world_ok (w\<lparr>sems := s\<rparr>) A" by (auto simp: world_ok_def)
  show "wait_members (w\<lparr>sems := s\<rparr>) = wait_members w"
    using registry_members [OF reg] registry_members [OF reg'] by (simp add: fun_eq_iff)
qed

lemma world_ok_members:
  assumes "world_ok w A" "x \<in> set (wait_members w k)"
  shows "sems w x \<noteq> None"
proof -
  from assms(1) obtain ws where reg: "registry w ws" unfolding world_ok_def by blast
  from assms(2) registry_members [OF reg, of k] have x: "x \<in> snd ` set (ws k)"
    "fst k \<in> dom (chans w)" by (auto split: if_splits)
  then obtain ch where "chans w (fst k) = Some ch" by auto
  from registryD [OF reg this, of "snd k"] x show ?thesis by auto
qed

lemma register_entry_sems: "register_entry malloc me k w = Some (b, w') \<Longrightarrow> sems w' = sems w"
  by (auto simp: register_entry_def split: if_splits Option.bind_splits)

lemma unregister_entry_sems: "unregister_entry me k w = Some (b, w') \<Longrightarrow> sems w' = sems w"
  by (auto simp: unregister_entry_def split: if_splits Option.bind_splits)

lemma for_keys_sems:
  "(\<And>k w b w'. body k w = Some (b, w') \<Longrightarrow> sems w' = sems w) \<Longrightarrow>
   for_keys body ks w = Some (b, w') \<Longrightarrow> sems w' = sems w"
proof (induction ks arbitrary: w)
  case (Cons k ks)
  from Cons.prems(2) obtain ok w1 where w1: "body k w = Some (ok, w1)"
    "(if ok then for_keys body ks w1 else Some (False, w1)) = Some (b, w')"
    by (auto split: Option.bind_splits)
  have s1: "sems w1 = sems w" by (rule Cons.prems(1) [OF w1(1)])
  show ?case
  proof (cases ok)
    case True
    with w1(2) have "for_keys body ks w1 = Some (b, w')" by simp
    from Cons.IH [OF Cons.prems(1) this] s1 show ?thesis by simp
  qed (use w1(2) s1 in simp)
qed simp

text \<open>After the first loop the caller is registered, once, under every key of the array.\<close>

lemma select_register:
  assumes "select_pre malloc local count sel A w"
  shows "\<exists>w1. for_entries (register_entry malloc local) sel [0..<unat count]
      (w\<lparr>sems := (sems w)(local \<mapsto> 0)\<rparr>) = Some (True, w1) \<and> registry_ok A malloc local 0 w1 \<and>
    sems w1 = (sems w)(local \<mapsto> 0) \<and> dom (chans w1) = dom (chans w) \<and>
    (\<forall>k. wait_members w1 k = (if k \<in> set (sel_keys sel) then local # wait_members w k
      else wait_members w k))"
proof -
  let ?w = "w\<lparr>sems := (sems w)(local \<mapsto> 0)\<rparr>"
  from assms have world: "world_ok w A" and fresh: "sems w local = None"
    and len: "length sel = unat count" and fin: "finite (dom (nodes w))"
    and N: "malloc_upto (card (dom (nodes w)) + length sel) malloc"
    and entries: "\<forall>s \<in> set sel. entry_ok A s" unfolding select_pre_def by blast+
  have out: "local \<notin> set (wait_members w k)" for k
    using world_ok_members [OF world] fresh by blast
  have "((sems w)(local \<mapsto> 0)) x \<noteq> None" if "x \<in> set (wait_members w k)" for x k
    using world_ok_members [OF world that] by simp
  note w = world_ok_sems [where s = "(sems w)(local \<mapsto> 0)", OF world this]
  then have ok: "registry_ok A malloc local (length (sel_keys sel) + 0) ?w"
    using fin N by (auto simp: registry_ok_def sel_keys_def)
  have keys: "set (sel_keys sel) \<subseteq> dom (chans ?w) \<times> UNIV"
    using entries world by (auto simp: sel_keys_def entry_ok_def world_ok_def)
  from sel.register_all [OF ok keys] obtain w1 where w1:
    "for_keys (register_entry malloc local) (sel_keys sel) ?w = Some (True, w1)"
    "registry_ok A malloc local 0 w1" "dom (chans w1) \<times> (UNIV :: bool set) = dom (chans ?w) \<times> UNIV"
    "\<forall>k. wait_members w1 k = (if k \<in> set (sel_keys sel) \<and> local \<notin> set (wait_members ?w k)
      then local # wait_members ?w k else wait_members ?w k)" by blast
  have "sems w1 = sems ?w"
    using for_keys_sems [OF _ w1(1)] register_entry_sems by blast
  moreover from w1(3) have "dom (chans w1) = dom (chans w)" by (auto simp: set_eq_iff)
  moreover have "for_entries (register_entry malloc local) sel [0..<unat count] ?w = Some (True, w1)"
    using w1(1) for_entries_all [of "register_entry malloc local" sel ?w] by (simp only: len)
  ultimately show ?thesis using w1(2,4) w(2) out by simp
qed

lemma select_unregister:
  assumes ok: "registry_ok A malloc local 0 w" and keys: "set (sel_keys sel) \<subseteq> dom (chans w) \<times> UNIV"
    and len: "length sel = unat count" and out: "\<And>k. local \<notin> set (old k)"
    and mem: "\<And>k. wait_members w k = (if k \<in> set (sel_keys sel) then local # old k else old k)"
  shows "\<exists>w1. for_entries (unregister_entry local) sel [0..<unat count] w = Some (True, w1) \<and>
    world_ok (w1\<lparr>sems := (sems w1)(local := None)\<rparr>) A \<and> sems w1 = sems w \<and>
    wait_members (w1\<lparr>sems := (sems w1)(local := None)\<rparr>) = old"
proof -
  have "count_list (wait_members w k) local \<le> 1" for k
    using out [of k] by (simp add: mem count_list_0_iff)
  from sel.unregister_all [OF ok keys this] obtain w1 where w1:
    "for_keys (unregister_entry local) (sel_keys sel) w = Some (True, w1)"
    "registry_ok A malloc local 0 w1"
    "\<forall>k. wait_members w1 k = (if k \<in> set (sel_keys sel) then remove1 local (wait_members w k)
      else wait_members w k)" by blast
  have old: "wait_members w1 = old"
    using w1(3) mem by (auto simp: fun_eq_iff)
  from w1(2) have world: "world_ok w1 A" by (simp add: registry_ok_def)
  have "((sems w1)(local := None)) x \<noteq> None" if "x \<in> set (wait_members w1 k)" for x k
    using world_ok_members [OF world that] that out [of k] by (auto simp: old)
  note done' = world_ok_sems [where s = "(sems w1)(local := None)", OF world this]
  have "sems w1 = sems w" using for_keys_sems [OF _ w1(1)] unregister_entry_sems by blast
  moreover have "for_entries (unregister_entry local) sel [0..<unat count] w = Some (True, w1)"
    using w1(1) for_entries_all [of "unregister_entry local" sel w] by (simp only: len)
  ultimately show ?thesis using done' old by simp
qed

section \<open>The operations on a world\<close>

lemma world_ok_chan:
  assumes "world_ok w A" "A c = Some a"
  shows "\<exists>ch. chans w c = Some ch"
proof -
  have "dom (chans w) = dom A" using assms(1) by (simp add: world_ok_def)
  with assms(2) show ?thesis by blast
qed

text \<open>\<open>channel_create\<close> adds an empty channel without waiters.\<close>

lemma channel_create_world:
  assumes world: "world_ok w A" and p: "p \<noteq> NULL" "p \<notin> dom A"
    and sz: "0 < sz" "unat sz \<le> SEM_VALUE_MAX"
  shows "\<exists>w'. channel_create p True True True True fresh garbage sz w = Some (p, w') \<and>
    world_ok w' (A(p \<mapsto> \<lparr>a_cap = unat sz, a_items = [], a_closed = False\<rparr>)) \<and>
    nodes w' = nodes w \<and> sems w' = sems w"
proof -
  from channel_create_rep [OF p(1) sz, of fresh garbage w] obtain ch where
    ch: "channel_create p True True True True fresh garbage sz w =
      Some (p, w\<lparr>chans := (chans w)(p \<mapsto> ch)\<rparr>)"
    "chan_rep (env_of w ch) \<lparr>a_cap = unat sz, a_items = [], a_closed = False\<rparr>" by blast
  let ?w = "w\<lparr>chans := (chans w)(p \<mapsto> ch)\<rparr>"
  from world obtain ws where reg: "registry w ws" unfolding world_ok_def by blast
  from world p have new: "chans w p = None" by (auto simp: world_ok_def)
  from list_create_rep [of "nodes w"] obtain l where l: "list_create True = Some l"
    "list_rep (nodes w) l []" by blast
  have lists: "wait_list dir ch = Some l" for dir
  proof -
    from ch(1) p sz l(1) have "recv_list (the ((chans ?w) p)) = Some l \<and>
        send_list (the ((chans ?w) p)) = Some l"
      by (auto simp: channel_create_def split: Option.bind_splits
          dest!: arg_cong [of _ _ "\<lambda>w. chans w p"])
    then show ?thesis by (simp add: wait_list_def)
  qed
  let ?ws = "ws((p, True) := [], (p, False) := [])"
  have ws: "?ws k = (if fst k = p then [] else ws k)" for k by (cases k) auto
  have "registry ?w ?ws"
  proof (rule registryI, goal_cases)
    case (1 c ch' dir)
    show ?case
    proof (cases "c = p")
      case True
      with 1 lists l(2) show ?thesis by (auto simp: ws)
    next
      case False
      with 1 have "chans w c = Some ch'" by simp
      from registryD [OF reg this, of dir] False show ?thesis by (auto simp: ws)
    qed
  next
    case (2 k k')
    show ?case
    proof (cases "fst k = p \<or> fst k' = p")
      case True
      then show ?thesis unfolding ws by auto
    next
      case False
      with 2(2,3) have "fst k \<in> dom (chans w)" "fst k' \<in> dom (chans w)" by auto
      from registry_disj [OF reg 2(1) this] False show ?thesis unfolding ws by simp
    qed
  qed
  then have "world_ok ?w (A(p \<mapsto> \<lparr>a_cap = unat sz, a_items = [], a_closed = False\<rparr>))"
    using world p ch(2) by (auto simp: world_ok_def chan_rep_core)
  with ch(1) show ?thesis by auto
qed

lemma channel_send_world:
  assumes world: "world_ok w A" and a: "A c = Some a" and d: "d \<noteq> BUFFER_EMPTY"
  shows "\<exists>w'. channel_send c d blocking w = Some (fst (spec_send d blocking a), w') \<and>
    world_ok w' (A(c \<mapsto> snd (spec_send d blocking a))) \<and> wait_members w' = wait_members w"
proof -
  from world a obtain ch where ch: "chans w c = Some ch"
    using world_ok_chan by blast
  from world_ok_rep [OF world ch] a have "chan_rep (env_of w ch) a" by simp
  from send_on_refines [OF this d, of blocking] obtain e where e:
    "send_on d blocking (env_of w ch) = Some (fst (spec_send d blocking a), e)"
    "chan_rep e (snd (spec_send d blocking a))" "same_lists (env_of w ch) e" by blast
  with put_env_ok [OF world ch e(2,3)] world_okD(1) [OF world ch] ch show ?thesis
    by (simp add: channel_send_def)
qed

lemma channel_receive_world:
  assumes world: "world_ok w A" and a: "A c = Some a"
  shows "\<exists>w'. channel_receive c blocking w = Some (fst (spec_receive blocking a),
      fst (snd (spec_receive blocking a)), w') \<and>
    world_ok w' (A(c \<mapsto> snd (snd (spec_receive blocking a)))) \<and> wait_members w' = wait_members w"
proof -
  from world a obtain ch where ch: "chans w c = Some ch"
    using world_ok_chan by blast
  from world_ok_rep [OF world ch] a have "chan_rep (env_of w ch) a" by simp
  from receive_on_refines [OF this, of blocking] obtain e where e:
    "receive_on blocking (env_of w ch) = Some (fst (spec_receive blocking a),
       fst (snd (spec_receive blocking a)), e)"
    "chan_rep e (snd (snd (spec_receive blocking a)))" "same_lists (env_of w ch) e" by blast
  with put_env_ok [OF world ch e(2,3)] world_okD(1) [OF world ch] ch show ?thesis
    by (simp add: channel_receive_def)
qed

lemma channel_close_world:
  assumes world: "world_ok w A" and a: "A c = Some a"
  shows "\<exists>w'. channel_close c w = Some (fst (spec_close a), w') \<and>
    world_ok w' (A(c \<mapsto> snd (spec_close a))) \<and> wait_members w' = wait_members w"
proof -
  from world a obtain ch where ch: "chans w c = Some ch"
    using world_ok_chan by blast
  from world_ok_rep [OF world ch] a have "chan_rep (env_of w ch) a" by simp
  from close_on_refines [OF this] obtain e where e:
    "close_on (env_of w ch) = Some (fst (spec_close a), e)"
    "chan_rep e (snd (spec_close a))" "same_lists (env_of w ch) e" by blast
  with put_env_ok [OF world ch e(2,3)] world_okD(1) [OF world ch] ch show ?thesis
    by (simp add: channel_close_def)
qed

text \<open>
  \<open>channel_destroy\<close> refuses an open channel; it frees the nodes of a closed one's lists, each
  once, the buffer and the channel.
\<close>

lemma channel_destroy_world:
  assumes world: "world_ok w A" and a: "A c = Some a"
  shows "\<exists>w'. channel_destroy c w = Some (if a_closed a then SUCCESS else DESTROY_ERROR, w') \<and>
    world_ok w' (if a_closed a then A(c := None) else A) \<and>
    (\<forall>k. wait_members w' k = (if a_closed a \<and> fst k = c then [] else wait_members w k)) \<and>
    sems w' = sems w \<and> dom (nodes w') \<subseteq> dom (nodes w)"
proof -
  from world a obtain ch where ch: "chans w c = Some ch"
    using world_ok_chan by blast
  from world_okD(3) [OF world ch] a have core: "chan_core ch a" by simp
  have c: "c \<noteq> NULL" by (rule world_okD(1) [OF world ch])
  show ?thesis
  proof (cases "a_closed a")
    case False
    with core ch c have "channel_destroy c w = Some (DESTROY_ERROR, w)"
      by (simp add: channel_destroy_def chan_core_def)
    with False world show ?thesis by simp
  next
    case True
    from core obtain b where b: "ch_buffer ch = Some b" by (auto simp: chan_core_def)
    from world obtain ws where reg: "registry w ws" unfolding world_ok_def by blast
    from registryD [OF reg ch, of True] obtain lr where lr: "recv_list ch = Some lr"
      "list_rep (nodes w) lr (ws (c, True))" by (auto simp: wait_list_def)
    from registryD [OF reg ch, of False] obtain ls where ls: "send_list ch = Some ls"
      "list_rep (nodes w) ls (ws (c, False))" by (auto simp: wait_list_def)
    let ?R = "fst ` set (ws (c, True))" and ?S = "fst ` set (ws (c, False))"
    let ?h1 = "\<lambda>x. if x \<in> ?R then None else nodes w x"
    let ?h2 = "\<lambda>x. if x \<in> ?S then None else ?h1 x"
    have "?R \<inter> ?S = {}" using registry_disj [OF reg, of "(c, True)" "(c, False)"] ch by auto
    then have "list_rep ?h1 ls (ws (c, False))" by (intro list_rep_cong [OF ls(2)]) auto
    from list_destroy_rep [OF this] list_destroy_rep [OF lr(2)]
    have destr: "list_destroy lr (nodes w) = Some ?h1" "list_destroy ls ?h1 = Some ?h2"
      by simp_all
    let ?w = "w\<lparr>nodes := ?h2, chans := (chans w)(c := None)\<rparr>"
    have closed: "closed ch" using core True by (simp add: chan_core_def)
    have step: "channel_destroy c w = Some (SUCCESS, ?w)"
      unfolding channel_destroy_def using c ch closed lr(1) ls(1) b destr by simp
    have reg': "registry ?w ws"
    proof (rule registryI, goal_cases)
      case (1 c' ch' dir)
      then have c': "c' \<noteq> c" "chans w c' = Some ch'" by (auto split: if_splits)
      from registryD [OF reg c'(2), of dir] obtain l where l: "wait_list dir ch' = Some l"
        "list_rep (nodes w) l (ws (c', dir))" "\<forall>x \<in> set (ws (c', dir)). sems w (snd x) \<noteq> None" by blast
      have "list_rep ?h2 l (ws (c', dir))"
      proof (rule list_rep_cong [OF l(2)])
        fix x assume "x \<in> fst ` set (ws (c', dir))"
        moreover have "fst ` set (ws (c', dir)) \<inter> ?R = {}" "fst ` set (ws (c', dir)) \<inter> ?S = {}"
          using registry_disj [OF reg, of "(c', dir)" "(c, True)"]
            registry_disj [OF reg, of "(c', dir)" "(c, False)"] c' ch by auto
        ultimately show "?h2 x = nodes w x" by auto
      qed
      with l show ?case by simp
    next
      case (2 k k')
      then have "fst k \<in> dom (chans w)" "fst k' \<in> dom (chans w)" by auto
      from registry_disj [OF reg 2(1) this] show ?case .
    qed
    have "world_ok ?w (A(c := None))"
      using world reg' by (auto simp: world_ok_def)
    moreover have "wait_members ?w k = (if fst k = c then [] else wait_members w k)" for k
      using registry_members [OF reg'] registry_members [OF reg] by auto
    moreover have "dom ?h2 \<subseteq> dom (nodes w)" by (auto split: if_splits)
    ultimately show ?thesis using step True by auto
  qed
qed

text \<open>The two outcomes of a call.\<close>

lemma select_performs:
  assumes pre: "select_pre malloc local count sel A w" and j: "j < length sel"
    and idle: "idle_until A sel j"
    and spec: "spec_entry (sel ! j) (the (A (sel_channel (sel ! j)))) = (Returns status, s, a)"
    and status: "status \<noteq> WOULDBLOCK"
  shows "\<exists>w'. channel_select malloc local count sel w =
      Some (SelReturns status (of_nat j), sel[j := s], w') \<and>
    world_ok w' (A(sel_channel (sel ! j) \<mapsto> a)) \<and> wait_members w' = wait_members w \<and>
    dom (sems w') = dom (sems w)"
proof -
  let ?A = "A(sel_channel (sel ! j) \<mapsto> a)"
  from pre have world: "world_ok w A" and fresh: "sems w local = None"
    and len: "length sel = unat count" and entries: "\<forall>s \<in> set sel. entry_ok A s"
    by (simp_all add: select_pre_def)
  have out: "local \<notin> set (wait_members w k)" for k
    using world_ok_members [OF world] fresh by blast
  from select_register [OF pre] obtain w1 where w1:
    "for_entries (register_entry malloc local) sel [0..<unat count]
       (w\<lparr>sems := (sems w)(local \<mapsto> 0)\<rparr>) = Some (True, w1)"
    "registry_ok A malloc local 0 w1" "sems w1 = (sems w)(local \<mapsto> 0)"
    "dom (chans w1) = dom (chans w)"
    "\<forall>k. wait_members w1 k = (if k \<in> set (sel_keys sel) then local # wait_members w k
      else wait_members w k)" by blast
  then have world1: "world_ok w1 A" by (simp add: registry_ok_def)
  from select_scan_ready [OF world1 entries len _ j idle spec, of 0] status obtain w2 where
    w2: "select_scan count 0 sel w1 = Some (Returns status, of_nat j, sel[j := s], w2)"
      "tried w1 w2 ?A" by auto
  have keys': "sel_keys (sel[j := s]) = sel_keys sel"
    using spec_entry_key [OF spec] j by (simp add: sel_keys_def map_update list_update_same_conv)
  from w2(2) w1(2,3) have ok: "registry_ok ?A malloc local 0 w2"
    by (auto simp: tried_def registry_ok_def domIff set_eq_iff)
  have keys: "set (sel_keys (sel[j := s])) \<subseteq> dom (chans w2) \<times> UNIV"
    using entries world w2(2) w1(4) unfolding keys'
    by (auto simp: sel_keys_def entry_ok_def world_ok_def tried_def)
  have len': "length (sel[j := s]) = unat count" using len by simp
  have "wait_members w2 k = (if k \<in> set (sel_keys (sel[j := s])) then local # wait_members w k
      else wait_members w k)" for k
    unfolding keys' using w1(5) [rule_format, of k] w2(2) by (simp add: tried_def)
  from select_unregister [OF ok keys len' out this] obtain w3 where w3:
    "for_entries (unregister_entry local) (sel[j := s]) [0..<unat count] w2 = Some (True, w3)"
    "world_ok (w3\<lparr>sems := (sems w3)(local := None)\<rparr>) ?A" "sems w3 = sems w2"
    "wait_members (w3\<lparr>sems := (sems w3)(local := None)\<rparr>) = wait_members w" by blast
  have "channel_select malloc local count sel w = Some (SelReturns status (of_nat j), sel[j := s],
      w3\<lparr>sems := (sems w3)(local := None)\<rparr>)"
    using w1(1) w2(1) w3(1,3) status by (simp add: channel_select_def select_loop.simps)
  moreover have "dom (sems w2) = insert local (dom (sems w))"
    using w2(2) w1(3) by (simp add: tried_def)
  then have "dom ((sems w3)(local := None)) = dom (sems w)"
    using fresh w3(3) by auto
  ultimately show ?thesis using w3 by auto
qed

lemma select_sleeps:
  assumes pre: "select_pre malloc local count sel A w" and n: "0 < length sel"
    and idle: "idle_until A sel (length sel)"
  shows "\<exists>w'. channel_select malloc local count sel w = Some (SelWaits, sel, w') \<and>
    world_ok w' A \<and> sems w' = (sems w)(local \<mapsto> 0) \<and>
    (\<forall>k. wait_members w' k = (if k \<in> set (sel_keys sel) then local # wait_members w k
      else wait_members w k))"
proof -
  from pre have len: "length sel = unat count" and entries: "\<forall>s \<in> set sel. entry_ok A s"
    by (simp_all add: select_pre_def)
  from select_register [OF pre] obtain w1 where w1:
    "for_entries (register_entry malloc local) sel [0..<unat count]
       (w\<lparr>sems := (sems w)(local \<mapsto> 0)\<rparr>) = Some (True, w1)"
    "registry_ok A malloc local 0 w1" "sems w1 = (sems w)(local \<mapsto> 0)"
    "\<forall>k. wait_members w1 k = (if k \<in> set (sel_keys sel) then local # wait_members w k
      else wait_members w k)" by blast
  then have world1: "world_ok w1 A" by (simp add: registry_ok_def)
  from select_scan_idle [OF world1 entries len _ idle, of 0] n obtain w2 i where
    w2: "select_scan count 0 sel w1 = Some (Returns WOULDBLOCK, i, sel, w2)"
      "tried w1 w2 A" "sems w2 = sems w1" by auto
  have "channel_select malloc local count sel w = Some (SelWaits, sel, w2)"
    using w1(1,3) w2(1,3) by (simp add: channel_select_def select_loop.simps)
  with w1 w2 show ?thesis by (auto simp: tried_def)
qed

text \<open>When some entry can proceed there is a first one.\<close>

lemma first_ready:
  assumes "\<not> idle_until A sel (length sel)"
  obtains j status s a where "j < length sel" "idle_until A sel j"
    "spec_entry (sel ! j) (the (A (sel_channel (sel ! j)))) = (Returns status, s, a)" "status \<noteq> WOULDBLOCK"
proof -
  let ?P = "\<lambda>j. j < length sel \<and> fst (spec_entry (sel ! j) (the (A (sel_channel (sel ! j))))) \<noteq> Returns WOULDBLOCK"
  define j where "j = (LEAST j. ?P j)"
  have "\<exists>j. ?P j" using assms by (auto simp: idle_until_def)
  then have j: "?P j" unfolding j_def by (rule LeastI_ex)
  have "\<not> ?P i" if "i < j" for i using that unfolding j_def by (rule not_less_Least)
  with j have "idle_until A sel j" by (auto simp: idle_until_def)
  moreover obtain r s a where e: "spec_entry (sel ! j) (the (A (sel_channel (sel ! j)))) = (r, s, a)"
    by (rule prod_cases3)
  moreover from e spec_entry_never_blocks [of "sel ! j" "the (A (sel_channel (sel ! j)))"]
  obtain status where "r = Returns status" by (cases r) auto
  ultimately show ?thesis using that j by auto
qed

lemma select_decides:
  assumes pre: "select_pre malloc local count sel A w" and "\<not> idle_until A sel (length sel)"
  shows "\<exists>status i sel' w'. channel_select malloc local count sel w = Some (SelReturns status i, sel', w')"
proof -
  from first_ready [OF assms(2)] obtain j status s a where "j < length sel" "idle_until A sel j"
    "spec_entry (sel ! j) (the (A (sel_channel (sel ! j)))) = (Returns status, s, a)" "status \<noteq> WOULDBLOCK" .
  from select_performs [OF pre this] show ?thesis by blast
qed

section \<open>Properties\<close>

text \<open>C6: \<open>channel_select\<close> performs the operation of the first entry that can proceed (or that
  finds its channel closed) and no other, returns its status and index, and leaves every
  waiting list and every other semaphore as it found them.\<close>

theorem select_ready:
  assumes pre: "select_pre malloc local count sel A w" and j: "j < length sel"
    and idle: "idle_until A sel j"
    and spec: "spec_entry (sel ! j) (the (A (sel_channel (sel ! j)))) = (Returns status, s, a)"
    and status: "status \<noteq> WOULDBLOCK"
  shows "\<exists>w'. channel_select malloc local count sel w =
      Some (SelReturns status (of_nat j), sel[j := s], w') \<and>
    world_ok w' (A(sel_channel (sel ! j) \<mapsto> a)) \<and> wait_members w' = wait_members w \<and>
    dom (sems w') = dom (sems w)"
  by (rule select_performs [OF assms])

text \<open>An empty world, and one with a single channel of capacity 1, for concrete instances.\<close>

definition no_world :: world where
  "no_world = \<lparr>chans = Map.empty, nodes = Map.empty, sems = Map.empty\<rparr>"

lemma no_world_ok: "world_ok no_world Map.empty"
  by (auto simp: world_ok_def registry_def no_world_def)

lemma one_channel:
  "\<exists>w. channel_create 8 True True True True (\<lambda>_. 0) 0 1 no_world = Some (8, w) \<and>
    world_ok w [8 \<mapsto> \<lparr>a_cap = 1, a_items = [], a_closed = False\<rparr>] \<and>
    nodes w = Map.empty \<and> sems w = Map.empty"
  using channel_create_world [OF no_world_ok, of 8 1 "\<lambda>_. 0" 0]
  by (simp add: SEM_VALUE_MAX_def no_world_def)

lemma one_channel_pre:
  assumes "world_ok w [8 \<mapsto> \<lparr>a_cap = 1, a_items = [], a_closed = False\<rparr>]"
    and "nodes w = Map.empty" and "sems w = Map.empty" and "dir \<longrightarrow> v \<noteq> BUFFER_EMPTY"
  shows "select_pre (\<lambda>_. 64) 100 1 [\<lparr>sel_channel = 8, is_send = dir, sel_data = v\<rparr>]
    [8 \<mapsto> \<lparr>a_cap = 1, a_items = [], a_closed = False\<rparr>] w"
  using assms by (auto simp: select_pre_def entry_ok_def malloc_upto_def)

theorem select_ready_witness:
  "\<exists>w w'. channel_create 8 True True True True (\<lambda>_. 0) 0 1 no_world = Some (8, w) \<and>
    channel_select (\<lambda>_. 64) 100 1 [\<lparr>sel_channel = 8, is_send = True, sel_data = 7\<rparr>] w =
      Some (SelReturns SUCCESS 0, [\<lparr>sel_channel = 8, is_send = True, sel_data = 7\<rparr>], w') \<and>
    world_ok w' [8 \<mapsto> \<lparr>a_cap = 1, a_items = [7], a_closed = False\<rparr>]"
proof -
  let ?A = "[8 \<mapsto> \<lparr>a_cap = 1, a_items = [], a_closed = False\<rparr>] :: u64 \<rightharpoonup> abs_chan"
  let ?s = "\<lparr>sel_channel = 8, is_send = True, sel_data = 7\<rparr> :: select_t"
  from one_channel obtain w where
    w: "channel_create 8 True True True True (\<lambda>_. 0) 0 1 no_world = Some (8, w)"
      "world_ok w ?A" "nodes w = Map.empty" "sems w = Map.empty" by blast
  have "select_pre (\<lambda>_. 64) 100 1 [?s] ?A w"
    by (rule one_channel_pre) (use w in \<open>simp_all add: BUFFER_EMPTY_def\<close>)
  from select_ready [OF this, of 0 SUCCESS ?s "\<lparr>a_cap = 1, a_items = [7], a_closed = False\<rparr>"] w
  show ?thesis by (auto simp: idle_until_def spec_entry_def spec_send_def)
qed

text \<open>C8: \<open>channel_select\<close> goes to sleep exactly when no entry can proceed. It then sleeps on its own semaphore
  (value 0), registered once in the waiting list of every entry, with the channels and the
  array unchanged.\<close>

theorem select_waits:
  assumes pre: "select_pre malloc local count sel A w" and n: "0 < length sel"
  shows "((\<exists>sel' w'. channel_select malloc local count sel w = Some (SelWaits, sel', w')) \<longleftrightarrow>
      idle_until A sel (length sel)) \<and>
    (idle_until A sel (length sel) \<longrightarrow>
      (\<exists>w'. channel_select malloc local count sel w = Some (SelWaits, sel, w') \<and>
        world_ok w' A \<and> sems w' = (sems w)(local \<mapsto> 0) \<and>
        (\<forall>k. wait_members w' k = (if k \<in> set (sel_keys sel) then local # wait_members w k
          else wait_members w k))))"
proof (cases "idle_until A sel (length sel)")
  case True
  with select_sleeps [OF pre n True] show ?thesis by blast
next
  case False
  from select_decides [OF pre False] obtain status i sel' w' where
    "channel_select malloc local count sel w = Some (SelReturns status i, sel', w')" by blast
  with False show ?thesis by simp
qed

theorem select_waits_witness:
  "\<exists>w w'. channel_create 8 True True True True (\<lambda>_. 0) 0 1 no_world = Some (8, w) \<and>
    channel_select (\<lambda>_. 64) 100 1 [\<lparr>sel_channel = 8, is_send = False, sel_data = 0\<rparr>] w =
      Some (SelWaits, [\<lparr>sel_channel = 8, is_send = False, sel_data = 0\<rparr>], w') \<and>
    sems w' = [100 \<mapsto> 0] \<and> set (wait_members w' (8, False)) = insert 100 (set (wait_members w (8, False)))"
proof -
  let ?A = "[8 \<mapsto> \<lparr>a_cap = 1, a_items = [], a_closed = False\<rparr>] :: u64 \<rightharpoonup> abs_chan"
  let ?s = "\<lparr>sel_channel = 8, is_send = False, sel_data = 0\<rparr> :: select_t"
  from one_channel obtain w where
    w: "channel_create 8 True True True True (\<lambda>_. 0) 0 1 no_world = Some (8, w)"
      "world_ok w ?A" "nodes w = Map.empty" "sems w = Map.empty" by blast
  have "select_pre (\<lambda>_. 64) 100 1 [?s] ?A w"
    by (rule one_channel_pre) (use w in simp_all)
  from select_waits [OF this] w
  show ?thesis by (auto simp: idle_until_def spec_entry_def spec_receive_def sel_keys_def)
qed

text \<open>With an empty array \<open>channel_count - 1\<close> wraps around, and the first access is outside
  the array.\<close>

theorem select_empty_undefined: "channel_select malloc local 0 [] w = None"
  by (simp add: channel_select_def select_loop.simps select_scan.simps)

text \<open>The wake-up: a successful operation on a channel posts the sleeper.\<close>

lemma receive_on_wakes:
  assumes "receive_on blocking e = Some (Returns SUCCESS, v, e')"
    "waiters_ok e (recv_list (chan e)) ds" "x \<in> set ds"
  shows "0 < the (env_sems e' x)"
proof -
  from assms(1) obtain e4 e5 where n: "notify_recv_list e4 = Some (True, e5)" "e5 = e'"
    "env_nodes e4 = env_nodes e" "env_sems e4 = env_sems e" "recv_list (chan e4) = recv_list (chan e)"
    by (auto simp: receive_on_def Let_def sem_ops split: if_splits Option.bind_splits)
  then have "waiters_ok e4 (recv_list (chan e4)) ds"
    using assms(2) waiters_ok_cong [of e4 e] by simp
  with n assms(3) show ?thesis
    by (auto simp: notify_recv_list_def split: if_splits Option.bind_splits intro: notify_list_wakes)
qed

lemma wait_members_env:
  assumes world: "world_ok w A" and ch: "chans w c = Some ch"
  shows "waiters_ok (env_of w ch) (wait_list dir ch) (wait_members w (c, dir))"
proof -
  from world obtain ws where reg: "registry w ws" unfolding world_ok_def by blast
  from registryD [OF reg ch, of dir] registry_members [OF reg, of "(c, dir)"] ch show ?thesis
    by (auto simp: waiters_ok_def)
qed

end
