(* ===== verification/Channel_Runs.thy ===== *)
theory Channel_Runs
  imports Channel_Select
begin

text \<open>
  Whole sequences of calls on the channels of a program, against the abstract channels: the
  functions of \<open>channel.c\<close>, called one after another, behave as bounded FIFO queues with a
  closed flag, and the corner cases in which they do not.
\<close>

section \<open>Sequences of calls\<close>

datatype chan_op =
    Create u64 u64 \<comment> \<open>the address \<open>malloc\<close> returns, and the size\<close>
  | Send u64 u64 bool
  | Receive u64 bool
  | Close u64
  | Destroy u64

datatype chan_result = Created u64 | Status reply | Received reply "u64 option"

definition do_op :: "chan_op \<Rightarrow> world \<Rightarrow> (chan_result \<times> world) option" where
  "do_op op w = (case op of
     Create p sz \<Rightarrow> do {
       (r, w') \<leftarrow> channel_create p True True True True (\<lambda>_. 0) 0 sz w; Some (Created r, w') }
   | Send c d blocking \<Rightarrow> do { (r, w') \<leftarrow> channel_send c d blocking w; Some (Status r, w') }
   | Receive c blocking \<Rightarrow> do {
       (r, d, w') \<leftarrow> channel_receive c blocking w; Some (Received r d, w') }
   | Close c \<Rightarrow> do { (r, w') \<leftarrow> channel_close c w; Some (Status r, w') }
   | Destroy c \<Rightarrow> do { (r, w') \<leftarrow> channel_destroy c w; Some (Status (Returns r), w') })"

fun do_ops :: "chan_op list \<Rightarrow> world \<Rightarrow> (chan_result list \<times> world) option" where
  "do_ops [] w = Some ([], w)"
| "do_ops (op # ops) w = do { (r, w1) \<leftarrow> do_op op w; (rs, w2) \<leftarrow> do_ops ops w1; Some (r # rs, w2) }"

text \<open>The same on the abstract channels.\<close>

definition spec_op :: "chan_op \<Rightarrow> (u64 \<rightharpoonup> abs_chan) \<Rightarrow> chan_result \<times> (u64 \<rightharpoonup> abs_chan)" where
  "spec_op op A = (case op of
     Create p sz \<Rightarrow>
       (Created p, A(p \<mapsto> \<lparr>a_cap = unat sz, a_items = [], a_closed = False\<rparr>))
   | Send c d blocking \<Rightarrow> (case A c of
       None \<Rightarrow> (Status (Returns OTHER_ERROR), A)
     | Some a \<Rightarrow> (Status (fst (spec_send d blocking a)), A(c \<mapsto> snd (spec_send d blocking a))))
   | Receive c blocking \<Rightarrow> (case A c of
       None \<Rightarrow> (Received (Returns OTHER_ERROR) None, A)
     | Some a \<Rightarrow> (case spec_receive blocking a of (r, d, a') \<Rightarrow> (Received r d, A(c \<mapsto> a'))))
   | Close c \<Rightarrow> (case A c of
       None \<Rightarrow> (Status (Returns OTHER_ERROR), A)
     | Some a \<Rightarrow> (Status (fst (spec_close a)), A(c \<mapsto> snd (spec_close a))))
   | Destroy c \<Rightarrow> (case A c of
       None \<Rightarrow> (Status (Returns OTHER_ERROR), A)
     | Some a \<Rightarrow> if a_closed a then (Status (Returns SUCCESS), A(c := None))
         else (Status (Returns DESTROY_ERROR), A)))"

fun spec_ops :: "chan_op list \<Rightarrow> (u64 \<rightharpoonup> abs_chan) \<Rightarrow> chan_result list \<times> (u64 \<rightharpoonup> abs_chan)" where
  "spec_ops [] A = ([], A)"
| "spec_ops (op # ops) A = (case spec_op op A of (r, A1) \<Rightarrow>
     (case spec_ops ops A1 of (rs, A2) \<Rightarrow> (r # rs, A2)))"

text \<open>
  The calls a program may make: on \<open>NULL\<close> or a channel that exists, with a message other than
  the mark \<open>BUFFER_EMPTY\<close>; a new channel has a size of 1 to \<open>SEM_VALUE_MAX\<close>.
\<close>

definition legal_op :: "chan_op \<Rightarrow> (u64 \<rightharpoonup> abs_chan) \<Rightarrow> bool" where
  "legal_op op A = (case op of
     Create p sz \<Rightarrow> p \<noteq> NULL \<and> A p = None \<and> 0 < sz \<and> unat sz \<le> SEM_VALUE_MAX
   | Send c d blocking \<Rightarrow> (c = NULL \<or> A c \<noteq> None) \<and> d \<noteq> BUFFER_EMPTY
   | Receive c blocking \<Rightarrow> c = NULL \<or> A c \<noteq> None
   | Close c \<Rightarrow> c = NULL \<or> A c \<noteq> None
   | Destroy c \<Rightarrow> c = NULL \<or> A c \<noteq> None)"

fun legal_ops :: "chan_op list \<Rightarrow> (u64 \<rightharpoonup> abs_chan) \<Rightarrow> bool" where
  "legal_ops [] A \<longleftrightarrow> True"
| "legal_ops (op # ops) A \<longleftrightarrow> legal_op op A \<and> legal_ops ops (snd (spec_op op A))"

lemma world_ok_NULL: "world_ok w A \<Longrightarrow> A NULL = None"
  by (force simp: world_ok_def)

lemma null_ops [simp]:
  "channel_send NULL d blocking w = Some (Returns OTHER_ERROR, w)"
  "channel_receive NULL blocking w = Some (Returns OTHER_ERROR, None, w)"
  "channel_close NULL w = Some (Returns OTHER_ERROR, w)"
  "channel_destroy NULL w = Some (OTHER_ERROR, w)"
  by (simp_all add: channel_send_def channel_receive_def channel_close_def channel_destroy_def)

lemma do_op_refines:
  assumes world: "world_ok w A" and legal: "legal_op op A"
  shows "\<exists>w'. do_op op w = Some (fst (spec_op op A), w') \<and> world_ok w' (snd (spec_op op A))"
proof (cases op)
  case (Create p sz)
  with legal channel_create_world [OF world, of p sz "\<lambda>_. 0" 0] show ?thesis
    by (auto simp: do_op_def spec_op_def legal_op_def domIff)
next
  case (Send c d blocking)
  show ?thesis
  proof (cases "A c")
    case None
    with Send legal have "c = NULL" by (simp add: legal_op_def)
    with Send None world show ?thesis by (simp add: do_op_def spec_op_def)
  next
    case (Some a)
    with Send legal channel_send_world [OF world Some, of d blocking] show ?thesis
      by (auto simp: do_op_def spec_op_def legal_op_def)
  qed
next
  case (Receive c blocking)
  show ?thesis
  proof (cases "A c")
    case None
    with Receive legal have "c = NULL" by (simp add: legal_op_def)
    with Receive None world show ?thesis by (simp add: do_op_def spec_op_def)
  next
    case (Some a)
    with Receive channel_receive_world [OF world Some, of blocking] show ?thesis
      by (auto simp: do_op_def spec_op_def split: prod.splits)
  qed
next
  case (Close c)
  show ?thesis
  proof (cases "A c")
    case None
    with Close legal have "c = NULL" by (simp add: legal_op_def)
    with Close None world show ?thesis by (simp add: do_op_def spec_op_def)
  next
    case (Some a)
    with Close channel_close_world [OF world Some] show ?thesis
      by (auto simp: do_op_def spec_op_def)
  qed
next
  case (Destroy c)
  show ?thesis
  proof (cases "A c")
    case None
    with Destroy legal have "c = NULL" by (simp add: legal_op_def)
    with Destroy None world show ?thesis by (simp add: do_op_def spec_op_def)
  next
    case (Some a)
    with Destroy channel_destroy_world [OF world Some] show ?thesis
      by (auto simp: do_op_def spec_op_def)
  qed
qed

lemma do_ops_refines:
  "world_ok w A \<Longrightarrow> legal_ops ops A \<Longrightarrow>
   \<exists>w'. do_ops ops w = Some (fst (spec_ops ops A), w') \<and> world_ok w' (snd (spec_ops ops A))"
proof (induction ops arbitrary: w A)
  case (Cons op ops)
  from do_op_refines [OF Cons.prems(1), of op] Cons.prems(2) obtain w1 where
    w1: "do_op op w = Some (fst (spec_op op A), w1)" "world_ok w1 (snd (spec_op op A))" by auto
  from Cons.IH [OF w1(2)] Cons.prems(2) obtain w2 where
    "do_ops ops w1 = Some (fst (spec_ops ops (snd (spec_op op A))), w2)"
    "world_ok w2 (snd (spec_ops ops (snd (spec_op op A))))" by auto
  with w1 show ?case by (simp add: case_prod_beta)
qed simp

section \<open>Channels that have lost slots\<close>

text \<open>An open channel of capacity \<open>n\<close> with an empty buffer that has lost \<open>k\<close> of its slots.\<close>

definition lossy :: "chan_env \<Rightarrow> nat \<Rightarrow> nat \<Rightarrow> bool" where
  "lossy e n k \<longleftrightarrow> mutex (chan e) = 1 \<and> \<not> send_lock (chan e) \<and> \<not> closed (chan e) \<and> n \<le> SEM_VALUE_MAX \<and>
     (\<exists>b. ch_buffer (chan e) = Some b \<and> buf_inv b \<and> buf_items b = [] \<and> unat (buf_capacity b) = n) \<and>
     (\<exists>ds. waiters_ok e (send_list (chan e)) ds) \<and> available (chan e) + k = n \<and> used (chan e) = 0"

lemma chan_rep_lossy: "chan_rep e \<lparr>a_cap = n, a_items = [], a_closed = False\<rparr> \<Longrightarrow> lossy e n 0"
  by (auto simp: chan_rep_def lossy_def Let_def)

text \<open>A send while a slot is left: the message is in the buffer, and the waiters have been posted.\<close>

lemma lossy_send:
  assumes L: "lossy e n k" and k: "k < n"
  shows "\<exists>e' b. send_on d blocking e = Some (Returns SUCCESS, e') \<and> mutex (chan e') = 1 \<and> \<not> send_lock (chan e') \<and>
    \<not> closed (chan e') \<and> ch_buffer (chan e') = Some b \<and> buf_inv b \<and> buf_items b = [d] \<and> unat (buf_capacity b) = n \<and>
    (\<exists>ds. waiters_ok e' (send_list (chan e')) ds) \<and> available (chan e') + Suc k = n \<and> used (chan e') = 1"
proof -
  from L obtain b ds where D: "mutex (chan e) = 1" "\<not> send_lock (chan e)" "\<not> closed (chan e)"
    "ch_buffer (chan e) = Some b" "buf_inv b" "buf_items b = []" "unat (buf_capacity b) = n"
    "waiters_ok e (send_list (chan e)) ds" "available (chan e) + k = n" "used (chan e) = 0" by (auto simp: lossy_def)
  from buffer_add_room [OF D(5), of d] D(6,7) k obtain b' where b': "buffer_add d b = Some (True, b')"
    "buf_inv b'" "buf_items b' = [d]" "buf_capacity b' = buf_capacity b" by auto
  let ?e4 = "post_used (post_mutex (on_chan (ch_buffer_update (\<lambda>_. Some b')) (wait_mutex (wait_available e))))"
  have w4: "waiters_ok ?e4 (send_list (chan ?e4)) ds" using D(8) waiters_ok_cong [of ?e4 e] by (simp add: sem_ops)
  from notify_send_list_ok [OF this] D(2) obtain s where
    s: "notify_send_list ?e4 = Some (True, ?e4\<lparr>env_sems := s\<rparr>)" "dom s = dom (env_sems e)" by (auto simp: sem_ops)
  have "send_on d blocking e = Some (Returns SUCCESS, ?e4\<lparr>env_sems := s\<rparr>)"
    using D k b' s(1) by (simp add: send_on_def Let_def sem_ops)
  moreover have "waiters_ok (?e4\<lparr>env_sems := s\<rparr>) (send_list (chan e)) ds"
    using D(8) s(2) waiters_ok_cong [of "?e4\<lparr>env_sems := s\<rparr>" e] by (simp add: sem_ops)
  ultimately show ?thesis using D k b' by (auto simp: sem_ops)
qed

lemma lossy_pair:
  assumes L: "lossy e n k" and k: "k < n"
  shows "\<exists>e1 e2. send_on BUFFER_EMPTY b1 e = Some (Returns SUCCESS, e1) \<and>
    receive_on b2 e1 = Some (Returns OTHER_ERROR, None, e2) \<and> lossy e2 n (Suc k)"
proof -
  from lossy_send [OF L k, of BUFFER_EMPTY b1] obtain e1 b ds where
    e1: "send_on BUFFER_EMPTY b1 e = Some (Returns SUCCESS, e1)" and D: "mutex (chan e1) = 1" "\<not> send_lock (chan e1)"
    "\<not> closed (chan e1)" "ch_buffer (chan e1) = Some b" "buf_inv b" "buf_items b = [BUFFER_EMPTY]" "unat (buf_capacity b) = n"
    "waiters_ok e1 (send_list (chan e1)) ds" "available (chan e1) + Suc k = n" "used (chan e1) = 1" by blast
  from buffer_remove_some [OF D(5,6)] obtain b' where b': "buffer_remove b = Some (BUFFER_EMPTY, b')"
    "buf_inv b'" "buf_items b' = []" "buf_capacity b' = buf_capacity b" by auto
  let ?e2 = "post_mutex (on_chan (ch_buffer_update (\<lambda>_. Some b')) (wait_mutex (wait_used e1)))"
  have "receive_on b2 e1 = Some (Returns OTHER_ERROR, None, ?e2)"
    using D b' by (simp add: receive_on_def Let_def sem_ops)
  moreover have "waiters_ok ?e2 (send_list (chan e1)) ds" using D(8) waiters_ok_cong [of ?e2 e1] by (simp add: sem_ops)
  ultimately show ?thesis using e1 D b' L by (auto simp: lossy_def sem_ops)
qed

lemma lossy_send_reply:
  assumes L: "lossy e n k"
  shows "\<exists>e'. send_on d blocking e = Some (if k < n then Returns SUCCESS else if blocking then Blocks else Returns WOULDBLOCK, e')"
proof (cases "k < n")
  case True
  from lossy_send [OF L this, of d blocking] True show ?thesis by auto
next
  case False
  with L have "available (chan e) = 0" "mutex (chan e) = 1" "\<not> closed (chan e)" by (auto simp: lossy_def)
  with False show ?thesis by (simp add: send_on_def Let_def sem_ops)
qed

lemma lossy_pairs:
  "chans w c = Some ch \<Longrightarrow> lossy (env_of w ch) n j \<Longrightarrow> c \<noteq> NULL \<Longrightarrow> j + k \<le> n \<Longrightarrow>
   \<exists>w' ch'. do_ops (concat (replicate k [Send c BUFFER_EMPTY b1, Receive c b2])) w =
     Some (concat (replicate k [Status (Returns SUCCESS), Received (Returns OTHER_ERROR) None]), w') \<and>
     chans w' c = Some ch' \<and> lossy (env_of w' ch') n (j + k)"
proof (induction k arbitrary: w ch j)
  case (Suc k)
  from lossy_pair [OF Suc.prems(2), of b1 b2] Suc.prems(4) obtain e1 e2 where
    e: "send_on BUFFER_EMPTY b1 (env_of w ch) = Some (Returns SUCCESS, e1)"
      "receive_on b2 e1 = Some (Returns OTHER_ERROR, None, e2)" "lossy e2 n (Suc j)" by auto
  let ?w1 = "put_env c e1 w" and ?w2 = "put_env c e2 (put_env c e1 w)"
  have env: "env_of (put_env c e v) (chan e) = e" for e v by (simp add: env_of_def put_env_def)
  have s: "channel_send c BUFFER_EMPTY b1 w = Some (Returns SUCCESS, ?w1)"
    using e Suc.prems by (simp add: channel_send_def)
  have r: "channel_receive c b2 ?w1 = Some (Returns OTHER_ERROR, None, ?w2)"
    using e Suc.prems by (simp add: channel_receive_def env)
  from Suc.IH [of ?w2 "chan e2" "Suc j"] e(3) Suc.prems(3,4) obtain w' ch' where
    "do_ops (concat (replicate k [Send c BUFFER_EMPTY b1, Receive c b2])) ?w2 =
      Some (concat (replicate k [Status (Returns SUCCESS), Received (Returns OTHER_ERROR) None]), w')"
    "chans w' c = Some ch'" "lossy (env_of w' ch') n (Suc j + k)" by (auto simp: env)
  with s r show ?case by (simp add: do_op_def)
qed auto

section \<open>Properties\<close>

text \<open>C2: Every sequence of legal calls to \<open>channel_create\<close>, \<open>channel_send\<close>, \<open>channel_receive\<close>,
  \<open>channel_close\<close> and \<open>channel_destroy\<close>, starting from no channel, is defined (no access to
  freed or foreign memory) and gives exactly the replies of bounded FIFO queues with a closed
  flag; the final world represents the final queues.\<close>

theorem channel_calls_refine:
  assumes "legal_ops ops Map.empty"
  shows "\<exists>w'. do_ops ops no_world = Some (fst (spec_ops ops Map.empty), w') \<and>
    world_ok w' (snd (spec_ops ops Map.empty))"
  by (rule do_ops_refines [OF no_world_ok assms])

theorem channel_calls_refine_witness:
  "\<exists>w'. do_ops [Create 8 1, Send 8 5 True, Send 8 6 False, Receive 8 True, Destroy 8, Close 8,
      Send 8 7 True, Receive 8 False, Close 8, Destroy 8, Close 0] no_world =
    Some ([Created 8, Status (Returns SUCCESS), Status (Returns WOULDBLOCK),
      Received (Returns SUCCESS) (Some 5), Status (Returns DESTROY_ERROR), Status (Returns SUCCESS),
      Status (Returns CLOSED_ERROR), Received (Returns CLOSED_ERROR) None,
      Status (Returns CLOSED_ERROR), Status (Returns SUCCESS), Status (Returns OTHER_ERROR)], w')"
  using channel_calls_refine [of "[Create 8 1, Send 8 5 True, Send 8 6 False, Receive 8 True,
      Destroy 8, Close 8, Send 8 7 True, Receive 8 False, Close 8, Destroy 8, Close 0]"]
  by (auto simp: legal_op_def spec_op_def spec_send_def spec_receive_def spec_close_def
      BUFFER_EMPTY_def SEM_VALUE_MAX_def)

text \<open>C18: The message \<open>(void*)-1\<close> is the mark \<open>BUFFER_EMPTY\<close>: on any open channel of capacity \<open>n\<close> with
  an empty queue, in any world, a send of it succeeds, but the receive that takes it out reports \<open>OTHER_ERROR\<close> and
  does not post \<open>available\<close>. After \<open>k\<close> such pairs the buffer is empty and only \<open>n - k\<close> slots are left;
  after \<open>n\<close> of them every send finds the empty channel full, and would block.\<close>

theorem sending_the_mark_loses_a_slot:
  assumes world: "world_ok w A" and c: "A c = Some \<lparr>a_cap = n, a_items = [], a_closed = False\<rparr>" and k: "k \<le> n"
  shows "\<exists>w' ch b w''.
    do_ops (concat (replicate k [Send c BUFFER_EMPTY b1, Receive c b2])) w =
      Some (concat (replicate k [Status (Returns SUCCESS), Received (Returns OTHER_ERROR) None]), w') \<and>
    chans w' c = Some ch \<and> available ch = n - k \<and> ch_buffer ch = Some b \<and> buf_items b = [] \<and>
    channel_send c d blocking w' =
      Some (if k < n then Returns SUCCESS else if blocking then Blocks else Returns WOULDBLOCK, w'')"
proof -
  from world c obtain ch where ch: "chans w c = Some ch" using world_ok_chan by blast
  from world_ok_rep [OF world ch] c have "lossy (env_of w ch) n 0" by (simp add: chan_rep_lossy)
  from lossy_pairs [OF ch this, of k b1 b2] world_okD(1) [OF world ch] k obtain w' ch' where
    w': "do_ops (concat (replicate k [Send c BUFFER_EMPTY b1, Receive c b2])) w =
      Some (concat (replicate k [Status (Returns SUCCESS), Received (Returns OTHER_ERROR) None]), w')"
    "chans w' c = Some ch'" "lossy (env_of w' ch') n k" by auto
  from lossy_send_reply [OF w'(3)] obtain e where
    "send_on d blocking (env_of w' ch') =
      Some (if k < n then Returns SUCCESS else if blocking then Blocks else Returns WOULDBLOCK, e)" by blast
  with w' world_okD(1) [OF world ch] show ?thesis by (auto simp: lossy_def channel_send_def)
qed

theorem sending_the_mark_loses_a_slot_witness:
  "\<exists>w w' ch b w''. channel_create 8 True True True True (\<lambda>_. 0) 0 2 no_world = Some (8, w) \<and>
    do_ops [Send 8 BUFFER_EMPTY True, Receive 8 True, Send 8 BUFFER_EMPTY True, Receive 8 True] w =
      Some ([Status (Returns SUCCESS), Received (Returns OTHER_ERROR) None,
        Status (Returns SUCCESS), Received (Returns OTHER_ERROR) None], w') \<and>
    chans w' 8 = Some ch \<and> available ch = 0 \<and> ch_buffer ch = Some b \<and> buf_items b = [] \<and>
    channel_send 8 5 False w' = Some (Returns WOULDBLOCK, w'')"
proof -
  from channel_create_world [OF no_world_ok, of 8 2 "\<lambda>_. 0" 0] obtain w where
    w: "channel_create 8 True True True True (\<lambda>_. 0) 0 2 no_world = Some (8, w)"
      "world_ok w [8 \<mapsto> \<lparr>a_cap = 2, a_items = [], a_closed = False\<rparr>]"
    by (auto simp: no_world_def SEM_VALUE_MAX_def)
  have "[8 \<mapsto> \<lparr>a_cap = 2, a_items = [], a_closed = False\<rparr>] (8 :: u64) = Some \<lparr>a_cap = 2, a_items = [], a_closed = False\<rparr>" by simp
  from sending_the_mark_loses_a_slot [OF w(2) this, of 2 True True 5 False] w(1) show ?thesis
    by (simp add: numeral_2_eq_2)
qed

text \<open>\<open>sem_init\<close> takes the size cut to 32 bits: a channel created with the size \<open>2^32\<close> has no
  slot at all, and every send on the empty channel would block.\<close>

theorem channel_create_size_cut:
  "\<exists>w. channel_create 8 True True True True fresh 0 (2 ^ 32) no_world = Some (8, w) \<and>
    channel_send 8 d False w = Some (Returns WOULDBLOCK, w) \<and>
    channel_send 8 d True w = Some (Blocks, w)"
  by (simp add: channel_create_def buffer_create_def channel_send_def
      no_world_def env_of_def put_env_def send_on_def sem_ops sem_init_def
      SEM_VALUE_MAX_def sem_inc_def Let_def del: upt.simps)

end
