(* ===== verification/Channel_Wakeup.thy ===== *)
theory Channel_Wakeup
  imports Channel_Runs
begin

text \<open>
  A caller of \<open>channel_select\<close> that sleeps, and the calls other threads make meanwhile: no wake-up is lost.
  Other threads only post the semaphore of the sleeper, and whatever makes one of its entries ready
  posts it, so that the sleeper resumes its loop and performs the entry.
\<close>

section \<open>The sleeper resumes\<close>

text \<open>\<open>sem_wait(&local)\<close> and the next round of the loop, once the semaphore has been posted; until
  then the caller stays asleep.\<close>

definition select_resume :: "u64 \<Rightarrow> u64 \<Rightarrow> select_t list \<Rightarrow> world \<Rightarrow> (select_reply \<times> select_t list \<times> world) option" where
  "select_resume local count sel w = do {
     v \<leftarrow> sems w local;
     if v > 0 then select_loop local count sel (w\<lparr>sems := (sems w)(local \<mapsto> v - 1)\<rparr>)
     else Some (SelWaits, sel, w)
   }"

section \<open>What the calls of other threads do to semaphores\<close>

definition grows :: "sem_heap \<Rightarrow> sem_heap \<Rightarrow> bool" where
  "grows s s' \<longleftrightarrow> (\<forall>x v. s x = Some v \<longrightarrow> (\<exists>v'. s' x = Some v' \<and> v \<le> v'))"

lemma grows_refl [simp]: "grows s s"
  by (simp add: grows_def)

lemma grows_trans: "grows s t \<Longrightarrow> grows t u \<Longrightarrow> grows s u"
  unfolding grows_def by (meson order_trans)

lemma growsD: "grows s s' \<Longrightarrow> s x = Some v \<Longrightarrow> \<exists>v'. s' x = Some v' \<and> v \<le> v'"
  by (simp add: grows_def)

lemma notify_list_grows:
  assumes "waiters_ok e lst ds" "notify_list lst e = Some e'"
  shows "grows (env_sems e) (env_sems e')"
proof -
  from assms(1) obtain l xs where l: "lst = Some l" "list_rep (env_nodes e) l xs" "map snd xs = ds"
    "\<forall>d \<in> set ds. env_sems e d \<noteq> None" by (auto simp: waiters_ok_def)
  from post_all_ok [OF l(4)] obtain s where s: "post_all ds (env_sems e) = Some s" "dom s = dom (env_sems e)"
    "\<forall>d. the (env_sems e d) \<le> the (s d) \<or> env_sems e d = None" by blast
  have "grows (env_sems e) s"
    unfolding grows_def
  proof (intro allI impI)
    fix x v
    assume v: "env_sems e x = Some v"
    with s(2) have "x \<in> dom s" by auto
    with s(3) [rule_format, of x] v show "\<exists>v'. s x = Some v' \<and> v \<le> v'" by auto
  qed
  with assms(2) l s(1) list_foreach_rep [OF l(2)] show ?thesis
    by (auto simp: notify_list_def split: if_splits)
qed

lemma notify_send_list_grows:
  "waiters_ok e (send_list (chan e)) ds \<Longrightarrow> notify_send_list e = Some (b, e') \<Longrightarrow> grows (env_sems e) (env_sems e')"
  by (auto simp: notify_send_list_def split: if_splits Option.bind_splits intro: notify_list_grows)

lemma notify_recv_list_grows:
  "waiters_ok e (recv_list (chan e)) ds \<Longrightarrow> notify_recv_list e = Some (b, e') \<Longrightarrow> grows (env_sems e) (env_sems e')"
  by (auto simp: notify_recv_list_def split: if_splits Option.bind_splits intro: notify_list_grows)

lemma send_notifies:
  "notify_send_list e4 = Some (b, e') \<Longrightarrow> waiters_ok e (send_list (chan e)) ds \<Longrightarrow> env_nodes e4 = env_nodes e \<Longrightarrow>
   env_sems e4 = env_sems e \<Longrightarrow> send_list (chan e4) = send_list (chan e) \<Longrightarrow> grows (env_sems e) (env_sems e')"
  using notify_send_list_grows [of e4 ds b e'] waiters_ok_cong [of e4 e] by simp

lemma receive_notifies:
  "notify_recv_list e4 = Some (b, e') \<Longrightarrow> waiters_ok e (recv_list (chan e)) ds \<Longrightarrow> env_nodes e4 = env_nodes e \<Longrightarrow>
   env_sems e4 = env_sems e \<Longrightarrow> recv_list (chan e4) = recv_list (chan e) \<Longrightarrow> grows (env_sems e) (env_sems e')"
  using notify_recv_list_grows [of e4 ds b e'] waiters_ok_cong [of e4 e] by simp

lemma send_on_grows:
  assumes "send_on d blocking e = Some (r, e')" "waiters_ok e (send_list (chan e)) ds"
  shows "grows (env_sems e) (env_sems e')"
  using assms by (auto simp: send_on_def Let_def sem_ops split: if_splits Option.bind_splits elim!: send_notifies)

lemma receive_on_grows:
  assumes "receive_on blocking e = Some (r, d, e')" "waiters_ok e (recv_list (chan e)) ds"
  shows "grows (env_sems e) (env_sems e')"
  using assms by (auto simp: receive_on_def Let_def sem_ops split: if_splits Option.bind_splits elim!: receive_notifies)

text \<open>\<open>channel_close\<close> posts the waiters of both lists.\<close>

lemma close_on_notifies:
  assumes "close_on e = Some (r, e')" "waiters_ok e (send_list (chan e)) ds" "waiters_ok e (recv_list (chan e)) es"
  shows "grows (env_sems e) (env_sems e')"
    "r = Returns SUCCESS \<Longrightarrow> x \<in> set ds \<union> set es \<Longrightarrow> 0 < the (env_sems e' x)"
proof -
  let ?e2 = "post_mutex (post_used (post_available (on_chan (closed_update (\<lambda>_. True)) (wait_mutex e))))"
  have C: "(env_sems e' = env_sems e \<and> r \<noteq> Returns SUCCESS) \<or> (\<exists>b e3. notify_send_list ?e2 = Some (b, e3) \<and>
      (\<not> b \<and> e' = e3 \<and> r = Blocks \<or> (\<exists>b'. b \<and> notify_recv_list e3 = Some (b', e') \<and> (r = Returns SUCCESS \<longrightarrow> b'))))"
    using assms(1) by (auto simp: close_on_def Let_def split: if_splits Option.bind_splits) (auto simp: sem_ops)
  have e2: "env_nodes ?e2 = env_nodes e" "env_sems ?e2 = env_sems e"
      "send_list (chan ?e2) = send_list (chan e)" "recv_list (chan ?e2) = recv_list (chan e)"
    by (simp_all add: sem_ops)
  have w2: "waiters_ok ?e2 (send_list (chan ?e2)) ds"
    using assms(2) waiters_ok_cong [of ?e2 e] e2 by simp
  have frame: "env_nodes e3 = env_nodes e2 \<and> chan e3 = chan e2 \<and> dom (env_sems e3) = dom (env_sems e2)"
    if "notify_send_list e2 = Some (b, e3)" "waiters_ok e2 (send_list (chan e2)) ds" for e2 b e3
  proof -
    from notify_list_ok [OF that(2)] obtain s where s: "notify_list (send_list (chan e2)) e2 = Some (e2\<lparr>env_sems := s\<rparr>)"
      "dom s = dom (env_sems e2)" by blast
    with that(1) have "e3 = e2\<lparr>env_sems := s\<rparr> \<or> e3 = e2"
      by (auto simp: notify_send_list_def split: if_splits)
    with s(2) show ?thesis by (elim disjE) simp_all
  qed
  show "grows (env_sems e) (env_sems e')"
  proof (cases "env_sems e' = env_sems e \<and> r \<noteq> Returns SUCCESS")
    case False
    with C obtain b e3 where n: "notify_send_list ?e2 = Some (b, e3)" "e' = e3 \<or> (\<exists>b'. notify_recv_list e3 = Some (b', e'))"
      by blast
    note f = frame [OF n(1) w2]
    have w3: "waiters_ok e3 (recv_list (chan e3)) es" using assms(3) e2 f waiters_ok_cong [of e3 e] by simp
    from notify_send_list_grows [OF w2 n(1)] e2(2) have "grows (env_sems e) (env_sems e3)" by simp
    with n(2) notify_recv_list_grows [OF w3] grows_trans show ?thesis by blast
  qed simp
  assume r: "r = Returns SUCCESS" and x: "x \<in> set ds \<union> set es"
  with C obtain e3 where n: "notify_send_list ?e2 = Some (True, e3)" "notify_recv_list e3 = Some (True, e')" by auto
  note f = frame [OF n(1) w2]
  have w3: "waiters_ok e3 (recv_list (chan e3)) es" using assms(3) e2 f waiters_ok_cong [of e3 e] by simp
  note g = notify_recv_list_grows [OF w3 n(2)]
  show "0 < the (env_sems e' x)"
  proof (cases "x \<in> set es")
    case True
    with n(2) w3 show ?thesis
      by (auto simp: notify_recv_list_def split: if_splits Option.bind_splits intro: notify_list_wakes)
  next
    case False
    with x have xs: "x \<in> set ds" by simp
    with n(1) w2 have "0 < the (env_sems e3 x)"
      by (auto simp: notify_send_list_def split: if_splits Option.bind_splits intro: notify_list_wakes)
    moreover from xs w2 f have "x \<in> dom (env_sems e3)" by (auto simp: waiters_ok_def)
    ultimately show ?thesis using growsD [OF g] by fastforce
  qed
qed


section \<open>Calls on the channels of a world\<close>

text \<open>An entry in the direction \<open>dir\<close> that has to wait on the channel, and the call that would let it
  proceed.\<close>

definition must_wait :: "bool \<Rightarrow> abs_chan \<Rightarrow> bool" where
  "must_wait dir a \<longleftrightarrow> \<not> a_closed a \<and> (if dir then a_cap a \<le> length (a_items a) else a_items a = [])"

lemma spec_entry_waits: "fst (spec_entry s a) = Returns WOULDBLOCK \<longleftrightarrow> must_wait (is_send s) a"
  by (auto simp: spec_entry_def spec_send_def spec_receive_def must_wait_def split: prod.splits list.splits)

text \<open>What a call leaves of the world in which \<open>me\<close> sleeps: \<open>posts c dir\<close> says that the waiters under
  \<open>(c, dir)\<close> have been posted.\<close>

definition kind_to_sleepers :: "world \<Rightarrow> world \<Rightarrow> u64 \<Rightarrow> (bool \<Rightarrow> bool) \<Rightarrow> bool" where
  "kind_to_sleepers w w' c posted \<longleftrightarrow> grows (sems w) (sems w') \<and> nodes w' = nodes w \<and>
     (\<forall>dir. posted dir \<longrightarrow> (\<forall>x \<in> set (wait_members w (c, dir)). 0 < the (sems w' x)))"

lemma send_effect:
  assumes world: "world_ok w A" and a: "A c = Some a" and d: "d \<noteq> BUFFER_EMPTY"
    and op: "channel_send c d blocking w = Some (r, w')"
  shows "kind_to_sleepers w w' c (\<lambda>dir. \<not> dir \<and> r = Returns SUCCESS)"
proof -
  from world a obtain ch where ch: "chans w c = Some ch" using world_ok_chan by blast
  note ws = wait_members_env [OF world ch, of False, unfolded wait_list_def if_False]
  from op ch obtain e where e: "send_on d blocking (env_of w ch) = Some (r, e)" "w' = put_env c e w"
    using world_okD(1) [OF world ch] by (auto simp: channel_send_def split: Option.bind_splits)
  have "nodes w' = nodes w"
    using send_on_refines [OF world_ok_rep [OF world ch] d, of blocking] e by (auto simp: same_lists_def)
  with send_on_grows [OF e(1)] send_on_wakes [of d blocking "env_of w ch" e] e ws show ?thesis
    by (auto simp: kind_to_sleepers_def)
qed

lemma receive_effect:
  assumes world: "world_ok w A" and a: "A c = Some a" and op: "channel_receive c blocking w = Some (r, d, w')"
  shows "kind_to_sleepers w w' c (\<lambda>dir. dir \<and> r = Returns SUCCESS)"
proof -
  from world a obtain ch where ch: "chans w c = Some ch" using world_ok_chan by blast
  note ws = wait_members_env [OF world ch, of True, unfolded wait_list_def if_True]
  from op ch obtain e where e: "receive_on blocking (env_of w ch) = Some (r, d, e)" "w' = put_env c e w"
    using world_okD(1) [OF world ch] by (auto simp: channel_receive_def split: Option.bind_splits)
  have "nodes w' = nodes w"
    using receive_on_refines [OF world_ok_rep [OF world ch], of blocking] e by (auto simp: same_lists_def)
  with receive_on_grows [OF e(1)] receive_on_wakes [of blocking "env_of w ch" d e] e ws show ?thesis
    by (auto simp: kind_to_sleepers_def)
qed

lemma close_effect:
  assumes world: "world_ok w A" and a: "A c = Some a" and op: "channel_close c w = Some (r, w')"
  shows "kind_to_sleepers w w' c (\<lambda>dir. r = Returns SUCCESS)"
proof -
  from world a obtain ch where ch: "chans w c = Some ch" using world_ok_chan by blast
  note ws = wait_members_env [OF world ch, of True] wait_members_env [OF world ch, of False]
  from op ch obtain e where e: "close_on (env_of w ch) = Some (r, e)" "w' = put_env c e w"
    using world_okD(1) [OF world ch] by (auto simp: channel_close_def split: Option.bind_splits)
  have "nodes w' = nodes w"
    using close_on_refines [OF world_ok_rep [OF world ch]] e by (auto simp: same_lists_def)
  moreover have "waiters_ok (env_of w ch) (send_list (chan (env_of w ch))) (wait_members w (c, False))"
    "waiters_ok (env_of w ch) (recv_list (chan (env_of w ch))) (wait_members w (c, True))"
    using ws by (simp_all add: wait_list_def)
  note close_on_notifies [OF e(1) this]
  moreover have "x \<in> set (wait_members w (c, dir)) \<Longrightarrow> x \<in> set (wait_members w (c, False)) \<union> set (wait_members w (c, True))" for x dir
    by (cases dir) simp_all
  ultimately show ?thesis using e(2) by (simp add: kind_to_sleepers_def)
qed

text \<open>The state of a sleeper: registered under the keys of its array and nowhere else, and either posted
  or without an entry that can proceed.\<close>

definition asleep :: "(node_heap \<Rightarrow> u64) \<Rightarrow> u64 \<Rightarrow> select_t list \<Rightarrow> (u64 \<rightharpoonup> abs_chan) \<Rightarrow> world \<Rightarrow> bool" where
  "asleep malloc local sel A w \<longleftrightarrow> registry_ok A malloc local 0 w \<and> (\<forall>s \<in> set sel. entry_ok A s) \<and>
     (\<exists>old. (\<forall>k. local \<notin> set (old k)) \<and>
       (\<forall>k. wait_members w k = (if k \<in> set (sel_keys sel) then local # old k else old k))) \<and>
     (sems w local = Some 0 \<longrightarrow> idle_until A sel (length sel))"

lemma idle_waits: "idle_until A sel (length sel) \<longleftrightarrow> (\<forall>s \<in> set sel. must_wait (is_send s) (the (A (sel_channel s))))"
  by (simp add: idle_until_def spec_entry_waits all_set_conv_all_nth)

text \<open>One call of another thread.\<close>

lemma asleep_chan:
  assumes slp: "asleep malloc local sel A w" and world': "world_ok w' (A(c \<mapsto> a'))" and a: "A c = Some a"
    and mem: "wait_members w' = wait_members w" and eff: "kind_to_sleepers w w' c posted"
    and ready: "\<And>dir. must_wait dir a \<Longrightarrow> \<not> must_wait dir a' \<Longrightarrow> posted dir"
  shows "asleep malloc local sel (A(c \<mapsto> a')) w'"
proof -
  from slp obtain v where v: "sems w local = Some v" by (auto simp: asleep_def registry_ok_def)
  from eff v obtain v' where v': "sems w' local = Some v'" "v \<le> v'"
    by (auto simp: kind_to_sleepers_def dest: growsD)
  have reg: "registry_ok (A(c \<mapsto> a')) malloc local 0 w'"
    using slp world' v' eff by (auto simp: asleep_def registry_ok_def kind_to_sleepers_def)
  have entries: "\<forall>s \<in> set sel. entry_ok (A(c \<mapsto> a')) s"
    using slp by (auto simp: asleep_def entry_ok_def)
  have "idle_until (A(c \<mapsto> a')) sel (length sel)" if z: "sems w' local = Some 0"
    unfolding idle_waits
  proof
    fix s assume s: "s \<in> set sel"
    from z v' v have "sems w local = Some 0" by simp
    with slp have "idle_until A sel (length sel)" by (simp add: asleep_def)
    with s have w: "must_wait (is_send s) (the (A (sel_channel s)))" by (simp add: idle_waits)
    show "must_wait (is_send s) (the ((A(c \<mapsto> a')) (sel_channel s)))"
    proof (cases "sel_channel s = c")
      case True
      have "(c, is_send s) \<in> set (sel_keys sel)" using s True by (auto simp: sel_keys_def)
      with slp have "local \<in> set (wait_members w (c, is_send s))" by (auto simp: asleep_def)
      with eff have "posted (is_send s) \<Longrightarrow> 0 < the (sems w' local)" by (simp add: kind_to_sleepers_def)
      with z have "\<not> posted (is_send s)" by auto
      with ready w a True show ?thesis by auto
    qed (use w in simp)
  qed
  with reg entries slp mem show ?thesis by (auto simp: asleep_def)
qed


lemma create_members:
  assumes "channel_create p True True True True fresh garbage sz w = Some (p, w')" "0 < sz" "p \<noteq> NULL" "chans w p = None"
  shows "wait_members w' = wait_members w"
proof
  fix k
  have n: "nodes w' = nodes w" using assms(1-3) by (auto simp: channel_create_def split: Option.bind_splits)
  show "wait_members w' k = wait_members w k"
  proof (cases "fst k = p")
    case True
    with assms show ?thesis
      by (auto simp: channel_create_def wait_members_def wait_list_def list_create_def data_from.simps split: Option.bind_splits)
  next
    case False
    with assms(1-3) have ch: "chans w' (fst k) = chans w (fst k)" by (auto simp: channel_create_def split: Option.bind_splits)
    show ?thesis unfolding wait_members_def n ch ..
  qed
qed

definition spares :: "select_t list \<Rightarrow> chan_op \<Rightarrow> bool" where
  "spares sel op \<longleftrightarrow> (\<forall>c. op = Destroy c \<longrightarrow> c \<notin> sel_channel ` set sel)"

lemma asleep_op:
  assumes slp: "asleep malloc local sel A w" and legal: "legal_op op A" and op: "do_op op w = Some (r, w')"
    and spare: "spares sel op"
  shows "asleep malloc local sel (snd (spec_op op A)) w'"
proof -
  have world: "world_ok w A" using slp by (simp add: asleep_def registry_ok_def)
  have skip: "asleep malloc local sel A w" if "w' = w" using slp that by simp
  show ?thesis
  proof (cases op)
    case (Create p sz)
    let ?A = "A(p \<mapsto> \<lparr>a_cap = unat sz, a_items = [], a_closed = False\<rparr>)"
    from legal Create have p: "p \<noteq> NULL" "A p = None" "0 < sz" "unat sz \<le> SEM_VALUE_MAX" by (simp_all add: legal_op_def)
    from channel_create_world [OF world p(1) _ p(3,4), of "\<lambda>_. 0" 0] p(2) op Create
    have w': "channel_create p True True True True (\<lambda>_. 0) 0 sz w = Some (p, w')" "world_ok w' ?A" "nodes w' = nodes w" "sems w' = sems w"
      by (auto simp: do_op_def domIff)
    have "chans w p = None" using world p(2) by (auto simp: world_ok_def)
    note mem = create_members [OF w'(1) p(3,1) this]
    have "registry_ok ?A malloc local 0 w'" using slp w' by (auto simp: asleep_def registry_ok_def)
    moreover have "\<forall>s \<in> set sel. entry_ok ?A s" using slp by (auto simp: asleep_def entry_ok_def)
    moreover have "idle_until ?A sel (length sel)" if "idle_until A sel (length sel)"
    proof -
      have "sel_channel s \<noteq> p" if "s \<in> set sel" for s using slp p(2) that by (auto simp: asleep_def entry_ok_def)
      with that show ?thesis by (simp add: idle_waits)
    qed
    ultimately show ?thesis using slp w'(4) mem Create by (simp add: asleep_def spec_op_def)
  next
    case (Send c d b)
    show ?thesis
    proof (cases "A c")
      case None
      with Send legal op slp show ?thesis by (auto simp: legal_op_def do_op_def spec_op_def)
    next
      case (Some a)
      from Send legal have d: "d \<noteq> BUFFER_EMPTY" by (simp add: legal_op_def)
      from channel_send_world [OF world Some d, of b] Send op have w': "channel_send c d b w = Some (fst (spec_send d b a), w')"
        "world_ok w' (A(c \<mapsto> snd (spec_send d b a)))" "wait_members w' = wait_members w" by (auto simp: do_op_def)
      have "asleep malloc local sel (A(c \<mapsto> snd (spec_send d b a))) w'"
        by (rule asleep_chan [OF slp w'(2) Some w'(3) send_effect [OF world Some d w'(1)]])
          (auto simp: must_wait_def spec_send_def split: if_splits)
      with Send Some show ?thesis by (simp add: spec_op_def)
    qed
  next
    case (Receive c b)
    show ?thesis
    proof (cases "A c")
      case None
      with Receive legal op slp show ?thesis by (auto simp: legal_op_def do_op_def spec_op_def)
    next
      case (Some a)
      let ?r = "fst (spec_receive b a)" and ?a = "snd (snd (spec_receive b a))"
      from channel_receive_world [OF world Some, of b] Receive op have
        w': "channel_receive c b w = Some (?r, fst (snd (spec_receive b a)), w')"
        "world_ok w' (A(c \<mapsto> ?a))" "wait_members w' = wait_members w" by (auto simp: do_op_def)
      have "asleep malloc local sel (A(c \<mapsto> ?a)) w'"
        by (rule asleep_chan [OF slp w'(2) Some w'(3) receive_effect [OF world Some w'(1)]])
          (auto simp: must_wait_def spec_receive_def split: if_splits list.splits)
      with Receive Some show ?thesis by (simp add: spec_op_def case_prod_beta)
    qed
  next
    case (Close c)
    show ?thesis
    proof (cases "A c")
      case None
      with Close legal op slp show ?thesis by (auto simp: legal_op_def do_op_def spec_op_def)
    next
      case (Some a)
      from channel_close_world [OF world Some] Close op have w': "channel_close c w = Some (fst (spec_close a), w')"
        "world_ok w' (A(c \<mapsto> snd (spec_close a)))" "wait_members w' = wait_members w" by (auto simp: do_op_def)
      have "asleep malloc local sel (A(c \<mapsto> snd (spec_close a))) w'"
        by (rule asleep_chan [OF slp w'(2) Some w'(3) close_effect [OF world Some w'(1)]])
          (auto simp: must_wait_def spec_close_def split: if_splits)
      with Close Some show ?thesis by (simp add: spec_op_def)
    qed
  next
    case (Destroy c)
    show ?thesis
    proof (cases "A c")
      case None
      with Destroy legal op slp show ?thesis by (auto simp: legal_op_def do_op_def spec_op_def)
    next
      case (Some a)
      let ?A = "if a_closed a then A(c := None) else A"
      from channel_destroy_world [OF world Some] obtain w1 where
        w1: "channel_destroy c w = Some (if a_closed a then SUCCESS else DESTROY_ERROR, w1)" and w1': "world_ok w1 ?A" "sems w1 = sems w"
        "\<forall>k. wait_members w1 k = (if a_closed a \<and> fst k = c then [] else wait_members w k)" "dom (nodes w1) \<subseteq> dom (nodes w)"
        by blast
      from w1 Destroy op have "w1 = w'" by (simp add: do_op_def)
      note w' = w1' [unfolded this]
      from spare Destroy have c: "sel_channel s \<noteq> c" if "s \<in> set sel" for s using that by (auto simp: spares_def)
      have "registry_ok ?A malloc local 0 w'"
      proof -
        from slp obtain N where N: "malloc_upto N malloc" "card (dom (nodes w)) \<le> N" "finite (dom (nodes w))" "sems w local \<noteq> None"
          by (auto simp: asleep_def registry_ok_def)
        from w'(4) N(3) have "finite (dom (nodes w'))" "card (dom (nodes w')) \<le> card (dom (nodes w))"
          by (auto intro: finite_subset card_mono)
        with N w'(1,2) show ?thesis by (auto simp: registry_ok_def intro!: exI [of _ N])
      qed
      moreover have "\<forall>s \<in> set sel. entry_ok ?A s" using slp c by (auto simp: asleep_def entry_ok_def)
      moreover have "idle_until ?A sel (length sel)" if "idle_until A sel (length sel)"
        using that c by (simp add: idle_waits)
      moreover have "\<exists>old. (\<forall>k. local \<notin> set (old k)) \<and>
          (\<forall>k. wait_members w' k = (if k \<in> set (sel_keys sel) then local # old k else old k))"
      proof -
        from slp obtain old where old: "\<forall>k. local \<notin> set (old k)"
          "\<forall>k. wait_members w k = (if k \<in> set (sel_keys sel) then local # old k else old k)" by (auto simp: asleep_def)
        let ?old = "\<lambda>k. if a_closed a \<and> fst k = c then [] else old k"
        have "k \<notin> set (sel_keys sel)" if k: "fst k = c" for k
        proof
          assume "k \<in> set (sel_keys sel)"
          then obtain s where "s \<in> set sel" "k = (sel_channel s, is_send s)" by (auto simp: sel_keys_def)
          with c [of s] k show False by simp
        qed
        with old w'(3) have "(\<forall>k. local \<notin> set (?old k)) \<and>
          (\<forall>k. wait_members w' k = (if k \<in> set (sel_keys sel) then local # ?old k else ?old k))" by auto
        then show ?thesis by (rule exI [of _ ?old])
      qed
      moreover have "snd (spec_op op A) = ?A" using Destroy Some by (simp add: spec_op_def)
      ultimately show ?thesis using slp w'(2) by (simp add: asleep_def split del: if_split)
    qed
  qed
qed

lemma asleep_ops:
  "asleep malloc local sel A w \<Longrightarrow> legal_ops ops A \<Longrightarrow> do_ops ops w = Some (rs, w') \<Longrightarrow> \<forall>op \<in> set ops. spares sel op \<Longrightarrow>
   asleep malloc local sel (snd (spec_ops ops A)) w'"
proof (induction ops arbitrary: A w rs)
  case (Cons op ops)
  from Cons.prems(3) obtain r w1 rs' where w1: "do_op op w = Some (r, w1)" "do_ops ops w1 = Some (rs', w')"
    by (auto split: Option.bind_splits)
  from Cons.prems(2) have l: "legal_op op A" "legal_ops ops (snd (spec_op op A))" by simp_all
  from asleep_op [OF Cons.prems(1) l(1) w1(1)] Cons.prems(4) have "asleep malloc local sel (snd (spec_op op A)) w1" by simp
  from Cons.IH [OF this l(2) w1(2)] Cons.prems(4) show ?case by (simp add: case_prod_beta)
qed simp


section \<open>No wake-up is lost\<close>

lemma asleep_sems:
  assumes "asleep malloc local sel A w"
  shows "registry_ok A malloc local 0 (w\<lparr>sems := (sems w)(local \<mapsto> v)\<rparr>)"
    "wait_members (w\<lparr>sems := (sems w)(local \<mapsto> v)\<rparr>) = wait_members w"
proof -
  from assms have reg: "registry_ok A malloc local 0 w" by (simp add: asleep_def)
  then have world: "world_ok w A" by (simp add: registry_ok_def)
  have nn: "((sems w)(local \<mapsto> v)) x \<noteq> None" if "x \<in> set (wait_members w k)" for x k
    using world_ok_members [OF world that] by simp
  have w: "world_ok (w\<lparr>sems := (sems w)(local \<mapsto> v)\<rparr>) A" "wait_members (w\<lparr>sems := (sems w)(local \<mapsto> v)\<rparr>) = wait_members w"
    using world_ok_sems [OF world, of "(sems w)(local \<mapsto> v)"] nn by blast+
  with reg show "registry_ok A malloc local 0 (w\<lparr>sems := (sems w)(local \<mapsto> v)\<rparr>)" by (auto simp: registry_ok_def)
  from w show "wait_members (w\<lparr>sems := (sems w)(local \<mapsto> v)\<rparr>) = wait_members w" by blast
qed

lemma resume_ready:
  assumes slp: "asleep malloc local sel A w" and len: "length sel = unat count" and j: "j < length sel"
    and idle: "idle_until A sel j"
    and spec: "spec_entry (sel ! j) (the (A (sel_channel (sel ! j)))) = (Returns status, s, a)"
    and status: "status \<noteq> WOULDBLOCK"
  shows "\<exists>w'. select_resume local count sel w = Some (SelReturns status (of_nat j), sel[j := s], w') \<and>
    world_ok w' (A(sel_channel (sel ! j) \<mapsto> a)) \<and> (\<forall>k. local \<notin> set (wait_members w' k))"
proof -
  let ?A = "A(sel_channel (sel ! j) \<mapsto> a)"
  have entries: "\<forall>s \<in> set sel. entry_ok A s" using slp by (simp add: asleep_def)
  from slp obtain old where old: "\<forall>k. local \<notin> set (old k)"
    "\<forall>k. wait_members w k = (if k \<in> set (sel_keys sel) then local # old k else old k)" by (auto simp: asleep_def)
  have "\<not> idle_until A sel (length sel)" using j spec status by (auto simp: idle_until_def)
  with slp have "sems w local \<noteq> Some 0" by (auto simp: asleep_def)
  moreover from slp have "sems w local \<noteq> None" by (simp add: asleep_def registry_ok_def)
  ultimately obtain v where v: "sems w local = Some (Suc v)" by (metis not0_implies_Suc not_None_eq)
  let ?w = "w\<lparr>sems := (sems w)(local \<mapsto> v)\<rparr>"
  note w1 = asleep_sems [OF slp, of v]
  from w1(1) have world1: "world_ok ?w A" by (simp add: registry_ok_def)
  from select_scan_ready [OF world1 entries len _ j idle spec, of 0] status obtain w2 where
    w2: "select_scan count 0 sel ?w = Some (Returns status, of_nat j, sel[j := s], w2)" "tried ?w w2 ?A" by auto
  have keys': "sel_keys (sel[j := s]) = sel_keys sel"
    using spec_entry_key [OF spec] j by (simp add: sel_keys_def map_update list_update_same_conv)
  from w2(2) w1(1) have ok: "registry_ok ?A malloc local 0 w2"
    by (auto simp: tried_def registry_ok_def domIff set_eq_iff)
  have keys: "set (sel_keys (sel[j := s])) \<subseteq> dom (chans w2) \<times> UNIV"
    using entries world1 w2(2) unfolding keys' by (auto simp: sel_keys_def entry_ok_def world_ok_def tried_def)
  have len': "length (sel[j := s]) = unat count" using len by simp
  have mem: "wait_members w2 k = (if k \<in> set (sel_keys (sel[j := s])) then local # old k else old k)" for k
    unfolding keys' using old(2) [rule_format, of k] w2(2) w1(2) by (simp add: tried_def)
  have out: "local \<notin> set (old k)" for k using old(1) by blast
  from select_unregister [OF ok keys len' out mem] obtain w3 where w3:
    "for_entries (unregister_entry local) (sel[j := s]) [0..<unat count] w2 = Some (True, w3)"
    "world_ok (w3\<lparr>sems := (sems w3)(local := None)\<rparr>) ?A"
    "wait_members (w3\<lparr>sems := (sems w3)(local := None)\<rparr>) = old" by blast
  have "select_resume local count sel w = Some (SelReturns status (of_nat j), sel[j := s], w3\<lparr>sems := (sems w3)(local := None)\<rparr>)"
    using v w2(1) w3(1) status by (simp add: select_resume_def select_loop.simps)
  with w3(2,3) old(1) show ?thesis by auto
qed

text \<open>A wake-up for nothing (another thread was faster): the sleeper uses up its posts and sleeps again.\<close>

lemma select_loop_idle:
  assumes "world_ok w A" "\<forall>s \<in> set sel. entry_ok A s" "length sel = unat count" "0 < length sel"
    "idle_until A sel (length sel)" "sems w local = Some v"
  shows "\<exists>w'. select_loop local count sel w = Some (SelWaits, sel, w') \<and> world_ok w' A \<and>
    wait_members w' = wait_members w \<and> sems w' local = Some 0"
  using assms(1,6)
proof (induction v arbitrary: w)
  case 0
  from select_scan_idle [OF 0(1) assms(2,3) _ assms(5), of 0] assms(4) obtain w1 i where
    w1: "select_scan count 0 sel w = Some (Returns WOULDBLOCK, i, sel, w1)" "tried w w1 A" "sems w1 = sems w" by auto
  with 0 show ?case by (subst select_loop.simps) (simp add: tried_def)
next
  case (Suc v)
  from select_scan_idle [OF Suc.prems(1) assms(2,3) _ assms(5), of 0] assms(4) obtain w1 i where
    w1: "select_scan count 0 sel w = Some (Returns WOULDBLOCK, i, sel, w1)" "tried w w1 A" "sems w1 = sems w" by auto
  let ?w = "w1\<lparr>sems := (sems w1)(local \<mapsto> v)\<rparr>"
  from w1(2) have world1: "world_ok w1 A" by (simp add: tried_def)
  have nn: "((sems w1)(local \<mapsto> v)) x \<noteq> None" if "x \<in> set (wait_members w1 k)" for x k
    using world_ok_members [OF world1 that] by simp
  have w2: "world_ok ?w A" "wait_members ?w = wait_members w1"
    using world_ok_sems [OF world1, of "(sems w1)(local \<mapsto> v)"] nn by blast+
  from Suc.IH [OF w2(1)] obtain w' where "select_loop local count sel ?w = Some (SelWaits, sel, w')" "world_ok w' A"
    "wait_members w' = wait_members ?w" "sems w' local = Some 0" by auto
  with w1 w2(2) Suc.prems(2) show ?case by (subst select_loop.simps) (simp add: tried_def)
qed

lemma resume_idle:
  assumes slp: "asleep malloc local sel A w" and "length sel = unat count" "0 < length sel" "idle_until A sel (length sel)"
  shows "\<exists>w'. select_resume local count sel w = Some (SelWaits, sel, w') \<and> world_ok w' A \<and>
    wait_members w' = wait_members w \<and> sems w' local = Some 0"
proof -
  from slp have reg: "world_ok w A" "\<forall>s \<in> set sel. entry_ok A s" "sems w local \<noteq> None"
    by (simp_all add: asleep_def registry_ok_def)
  then obtain v where v: "sems w local = Some v" by blast
  show ?thesis
  proof (cases v)
    case 0
    with v reg show ?thesis by (simp add: select_resume_def)
  next
    case (Suc u)
    note w1 = asleep_sems [OF slp, of u]
    from select_loop_idle [OF _ reg(2) assms(2-4), of "w\<lparr>sems := (sems w)(local \<mapsto> u)\<rparr>" local u] w1 show ?thesis
      using v Suc by (simp add: select_resume_def registry_ok_def)
  qed
qed

lemma sleeps_asleep:
  assumes pre: "select_pre malloc local count sel A w" and n: "0 < length sel" and idle: "idle_until A sel (length sel)"
    and call: "channel_select malloc local count sel w = Some (SelWaits, sel', w1)"
  shows "asleep malloc local sel A w1" "sel' = sel"
proof -
  from pre have world: "world_ok w A" and fresh: "sems w local = None" by (simp_all add: select_pre_def)
  have out: "local \<notin> set (wait_members w k)" for k using world_ok_members [OF world] fresh by blast
  from pre have len: "length sel = unat count" and entries: "\<forall>s \<in> set sel. entry_ok A s" by (simp_all add: select_pre_def)
  from select_register [OF pre] obtain w0 where w0:
    "for_entries (register_entry malloc local) sel [0..<unat count] (w\<lparr>sems := (sems w)(local \<mapsto> 0)\<rparr>) = Some (True, w0)"
    "registry_ok A malloc local 0 w0" "sems w0 = (sems w)(local \<mapsto> 0)"
    "\<forall>k. wait_members w0 k = (if k \<in> set (sel_keys sel) then local # wait_members w k else wait_members w k)" by blast
  then have world0: "world_ok w0 A" by (simp add: registry_ok_def)
  from select_scan_idle [OF world0 entries len _ idle, of 0] n obtain w2 i where
    w2: "select_scan count 0 sel w0 = Some (Returns WOULDBLOCK, i, sel, w2)" "tried w0 w2 A" "sems w2 = sems w0" by auto
  have "channel_select malloc local count sel w = Some (SelWaits, sel, w2)"
    using w0(1,3) w2(1,3) by (simp add: channel_select_def select_loop.simps)
  with call have w1: "w1 = w2" "sel' = sel" by simp_all
  have "registry_ok A malloc local 0 w2" using w0(2) w2(2) by (auto simp: tried_def registry_ok_def domIff set_eq_iff)
  moreover have "\<forall>k. wait_members w2 k = (if k \<in> set (sel_keys sel) then local # wait_members w k else wait_members w k)"
    using w0(4) w2(2) by (simp add: tried_def)
  ultimately show "asleep malloc local sel A w1" "sel' = sel" using entries idle out w1
    unfolding asleep_def by blast+
qed

text \<open>C7: No wake-up is lost. While a caller of \<open>channel_select\<close> sleeps, other threads make any sequence of legal calls
  (create, send, receive, close, and destroy of channels it does not wait for). If an entry of the
  sleeper can then proceed or finds its channel closed, its semaphore has been posted, and it
  performs the first such entry, returns its status and index, and is registered nowhere any
  more. If none can, it sleeps on, or again.\<close>

theorem select_woken:
  assumes pre: "select_pre malloc local count sel A w" and n: "0 < length sel" and idle: "idle_until A sel (length sel)"
    and call: "channel_select malloc local count sel w = Some (SelWaits, sel, w1)"
    and legal: "legal_ops ops A" and ops: "do_ops ops w1 = Some (rs, w2)" and spare: "\<forall>op \<in> set ops. spares sel op"
    and A': "A' = snd (spec_ops ops A)"
  shows "(\<forall>j < length sel. \<forall>status s a. idle_until A' sel j \<longrightarrow>
      spec_entry (sel ! j) (the (A' (sel_channel (sel ! j)))) = (Returns status, s, a) \<longrightarrow> status \<noteq> WOULDBLOCK \<longrightarrow>
      0 < the (sems w2 local) \<and>
      (\<exists>w'. select_resume local count sel w2 = Some (SelReturns status (of_nat j), sel[j := s], w') \<and>
        world_ok w' (A'(sel_channel (sel ! j) \<mapsto> a)) \<and> (\<forall>k. local \<notin> set (wait_members w' k)))) \<and>
    (idle_until A' sel (length sel) \<longrightarrow>
      (\<exists>w'. select_resume local count sel w2 = Some (SelWaits, sel, w') \<and> world_ok w' A' \<and> sems w' local = Some 0))"
proof -
  have len: "length sel = unat count" using pre by (simp add: select_pre_def)
  have slp: "asleep malloc local sel A' w2"
    unfolding A' by (rule asleep_ops [OF sleeps_asleep(1) [OF pre n idle call] legal ops spare])
  have "0 < the (sems w2 local)" if "\<not> idle_until A' sel (length sel)"
  proof -
    from slp that have "sems w2 local \<noteq> Some 0" "sems w2 local \<noteq> None" by (auto simp: asleep_def registry_ok_def)
    then show ?thesis by auto
  qed
  moreover have "\<not> idle_until A' sel (length sel)"
    if "j < length sel" "spec_entry (sel ! j) (the (A' (sel_channel (sel ! j)))) = (Returns status, s, a)" "status \<noteq> WOULDBLOCK"
    for j status s a using that by (auto simp: idle_until_def)
  ultimately show ?thesis using resume_ready [OF slp len] resume_idle [OF slp len n] by blast
qed

theorem select_woken_witness:
  "\<exists>w w1 w2 w'. channel_create 8 True True True True (\<lambda>_. 0) 0 1 no_world = Some (8, w) \<and>
    channel_select (\<lambda>_. 64) 100 1 [\<lparr>sel_channel = 8, is_send = False, sel_data = 0\<rparr>] w =
      Some (SelWaits, [\<lparr>sel_channel = 8, is_send = False, sel_data = 0\<rparr>], w1) \<and>
    do_ops [Receive 8 False, Send 8 7 True, Close 8] w1 =
      Some ([Received (Returns WOULDBLOCK) None, Status (Returns SUCCESS), Status (Returns SUCCESS)], w2) \<and>
    select_resume 100 1 [\<lparr>sel_channel = 8, is_send = False, sel_data = 0\<rparr>] w2 =
      Some (SelReturns CLOSED_ERROR 0, [\<lparr>sel_channel = 8, is_send = False, sel_data = 0\<rparr>], w')"
proof -
  let ?A = "[8 \<mapsto> \<lparr>a_cap = 1, a_items = [], a_closed = False\<rparr>] :: u64 \<rightharpoonup> abs_chan"
  let ?s = "\<lparr>sel_channel = 8, is_send = False, sel_data = 0\<rparr> :: select_t"
  let ?ops = "[Receive 8 False, Send 8 7 True, Close 8]"
  from one_channel obtain w where
    w: "channel_create 8 True True True True (\<lambda>_. 0) 0 1 no_world = Some (8, w)"
      "world_ok w ?A" "nodes w = Map.empty" "sems w = Map.empty" by blast
  have pre: "select_pre (\<lambda>_. 64) 100 1 [?s] ?A w"
    by (rule one_channel_pre) (use w in simp_all)
  have idle: "idle_until ?A [?s] (length [?s])" by (simp add: idle_until_def spec_entry_def spec_receive_def)
  from select_sleeps [OF pre _ idle] obtain w1 where
    w1: "channel_select (\<lambda>_. 64) 100 1 [?s] w = Some (SelWaits, [?s], w1)" "world_ok w1 ?A" by auto
  have legal: "legal_ops ?ops ?A"
    by (simp add: legal_op_def spec_op_def spec_receive_def BUFFER_EMPTY_def)
  from do_ops_refines [OF w1(2) legal] obtain w2 where
    w2: "do_ops ?ops w1 = Some ([Received (Returns WOULDBLOCK) None, Status (Returns SUCCESS), Status (Returns SUCCESS)], w2)"
    by (auto simp: spec_op_def spec_receive_def spec_send_def spec_close_def)
  have "\<forall>op \<in> set ?ops. spares [?s] op" by (simp add: spares_def)
  from select_woken [OF pre _ idle w1(1) legal w2 this refl, THEN conjunct1, rule_format, of 0 CLOSED_ERROR ?s
      "\<lparr>a_cap = 1, a_items = [7], a_closed = True\<rparr>"]
  obtain w' where "select_resume 100 1 [?s] w2 = Some (SelReturns CLOSED_ERROR 0, [?s], w')"
    by (auto simp: idle_until_def spec_entry_def spec_op_def spec_receive_def spec_send_def spec_close_def)
  with w(1) w1(1) w2 show ?thesis by blast
qed

end
