(* ===== verification/Memory.thy ===== *)
theory Memory
  imports Prelude
begin

text \<open>
  Byte-addressed memory of the x86-64 target, little endian, with the 64-bit accesses of the
  allocators and of the page tables, and the interface (a locale) that the code above relies
  on: aligned words do not overlap.
\<close>

type_synonym memory = "u64 \<Rightarrow> u8"

section \<open>Accesses\<close>

definition load64 :: "memory \<Rightarrow> u64 \<Rightarrow> u64" where
  "load64 m a = horner_sum of_bool 2 (map (\<lambda>n. bit (m (a + of_nat (n div 8))) (n mod 8)) [0..<64])"

text \<open>\<open>store_bytes m a v n\<close> writes the \<open>n\<close> low bytes of \<open>v\<close> at \<open>a\<close>.\<close>

definition store_bytes :: "memory \<Rightarrow> u64 \<Rightarrow> u64 \<Rightarrow> nat \<Rightarrow> memory" where
  "store_bytes m a v n = (\<lambda>b. if unat (b - a) < n then ucast (drop_bit (8 * unat (b - a)) v) else m b)"

definition store64 :: "memory \<Rightarrow> u64 \<Rightarrow> u64 \<Rightarrow> memory" where
  "store64 m a v = store_bytes m a v 8"

lemma bit_load64: "bit (load64 m a) n \<longleftrightarrow> n < 64 \<and> bit (m (a + of_nat (n div 8))) (n mod 8)"
  unfolding load64_def
  by (simp add: bit_horner_sum_bit_iff possible_bit_word del: upt_Suc upt_conv_Cons) auto

lemma offset8: "k < 8 \<Longrightarrow> unat (of_nat k :: u64) = k"
  by (simp add: unat_of_nat)

lemma load64_cong: "(\<And>k. k < 8 \<Longrightarrow> m' (a + of_nat k) = m (a + of_nat k)) \<Longrightarrow> load64 m' a = load64 m a"
  by (intro bit_word_eqI) (auto simp: bit_load64)

lemma load64_store64 [simp]: "load64 (store64 m a v) a = v"
proof (rule bit_word_eqI)
  fix n assume "n < LENGTH(64)"
  then have n: "n < 64" "n div 8 < 8" by auto
  then have "unat ((a + of_nat (n div 8)) - a) = n div 8" using offset8 by simp
  with n show "bit (load64 (store64 m a v) a) n = bit v n"
    by (simp add: bit_load64 store64_def store_bytes_def bit_ucast_iff bit_drop_bit_eq)
qed

text \<open>Words at distance 8 or more in both directions do not overlap.\<close>

definition apart :: "u64 \<Rightarrow> u64 \<Rightarrow> bool" where
  "apart a b \<longleftrightarrow> 8 \<le> unat (a - b) \<and> 8 \<le> unat (b - a)"

lemma load64_store64_apart:
  assumes "apart a b"
  shows "load64 (store64 m a v) b = load64 m b"
proof (rule load64_cong)
  fix k :: nat assume k: "k < 8"
  have "\<not> unat (b + of_nat k - a) < 8"
  proof
    assume *: "unat (b + of_nat k - a) < 8"
    define d where "d = b + of_nat k - a"
    have "d < 8" using * by (simp add: d_def word_less_nat_alt)
    have ab: "a - b = of_nat k - d" by (simp add: d_def algebra_simps)
    show False
    proof (cases "d \<le> of_nat k")
      case True
      then have "unat (a - b) = k - unat d"
        using k by (simp add: ab unat_sub offset8)
      with assms k show False by (auto simp: apart_def)
    next
      case False
      then have le: "of_nat k \<le> d" by simp
      have "b - a = d - of_nat k" by (simp add: d_def)
      then have "unat (b - a) = unat d - k"
        using k by (simp add: unat_sub [OF le] offset8)
      with assms * show False by (auto simp: apart_def d_def)
    qed
  qed
  then show "store64 m a v (b + of_nat k) = m (b + of_nat k)"
    by (simp add: store64_def store_bytes_def)
qed

definition aligned8 :: "u64 \<Rightarrow> bool" where
  "aligned8 a \<longleftrightarrow> a AND 7 = 0"

lemma aligned8_dvd: "aligned8 a \<longleftrightarrow> 8 dvd unat a"
proof -
  have "a AND 7 = take_bit 3 a" by (simp add: take_bit_eq_mask mask_eq_exp_minus_1)
  then have "a AND 7 = 0 \<longleftrightarrow> unat (take_bit 3 a) = 0" by (simp add: unat_eq_0)
  also have "\<dots> \<longleftrightarrow> 8 dvd unat a"
    unfolding unsigned_take_bit_eq by (simp add: take_bit_eq_mod dvd_eq_mod_eq_0)
  finally show ?thesis by (simp add: aligned8_def)
qed

lemma aligned8_apart:
  assumes "aligned8 a" "aligned8 b" "a \<noteq> b"
  shows "apart a b"
proof -
  have dist: "8 \<le> unat (x - y)" if "8 dvd unat x" "8 dvd unat y" "x \<noteq> y" for x y :: u64
  proof -
    have "8 dvd unat (x - y)"
    proof (cases "y \<le> x")
      case True
      with that show ?thesis by (simp add: unat_sub dvd_diff_nat)
    next
      case False
      then have "unat (x - y) = 2 ^ 64 - (unat y - unat x)"
        by (simp add: unat_sub_if_size word_size word_le_nat_alt)
      moreover have "8 dvd (2 ^ 64 :: nat)" by simp
      ultimately show ?thesis using that by (metis dvd_diff_nat)
    qed
    moreover from that have "unat (x - y) \<noteq> 0" by (simp add: unat_eq_zero)
    ultimately show ?thesis by (auto dest: dvd_imp_le)
  qed
  with assms show ?thesis by (simp add: apart_def aligned8_dvd)
qed

section \<open>The interface of aligned words\<close>

text \<open>
  \<open>ok a\<close>: the address \<open>a\<close> may be accessed as a word. Writing a word is seen when reading it
  back, and changes no other word.
\<close>

locale word_memory =
  fixes ok :: "'a \<Rightarrow> bool" and get :: "'m \<Rightarrow> 'a \<Rightarrow> 'v" and put :: "'m \<Rightarrow> 'a \<Rightarrow> 'v \<Rightarrow> 'm"
  assumes get_put: "ok a \<Longrightarrow> get (put m a v) a = v"
    and get_put_other: "ok a \<Longrightarrow> ok b \<Longrightarrow> a \<noteq> b \<Longrightarrow> get (put m a v) b = get m b"

text \<open>A sequence of writes, first one first.\<close>

fun put_list :: "('m \<Rightarrow> 'a \<Rightarrow> 'v \<Rightarrow> 'm) \<Rightarrow> ('a \<times> 'v) list \<Rightarrow> 'm \<Rightarrow> 'm" where
  "put_list put [] m = m"
| "put_list put ((a, v) # ws) m = put_list put ws (put m a v)"

lemma put_list_append: "put_list put (xs @ ys) m = put_list put ys (put_list put xs m)"
  by (induction put xs m rule: put_list.induct) auto

context word_memory
begin

lemma get_put_list_other:
  "ok a \<Longrightarrow> \<forall>w \<in> set ws. ok (fst w) \<Longrightarrow> a \<notin> fst ` set ws \<Longrightarrow> get (put_list put ws m) a = get m a"
proof (induction ws arbitrary: m)
  case (Cons w ws)
  then show ?case by (cases w) (auto simp: get_put_other)
qed simp

lemma get_put_list:
  "\<forall>w \<in> set ws. ok (fst w) \<Longrightarrow> distinct (map fst ws) \<Longrightarrow> (a, v) \<in> set ws \<Longrightarrow>
   get (put_list put ws m) a = v"
proof (induction ws arbitrary: m)
  case (Cons w ws)
  obtain b u where w: "w = (b, u)" by force
  show ?case
  proof (cases "(a, v) \<in> set ws")
    case True
    with Cons w show ?thesis by simp
  next
    case False
    with Cons.prems w have "a = b" "v = u" by auto
    with Cons.prems w have "a \<notin> fst ` set ws" "ok a" by auto
    with Cons.prems w \<open>a = b\<close> \<open>v = u\<close> show ?thesis by (simp add: get_put_list_other get_put)
  qed
qed simp

end

interpretation mem64: word_memory aligned8 load64 store64
proof (unfold_locales, goal_cases)
  case (2 a b m v)
  then show ?case by (simp add: load64_store64_apart aligned8_apart)
qed simp

text \<open>Bytes.\<close>

lemma store_bytes_same: "unat (b - a) < n \<Longrightarrow> store_bytes m a v n b = ucast (drop_bit (8 * unat (b - a)) v)"
  by (simp add: store_bytes_def)

lemma store_bytes_other: "\<not> unat (b - a) < n \<Longrightarrow> store_bytes m a v n b = m b"
  by (simp add: store_bytes_def)

end
