(* ===== verification/Memlib.thy ===== *)
theory Memlib
  imports Memory
begin

text \<open>
  The memory systems under the two allocators: \<open>memlib.c\<close> of \<open>p1-memory-management\<close> (the
  simulated break, and the copies and fills in words of eight bytes), and
  \<open>kernel_malloc.c\<close> and \<open>string.c\<close> of \<open>p2-page-tables/kernel\<close>.
\<close>

section \<open>State\<close>

text \<open>
  The variables of \<open>memlib.c\<close> (or of \<open>kernel_malloc.c\<close>, which calls them \<open>HeapMemory\<close>,
  \<open>HeapMemoryBrk\<close>, \<open>HeapMemoryEnd\<close>), those of the allocator, and the memory.
\<close>

record heap_state =
  hmem :: memory
  heap_start :: u64
  mem_brk :: u64
  mem_max_addr :: u64
  heap_listp :: u64
  seg_list :: "u64 list"

section \<open>\<open>memlib.c\<close>\<close>

definition MAX_HEAP_SIZE :: u64 where
  "MAX_HEAP_SIZE = push_bit 40 1"

definition mem_reset_brk :: "heap_state \<Rightarrow> heap_state" where
  "mem_reset_brk st = st\<lparr>mem_brk := heap_start st\<rparr>"

text \<open>\<open>addr\<close>: what \<open>mmap\<close> returns; after \<open>MAP_FAILED\<close> the program exits.\<close>

definition mem_init :: "u64 \<Rightarrow> heap_state \<Rightarrow> heap_state option" where
  "mem_init addr st =
     (if addr = - 1 then None
      else Some (mem_reset_brk (st\<lparr>heap_start := addr, mem_max_addr := addr + MAX_HEAP_SIZE\<rparr>)))"

text \<open>The increment is signed; a failure returns \<open>(void*) -1\<close>.\<close>

definition mem_sbrk :: "u64 \<Rightarrow> heap_state \<Rightarrow> u64 \<times> heap_state" where
  "mem_sbrk incr st =
     (if incr <s 0 then (- 1, st)
      else if mem_brk st + incr > mem_max_addr st then (- 1, st)
      else (mem_brk st, st\<lparr>mem_brk := mem_brk st + incr\<rparr>))"

definition mem_heap_lo :: "heap_state \<Rightarrow> u64" where
  "mem_heap_lo st = heap_start st"

definition mem_heap_hi :: "heap_state \<Rightarrow> u64" where
  "mem_heap_hi st = mem_brk st - 1"

definition mem_heapsize :: "heap_state \<Rightarrow> u64" where
  "mem_heapsize st = mem_brk st - heap_start st"

text \<open>The emulated accesses. \<open>mem_read\<close> always loads eight bytes and masks.\<close>

definition mem_read :: "memory \<Rightarrow> u64 \<Rightarrow> u64 \<Rightarrow> u64" where
  "mem_read m addr len =
     (let rdata = load64 m addr in
      if len < 8 then rdata AND (push_bit (unat (8 * len)) 1 - 1) else rdata)"

definition mem_write :: "memory \<Rightarrow> u64 \<Rightarrow> u64 \<Rightarrow> u64 \<Rightarrow> memory" where
  "mem_write m addr val len =
     (if len = 8 then store64 m addr val else store_bytes m addr val (unat len))"

function mem_memcpy :: "memory \<Rightarrow> u64 \<Rightarrow> u64 \<Rightarrow> u64 \<Rightarrow> memory" where
  "mem_memcpy m dst src n =
     (if n \<ge> 8 then mem_memcpy (mem_write m dst (mem_read m src 8) 8) (dst + 8) (src + 8) (n - 8)
      else if n \<noteq> 0 then mem_write m dst (mem_read m src n) n
      else m)"
  by pat_completeness auto
termination
  by (relation "measure (\<lambda>(m, dst, src, n). unat n)") (auto simp: unat_sub word_le_nat_alt)

text \<open>The byte of \<open>c\<close>, eight times.\<close>

definition fill_word :: "u32 \<Rightarrow> u64" where
  "fill_word c = (let byte = ucast (c AND 0xFF) :: u64 in
     foldl (\<lambda>data i. data OR push_bit (8 * i) byte) 0 [0..<8])"

function mem_memset_words :: "memory \<Rightarrow> u64 \<Rightarrow> u64 \<Rightarrow> u64 \<Rightarrow> memory" where
  "mem_memset_words m dst data n =
     (if n \<ge> 8 then mem_memset_words (mem_write m dst data 8) (dst + 8) data (n - 8)
      else if n \<noteq> 0 then mem_write m dst data n
      else m)"
  by pat_completeness auto
termination
  by (relation "measure (\<lambda>(m, dst, data, n). unat n)") (auto simp: unat_sub word_le_nat_alt)

definition mem_memset :: "memory \<Rightarrow> u64 \<Rightarrow> u32 \<Rightarrow> u64 \<Rightarrow> memory" where
  "mem_memset m dst c n = mem_memset_words m dst (fill_word c) n"

declare mem_memcpy.simps [simp del] mem_memset_words.simps [simp del]

section \<open>\<open>kernel_malloc.c\<close> and \<open>string.c\<close>\<close>

definition kernel_mem_init :: "u64 \<Rightarrow> u64 \<Rightarrow> heap_state \<Rightarrow> heap_state" where
  "kernel_mem_init heapMemory heapMemorySize st =
     st\<lparr>heap_start := heapMemory, mem_brk := heapMemory, mem_max_addr := heapMemory + heapMemorySize\<rparr>"

text \<open>Here nothing checks the sign of the increment.\<close>

definition kernel_mem_sbrk :: "u64 \<Rightarrow> heap_state \<Rightarrow> u64 \<times> heap_state" where
  "kernel_mem_sbrk incr st =
     (if mem_brk st + incr > mem_max_addr st then (- 1, st)
      else (mem_brk st, st\<lparr>mem_brk := mem_brk st + incr\<rparr>))"

definition kernel_mem_heap_lo :: "heap_state \<Rightarrow> u64" where
  "kernel_mem_heap_lo st = heap_start st"

definition kernel_mem_heap_hi :: "heap_state \<Rightarrow> u64" where
  "kernel_mem_heap_hi st = mem_brk st - 1"

text \<open>The loops \<open>while (num--)\<close>, byte by byte.\<close>

fun kernel_memset :: "memory \<Rightarrow> u64 \<Rightarrow> u32 \<Rightarrow> nat \<Rightarrow> memory" where
  "kernel_memset m p value 0 = m"
| "kernel_memset m p value (Suc num) = kernel_memset (m(p := ucast value)) (p + 1) value num"

fun kernel_memcpy :: "memory \<Rightarrow> u64 \<Rightarrow> u64 \<Rightarrow> nat \<Rightarrow> memory" where
  "kernel_memcpy m d s 0 = m"
| "kernel_memcpy m d s (Suc num) = kernel_memcpy (m(d := m s)) (d + 1) (s + 1) num"

section \<open>What the copies and fills do\<close>

text \<open>
  \<open>copied m dst src n\<close>: the memory after \<open>n\<close> bytes at \<open>src\<close> have been copied to \<open>dst\<close>;
  \<open>filled\<close>: after \<open>n\<close> bytes at \<open>dst\<close> have been set.
\<close>

definition copied :: "memory \<Rightarrow> u64 \<Rightarrow> u64 \<Rightarrow> nat \<Rightarrow> memory" where
  "copied m dst src n = (\<lambda>b. if unat (b - dst) < n then m (src + (b - dst)) else m b)"

definition filled :: "memory \<Rightarrow> u64 \<Rightarrow> u8 \<Rightarrow> nat \<Rightarrow> memory" where
  "filled m dst v n = (\<lambda>b. if unat (b - dst) < n then v else m b)"

text \<open>The ranges do not overlap: the two starts are \<open>n\<close> bytes apart, both ways around.\<close>

definition no_overlap :: "u64 \<Rightarrow> u64 \<Rightarrow> nat \<Rightarrow> bool" where
  "no_overlap dst src n \<longleftrightarrow> n \<le> unat (dst - src) \<and> n \<le> unat (src - dst)"

lemma offset_step:
  fixes b d :: u64
  assumes "k \<le> n" "n < 2 ^ 64" "\<not> unat (b - d) < k"
  shows "unat (b - (d + of_nat k)) < n - k \<longleftrightarrow> unat (b - d) < n"
proof -
  have k: "unat (of_nat k :: u64) = k" using assms by (simp add: unat_of_nat)
  have "of_nat k \<le> b - d" using assms k by (simp add: word_le_nat_alt)
  from unat_sub [OF this] have "unat (b - (d + of_nat k)) = unat (b - d) - k"
    using k by (simp add: diff_diff_eq)
  with assms show ?thesis by linarith
qed

lemma copied_step:
  assumes no: "no_overlap dst src n" and k: "k \<le> n" "n < 2 ^ 64"
  shows "copied (copied m dst src k) (dst + of_nat k) (src + of_nat k) (n - k) = copied m dst src n"
proof
  fix b
  show "copied (copied m dst src k) (dst + of_nat k) (src + of_nat k) (n - k) b = copied m dst src n b"
  proof (cases "unat (b - dst) < k")
    case True
    have "\<not> unat (b - (dst + of_nat k)) < n - k"
    proof
      assume *: "unat (b - (dst + of_nat k)) < n - k"
      define x where "x = b - dst"
      have x: "unat x < k" using True by (simp add: x_def)
      have kk: "unat (of_nat k :: u64) = k" using k by (simp add: unat_of_nat)
      have "x < of_nat k" using x kk by (simp add: word_less_nat_alt)
      then have "unat (x - of_nat k) = 2 ^ 64 + unat x - k"
        using kk x by (simp add: unat_sub_if_size word_size word_le_nat_alt)
      moreover have e: "b - (dst + of_nat k) = x - of_nat k" by (simp add: x_def diff_diff_eq)
      ultimately show False using * [unfolded e] x k by linarith
    qed
    with True k show ?thesis by (simp add: copied_def)
  next
    case False
    note step = offset_step [OF k False]
    show ?thesis
    proof (cases "unat (b - dst) < n")
      case True
      have src: "\<not> unat (src + (b - dst) - dst) < k"
      proof
        assume *: "unat (src + (b - dst) - dst) < k"
        define x where "x = b - dst"
        define y where "y = src + x - dst"
        have y: "unat y < k" using * by (simp add: x_def y_def)
        have x: "k \<le> unat x" "unat x < n" using False True by (simp_all add: x_def)
        have "dst - src = x - y" by (simp add: y_def)
        moreover have "y \<le> x" using x y by (simp add: word_le_nat_alt)
        ultimately have "unat (dst - src) = unat x - unat y" by (simp add: unat_sub)
        with no x show False by (auto simp: no_overlap_def)
      qed
      have "src + of_nat k + (b - (dst + of_nat k)) = src + (b - dst)" by simp
      then show ?thesis using True False step src by (simp add: copied_def)
    next
      case out: False
      with False step show ?thesis by (simp add: copied_def)
    qed
  qed
qed

lemma no_overlap_step:
  assumes no: "no_overlap dst src n" and k: "k \<le> n"
  shows "no_overlap (dst + of_nat k) (src + of_nat k) (n - k)"
  using assms by (auto simp: no_overlap_def)

lemma copied_0 [simp]: "copied m dst src 0 = m"
  by (simp add: copied_def)

lemma filled_0 [simp]: "filled m dst v 0 = m"
  by (simp add: filled_def)

lemma kernel_memcpy_copied:
  "no_overlap d s n \<Longrightarrow> n < 2 ^ 64 \<Longrightarrow> kernel_memcpy m d s n = copied m d s n"
proof (induction n arbitrary: m d s)
  case (Suc n)
  have one: "m(d := m s) = copied m d s 1"
    by (auto simp: copied_def fun_eq_iff unat_eq_0)
  from no_overlap_step [OF Suc.prems(1), of 1] Suc.prems
  have "kernel_memcpy m d s (Suc n) = copied (copied m d s 1) (d + 1) (s + 1) n"
    by (simp add: Suc.IH one)
  with copied_step [OF Suc.prems(1), of 1 m] Suc.prems show ?case by simp
qed simp

text \<open>The bytes of a loaded word.\<close>

lemma byte_of_load:
  assumes "i < 8"
  shows "ucast (drop_bit (8 * i) (load64 m a)) = m (a + of_nat i)"
proof (rule bit_word_eqI)
  fix n assume "n < LENGTH(8)"
  with assms have n: "n < 8" "8 * i + n < 64" by simp_all
  then have "(8 * i + n) div 8 = i" "(8 * i + n) mod 8 = n" by simp_all
  with n show "bit (ucast (drop_bit (8 * i) (load64 m a)) :: u8) n = bit (m (a + of_nat i)) n"
    by (simp add: bit_ucast_iff bit_drop_bit_eq bit_load64)
qed

lemma byte_of_read:
  assumes "i < unat len" "unat len \<le> 8"
  shows "ucast (drop_bit (8 * i) (mem_read m a len)) = m (a + of_nat i)"
proof -
  have "(ucast (drop_bit (8 * i) (load64 m a AND (push_bit (unat (8 * len)) 1 - 1))) :: u8) =
      ucast (drop_bit (8 * i) (load64 m a))"
  proof (rule bit_word_eqI)
    fix n assume n: "n < LENGTH(8)"
    have l: "unat (8 * len) = 8 * unat len"
      using assms(2) by (simp add: unat_word_ariths)
    with n assms have lt: "8 * i + n < unat (8 * len)" by simp
    have "push_bit (unat (8 * len)) 1 - 1 = (mask (unat (8 * len)) :: u64)"
      by (simp add: mask_eq_exp_minus_1 push_bit_of_1)
    then have "bit (push_bit (unat (8 * len)) 1 - 1 :: u64) (8 * i + n)"
      using lt l assms by (simp add: bit_mask_iff)
    with n show "bit (ucast (drop_bit (8 * i) (load64 m a AND (push_bit (unat (8 * len)) 1 - 1))) :: u8) n =
        bit (ucast (drop_bit (8 * i) (load64 m a)) :: u8) n"
      by (simp add: bit_ucast_iff bit_drop_bit_eq bit_and_iff)
  qed
  with assms byte_of_load [of i m a] show ?thesis by (simp add: mem_read_def Let_def)
qed

lemma write_read_copied:
  assumes "unat n \<le> 8"
  shows "mem_write m dst (mem_read m src n) n = copied m dst src (unat n)"
proof -
  have "mem_write m dst v n = store_bytes m dst v (unat n)" for v
    by (auto simp: mem_write_def store64_def)
  moreover have "store_bytes m dst (mem_read m src n) (unat n) b = copied m dst src (unat n) b" for b
    using byte_of_read [of "unat (b - dst)" n m src] assms
    by (simp add: store_bytes_def copied_def)
  ultimately show ?thesis by auto
qed

lemma mem_memcpy_copied:
  "no_overlap dst src (unat n) \<Longrightarrow> mem_memcpy m dst src n = copied m dst src (unat n)"
proof (induction m dst src n rule: mem_memcpy.induct)
  case (1 m dst src n)
  show ?case
  proof (cases "8 \<le> n")
    case True
    then have le: "8 \<le> unat n" and sub: "unat (n - 8) = unat n - 8"
      by (simp_all add: word_le_nat_alt unat_sub)
    have "mem_write m dst (mem_read m src 8) 8 = copied m dst src 8"
      using write_read_copied [of 8] by simp
    moreover from 1(1) [OF True] no_overlap_step [OF 1(2) le] sub
    have "mem_memcpy (mem_write m dst (mem_read m src 8) 8) (dst + 8) (src + 8) (n - 8) =
        copied (mem_write m dst (mem_read m src 8) 8) (dst + 8) (src + 8) (unat n - 8)" by simp
    ultimately show ?thesis
      using copied_step [OF 1(2) le, of m] True unat_lt64 [of n]
      by (simp add: mem_memcpy.simps [of m dst src n])
  next
    case False
    then have "unat n \<le> 8" by (simp add: word_le_nat_alt)
    with False write_read_copied [of n m dst src] show ?thesis
      by (auto simp: mem_memcpy.simps [of m dst src n] unat_eq_0)
  qed
qed

lemma filled_step:
  assumes k: "k \<le> n" "n < 2 ^ 64"
  shows "filled (filled m dst v k) (dst + of_nat k) v (n - k) = filled m dst v n"
proof
  fix b
  show "filled (filled m dst v k) (dst + of_nat k) v (n - k) b = filled m dst v n b"
    using offset_step [OF k, of b dst] k by (auto simp: filled_def)
qed

lemma kernel_memset_filled:
  "n < 2 ^ 64 \<Longrightarrow> kernel_memset m p value n = filled m p (ucast value) n"
proof (induction n arbitrary: m p)
  case (Suc n)
  have one: "m(p := ucast value) = filled m p (ucast value) 1"
    by (auto simp: filled_def fun_eq_iff unat_eq_0)
  with Suc filled_step [of 1 "Suc n" m p "ucast value"] show ?case by simp
qed simp

lemma fill_word_byte:
  assumes "i < 8"
  shows "ucast (drop_bit (8 * i) (fill_word c)) = (ucast c :: u8)"
proof (rule bit_word_eqI)
  fix n assume "n < LENGTH(8)"
  then have n: "n < 8" by simp
  have upt: "[0..<8] = [0, 1, 2, 3, 4, 5, 6, 7 :: nat]" by (simp add: upt_rec)
  have ff: "(0xFF :: u32) = mask 8" by (simp add: mask_eq_exp_minus_1)
  have "i \<in> {0, 1, 2, 3, 4, 5, 6, 7}" using assms by auto
  with n show "bit (ucast (drop_bit (8 * i) (fill_word c)) :: u8) n = bit (ucast c :: u8) n"
    by (elim insertE) (simp_all add: fill_word_def Let_def upt ff bit_ucast_iff bit_drop_bit_eq
        bit_or_iff bit_push_bit_iff bit_and_iff bit_mask_iff, auto?)
qed

lemma mem_memset_words_filled:
  assumes "\<And>i. i < 8 \<Longrightarrow> (ucast (drop_bit (8 * i) data) :: u8) = v"
  shows "mem_memset_words m dst data n = filled m dst v (unat n)"
  using assms
proof (induction m dst data n rule: mem_memset_words.induct)
  case (1 m dst data n)
  have bytes: "store_bytes m dst data (unat k) = filled m dst v (unat k)" if "unat k \<le> 8" for k :: u64
    using 1(2) that by (auto simp: store_bytes_def filled_def fun_eq_iff)
  have wr: "mem_write m dst data k = filled m dst v (unat k)" if "unat k \<le> 8" for k
    using bytes [OF that] by (auto simp: mem_write_def store64_def)
  show ?case
  proof (cases "8 \<le> n")
    case True
    then have le: "8 \<le> unat n" and sub: "unat (n - 8) = unat n - 8"
      by (simp_all add: word_le_nat_alt unat_sub)
    from 1(1) [OF True 1(2)] sub wr [of 8]
    have "mem_memset_words (mem_write m dst data 8) (dst + 8) data (n - 8) =
        filled (filled m dst v 8) (dst + 8) v (unat n - 8)" by simp
    with filled_step [OF le, of m dst v] True unat_lt64 [of n] show ?thesis
      by (simp add: mem_memset_words.simps [of m dst data n])
  next
    case False
    then have "unat n \<le> 8" by (simp add: word_le_nat_alt)
    with False wr [of n] show ?thesis
      by (auto simp: mem_memset_words.simps [of m dst data n] unat_eq_0)
  qed
qed

section \<open>Properties\<close>

text \<open>C13: The word-wise copy of \<open>memlib.c\<close> moves exactly the \<open>n\<close> bytes of a source that does not
  overlap the destination, whatever \<open>n\<close> and the alignments, and so agrees with the byte-wise
  \<open>memcpy\<close> of the kernel's \<open>string.c\<close>.\<close>

theorem memcpy_copies:
  assumes "no_overlap dst src (unat n)"
  shows "mem_memcpy m dst src n = copied m dst src (unat n) \<and>
    kernel_memcpy m dst src (unat n) = mem_memcpy m dst src n"
  using mem_memcpy_copied [OF assms] kernel_memcpy_copied [OF assms] unat_lt64 [of n] by simp

theorem memcpy_copies_witness:
  "mem_memcpy (\<lambda>a. ucast a) 100 16 11 = copied (\<lambda>a. ucast a) 100 16 11 \<and>
    kernel_memcpy (\<lambda>a. ucast a) 100 16 11 = mem_memcpy (\<lambda>a. ucast a) 100 16 11"
  using memcpy_copies [of 100 16 11 "\<lambda>a. ucast a"] by (simp add: no_overlap_def)

text \<open>C14: The word-wise fill of \<open>memlib.c\<close> sets exactly the \<open>n\<close> bytes at the destination to the
  low byte of its argument, and agrees with the byte-wise \<open>memset\<close> of the kernel.\<close>

theorem memset_fills:
  "mem_memset m dst c n = filled m dst (ucast c) (unat n) \<and>
    kernel_memset m dst c (unat n) = mem_memset m dst c n"
  using mem_memset_words_filled [of "fill_word c" "ucast c" m dst n] fill_word_byte [of _ c]
    kernel_memset_filled [of "unat n" m dst c] unat_lt64 [of n] by (simp add: mem_memset_def)

end
