(* ===== verification/Mm.thy ===== *)
theory Mm
  imports Memlib
begin

text \<open>
  The allocator of \<open>p1-memory-management/mm.c\<close>, function by function: boundary tags around
  every block, and 61 segregated lists of free blocks, sorted by size, threaded through
  the free blocks themselves. The kernel's copy of it (\<open>kernel_extra.c\<close>) differs in the
  memory system under it and in \<open>free\<close> (theory \<open>Kernel_Alloc\<close>), so the functions that
  reach \<open>mem_sbrk\<close> take it as the argument \<open>sbrk\<close>.

  An access to a word outside the heap (from its start to the break) is undefined.
\<close>

section \<open>Words, tags and pointers\<close>

definition in_heap8 :: "heap_state \<Rightarrow> u64 \<Rightarrow> bool" where
  "in_heap8 st p \<longleftrightarrow> unat (heap_start st) \<le> unat p \<and> unat p + 8 \<le> unat (mem_brk st)"

definition align_up :: "u64 \<Rightarrow> u64" where
  "align_up x = 16 * ((x + 16 - 1) div 16)"

definition WSIZE :: u64 where "WSIZE = 8"
definition DSIZE :: u64 where "DSIZE = 16"
definition CHUNKSIZE :: u64 where "CHUNKSIZE = push_bit 14 1"

definition MAX64 :: "u64 \<Rightarrow> u64 \<Rightarrow> u64" where
  "MAX64 x y = (if x > y then x else y)"

definition PACK :: "u64 \<Rightarrow> u64 \<Rightarrow> u64" where
  "PACK sz alloc = sz OR alloc"

definition GET :: "u64 \<Rightarrow> heap_state \<Rightarrow> u64 option" where
  "GET p st = (if in_heap8 st p then Some (load64 (hmem st) p) else None)"

definition PUT :: "u64 \<Rightarrow> u64 \<Rightarrow> heap_state \<Rightarrow> heap_state option" where
  "PUT p val st = (if in_heap8 st p then Some (st\<lparr>hmem := store64 (hmem st) p val\<rparr>) else None)"

definition GET_SIZE :: "u64 \<Rightarrow> heap_state \<Rightarrow> u64 option" where
  "GET_SIZE p st = do { w \<leftarrow> GET p st; Some (w AND NOT 7) }"

definition GET_ALLOC :: "u64 \<Rightarrow> heap_state \<Rightarrow> u64 option" where
  "GET_ALLOC p st = do { w \<leftarrow> GET p st; Some (w AND 1) }"

definition GET_TAG :: "u64 \<Rightarrow> heap_state \<Rightarrow> u64 option" where
  "GET_TAG p st = do { w \<leftarrow> GET p st; Some (w AND 2) }"

definition PUT_TAG :: "u64 \<Rightarrow> u64 \<Rightarrow> heap_state \<Rightarrow> heap_state option" where
  "PUT_TAG p val st = do { t \<leftarrow> GET_TAG p st; PUT p (val OR t) st }"

definition TAG_ADD :: "u64 \<Rightarrow> heap_state \<Rightarrow> heap_state option" where
  "TAG_ADD p st = do { w \<leftarrow> GET p st; PUT p (w OR 2) st }"

definition TAG_REMOVE :: "u64 \<Rightarrow> heap_state \<Rightarrow> heap_state option" where
  "TAG_REMOVE p st = do { w \<leftarrow> GET p st; PUT p (w AND NOT 2) st }"

definition HDRP :: "u64 \<Rightarrow> u64" where
  "HDRP bp = bp - WSIZE"

definition FTRP :: "u64 \<Rightarrow> heap_state \<Rightarrow> u64 option" where
  "FTRP bp st = do { s \<leftarrow> GET_SIZE (HDRP bp) st; Some (bp + s - DSIZE) }"

definition NEXT_BLKP :: "u64 \<Rightarrow> heap_state \<Rightarrow> u64 option" where
  "NEXT_BLKP bp st = do { s \<leftarrow> GET_SIZE (bp - WSIZE) st; Some (bp + s) }"

definition PREV_BLKP :: "u64 \<Rightarrow> heap_state \<Rightarrow> u64 option" where
  "PREV_BLKP bp st = do { s \<leftarrow> GET_SIZE (bp - DSIZE) st; Some (bp - s) }"

definition NEXT_PTR :: "u64 \<Rightarrow> u64" where "NEXT_PTR bp = bp + WSIZE"
definition PREV_PTR :: "u64 \<Rightarrow> u64" where "PREV_PTR bp = bp"

definition NEXT_BLK :: "u64 \<Rightarrow> heap_state \<Rightarrow> u64 option" where
  "NEXT_BLK bp st = GET (NEXT_PTR bp) st"

definition PREV_BLK :: "u64 \<Rightarrow> heap_state \<Rightarrow> u64 option" where
  "PREV_BLK bp st = GET bp st"

definition SET_PTR :: "u64 \<Rightarrow> u64 \<Rightarrow> heap_state \<Rightarrow> heap_state option" where
  "SET_PTR p ptr st = PUT p ptr st"

section \<open>The segregated lists\<close>

definition MAX_LEN :: int where "MAX_LEN = 61"

lemma unat_half: "unat (drop_bit (Suc 0) w) = unat w div 2" for w :: u64
proof -
  have "drop_bit (Suc 0) w = w div 2" by (simp add: drop_bit_Suc)
  then show ?thesis by (simp add: unat_div)
qed

function shift_count :: "u64 \<Rightarrow> int \<Rightarrow> int" where
  "shift_count sz list =
     (let sz' = drop_bit 1 sz in if sz' \<noteq> 0 then shift_count sz' (list + 1) else list)"
  by pat_completeness auto
termination
proof (relation "measure (\<lambda>(sz, list). unat sz)")
  fix sz :: u64 and list :: int and x
  assume x: "x = drop_bit 1 sz" "x \<noteq> 0"
  then have "unat x = unat sz div 2" by (simp add: unat_half)
  moreover have "unat x \<noteq> 0" using x(2) by (simp add: unat_eq_zero)
  ultimately show "((x, list + 1), sz, list) \<in> measure (\<lambda>(sz, list). unat sz)" by simp
qed simp

declare shift_count.simps [simp del]

definition select_list :: "u64 \<Rightarrow> int" where
  "select_list sz =
     (if sz = 0 then - 1
      else let list = shift_count sz 0 in if list > MAX_LEN - 1 then MAX_LEN - 1 else list)"

text \<open>An index outside the array is undefined.\<close>

definition seg_get :: "int \<Rightarrow> heap_state \<Rightarrow> u64 option" where
  "seg_get list st = (if list < 0 then None else array_get (seg_list st) (nat list))"

definition seg_set :: "int \<Rightarrow> u64 \<Rightarrow> heap_state \<Rightarrow> heap_state option" where
  "seg_set list p st =
     (if list < 0 then None
      else do { l \<leftarrow> array_set (seg_list st) (nat list) p; Some (st\<lparr>seg_list := l\<rparr>) })"

text \<open>The search of \<open>node_add\<close>: the pair is \<open>(insert_loc, curr_list)\<close>.\<close>

partial_function (option) find_loc :: "heap_state \<Rightarrow> u64 \<Rightarrow> u64 \<Rightarrow> u64 \<Rightarrow> (u64 \<times> u64) option" where
  "find_loc st sz insert_loc curr_list =
     (if curr_list = NULL then Some (insert_loc, curr_list)
      else do {
        s \<leftarrow> GET_SIZE (HDRP curr_list) st;
        if sz > s then do {
          next \<leftarrow> PREV_BLK curr_list st;
          find_loc st sz curr_list next
        } else Some (insert_loc, curr_list)
      })"

definition node_add :: "u64 \<Rightarrow> u64 \<Rightarrow> heap_state \<Rightarrow> heap_state option" where
  "node_add ptr sz st = do {
     let list = select_list sz;
     first \<leftarrow> seg_get list st;
     (insert_loc, curr_list) \<leftarrow> find_loc st sz NULL first;
     if curr_list \<noteq> NULL then
       if insert_loc \<noteq> NULL then do {
         st \<leftarrow> SET_PTR (PREV_PTR ptr) curr_list st;
         st \<leftarrow> SET_PTR (NEXT_PTR curr_list) ptr st;
         st \<leftarrow> SET_PTR (PREV_PTR insert_loc) ptr st;
         SET_PTR (NEXT_PTR ptr) insert_loc st
       } else do {
         st \<leftarrow> SET_PTR (PREV_PTR ptr) curr_list st;
         st \<leftarrow> SET_PTR (NEXT_PTR curr_list) ptr st;
         st \<leftarrow> SET_PTR (NEXT_PTR ptr) NULL st;
         seg_set list ptr st
       }
     else
       if insert_loc \<noteq> NULL then do {
         st \<leftarrow> SET_PTR (PREV_PTR ptr) NULL st;
         st \<leftarrow> SET_PTR (NEXT_PTR ptr) insert_loc st;
         SET_PTR (PREV_PTR insert_loc) ptr st
       } else do {
         st \<leftarrow> SET_PTR (PREV_PTR ptr) NULL st;
         st \<leftarrow> SET_PTR (NEXT_PTR ptr) NULL st;
         seg_set list ptr st
       }
   }"

definition node_remove :: "u64 \<Rightarrow> heap_state \<Rightarrow> heap_state option" where
  "node_remove ptr st = do {
     sz \<leftarrow> GET_SIZE (HDRP ptr) st;
     let list = select_list sz;
     prev \<leftarrow> PREV_BLK ptr st;
     next \<leftarrow> NEXT_BLK ptr st;
     if prev \<noteq> NULL then
       if next \<noteq> NULL then do {
         st \<leftarrow> SET_PTR (NEXT_PTR prev) next st;
         next \<leftarrow> NEXT_BLK ptr st;
         prev \<leftarrow> PREV_BLK ptr st;
         SET_PTR (PREV_PTR next) prev st
       } else do {
         st \<leftarrow> SET_PTR (NEXT_PTR prev) NULL st;
         prev \<leftarrow> PREV_BLK ptr st;
         seg_set list prev st
       }
     else
       if next \<noteq> NULL then SET_PTR (PREV_PTR next) NULL st
       else seg_set list NULL st
   }"

section \<open>Coalescing, extending, searching and placing\<close>

definition coalesce :: "u64 \<Rightarrow> heap_state \<Rightarrow> (u64 \<times> heap_state) option" where
  "coalesce bp st = do {
     prv \<leftarrow> PREV_BLKP bp st;
     prev_alloc \<leftarrow> GET_ALLOC (HDRP prv) st;
     nxt \<leftarrow> NEXT_BLKP bp st;
     next_alloc \<leftarrow> GET_ALLOC (HDRP nxt) st;
     sz \<leftarrow> GET_SIZE (HDRP bp) st;
     if prev_alloc \<noteq> 0 \<and> next_alloc \<noteq> 0 then Some (bp, st)
     else if prev_alloc \<noteq> 0 \<and> next_alloc = 0 then do {
       st \<leftarrow> node_remove bp st;
       nxt \<leftarrow> NEXT_BLKP bp st;
       st \<leftarrow> node_remove nxt st;
       nxt \<leftarrow> NEXT_BLKP bp st;
       s \<leftarrow> GET_SIZE (HDRP nxt) st;
       let sz = sz + s;
       st \<leftarrow> PUT (HDRP bp) (PACK sz 0) st;
       ftr \<leftarrow> FTRP bp st;
       st \<leftarrow> PUT ftr (PACK sz 0) st;
       st \<leftarrow> node_add bp sz st;
       Some (bp, st)
     } else if prev_alloc = 0 \<and> next_alloc \<noteq> 0 then do {
       st \<leftarrow> node_remove bp st;
       prv \<leftarrow> PREV_BLKP bp st;
       st \<leftarrow> node_remove prv st;
       prv \<leftarrow> PREV_BLKP bp st;
       s \<leftarrow> GET_SIZE (HDRP prv) st;
       let sz = sz + s;
       ftr \<leftarrow> FTRP bp st;
       st \<leftarrow> PUT ftr (PACK sz 0) st;
       prv \<leftarrow> PREV_BLKP bp st;
       st \<leftarrow> PUT (HDRP prv) (PACK sz 0) st;
       bp \<leftarrow> PREV_BLKP bp st;
       st \<leftarrow> node_add bp sz st;
       Some (bp, st)
     } else do {
       st \<leftarrow> node_remove bp st;
       prv \<leftarrow> PREV_BLKP bp st;
       st \<leftarrow> node_remove prv st;
       nxt \<leftarrow> NEXT_BLKP bp st;
       st \<leftarrow> node_remove nxt st;
       prv \<leftarrow> PREV_BLKP bp st;
       s \<leftarrow> GET_SIZE (HDRP prv) st;
       nxt \<leftarrow> NEXT_BLKP bp st;
       t \<leftarrow> GET_SIZE (HDRP nxt) st;
       let sz = sz + (s + t);
       st \<leftarrow> PUT (HDRP prv) (PACK sz 0) st;
       nxt \<leftarrow> NEXT_BLKP bp st;
       ftr \<leftarrow> FTRP nxt st;
       st \<leftarrow> PUT ftr (PACK sz 0) st;
       bp \<leftarrow> PREV_BLKP bp st;
       st \<leftarrow> node_add bp sz st;
       Some (bp, st)
     }
   }"

type_synonym sbrk = "u64 \<Rightarrow> heap_state \<Rightarrow> u64 \<times> heap_state"

text \<open>The result is the block, \<open>NULL\<close> when the memory system refuses.\<close>

definition extend_heap :: "sbrk \<Rightarrow> u64 \<Rightarrow> heap_state \<Rightarrow> (u64 \<times> heap_state) option" where
  "extend_heap sbrk words st = do {
     let sz = (if words mod 2 \<noteq> 0 then (words + 1) * WSIZE else words * WSIZE);
     let (bp, st) = sbrk sz st;
     if bp = - 1 then Some (NULL, st)
     else do {
       st \<leftarrow> PUT (HDRP bp) (PACK sz 0) st;
       ftr \<leftarrow> FTRP bp st;
       st \<leftarrow> PUT ftr (PACK sz 0) st;
       nxt \<leftarrow> NEXT_BLKP bp st;
       st \<leftarrow> PUT (HDRP nxt) (PACK 0 1) st;
       st \<leftarrow> node_add bp sz st;
       coalesce bp st
     }
   }"

text \<open>The inner loop of \<open>find_fit\<close> on one list, and the outer loop from \<open>list\<close> on.\<close>

partial_function (option) find_in_list :: "heap_state \<Rightarrow> u64 \<Rightarrow> u64 \<Rightarrow> u64 option" where
  "find_in_list st asize list_node =
     (if list_node = NULL then Some NULL
      else do {
        s \<leftarrow> GET_SIZE (HDRP list_node) st;
        if asize \<le> s then Some list_node
        else do { next \<leftarrow> PREV_BLK list_node st; find_in_list st asize next }
      })"

function find_fit_from :: "heap_state \<Rightarrow> u64 \<Rightarrow> int \<Rightarrow> u64 option" where
  "find_fit_from st asize list =
     (if list < MAX_LEN then do {
        first \<leftarrow> seg_get list st;
        bp \<leftarrow> find_in_list st asize first;
        if bp \<noteq> NULL then Some bp else find_fit_from st asize (list + 1)
      } else Some NULL)"
  by pat_completeness auto
termination by (relation "measure (\<lambda>(st, asize, list). nat (MAX_LEN - list))") auto

declare find_fit_from.simps [simp del]

definition find_fit :: "u64 \<Rightarrow> heap_state \<Rightarrow> u64 option" where
  "find_fit asize st = find_fit_from st asize (select_list asize)"

definition place :: "u64 \<Rightarrow> u64 \<Rightarrow> heap_state \<Rightarrow> heap_state option" where
  "place bp asize st = do {
     psize \<leftarrow> GET_SIZE (HDRP bp) st;
     let rem = psize - asize;
     st \<leftarrow> node_remove bp st;
     if rem \<le> DSIZE * 2 then do {
       st \<leftarrow> PUT (HDRP bp) (PACK psize 1) st;
       ftr \<leftarrow> FTRP bp st;
       PUT ftr (PACK psize 1) st
     } else do {
       st \<leftarrow> PUT (HDRP bp) (PACK asize 1) st;
       ftr \<leftarrow> FTRP bp st;
       st \<leftarrow> PUT ftr (PACK asize 1) st;
       nxt \<leftarrow> NEXT_BLKP bp st;
       st \<leftarrow> PUT (HDRP nxt) (PACK rem 0) st;
       nxt \<leftarrow> NEXT_BLKP bp st;
       ftr \<leftarrow> FTRP nxt st;
       st \<leftarrow> PUT ftr (PACK rem 0) st;
       nxt \<leftarrow> NEXT_BLKP bp st;
       node_add nxt rem st
     }
   }"

section \<open>The interface of the allocator\<close>

text \<open>The answer of \<open>mm_init\<close> is its return value; the first \<open>mem_sbrk\<close> may fail.\<close>

definition mm_init_with :: "sbrk \<Rightarrow> heap_state \<Rightarrow> (bool \<times> heap_state) option" where
  "mm_init_with sbrk st = do {
     let st = st\<lparr>seg_list := replicate (nat MAX_LEN) NULL\<rparr>;
     let (p, st) = sbrk (4 * WSIZE) st;
     let st = st\<lparr>heap_listp := p\<rparr>;
     if p = - 1 then Some (False, st)
     else do {
       st \<leftarrow> PUT p 0 st;
       st \<leftarrow> PUT (p + 1 * WSIZE) (PACK DSIZE 1) st;
       st \<leftarrow> PUT (p + 2 * WSIZE) (PACK DSIZE 1) st;
       st \<leftarrow> PUT (p + 3 * WSIZE) (PACK 0 1) st;
       let st = st\<lparr>heap_listp := p + 2 * WSIZE\<rparr>;
       (bp, st) \<leftarrow> extend_heap sbrk (CHUNKSIZE div WSIZE) st;
       Some (bp \<noteq> NULL, st)
     }
   }"

text \<open>The block size \<open>malloc\<close> searches for.\<close>

definition adjusted_size :: "u64 \<Rightarrow> u64" where
  "adjusted_size sz = (if sz \<le> DSIZE then 2 * DSIZE else align_up (sz + 16))"

definition malloc_with :: "sbrk \<Rightarrow> u64 \<Rightarrow> heap_state \<Rightarrow> (u64 \<times> heap_state) option" where
  "malloc_with sbrk sz st =
     (if sz = 0 then Some (NULL, st)
      else do {
        let asize = adjusted_size sz;
        bp \<leftarrow> find_fit asize st;
        if bp = NULL then do {
          let extendsize = MAX64 asize CHUNKSIZE;
          (bp, st) \<leftarrow> extend_heap sbrk (extendsize div WSIZE) st;
          if bp = NULL then Some (NULL, st)
          else do { st \<leftarrow> place bp asize st; Some (bp, st) }
        } else do { st \<leftarrow> place bp asize st; Some (bp, st) }
      })"

definition mm_init :: "heap_state \<Rightarrow> (bool \<times> heap_state) option" where
  "mm_init = mm_init_with mem_sbrk"

definition mm_malloc :: "u64 \<Rightarrow> heap_state \<Rightarrow> (u64 \<times> heap_state) option" where
  "mm_malloc = malloc_with mem_sbrk"

definition mm_free :: "u64 \<Rightarrow> heap_state \<Rightarrow> heap_state option" where
  "mm_free bp st = do {
     sz \<leftarrow> GET_SIZE (HDRP bp) st;
     nxt \<leftarrow> NEXT_BLKP bp st;
     st \<leftarrow> TAG_REMOVE (HDRP nxt) st;
     st \<leftarrow> PUT_TAG (HDRP bp) (PACK sz 0) st;
     ftr \<leftarrow> FTRP bp st;
     st \<leftarrow> PUT_TAG ftr (PACK sz 0) st;
     st \<leftarrow> node_add bp sz st;
     (bp, st) \<leftarrow> coalesce bp st;
     Some st
   }"

text \<open>A copy may only touch the heap.\<close>

definition in_heap_range :: "heap_state \<Rightarrow> u64 \<Rightarrow> u64 \<Rightarrow> bool" where
  "in_heap_range st p n \<longleftrightarrow>
     n = 0 \<or> unat (heap_start st) \<le> unat p \<and> unat p + unat n \<le> unat (mem_brk st)"

definition mm_realloc :: "u64 \<Rightarrow> u64 \<Rightarrow> heap_state \<Rightarrow> (u64 \<times> heap_state) option" where
  "mm_realloc oldptr sz st =
     (if sz = 0 then do { st \<leftarrow> mm_free oldptr st; Some (NULL, st) }
      else if oldptr = NULL then Some (NULL, st)
      else do {
        oldsize \<leftarrow> GET_SIZE (HDRP oldptr) st;
        let asize = (if sz \<le> DSIZE then 2 * DSIZE else align_up sz);
        let oldsize = oldsize - 16;
        if oldsize \<ge> asize then Some (oldptr, st)
        else do {
          (newptr, st) \<leftarrow> mm_malloc sz st;
          let oldsize = (if asize < oldsize then asize else oldsize);
          guard (in_heap_range st newptr oldsize \<and> in_heap_range st oldptr oldsize);
          let st = st\<lparr>hmem := mem_memcpy (hmem st) newptr oldptr oldsize\<rparr>;
          st \<leftarrow> mm_free oldptr st;
          Some (newptr, st)
        }
      })"

definition mm_calloc :: "u64 \<Rightarrow> u64 \<Rightarrow> heap_state \<Rightarrow> (u64 \<times> heap_state) option" where
  "mm_calloc nmemb sz st = do {
     let sz = sz * nmemb;
     (ptr, st) \<leftarrow> mm_malloc sz st;
     if ptr \<noteq> NULL then do {
       guard (in_heap_range st ptr sz);
       Some (ptr, st\<lparr>hmem := mem_memset (hmem st) ptr 0 sz\<rparr>)
     } else Some (ptr, st)
   }"

section \<open>The heap checker\<close>

definition in_heap :: "u64 \<Rightarrow> heap_state \<Rightarrow> bool" where
  "in_heap p st \<longleftrightarrow> p \<le> mem_heap_hi st \<and> p \<ge> mem_heap_lo st"

definition aligned :: "u64 \<Rightarrow> bool" where
  "aligned p \<longleftrightarrow> align_up p = p"

text \<open>The checks on one free block, and on one list, of \<open>mm_checkheap\<close> (with \<open>DEBUG\<close> set).\<close>

definition check_block :: "heap_state \<Rightarrow> u64 \<Rightarrow> bool option" where
  "check_block st block =
     (if \<not> aligned block then Some False
      else if \<not> in_heap block st then Some False
      else do {
        hs \<leftarrow> GET_SIZE (HDRP block) st;
        ftr \<leftarrow> FTRP block st;
        fs \<leftarrow> GET_SIZE ftr st;
        if hs \<noteq> fs then Some False
        else do {
          alloc \<leftarrow> GET_ALLOC (HDRP block) st;
          if alloc \<noteq> 0 then Some False
          else do {
            nxt \<leftarrow> NEXT_BLKP block st;
            na \<leftarrow> GET_ALLOC (HDRP nxt) st;
            if na = 0 \<and> alloc = 0 then Some False
            else do { t \<leftarrow> GET_TAG (HDRP block) st; Some (t = 0) }
          }
        }
      })"

partial_function (option) check_list :: "heap_state \<Rightarrow> u64 \<Rightarrow> bool option" where
  "check_list st block =
     (if block = NULL then Some True
      else do {
        ok \<leftarrow> check_block st block;
        if ok then do { next \<leftarrow> PREV_BLK block st; check_list st next } else Some False
      })"

fun check_lists :: "heap_state \<Rightarrow> u64 list \<Rightarrow> bool option" where
  "check_lists st [] = Some True"
| "check_lists st (b # bs) =
     do { ok \<leftarrow> check_list st b; if ok then check_lists st bs else Some False }"

definition mm_checkheap :: "heap_state \<Rightarrow> bool option" where
  "mm_checkheap st = do {
     s \<leftarrow> GET_SIZE (HDRP (heap_listp st)) st;
     a \<leftarrow> GET_ALLOC (HDRP (heap_listp st)) st;
     if s \<noteq> DSIZE \<or> a = 0 then Some False
     else do {
       ftr \<leftarrow> FTRP (heap_listp st) st;
       s \<leftarrow> GET_SIZE ftr st;
       a \<leftarrow> GET_ALLOC ftr st;
       if s \<noteq> DSIZE \<or> a = 0 then Some False
       else do {
         nxt \<leftarrow> NEXT_BLKP (heap_listp st) st;
         s \<leftarrow> GET_SIZE (HDRP nxt) st;
         a \<leftarrow> GET_ALLOC (HDRP nxt) st;
         if s \<noteq> 0 \<or> a = 0 then Some False
         else check_lists st (seg_list st)
       }
     }
   }"

end
