(* ===== verification/Mm_Lists.thy ===== *)
theory Mm_Lists
  imports Mm Dlink
begin

text \<open>
  The heap of the allocator as an array of words, and the segregated lists: inserting a free
  block into its list and taking one out keeps every list a sorted doubly linked chain of
  exactly the free blocks of its class.
\<close>

section \<open>The heap as an array of words\<close>

text \<open>The address of a word, and a size of \<open>k\<close> words in bytes.\<close>

definition at :: "u64 \<Rightarrow> nat \<Rightarrow> u64" where
  "at lo i = lo + of_nat (8 * i)"

definition sz :: "nat \<Rightarrow> u64" where
  "sz k = of_nat (8 * k)"

text \<open>The header and footer of a block of \<open>k\<close> words.\<close>

definition tagw :: "nat \<Rightarrow> bool \<Rightarrow> u64" where
  "tagw k a = sz k OR of_bool a"

definition nwords :: "heap_state \<Rightarrow> nat" where
  "nwords st = (unat (mem_brk st) - unat (heap_start st)) div 8"

definition heap_wf :: "heap_state \<Rightarrow> bool" where
  "heap_wf st \<longleftrightarrow> 16 dvd unat (heap_start st) \<and>
     unat (mem_brk st) = unat (heap_start st) + 8 * nwords st"

definition words :: "heap_state \<Rightarrow> nat \<Rightarrow> u64" where
  "words st i = (if i < nwords st then load64 (hmem st) (at (heap_start st) i) else 0)"

definition put_at :: "nat \<Rightarrow> u64 \<Rightarrow> heap_state \<Rightarrow> heap_state" where
  "put_at i v st = st\<lparr>hmem := store64 (hmem st) (at (heap_start st) i) v\<rparr>"

lemma put_at_simps [simp]:
  "heap_start (put_at i v st) = heap_start st" "mem_brk (put_at i v st) = mem_brk st"
  "mem_max_addr (put_at i v st) = mem_max_addr st" "heap_listp (put_at i v st) = heap_listp st"
  "seg_list (put_at i v st) = seg_list st" "nwords (put_at i v st) = nwords st"
  "heap_wf (put_at i v st) = heap_wf st"
  by (simp_all add: put_at_def nwords_def heap_wf_def)

lemma seg_list_upd_simps [simp]:
  "nwords (st\<lparr>seg_list := s\<rparr>) = nwords st" "heap_wf (st\<lparr>seg_list := s\<rparr>) = heap_wf st"
  "words (st\<lparr>seg_list := s\<rparr>) = words st"
  by (simp_all add: nwords_def heap_wf_def words_def fun_eq_iff)

lemma nwords_small: "heap_wf st \<Longrightarrow> unat (heap_start st) + 8 * nwords st < 2 ^ 64"
  using unat_lt64 [of "mem_brk st"] by (simp add: heap_wf_def)

lemma unat_at:
  "unat lo + 8 * i < 2 ^ 64 \<Longrightarrow> unat (at lo i) = unat lo + 8 * i"
  by (simp add: at_def unat_word_ariths unat_of_nat)

lemma unat_at_wf:
  "heap_wf st \<Longrightarrow> heap_start st = lo \<Longrightarrow> i \<le> nwords st \<Longrightarrow> unat (at lo i) = unat lo + 8 * i"
  using nwords_small [of st] by (intro unat_at) simp

lemma at_aligned: "heap_wf st \<Longrightarrow> heap_start st = lo \<Longrightarrow> i \<le> nwords st \<Longrightarrow> aligned8 (at lo i)"
proof -
  assume a: "heap_wf st" "heap_start st = lo" "i \<le> nwords st"
  then have "16 dvd unat lo" by (simp add: heap_wf_def)
  then have "8 dvd unat lo" by presburger
  with a show ?thesis by (simp add: aligned8_dvd unat_at_wf)
qed

lemma at_inj:
  "heap_wf st \<Longrightarrow> heap_start st = lo \<Longrightarrow> i \<le> nwords st \<Longrightarrow> j \<le> nwords st \<Longrightarrow>
   at lo i = at lo j \<longleftrightarrow> i = j"
  by (simp add: word_unat_eq_iff unat_at_wf)

lemma at_in_heap:
  "heap_wf st \<Longrightarrow> heap_start st = lo \<Longrightarrow> i < nwords st \<Longrightarrow> in_heap8 st (at lo i)"
  using unat_at_wf [of st lo i] by (simp add: in_heap8_def heap_wf_def)

lemma GET_at [simp]:
  "heap_wf st \<Longrightarrow> heap_start st = lo \<Longrightarrow> i < nwords st \<Longrightarrow> GET (at lo i) st = Some (words st i)"
  by (auto simp: GET_def at_in_heap words_def)

lemma PUT_at [simp]:
  "heap_wf st \<Longrightarrow> heap_start st = lo \<Longrightarrow> i < nwords st \<Longrightarrow> PUT (at lo i) v st = Some (put_at i v st)"
  by (auto simp: PUT_def at_in_heap put_at_def)

lemma words_put_at [simp]:
  "heap_wf st \<Longrightarrow> i < nwords st \<Longrightarrow> words (put_at i v st) = (words st)(i := v)"
proof
  fix j
  assume wf: "heap_wf st" and i: "i < nwords st"
  show "words (put_at i v st) j = ((words st)(i := v)) j"
  proof (cases "j < nwords st")
    case True
    have "j \<noteq> i \<Longrightarrow> load64 (store64 (hmem st) (at (heap_start st) i) v) (at (heap_start st) j) =
        load64 (hmem st) (at (heap_start st) j)"
      using wf i True by (intro mem64.get_put_other) (auto intro: at_aligned simp: at_inj)
    with True i show ?thesis by (auto simp: words_def put_at_def nwords_def)
  qed (use i in \<open>auto simp: words_def\<close>)
qed

section \<open>Pointer arithmetic\<close>

lemma HDRP_at [simp]: "1 \<le> i \<Longrightarrow> HDRP (at lo i) = at lo (i - 1)"
  by (simp add: HDRP_def WSIZE_def at_def of_nat_diff algebra_simps)

lemma at_WSIZE [simp]: "1 \<le> i \<Longrightarrow> at lo i - WSIZE = at lo (i - 1)"
  by (simp add: WSIZE_def at_def of_nat_diff algebra_simps)

lemma at_DSIZE [simp]: "2 \<le> i \<Longrightarrow> at lo i - DSIZE = at lo (i - 2)"
  by (simp add: DSIZE_def at_def of_nat_diff algebra_simps)

lemma at_add [simp]: "at lo i + sz k = at lo (i + k)"
  by (simp add: at_def sz_def algebra_simps)

lemma at_sub [simp]: "k \<le> i \<Longrightarrow> at lo i - sz k = at lo (i - k)"
  by (simp add: at_def sz_def of_nat_diff algebra_simps)

lemma NEXT_PTR_at [simp]: "NEXT_PTR (at lo i) = at lo (i + 1)"
  by (simp add: NEXT_PTR_def WSIZE_def at_def algebra_simps)

lemma PREV_PTR_at [simp]: "PREV_PTR p = p"
  by (simp add: PREV_PTR_def)

lemma SET_PTR_PUT [simp]: "SET_PTR = PUT"
  by (simp add: SET_PTR_def fun_eq_iff)

lemma bit_sz: "bit (sz k) n \<longleftrightarrow> 3 \<le> n \<and> n < 64 \<and> bit k (n - 3)"
proof -
  have "sz k = push_bit 3 (of_nat k)" by (simp add: sz_def push_bit_eq_mult)
  then show ?thesis by (auto simp: bit_push_bit_iff bit_of_nat_iff possible_bit_word)
qed

lemma bit_seven: "bit (7 :: u64) n \<longleftrightarrow> n < 3"
proof -
  have *: "(7 :: u64) = mask 3" by (simp add: mask_eq_exp_minus_1)
  show ?thesis unfolding * by (simp only: bit_mask_iff possible_bit_word) auto
qed

lemma bit_two: "bit (2 :: u64) n \<longleftrightarrow> n = 1"
proof -
  have *: "(2 :: u64) = push_bit 1 1" by (simp add: push_bit_of_1)
  show ?thesis unfolding * by (simp only: bit_push_bit_iff bit_1_iff possible_bit_word) auto
qed

lemmas tag_bits = tagw_def bit_and_iff bit_or_iff bit_not_iff bit_sz bit_seven bit_two bit_1_iff
  bit_of_bool_iff possible_bit_word bit_0_eq bot_apply

text \<open>The fields of a header or footer.\<close>

definition wsize :: "u64 \<Rightarrow> u64" where "wsize w = w AND NOT 7"
definition walloc :: "u64 \<Rightarrow> u64" where "walloc w = w AND 1"
definition wtag :: "u64 \<Rightarrow> u64" where "wtag w = w AND 2"

lemma wsize_tagw [simp]: "wsize (tagw k a) = sz k"
  unfolding wsize_def by (rule bit_word_eqI) (simp only: tag_bits, auto)

lemma walloc_tagw [simp]: "walloc (tagw k a) = of_bool a"
  unfolding walloc_def by (rule bit_word_eqI) (simp only: tag_bits, auto)

lemma wtag_tagw [simp]: "wtag (tagw k a) = 0"
  unfolding wtag_def by (rule bit_word_eqI) (simp only: tag_bits, auto)

lemma tagw_clear_tag: "tagw k a AND NOT 2 = tagw k a"
  by (rule bit_word_eqI) (simp only: tag_bits, auto)

lemma GET_SIZE_at [simp]:
  "heap_wf st \<Longrightarrow> heap_start st = lo \<Longrightarrow> i < nwords st \<Longrightarrow> GET_SIZE (at lo i) st = Some (wsize (words st i))"
  by (simp add: GET_SIZE_def wsize_def)

lemma GET_ALLOC_at [simp]:
  "heap_wf st \<Longrightarrow> heap_start st = lo \<Longrightarrow> i < nwords st \<Longrightarrow> GET_ALLOC (at lo i) st = Some (walloc (words st i))"
  by (simp add: GET_ALLOC_def walloc_def)

lemma GET_TAG_at [simp]:
  "heap_wf st \<Longrightarrow> heap_start st = lo \<Longrightarrow> i < nwords st \<Longrightarrow> GET_TAG (at lo i) st = Some (wtag (words st i))"
  by (simp add: GET_TAG_def wtag_def)

lemma TAG_REMOVE_at [simp]:
  "heap_wf st \<Longrightarrow> heap_start st = lo \<Longrightarrow> i < nwords st \<Longrightarrow> words st i = tagw k a \<Longrightarrow>
   TAG_REMOVE (at lo i) st = Some (put_at i (tagw k a) st)"
  using tagw_clear_tag [of k a] by (simp add: TAG_REMOVE_def)

lemma PREV_BLK_at [simp]:
  "heap_wf st \<Longrightarrow> heap_start st = lo \<Longrightarrow> i < nwords st \<Longrightarrow> PREV_BLK (at lo i) st = Some (words st i)"
  by (simp add: PREV_BLK_def)

lemma NEXT_BLK_at [simp]:
  "heap_wf st \<Longrightarrow> heap_start st = lo \<Longrightarrow> i + 1 < nwords st \<Longrightarrow> NEXT_BLK (at lo i) st = Some (words st (i + 1))"
  by (simp add: NEXT_BLK_def)

lemma NEXT_BLKP_at:
  "heap_wf st \<Longrightarrow> heap_start st = lo \<Longrightarrow> 1 \<le> i \<Longrightarrow> i - 1 < nwords st \<Longrightarrow> wsize (words st (i - 1)) = sz k \<Longrightarrow>
   NEXT_BLKP (at lo i) st = Some (at lo (i + k))"
  by (simp add: NEXT_BLKP_def)

lemma PREV_BLKP_at:
  "heap_wf st \<Longrightarrow> heap_start st = lo \<Longrightarrow> 2 \<le> i \<Longrightarrow> i - 2 < nwords st \<Longrightarrow> wsize (words st (i - 2)) = sz k \<Longrightarrow>
   k \<le> i \<Longrightarrow> PREV_BLKP (at lo i) st = Some (at lo (i - k))"
  by (simp add: PREV_BLKP_def)

lemma FTRP_at:
  "heap_wf st \<Longrightarrow> heap_start st = lo \<Longrightarrow> 1 \<le> i \<Longrightarrow> i - 1 < nwords st \<Longrightarrow> wsize (words st (i - 1)) = sz k \<Longrightarrow>
   2 \<le> i + k \<Longrightarrow> FTRP (at lo i) st = Some (at lo (i + k - 2))"
  by (simp add: FTRP_def)

lemma PACK_sz [simp]: "PACK (sz k) 0 = tagw k False" "PACK (sz k) 1 = tagw k True"
  by (simp_all add: PACK_def tagw_def)

lemma sz_consts: "DSIZE = sz 2" "WSIZE = sz 1" "DSIZE * 2 = sz 4" "2 * DSIZE = sz 4" "0 = sz 0"
  "CHUNKSIZE = sz 2048"
  by (simp_all add: DSIZE_def WSIZE_def CHUNKSIZE_def sz_def)

lemma sz_add [simp]: "sz k + sz l = sz (k + l)"
  by (simp add: sz_def)

lemma sz_sub [simp]: "l \<le> k \<Longrightarrow> sz k - sz l = sz (k - l)"
  by (simp add: sz_def of_nat_diff algebra_simps)

lemma unat_sz: "k < 2 ^ 61 \<Longrightarrow> unat (sz k) = 8 * k"
  unfolding sz_def by (subst unat_of_nat) simp

lemma sz_le: "k < 2 ^ 61 \<Longrightarrow> l < 2 ^ 61 \<Longrightarrow> sz k \<le> sz l \<longleftrightarrow> k \<le> l"
  by (simp add: word_le_nat_alt unat_sz)

lemma sz_less: "k < 2 ^ 61 \<Longrightarrow> l < 2 ^ 61 \<Longrightarrow> sz k < sz l \<longleftrightarrow> k < l"
  by (simp add: word_less_nat_alt unat_sz)

lemma sz_eq: "k < 2 ^ 61 \<Longrightarrow> l < 2 ^ 61 \<Longrightarrow> sz k = sz l \<longleftrightarrow> k = l"
  by (simp add: word_unat_eq_iff unat_sz)

section \<open>The classes\<close>

fun ilog :: "nat \<Rightarrow> nat" where
  "ilog n = (if n < 2 then 0 else Suc (ilog (n div 2)))"

declare ilog.simps [simp del]

lemma shift_count_ilog: "shift_count w list = list + int (ilog (unat w))"
proof (induction w list rule: shift_count.induct)
  case (1 w list)
  have h: "drop_bit 1 w = 0 \<longleftrightarrow> unat w div 2 = 0"
    using unat_half [of w] by (simp add: unat_eq_0 [symmetric])
  show ?case
  proof (cases "unat w < 2")
    case True
    with h have "drop_bit 1 w = 0" by simp
    with True show ?thesis by (simp add: shift_count.simps [of w] ilog.simps)
  next
    case False
    with h have "drop_bit 1 w \<noteq> 0" by simp
    with 1 False unat_half [of w] show ?thesis
      by (simp add: shift_count.simps [of w] ilog.simps [of "unat w"] Let_def)
  qed
qed

lemma ilog_mono: "m \<le> n \<Longrightarrow> ilog m \<le> ilog n"
proof (induction m arbitrary: n rule: ilog.induct)
  case (1 m)
  show ?case
  proof (cases "m < 2")
    case False
    with 1(2) have "m div 2 \<le> n div 2" by (simp add: div_le_mono)
    with 1 False show ?thesis by (simp add: ilog.simps [of m] ilog.simps [of n])
  qed (simp add: ilog.simps [of m])
qed

definition cls :: "nat \<Rightarrow> nat" where
  "cls k = min 60 (ilog (8 * k))"

lemma cls_less [simp]: "cls k < 61"
  by (simp add: cls_def)

lemma cls_mono: "k \<le> l \<Longrightarrow> cls k \<le> cls l"
  using ilog_mono [of "8 * k" "8 * l"] by (simp add: cls_def)

lemma select_list_sz: "1 \<le> k \<Longrightarrow> k < 2 ^ 61 \<Longrightarrow> select_list (sz k) = int (cls k)"
proof -
  assume k: "1 \<le> k" "k < 2 ^ 61"
  then have "sz k \<noteq> 0" using sz_eq [of k 0] by (simp add: sz_def)
  with k show ?thesis
    by (simp add: select_list_def MAX_LEN_def shift_count_ilog unat_sz cls_def Let_def min_def)
qed

lemma seg_get_in [simp]:
  "length (seg_list st) = 61 \<Longrightarrow> c < 61 \<Longrightarrow> seg_get (int c) st = Some (seg_list st ! c)"
  by (simp add: seg_get_def)

lemma seg_set_in [simp]:
  "length (seg_list st) = 61 \<Longrightarrow> c < 61 \<Longrightarrow>
   seg_set (int c) p st = Some (st\<lparr>seg_list := (seg_list st)[c := p]\<rparr>)"
  by (simp add: seg_set_def)

section \<open>The lists\<close>

definition idx :: "u64 \<Rightarrow> u64 \<Rightarrow> nat" where
  "idx lo a = unat (a - lo) div 8"

lemma idx_at [simp]: "i < 2 ^ 61 \<Longrightarrow> idx lo (at lo i) = i"
proof -
  assume "i < 2 ^ 61"
  moreover have "at lo i - lo = sz i" by (simp add: at_def sz_def)
  ultimately show ?thesis by (simp add: idx_def unat_sz)
qed

text \<open>The forward link of a free block is its first word (\<open>PREV_BLK\<close>), the backward link its second
  (\<open>NEXT_BLK\<close>).\<close>

definition blk_links :: "(nat \<Rightarrow> u64) \<Rightarrow> u64 \<Rightarrow> links" where
  "blk_links W lo a = Some (W (idx lo a), W (idx lo a + 1))"

lemma blk_links_at [simp]: "i < 2 ^ 61 \<Longrightarrow> blk_links W lo (at lo i) = Some (W i, W (i + 1))"
  by (simp add: blk_links_def)

text \<open>
  A free block is a pair \<open>(i, k)\<close>: its first word and its length. \<open>clear\<close>: two blocks do not
  overlap. \<open>nodes_ok\<close>: the blocks lie in the heap, apart from each other, and their headers
  hold their sizes.
\<close>

definition clear :: "nat \<times> nat \<Rightarrow> nat \<times> nat \<Rightarrow> bool" where
  "clear x y \<longleftrightarrow> fst x + snd x \<le> fst y \<or> fst y + snd y \<le> fst x"

definition node_ok :: "nat \<Rightarrow> (nat \<Rightarrow> u64) \<Rightarrow> nat \<times> nat \<Rightarrow> bool" where
  "node_ok n W x \<longleftrightarrow> 1 \<le> fst x \<and> 4 \<le> snd x \<and> fst x + snd x \<le> n \<and> wsize (W (fst x - 1)) = sz (snd x)"

definition nodes_ok :: "nat \<Rightarrow> (nat \<Rightarrow> u64) \<Rightarrow> (nat \<times> nat) set \<Rightarrow> bool" where
  "nodes_ok n W N \<longleftrightarrow> (\<forall>x \<in> N. node_ok n W x) \<and> (\<forall>x \<in> N. \<forall>y \<in> N. x \<noteq> y \<longrightarrow> clear x y)"

abbreviation addrs :: "u64 \<Rightarrow> (nat \<times> nat) list \<Rightarrow> u64 list" where
  "addrs lo xs \<equiv> map (\<lambda>x. at lo (fst x)) xs"

definition seg_ok :: "u64 \<Rightarrow> (nat \<Rightarrow> u64) \<Rightarrow> nat \<Rightarrow> u64 \<Rightarrow> (nat \<times> nat) set \<Rightarrow> (nat \<times> nat) list \<Rightarrow> bool" where
  "seg_ok lo W c p N xs \<longleftrightarrow> dchain (blk_links W lo) p (addrs lo xs) \<and> sorted (map snd xs) \<and>
     set xs = {x \<in> N. cls (snd x) = c}"

definition segs_ok :: "u64 \<Rightarrow> nat \<Rightarrow> (nat \<Rightarrow> u64) \<Rightarrow> u64 list \<Rightarrow> (nat \<times> nat) set \<Rightarrow> bool" where
  "segs_ok lo n W seg N \<longleftrightarrow> length seg = 61 \<and> nodes_ok n W N \<and>
     (\<forall>c < 61. \<exists>xs. seg_ok lo W c (seg ! c) N xs)"

text \<open>The words that hold links.\<close>

definition link_words :: "(nat \<times> nat) set \<Rightarrow> nat set" where
  "link_words N = (\<Union>x \<in> N. {fst x, fst x + 1})"

lemma clear_words:
  assumes "clear x y" "4 \<le> snd x" "4 \<le> snd y" "1 \<le> fst x" "1 \<le> fst y"
  shows "fst x \<noteq> fst y" "fst x \<noteq> fst y + 1" "fst x + 1 \<noteq> fst y" "fst x - 1 \<noteq> fst y"
    "fst x - 1 \<noteq> fst y + 1" "fst x - 1 \<noteq> fst y - 1"
  using assms by (auto simp: clear_def)

lemma header_not_link:
  assumes "nodes_ok n W N" "node_ok n W x" "\<forall>y \<in> N. x \<noteq> y \<longrightarrow> clear x y"
  shows "fst x - 1 \<notin> link_words N"
proof
  assume "fst x - 1 \<in> link_words N"
  then obtain y where y: "y \<in> N" "fst x - 1 = fst y \<or> fst x - 1 = fst y + 1"
    by (auto simp: link_words_def)
  with assms have "node_ok n W y" by (simp add: nodes_ok_def)
  with assms(2) y assms(3) clear_words [of x y] show False
    by (cases "x = y") (auto simp: node_ok_def)
qed

lemma nodes_ok_cong:
  assumes "nodes_ok n W N" "\<And>x. x \<in> N \<Longrightarrow> wsize (W' (fst x - 1)) = wsize (W (fst x - 1))"
  shows "nodes_ok n W' N"
  using assms by (simp add: nodes_ok_def node_ok_def)

lemma seg_ok_cong:
  assumes "seg_ok lo W c p N xs" "\<And>x. x \<in> set xs \<Longrightarrow> fst x < 2 ^ 61"
    "\<And>x. x \<in> set xs \<Longrightarrow> W' (fst x) = W (fst x) \<and> W' (fst x + 1) = W (fst x + 1)"
  shows "seg_ok lo W' c p N xs"
proof -
  have "dchain (blk_links W' lo) p (addrs lo xs)"
  proof (rule dchain_cong)
    show "dchain (blk_links W lo) p (addrs lo xs)" using assms(1) by (simp add: seg_ok_def)
    fix a assume "a \<in> set (addrs lo xs)"
    then obtain x where "x \<in> set xs" "a = at lo (fst x)" by auto
    with assms(2,3) show "blk_links W' lo a = blk_links W lo a" by auto
  qed
  with assms(1) show ?thesis by (simp add: seg_ok_def)
qed

lemma nwords_61: "heap_wf st \<Longrightarrow> nwords st < 2 ^ 61"
  using nwords_small [of st] by simp

lemma find_loc_seg:
  assumes "heap_wf st" "heap_start st = lo" "k < 2 ^ 61"
    and "dseg (blk_links (words st) lo) pv p (addrs lo xs) m NULL"
    and "\<forall>x \<in> set xs. node_ok (nwords st) (words st) x"
  shows "find_loc st (sz k) q p = Some
    (let ys = takeWhile (\<lambda>x. snd x < k) xs; zs = dropWhile (\<lambda>x. snd x < k) xs in
     (if ys = [] then q else at lo (fst (last ys)), if zs = [] then NULL else at lo (fst (hd zs))))"
  using assms(4,5)
proof (induction xs arbitrary: pv p q)
  case Nil
  then show ?case by (simp add: find_loc.simps)
next
  case (Cons x xs)
  note n61 = nwords_61 [OF assms(1)]
  from Cons.prems have x: "1 \<le> fst x" "4 \<le> snd x" "fst x + snd x \<le> nwords st"
    "wsize (words st (fst x - 1)) = sz (snd x)" by (simp_all add: node_ok_def)
  with Cons.prems n61 have p: "p = at lo (fst x)" "p \<noteq> NULL"
    "dseg (blk_links (words st) lo) p (words st (fst x)) (addrs lo xs) m NULL" by auto
  have size: "GET_SIZE (HDRP p) st = Some (sz (snd x))"
    and nxt: "PREV_BLK p st = Some (words st (fst x))"
    using assms(1,2) p(1) x by simp_all
  have less: "sz k > sz (snd x) \<longleftrightarrow> snd x < k"
    using assms(3) x n61 by (simp add: sz_less)
  show ?case
  proof (cases "snd x < k")
    case True
    from Cons.IH [OF p(3)] Cons.prems(2)
    have "find_loc st (sz k) p (words st (fst x)) = Some
      (let ys = takeWhile (\<lambda>x. snd x < k) xs; zs = dropWhile (\<lambda>x. snd x < k) xs in
       (if ys = [] then p else at lo (fst (last ys)), if zs = [] then NULL else at lo (fst (hd zs))))"
      by simp
    with True p size nxt less show ?thesis
      by (subst find_loc.simps) (simp add: Let_def)
  next
    case False
    with p size less show ?thesis by (subst find_loc.simps) simp
  qed
qed

text \<open>What an operation on the lists leaves alone.\<close>

definition same_frame :: "heap_state \<Rightarrow> heap_state \<Rightarrow> bool" where
  "same_frame st st' \<longleftrightarrow> heap_start st' = heap_start st \<and> mem_brk st' = mem_brk st \<and>
     mem_max_addr st' = mem_max_addr st \<and> heap_listp st' = heap_listp st \<and>
     nwords st' = nwords st \<and> heap_wf st' = heap_wf st"

lemma same_frame_refl [simp]: "same_frame st st"
  and same_frame_put [simp]: "same_frame st (put_at i v st') = same_frame st st'"
  and same_frame_seg [simp]: "same_frame st (st'\<lparr>seg_list := s\<rparr>) = same_frame st st'"
  by (simp_all add: same_frame_def)

lemma same_frame_trans: "same_frame a b \<Longrightarrow> same_frame b c \<Longrightarrow> same_frame a c"
  by (simp add: same_frame_def)

section \<open>Adding a block to its list\<close>

text \<open>The words after the block at \<open>i\<close> has been put between \<open>ys\<close> and \<open>zs\<close>.\<close>

definition add_words :: "u64 \<Rightarrow> (nat \<Rightarrow> u64) \<Rightarrow> nat \<Rightarrow> (nat \<times> nat) list \<Rightarrow> (nat \<times> nat) list \<Rightarrow> nat \<Rightarrow> u64" where
  "add_words lo W i ys zs =
     (let W1 = W(i := (if zs = [] then NULL else at lo (fst (hd zs))),
                 i + 1 := (if ys = [] then NULL else at lo (fst (last ys))));
          W2 = (if zs = [] then W1 else W1(fst (hd zs) + 1 := at lo i))
      in if ys = [] then W2 else W2(fst (last ys) := at lo i))"

lemma add_words_eq: "add_words lo W i ys zs j =
  (if ys \<noteq> [] \<and> j = fst (last ys) then at lo i
   else if zs \<noteq> [] \<and> j = fst (hd zs) + 1 then at lo i
   else if j = i + 1 then (if ys = [] then NULL else at lo (fst (last ys)))
   else if j = i then (if zs = [] then NULL else at lo (fst (hd zs)))
   else W j)"
  by (simp add: add_words_def Let_def)

lemma node_add_words:
  assumes wf: "heap_wf st" "heap_start st = lo" "length (seg_list st) = 61"
    and k: "1 \<le> k" "k < 2 ^ 61" and i: "i + 1 < nwords st"
    and find: "find_loc st (sz k) NULL (seg_list st ! cls k) = Some
      (if ys = [] then NULL else at lo (fst (last ys)), if zs = [] then NULL else at lo (fst (hd zs)))"
    and y: "ys \<noteq> [] \<Longrightarrow> fst (last ys) < nwords st \<and> at lo (fst (last ys)) \<noteq> NULL \<and>
      fst (last ys) \<noteq> i \<and> fst (last ys) \<noteq> i + 1"
    and z: "zs \<noteq> [] \<Longrightarrow> fst (hd zs) + 1 < nwords st \<and> at lo (fst (hd zs)) \<noteq> NULL \<and>
      fst (hd zs) \<noteq> i \<and> fst (hd zs) + 1 \<noteq> i"
    and yz: "ys \<noteq> [] \<Longrightarrow> zs \<noteq> [] \<Longrightarrow> fst (last ys) \<noteq> fst (hd zs) + 1"
  shows "\<exists>st'. node_add (at lo i) (sz k) st = Some st' \<and> same_frame st st' \<and>
    words st' = add_words lo (words st) i ys zs \<and>
    seg_list st' = (if ys = [] then (seg_list st)[cls k := at lo i] else seg_list st)"
proof -
  have sel: "select_list (sz k) = int (cls k)" by (rule select_list_sz [OF k])
  note add = node_add_def Let_def sel seg_get_in [OF wf(3) cls_less] find wf i add_words_def
  show ?thesis
  proof (cases "ys = []"; cases "zs = []")
    assume yz0: "ys = []" "zs = []"
    with wf i show ?thesis by (simp add: add)
  next
    assume yz1: "ys = []" "zs \<noteq> []"
    with wf i z show ?thesis by (simp add: add) (auto simp: fun_eq_iff)
  next
    assume yz2: "ys \<noteq> []" "zs = []"
    with wf i y show ?thesis by (simp add: add)
  next
    assume yz3: "ys \<noteq> []" "zs \<noteq> []"
    with wf i y z yz show ?thesis by (simp add: add) (auto simp: fun_eq_iff)
  qed
qed

lemma seg_ok_dseg:
  "seg_ok lo W c p N xs \<Longrightarrow> \<exists>m. dseg (blk_links W lo) NULL p (addrs lo xs) m NULL"
  by (auto simp: seg_ok_def dchain_def)

lemma takeWhile_split: "takeWhile P xs @ dropWhile P xs = xs"
  by simp

lemma distinct_ends: "distinct (ys @ zs) \<Longrightarrow> ys \<noteq> [] \<Longrightarrow> zs \<noteq> [] \<Longrightarrow> last ys \<noteq> hd zs"
  by (metis disjoint_iff distinct_append last_in_set list.set_sel(1))

lemma seg_ok_distinct: "seg_ok lo W c p N xs \<Longrightarrow> distinct xs"
proof -
  assume "seg_ok lo W c p N xs"
  then have "distinct (addrs lo xs)" by (auto simp: seg_ok_def dest: dchain_distinct)
  then show ?thesis by (simp only: distinct_map)
qed

text \<open>The chain with the new block, and the other chains.\<close>

lemma seg_ok_add:
  assumes seg: "seg_ok lo W c p N (ys @ zs)" and n: "n < 2 ^ 61" and N: "nodes_ok n W N"
    and new: "node_ok n W (i, k)" "\<forall>y \<in> N. clear (i, k) y" "cls k = c" "at lo i \<noteq> NULL"
    and inj: "\<And>a b. a \<le> n \<Longrightarrow> b \<le> n \<Longrightarrow> at lo a = at lo b \<longleftrightarrow> a = b"
    and ys: "\<forall>x \<in> set ys. snd x < k" and zs: "\<forall>x \<in> set zs. k \<le> snd x"
  shows "seg_ok lo (add_words lo W i ys zs) c (if ys = [] then at lo i else p) (insert (i, k) N)
    (ys @ (i, k) # zs)"
proof -
  let ?W = "add_words lo W i ys zs"
  have mem: "set (ys @ zs) \<subseteq> N" using seg by (auto simp: seg_ok_def)
  have ok: "node_ok n W x" if "x \<in> set (ys @ zs)" for x using mem that N by (auto simp: nodes_ok_def)
  have apart: "fst x \<noteq> i \<and> fst x \<noteq> i + 1 \<and> fst x + 1 \<noteq> i" if "x \<in> set (ys @ zs)" for x
    using clear_words [of "(i, k)" x] new(1,2) ok [OF that] mem that by (auto simp: node_ok_def)
  have apart2: "fst x \<noteq> fst y \<and> fst x \<noteq> fst y + 1 \<and> fst x + 1 \<noteq> fst y"
    if "x \<in> set (ys @ zs)" "y \<in> set (ys @ zs)" "x \<noteq> y" for x y
  proof -
    have "x \<in> N" "y \<in> N" using mem that by blast+
    then have "clear x y" using N that(3) by (simp add: nodes_ok_def)
    with clear_words [of x y] ok [OF that(1)] ok [OF that(2)] show ?thesis by (auto simp: node_ok_def)
  qed
  have bound: "fst x < 2 ^ 61" if "x \<in> set (ys @ zs)" for x
    using ok [OF that] n by (auto simp: node_ok_def)
  have i: "i < 2 ^ 61" using new(1) n by (auto simp: node_ok_def)
  from seg have ch: "dchain (blk_links W lo) p (addrs lo ys @ addrs lo zs)" by (simp add: seg_ok_def)
  have dist: "distinct (ys @ zs)" by (rule seg_ok_distinct [OF seg])
  have last: "ys \<noteq> [] \<Longrightarrow> last ys \<in> set (ys @ zs)" and hd: "zs \<noteq> [] \<Longrightarrow> hd zs \<in> set (ys @ zs)"
    by simp_all
  have ne: "ys \<noteq> [] \<Longrightarrow> zs \<noteq> [] \<Longrightarrow> last ys \<noteq> hd zs"
    using distinct_ends [OF dist] by blast
  have Wi: "?W i = (if zs = [] then NULL else at lo (fst (hd zs)))"
      "?W (i + 1) = (if ys = [] then NULL else at lo (fst (last ys)))"
    using apart [of "last ys"] apart [of "hd zs"] last hd unfolding add_words_eq by force+
  have Wy: "ys \<noteq> [] \<Longrightarrow> ?W (fst (last ys)) = at lo i \<and> ?W (fst (last ys) + 1) = W (fst (last ys) + 1)"
    using apart [of "last ys"] apart2 [of "last ys" "hd zs"] last hd ne
    unfolding add_words_eq by force
  have Wz: "zs \<noteq> [] \<Longrightarrow> ?W (fst (hd zs)) = W (fst (hd zs)) \<and> ?W (fst (hd zs) + 1) = at lo i"
    using apart [of "hd zs"] apart2 [of "hd zs" "last ys"] last hd ne
    unfolding add_words_eq by force
  have Wx: "?W (fst x) = W (fst x) \<and> ?W (fst x + 1) = W (fst x + 1)"
    if "x \<in> set (ys @ zs)" "ys = [] \<or> x \<noteq> last ys" "zs = [] \<or> x \<noteq> hd zs" for x
    using apart [OF that(1)] apart2 [OF that(1), of "last ys"] apart2 [OF that(1), of "hd zs"] last hd that
    unfolding add_words_eq by force
  have chain: "dchain (blk_links ?W lo) (if addrs lo ys = [] then at lo i else p)
      (addrs lo ys @ at lo i # addrs lo zs)"
  proof (rule dchain_insert [OF ch])
    show "at lo i \<notin> set (addrs lo ys @ addrs lo zs)"
    proof
      assume "at lo i \<in> set (addrs lo ys @ addrs lo zs)"
      then obtain x where x: "x \<in> set (ys @ zs)" "at lo i = at lo (fst x)" by auto
      with inj [of i "fst x"] ok [OF x(1)] new(1) apart [OF x(1)] show False by (auto simp: node_ok_def)
    qed
    show "at lo i \<noteq> NULL" by (rule new(4))
    show "blk_links ?W lo (at lo i) = Some (if addrs lo zs = [] then NULL else hd (addrs lo zs),
        if addrs lo ys = [] then NULL else last (addrs lo ys))"
      using i Wi by (simp add: hd_map last_map)
    show "blk_links ?W lo (last (addrs lo ys)) =
        Some (at lo i, snd (the (blk_links W lo (last (addrs lo ys)))))" if "addrs lo ys \<noteq> []"
      using that Wy bound last by (simp add: last_map)
    show "blk_links ?W lo (hd (addrs lo zs)) =
        Some (fst (the (blk_links W lo (hd (addrs lo zs)))), at lo i)" if "addrs lo zs \<noteq> []"
      using that Wz bound hd by (simp add: hd_map)
    fix a assume a: "a \<in> set (addrs lo ys @ addrs lo zs)" "a \<noteq> last (addrs lo ys) \<or> addrs lo ys = []"
      "a \<noteq> hd (addrs lo zs) \<or> addrs lo zs = []"
    then obtain x where x: "x \<in> set (ys @ zs)" "a = at lo (fst x)" by auto
    with a have "ys = [] \<or> x \<noteq> last ys" "zs = [] \<or> x \<noteq> hd zs" by (auto simp: last_map hd_map)
    with x Wx [OF x(1)] bound show "blk_links ?W lo a = blk_links W lo a" by simp
  qed
  have sort: "sorted (map snd (ys @ (i, k) # zs))"
    using seg ys zs by (auto simp: seg_ok_def sorted_append less_imp_le)
  have "set (ys @ zs) = {x \<in> N. cls (snd x) = c}"
    using seg by (simp only: seg_ok_def)
  then have "insert (i, k) (set (ys @ zs)) = insert (i, k) {x \<in> N. cls (snd x) = c}" by (rule arg_cong)
  moreover have "{x \<in> insert (i, k) N. cls (snd x) = c} = insert (i, k) {x \<in> N. cls (snd x) = c}"
    using new(3) by auto
  ultimately have "set (ys @ (i, k) # zs) = {x \<in> insert (i, k) N. cls (snd x) = c}" by simp
  then show ?thesis using chain sort by (simp add: seg_ok_def)
qed

lemma add_words_frame:
  assumes "set ys \<subseteq> N" "set zs \<subseteq> N" "j \<notin> link_words (insert (i, k) N)"
  shows "add_words lo W i ys zs j = W j"
proof -
  have "ys \<noteq> [] \<Longrightarrow> last ys \<in> N" "zs \<noteq> [] \<Longrightarrow> hd zs \<in> N" using assms by auto
  with assms(3) show ?thesis by (auto simp: add_words_def link_words_def Let_def)
qed

lemma at_not_NULL: "heap_wf st \<Longrightarrow> heap_start st = lo \<Longrightarrow> 1 \<le> i \<Longrightarrow> i \<le> nwords st \<Longrightarrow> at lo i \<noteq> NULL"
  using unat_at_wf [of st lo i] by auto

lemma node_add_ok:
  assumes wf: "heap_wf st" "heap_start st = lo" "nwords st = n"
    and segs: "segs_ok lo n (words st) (seg_list st) N"
    and new: "node_ok n (words st) (i, k)" "\<forall>y \<in> N. clear (i, k) y"
  shows "\<exists>st'. node_add (at lo i) (sz k) st = Some st' \<and> same_frame st st' \<and>
    segs_ok lo n (words st') (seg_list st') (insert (i, k) N) \<and>
    (\<forall>j. j \<notin> link_words (insert (i, k) N) \<longrightarrow> words st' j = words st j)"
proof -
  let ?W = "words st" and ?c = "cls k"
  from segs have len: "length (seg_list st) = 61" and N: "nodes_ok n ?W N"
    and X: "\<And>c. c < 61 \<Longrightarrow> \<exists>xs. seg_ok lo ?W c (seg_list st ! c) N xs"
    by (auto simp: segs_ok_def)
  have n61: "n < 2 ^ 61" using nwords_61 [OF wf(1)] wf(3) by simp
  from new(1) have ik: "1 \<le> i" "4 \<le> k" "i + k \<le> n" by (simp_all add: node_ok_def)
  obtain xs where xs: "seg_ok lo ?W ?c (seg_list st ! ?c) N xs" using X [OF cls_less] by blast
  then have mem: "set xs \<subseteq> N" by (auto simp: seg_ok_def)
  define ys where "ys = takeWhile (\<lambda>x. snd x < k) xs"
  define zs where "zs = dropWhile (\<lambda>x. snd x < k) xs"
  have split: "xs = ys @ zs" by (simp add: ys_def zs_def)
  have ok: "\<forall>x \<in> set xs. node_ok n ?W x" using mem N by (auto simp: nodes_ok_def)
  from seg_ok_dseg [OF xs] obtain m where m: "dseg (blk_links ?W lo) NULL (seg_list st ! ?c) (addrs lo xs) m NULL" by blast
  have find: "find_loc st (sz k) NULL (seg_list st ! ?c) = Some
      (if ys = [] then NULL else at lo (fst (last ys)), if zs = [] then NULL else at lo (fst (hd zs)))"
    using find_loc_seg [OF wf(1,2) _ m, of k NULL] ok ik n61 wf(3)
    by (simp add: ys_def zs_def Let_def)
  have ends: "ys \<noteq> [] \<Longrightarrow> last ys \<in> set xs" "zs \<noteq> [] \<Longrightarrow> hd zs \<in> set xs" by (simp_all add: split)
  have apart: "fst x \<noteq> i \<and> fst x \<noteq> i + 1 \<and> fst x + 1 \<noteq> i \<and> 1 \<le> fst x \<and> fst x + 4 \<le> n" if "x \<in> set xs" for x
    using clear_words [of "(i, k)" x] new(2) ok that mem ik by (auto simp: node_ok_def)
  have inj: "at lo a = at lo b \<longleftrightarrow> a = b" if "a \<le> n" "b \<le> n" for a b
    using at_inj [OF wf(1,2)] that wf(3) by simp
  have nn: "at lo a \<noteq> NULL" if "1 \<le> a" "a \<le> n" for a
    using at_not_NULL [OF wf(1,2)] that wf(3) by simp
  have yz: "fst (last ys) \<noteq> fst (hd zs) + 1" if "ys \<noteq> []" "zs \<noteq> []"
  proof -
    from ends that mem have yz: "last ys \<in> N" "hd zs \<in> N" by auto
    have "distinct (ys @ zs)" using seg_ok_distinct [OF xs] by (simp only: split)
    with that have "last ys \<noteq> hd zs" by (intro distinct_ends)
    with yz N have "clear (last ys) (hd zs)" by (simp add: nodes_ok_def)
    with clear_words [of "last ys" "hd zs"] yz N show ?thesis by (auto simp: nodes_ok_def node_ok_def)
  qed
  have y: "fst (last ys) < nwords st \<and> at lo (fst (last ys)) \<noteq> NULL \<and> fst (last ys) \<noteq> i \<and>
      fst (last ys) \<noteq> i + 1" if "ys \<noteq> []"
    using apart [OF ends(1) [OF that]] nn [of "fst (last ys)"] wf(3) by simp
  have z: "fst (hd zs) + 1 < nwords st \<and> at lo (fst (hd zs)) \<noteq> NULL \<and> fst (hd zs) \<noteq> i \<and>
      fst (hd zs) + 1 \<noteq> i" if "zs \<noteq> []"
    using apart [OF ends(2) [OF that]] nn [of "fst (hd zs)"] wf(3) by simp
  have "1 \<le> k" "k < 2 ^ 61" "i + 1 < nwords st" using ik n61 wf(3) by simp_all
  from node_add_words [OF wf(1,2) len this find y z yz]
  obtain st' where st': "node_add (at lo i) (sz k) st = Some st'" "same_frame st st'"
    "words st' = add_words lo ?W i ys zs"
    "seg_list st' = (if ys = [] then (seg_list st)[?c := at lo i] else seg_list st)" by blast
  have frame: "words st' j = ?W j" if "j \<notin> link_words (insert (i, k) N)" for j
    unfolding st'(3) using mem split that by (intro add_words_frame) auto
  have "nodes_ok n (words st') (insert (i, k) N)"
  proof -
    have sym: "clear y (i, k)" if "y \<in> N" for y using new(2) that by (auto simp: clear_def)
    have "nodes_ok n ?W (insert (i, k) N)"
      using N new sym by (auto simp: nodes_ok_def)
    then show ?thesis
    proof (rule nodes_ok_cong)
      fix x assume "x \<in> insert (i, k) N"
      with header_not_link [OF \<open>nodes_ok n ?W (insert (i, k) N)\<close>] \<open>nodes_ok n ?W (insert (i, k) N)\<close>
      have "fst x - 1 \<notin> link_words (insert (i, k) N)" unfolding nodes_ok_def by blast
      then show "wsize (words st' (fst x - 1)) = wsize (?W (fst x - 1))" by (simp add: frame)
    qed
  qed
  moreover have "\<exists>xs. seg_ok lo (words st') c (seg_list st' ! c) (insert (i, k) N) xs" if c: "c < 61" for c
  proof (cases "c = ?c")
    case True
    have "seg_ok lo (add_words lo ?W i ys zs) ?c (if ys = [] then at lo i else seg_list st ! ?c)
        (insert (i, k) N) (ys @ (i, k) # zs)"
    proof (rule seg_ok_add [OF _ n61 N new])
      show "seg_ok lo ?W ?c (seg_list st ! ?c) N (ys @ zs)" using xs split by simp
      show "\<forall>x \<in> set ys. snd x < k" unfolding ys_def by (auto dest: set_takeWhileD)
      have "sorted (map snd zs)" using xs by (simp add: seg_ok_def split sorted_append)
      moreover have "zs \<noteq> [] \<Longrightarrow> k \<le> snd (hd zs)"
        unfolding zs_def using hd_dropWhile [of "\<lambda>x. snd x < k" xs] by auto
      ultimately show "\<forall>x \<in> set zs. k \<le> snd x" by (cases zs) auto
    qed (use nn inj ik in auto)
    with True st'(3,4) len show ?thesis by auto
  next
    case False
    from X [OF c] obtain us where us: "seg_ok lo ?W c (seg_list st ! c) N us" by blast
    have "words st' (fst x) = ?W (fst x) \<and> words st' (fst x + 1) = ?W (fst x + 1) \<and> fst x < 2 ^ 61"
      if x: "x \<in> set us" for x
    proof -
      from us x have xN: "x \<in> N" "cls (snd x) = c" by (auto simp: seg_ok_def)
      then have xok: "node_ok n ?W x" using N by (simp add: nodes_ok_def)
      have ne: "fst x \<noteq> fst y \<and> fst x \<noteq> fst y + 1 \<and> fst x + 1 \<noteq> fst y" if y: "y \<in> set xs" for y
      proof -
        from y xs have "cls (snd y) = ?c" "y \<in> N" by (auto simp: seg_ok_def)
        with xN False have "x \<noteq> y" by auto
        with N xN \<open>y \<in> N\<close> have "clear x y" "node_ok n ?W y" by (simp_all add: nodes_ok_def)
        with clear_words [of x y] xok show ?thesis by (auto simp: node_ok_def)
      qed
      have nei: "fst x \<noteq> i \<and> fst x \<noteq> i + 1 \<and> fst x + 1 \<noteq> i"
        using clear_words [of "(i, k)" x] new(2) xN(1) xok ik by (auto simp: node_ok_def)
      show ?thesis
        using nei ne [of "last ys"] ne [of "hd zs"] ends xok n61
        unfolding st'(3) add_words_eq node_ok_def by force
    qed
    then have "seg_ok lo (words st') c (seg_list st ! c) N us"
      by (intro seg_ok_cong [OF us]) auto
    then have "seg_ok lo (words st') c (seg_list st' ! c) (insert (i, k) N) us"
      using False st'(4) by (auto simp: seg_ok_def)
    then show ?thesis ..
  qed
  moreover have "length (seg_list st') = 61" using st'(4) len by simp
  ultimately show ?thesis using st'(1,2) frame by (auto simp: segs_ok_def)
qed

section \<open>Taking a block out of its list\<close>

definition rem_words :: "u64 \<Rightarrow> (nat \<Rightarrow> u64) \<Rightarrow> (nat \<times> nat) list \<Rightarrow> (nat \<times> nat) list \<Rightarrow> nat \<Rightarrow> u64" where
  "rem_words lo W ys zs =
     (let W1 = (if zs = [] then W
        else W(fst (hd zs) + 1 := (if ys = [] then NULL else at lo (fst (last ys)))))
      in if ys = [] then W1
        else W1(fst (last ys) := (if zs = [] then NULL else at lo (fst (hd zs)))))"

lemma rem_words_eq: "rem_words lo W ys zs j =
  (if ys \<noteq> [] \<and> j = fst (last ys) then (if zs = [] then NULL else at lo (fst (hd zs)))
   else if zs \<noteq> [] \<and> j = fst (hd zs) + 1 then (if ys = [] then NULL else at lo (fst (last ys)))
   else W j)"
  by (simp add: rem_words_def Let_def)

lemma node_remove_words:
  assumes wf: "heap_wf st" "heap_start st = lo" "length (seg_list st) = 61"
    and ik: "1 \<le> i" "1 \<le> k" "k < 2 ^ 61" "i + 1 < nwords st" "wsize (words st (i - 1)) = sz k"
    and links: "words st i = (if zs = [] then NULL else at lo (fst (hd zs)))"
      "words st (i + 1) = (if ys = [] then NULL else at lo (fst (last ys)))"
    and y: "ys \<noteq> [] \<Longrightarrow> fst (last ys) < nwords st \<and> at lo (fst (last ys)) \<noteq> NULL \<and>
      fst (last ys) \<noteq> i \<and> fst (last ys) \<noteq> i + 1"
    and z: "zs \<noteq> [] \<Longrightarrow> fst (hd zs) + 1 < nwords st \<and> at lo (fst (hd zs)) \<noteq> NULL \<and>
      fst (hd zs) \<noteq> i \<and> fst (hd zs) + 1 \<noteq> i"
  shows "\<exists>st'. node_remove (at lo i) st = Some st' \<and> same_frame st st' \<and>
    words st' = rem_words lo (words st) ys zs \<and>
    seg_list st' = (if ys = [] then (seg_list st)[cls k := (if zs = [] then NULL else at lo (fst (hd zs)))]
      else seg_list st)"
proof -
  have sel: "select_list (sz k) = int (cls k)" using ik by (intro select_list_sz)
  note rem = node_remove_def Let_def sel seg_get_in [OF wf(3) cls_less] wf ik links rem_words_def
  show ?thesis
  proof (cases "ys = []"; cases "zs = []")
    assume yz: "ys = []" "zs = []"
    with wf ik links show ?thesis by (simp add: rem)
  next
    assume yz: "ys = []" "zs \<noteq> []"
    with wf ik links z show ?thesis by (simp add: rem)
  next
    assume yz: "ys \<noteq> []" "zs = []"
    with wf ik links y show ?thesis by (simp add: rem)
  next
    assume yz: "ys \<noteq> []" "zs \<noteq> []"
    with wf ik links y z show ?thesis by (simp add: rem)
  qed
qed

lemma segs_ok_remove_nodes: "nodes_ok n W N \<Longrightarrow> nodes_ok n W (N - {x})"
  by (auto simp: nodes_ok_def)

lemma nodes_ok_apart:
  assumes "nodes_ok n W N" "x \<in> N" "y \<in> N" "x \<noteq> y"
  shows "fst x \<noteq> fst y" "fst x \<noteq> fst y + 1" "fst x + 1 \<noteq> fst y"
    "fst x - 1 \<noteq> fst y" "fst x - 1 \<noteq> fst y + 1"
  using assms clear_words [of x y] by (auto simp: nodes_ok_def node_ok_def)

lemma nodes_ok_bounds:
  assumes "nodes_ok n W N" "x \<in> N"
  shows "1 \<le> fst x" "4 \<le> snd x" "fst x + snd x \<le> n" "wsize (W (fst x - 1)) = sz (snd x)"
  using assms by (simp_all add: nodes_ok_def node_ok_def)

lemma seg_ok_remove:
  assumes seg: "seg_ok lo W c p N (ys @ (i, k) # zs)" and n: "n < 2 ^ 61" and N: "nodes_ok n W N"
  shows "seg_ok lo (rem_words lo W ys zs) c
    (if ys = [] then (if zs = [] then NULL else at lo (fst (hd zs))) else p) (N - {(i, k)}) (ys @ zs)"
proof -
  let ?W = "rem_words lo W ys zs" and ?xs = "ys @ (i, k) # zs"
  have mem: "set ?xs \<subseteq> N" using seg by (auto simp: seg_ok_def)
  note dist = seg_ok_distinct [OF seg]
  have bound: "fst x < 2 ^ 61" if "x \<in> set ?xs" for x
    using nodes_ok_bounds [OF N, of x] mem that n by auto
  have apart: "fst x \<noteq> fst y \<and> fst x \<noteq> fst y + 1 \<and> fst x + 1 \<noteq> fst y"
    if "x \<in> set ?xs" "y \<in> set ?xs" "x \<noteq> y" for x y
    using nodes_ok_apart [OF N _ _ that(3)] mem that by blast
  have last: "ys \<noteq> [] \<Longrightarrow> last ys \<in> set ?xs" and hd: "zs \<noteq> [] \<Longrightarrow> hd zs \<in> set ?xs" by simp_all
  have ne: "ys \<noteq> [] \<Longrightarrow> zs \<noteq> [] \<Longrightarrow> last ys \<noteq> hd zs"
    using distinct_ends [of ys zs] dist by auto
  have Wy: "ys \<noteq> [] \<Longrightarrow> ?W (fst (last ys)) = (if zs = [] then NULL else at lo (fst (hd zs))) \<and>
      ?W (fst (last ys) + 1) = W (fst (last ys) + 1)"
    using apart [of "last ys" "hd zs"] last hd ne unfolding rem_words_eq by force
  have Wz: "zs \<noteq> [] \<Longrightarrow> ?W (fst (hd zs)) = W (fst (hd zs)) \<and>
      ?W (fst (hd zs) + 1) = (if ys = [] then NULL else at lo (fst (last ys)))"
    using apart [of "hd zs" "last ys"] last hd ne unfolding rem_words_eq by force
  have Wx: "?W (fst x) = W (fst x) \<and> ?W (fst x + 1) = W (fst x + 1)"
    if "x \<in> set ?xs" "ys = [] \<or> x \<noteq> last ys" "zs = [] \<or> x \<noteq> hd zs" for x
    using apart [OF that(1), of "last ys"] apart [OF that(1), of "hd zs"] last hd that
    unfolding rem_words_eq by force
  from seg have ch: "dchain (blk_links W lo) p (addrs lo ys @ at lo i # addrs lo zs)"
    by (simp add: seg_ok_def)
  have chain: "dchain (blk_links ?W lo)
      (if addrs lo ys = [] then (if addrs lo zs = [] then NULL else hd (addrs lo zs)) else p)
      (addrs lo ys @ addrs lo zs)"
  proof (rule dchain_remove [OF ch])
    show "blk_links ?W lo (last (addrs lo ys)) = Some (if addrs lo zs = [] then NULL else hd (addrs lo zs),
        snd (the (blk_links W lo (last (addrs lo ys)))))" if "addrs lo ys \<noteq> []"
      using that Wy bound last by (simp add: last_map hd_map)
    show "blk_links ?W lo (hd (addrs lo zs)) = Some (fst (the (blk_links W lo (hd (addrs lo zs)))),
        if addrs lo ys = [] then NULL else last (addrs lo ys))" if "addrs lo zs \<noteq> []"
      using that Wz bound hd by (simp add: hd_map last_map)
    fix a assume a: "a \<in> set (addrs lo ys @ addrs lo zs)" "a \<noteq> last (addrs lo ys) \<or> addrs lo ys = []"
      "a \<noteq> hd (addrs lo zs) \<or> addrs lo zs = []"
    then obtain x where x: "x \<in> set ?xs" "a = at lo (fst x)" by auto
    with a have "ys = [] \<or> x \<noteq> last ys" "zs = [] \<or> x \<noteq> hd zs" by (auto simp: last_map hd_map)
    with x Wx [OF x(1)] bound show "blk_links ?W lo a = blk_links W lo a" by simp
  qed
  have sort: "sorted (map snd (ys @ zs))" using seg by (auto simp: seg_ok_def sorted_append)
  have "set (ys @ zs) = set ?xs - {(i, k)}" using dist by auto
  also have "set ?xs = {x \<in> N. cls (snd x) = c}" using seg by (simp only: seg_ok_def)
  finally have "set (ys @ zs) = {x \<in> N - {(i, k)}. cls (snd x) = c}" by auto
  moreover have "(if addrs lo ys = [] then (if addrs lo zs = [] then NULL else hd (addrs lo zs)) else p) =
      (if ys = [] then (if zs = [] then NULL else at lo (fst (hd zs))) else p)"
    by (simp add: hd_map)
  ultimately show ?thesis using chain sort by (simp only: seg_ok_def map_append simp_thms)
qed

lemma node_remove_ok:
  assumes wf: "heap_wf st" "heap_start st = lo" "nwords st = n"
    and segs: "segs_ok lo n (words st) (seg_list st) N" and mem: "(i, k) \<in> N"
  shows "\<exists>st'. node_remove (at lo i) st = Some st' \<and> same_frame st st' \<and>
    segs_ok lo n (words st') (seg_list st') (N - {(i, k)}) \<and>
    (\<forall>j. j \<notin> link_words (N - {(i, k)}) \<longrightarrow> words st' j = words st j)"
proof -
  let ?W = "words st" and ?c = "cls k"
  from segs have len: "length (seg_list st) = 61" and N: "nodes_ok n ?W N"
    and X: "\<And>c. c < 61 \<Longrightarrow> \<exists>xs. seg_ok lo ?W c (seg_list st ! c) N xs"
    by (auto simp: segs_ok_def)
  have n61: "n < 2 ^ 61" using nwords_61 [OF wf(1)] wf(3) by simp
  from nodes_ok_bounds [OF N mem]
  have ik: "1 \<le> i" "4 \<le> k" "i + k \<le> n" "wsize (?W (i - 1)) = sz k" by simp_all
  obtain xs where xs: "seg_ok lo ?W ?c (seg_list st ! ?c) N xs" using X [OF cls_less] by blast
  then have memN: "set xs \<subseteq> N" by (auto simp: seg_ok_def)
  have "set xs = {x \<in> N. cls (snd x) = ?c}" using xs by (simp only: seg_ok_def)
  then have "(i, k) \<in> set xs" using mem by simp
  then obtain ys zs where split: "xs = ys @ (i, k) # zs" by (meson split_list)
  note dist = seg_ok_distinct [OF xs, unfolded split]
  have ends: "ys \<noteq> [] \<Longrightarrow> last ys \<in> set xs \<and> last ys \<noteq> (i, k)" "zs \<noteq> [] \<Longrightarrow> hd zs \<in> set xs \<and> hd zs \<noteq> (i, k)"
    using distinct_neighbours [OF dist] by (auto simp: split)
  have apart: "fst x \<noteq> i \<and> fst x \<noteq> i + 1 \<and> fst x + 1 \<noteq> i \<and> 1 \<le> fst x \<and> fst x + 4 \<le> n"
    if "x \<in> set xs \<and> x \<noteq> (i, k)" for x
    using nodes_ok_apart [OF N _ mem, of x] nodes_ok_bounds [OF N, of x] that memN by auto
  have nn: "at lo a \<noteq> NULL" if "1 \<le> a" "a \<le> n" for a
    using at_not_NULL [OF wf(1,2)] that wf(3) by simp
  have y: "fst (last ys) < nwords st \<and> at lo (fst (last ys)) \<noteq> NULL \<and> fst (last ys) \<noteq> i \<and>
      fst (last ys) \<noteq> i + 1" if "ys \<noteq> []"
    using apart [OF ends(1) [OF that]] nn [of "fst (last ys)"] wf(3) by simp
  have z: "fst (hd zs) + 1 < nwords st \<and> at lo (fst (hd zs)) \<noteq> NULL \<and> fst (hd zs) \<noteq> i \<and>
      fst (hd zs) + 1 \<noteq> i" if "zs \<noteq> []"
    using apart [OF ends(2) [OF that]] nn [of "fst (hd zs)"] wf(3) by simp
  have "dchain (blk_links ?W lo) (seg_list st ! ?c) (addrs lo ys @ at lo i # addrs lo zs)"
    using xs by (simp add: seg_ok_def split)
  from dchain_cell [OF this] ik n61
  have links: "?W i = (if zs = [] then NULL else at lo (fst (hd zs)))"
    "?W (i + 1) = (if ys = [] then NULL else at lo (fst (last ys)))"
    by (simp_all add: hd_map last_map)
  have "1 \<le> i" "1 \<le> k" "k < 2 ^ 61" "i + 1 < nwords st" using ik n61 wf(3) by simp_all
  from node_remove_words [OF wf(1,2) len this ik(4) links y z]
  obtain st' where st': "node_remove (at lo i) st = Some st'" "same_frame st st'"
    "words st' = rem_words lo ?W ys zs"
    "seg_list st' = (if ys = [] then (seg_list st)[?c := (if zs = [] then NULL else at lo (fst (hd zs)))]
      else seg_list st)" by blast
  have inN: "ys \<noteq> [] \<Longrightarrow> last ys \<in> N - {(i, k)}" "zs \<noteq> [] \<Longrightarrow> hd zs \<in> N - {(i, k)}"
    using ends memN by auto
  have frame: "words st' j = ?W j" if "j \<notin> link_words (N - {(i, k)})" for j
    using inN that unfolding st'(3) rem_words_eq link_words_def by auto
  have nodes: "nodes_ok n (words st') (N - {(i, k)})"
  proof (rule nodes_ok_cong [OF segs_ok_remove_nodes [OF N]])
    fix x assume "x \<in> N - {(i, k)}"
    with header_not_link [OF segs_ok_remove_nodes [OF N]] segs_ok_remove_nodes [OF N, of "(i, k)"]
    have "fst x - 1 \<notin> link_words (N - {(i, k)})" unfolding nodes_ok_def by blast
    then show "wsize (words st' (fst x - 1)) = wsize (?W (fst x - 1))" by (simp add: frame)
  qed
  have "\<exists>xs. seg_ok lo (words st') c (seg_list st' ! c) (N - {(i, k)}) xs" if c: "c < 61" for c
  proof (cases "c = ?c")
    case True
    from seg_ok_remove [OF xs [unfolded split] n61 N] True st'(3,4) len show ?thesis by auto
  next
    case False
    from X [OF c] obtain us where us: "seg_ok lo ?W c (seg_list st ! c) N us" by blast
    have "words st' (fst x) = ?W (fst x) \<and> words st' (fst x + 1) = ?W (fst x + 1) \<and> fst x < 2 ^ 61"
      if x: "x \<in> set us" for x
    proof -
      from us x have xN: "x \<in> N" "cls (snd x) = c" by (auto simp: seg_ok_def)
      have ne: "fst x \<noteq> fst y \<and> fst x \<noteq> fst y + 1 \<and> fst x + 1 \<noteq> fst y" if y: "y \<in> set xs" for y
      proof -
        from y xs have "cls (snd y) = ?c" "y \<in> N" by (auto simp: seg_ok_def)
        with xN False have "x \<noteq> y" by auto
        with nodes_ok_apart [OF N xN(1) \<open>y \<in> N\<close>] show ?thesis by simp
      qed
      show ?thesis
        using ne [of "last ys"] ne [of "hd zs"] ends nodes_ok_bounds [OF N xN(1)] n61
        unfolding st'(3) rem_words_eq by force
    qed
    then have "seg_ok lo (words st') c (seg_list st ! c) N us"
      by (intro seg_ok_cong [OF us]) auto
    then have "seg_ok lo (words st') c (seg_list st' ! c) (N - {(i, k)}) us"
      using False st'(4) by (auto simp: seg_ok_def)
    then show ?thesis ..
  qed
  moreover have "length (seg_list st') = 61" using st'(4) len by simp
  ultimately show ?thesis using st'(1,2) frame nodes by (simp add: segs_ok_def)
qed

end
