(* ===== verification/Mm_Blocks.thy ===== *)
theory Mm_Blocks
  imports Mm_Lists
begin

text \<open>
  The heap as a sequence of blocks with boundary tags: the invariant of the allocator, and the
  proof that coalescing, placing and extending keep it and leave the allocated blocks alone.
\<close>

section \<open>Sequences of blocks\<close>

text \<open>A block \<open>(i, k, a)\<close>: its first word, its length in words (both tags included), and whether it
  is allocated. Its header is the word before \<open>i\<close>, its footer the word \<open>i + k - 2\<close>.\<close>

type_synonym block = "nat \<times> nat \<times> bool"

fun tiles :: "nat \<Rightarrow> block list \<Rightarrow> nat \<Rightarrow> bool" where
  "tiles s [] e \<longleftrightarrow> s = e"
| "tiles s ((i, k, a) # bs) e \<longleftrightarrow> i = s \<and> 4 \<le> k \<and> even k \<and> tiles (s + k) bs e"

definition free_set :: "block list \<Rightarrow> (nat \<times> nat) set" where
  "free_set bs = {(i, k). (i, k, False) \<in> set bs}"

definition alloc_set :: "block list \<Rightarrow> (nat \<times> nat) set" where
  "alloc_set bs = {(i, k). (i, k, True) \<in> set bs}"

definition tags_ok :: "(nat \<Rightarrow> u64) \<Rightarrow> block list \<Rightarrow> bool" where
  "tags_ok W bs \<longleftrightarrow> (\<forall>(i, k, a) \<in> set bs. W (i - 1) = tagw k a \<and> W (i + k - 2) = tagw k a)"

lemma free_set_simps [simp]:
  "free_set [] = {}"
  "free_set ((i, k, a) # bs) = (if a then free_set bs else insert (i, k) (free_set bs))"
  "free_set (xs @ ys) = free_set xs \<union> free_set ys"
  by (auto simp: free_set_def)

lemma alloc_set_simps [simp]:
  "alloc_set [] = {}"
  "alloc_set ((i, k, a) # bs) = (if a then insert (i, k) (alloc_set bs) else alloc_set bs)"
  "alloc_set (xs @ ys) = alloc_set xs \<union> alloc_set ys"
  by (auto simp: alloc_set_def)

lemma tags_ok_simps [simp]:
  "tags_ok W []"
  "tags_ok W ((i, k, a) # bs) \<longleftrightarrow> W (i - 1) = tagw k a \<and> W (i + k - 2) = tagw k a \<and> tags_ok W bs"
  "tags_ok W (xs @ ys) \<longleftrightarrow> tags_ok W xs \<and> tags_ok W ys"
  by (simp_all add: tags_ok_def ball_Un)

lemma tags_okD: "tags_ok W bs \<Longrightarrow> (i, k, a) \<in> set bs \<Longrightarrow> W (i - 1) = tagw k a \<and> W (i + k - 2) = tagw k a"
  by (auto simp: tags_ok_def)

lemma tiles_append: "tiles s (xs @ ys) e \<longleftrightarrow> (\<exists>m. tiles s xs m \<and> tiles m ys e)"
  by (induction xs arbitrary: s) auto

lemma tiles_le: "tiles s bs e \<Longrightarrow> s \<le> e"
  by (induction bs arbitrary: s) force+

lemma tiles_even: "tiles s bs e \<Longrightarrow> even s \<longleftrightarrow> even e"
  by (induction bs arbitrary: s) force+

lemma tiles_mem: "tiles s bs e \<Longrightarrow> (i, k, a) \<in> set bs \<Longrightarrow> s \<le> i \<and> 4 \<le> k \<and> i + k \<le> e \<and> even k"
proof (induction bs arbitrary: s)
  case (Cons b bs)
  obtain j l c where b: "b = (j, l, c)" by (cases b)
  from Cons.prems b have t: "tiles (s + l) bs e" by simp
  show ?case
  proof (cases "(i, k, a) = b")
    case True
    with Cons.prems b tiles_le [OF t] show ?thesis by simp
  next
    case False
    with Cons.prems b Cons.IH [OF t] show ?thesis by auto
  qed
qed simp

lemma tiles_mem_even: "tiles s bs e \<Longrightarrow> even s \<Longrightarrow> (i, k, a) \<in> set bs \<Longrightarrow> even i"
proof (induction bs arbitrary: s)
  case (Cons b bs)
  obtain j l c where b: "b = (j, l, c)" by (cases b)
  with Cons show ?case by auto
qed simp

lemma tiles_clear:
  "tiles s bs e \<Longrightarrow> (i, k, a) \<in> set bs \<Longrightarrow> (j, l, b) \<in> set bs \<Longrightarrow> (i, k, a) \<noteq> (j, l, b) \<Longrightarrow>
   clear (i, k) (j, l)"
proof (induction bs arbitrary: s)
  case (Cons x bs)
  obtain u v w where x: "x = (u, v, w)" by (cases x)
  from Cons.prems x have t: "tiles (u + v) bs e" by simp
  consider "(i, k, a) = x" "(j, l, b) \<in> set bs" | "(j, l, b) = x" "(i, k, a) \<in> set bs"
    | "(i, k, a) \<in> set bs" "(j, l, b) \<in> set bs" using Cons.prems by auto
  then show ?case
  proof cases
    case 1
    with x tiles_mem [OF t 1(2)] show ?thesis by (auto simp: clear_def)
  next
    case 2
    with x tiles_mem [OF t 2(2)] show ?thesis by (auto simp: clear_def)
  next
    case 3
    with Cons.IH [OF t] Cons.prems show ?thesis by blast
  qed
qed simp

section \<open>The invariant\<close>

text \<open>The fixed words: the prologue block (two tags) and the epilogue header.\<close>

definition frame_words :: "nat \<Rightarrow> (nat \<Rightarrow> u64) \<Rightarrow> bool" where
  "frame_words n W \<longleftrightarrow> 4 \<le> n \<and> W 1 = tagw 2 True \<and> W 2 = tagw 2 True \<and> W (n - 1) = tagw 0 True"

text \<open>Blocks that lie apart from each other in the heap.\<close>

definition apart_blocks :: "nat \<Rightarrow> block set \<Rightarrow> bool" where
  "apart_blocks n B \<longleftrightarrow> (\<forall>(i, k, a) \<in> B. 4 \<le> i \<and> 4 \<le> k \<and> i + k \<le> n) \<and>
     (\<forall>x \<in> B. \<forall>y \<in> B. x \<noteq> y \<longrightarrow> clear (fst x, fst (snd x)) (fst y, fst (snd y)))"

text \<open>
  \<open>base_inv st bs N\<close>: the blocks \<open>bs\<close> (perhaps not all) have their tags, and the lists hold
  the free blocks \<open>N\<close> among them. \<open>heap_inv\<close>: \<open>bs\<close> are all the blocks, in order, and the
  lists hold every free one. \<open>hole_inv\<close>: nothing is said of the words of the blocks from
  \<open>s\<close> to \<open>e\<close>.
\<close>

definition base_inv :: "heap_state \<Rightarrow> block list \<Rightarrow> (nat \<times> nat) set \<Rightarrow> bool" where
  "base_inv st bs N \<longleftrightarrow> heap_wf st \<and> heap_listp st = at (heap_start st) 2 \<and>
     frame_words (nwords st) (words st) \<and> apart_blocks (nwords st) (set bs) \<and>
     tags_ok (words st) bs \<and> N \<subseteq> free_set bs \<and>
     segs_ok (heap_start st) (nwords st) (words st) (seg_list st) N"

definition heap_inv :: "heap_state \<Rightarrow> block list \<Rightarrow> bool" where
  "heap_inv st bs \<longleftrightarrow> tiles 4 bs (nwords st) \<and> base_inv st bs (free_set bs)"

definition hole_inv :: "heap_state \<Rightarrow> block list \<Rightarrow> nat \<Rightarrow> nat \<Rightarrow> block list \<Rightarrow> bool" where
  "hole_inv st pre s e post \<longleftrightarrow> tiles 4 pre s \<and> s + 4 \<le> e \<and> even e \<and>
     tiles e post (nwords st) \<and> base_inv st (pre @ post) (free_set (pre @ post))"

text \<open>No two neighbours are both free.\<close>

fun coalesced :: "block list \<Rightarrow> bool" where
  "coalesced ((i, k, a) # (j, l, b) # bs) \<longleftrightarrow> (a \<or> b) \<and> coalesced ((j, l, b) # bs)"
| "coalesced bs \<longleftrightarrow> True"

text \<open>The words of some blocks are unchanged, their tags included.\<close>

definition keeps :: "(nat \<times> nat) set \<Rightarrow> heap_state \<Rightarrow> heap_state \<Rightarrow> bool" where
  "keeps A st st' \<longleftrightarrow> (\<forall>x \<in> A. \<forall>j. fst x - 1 \<le> j \<longrightarrow> j < fst x + snd x - 1 \<longrightarrow> words st' j = words st j)"

lemma keeps_refl [simp]: "keeps A st st"
  by (simp add: keeps_def)

lemma keeps_trans: "keeps A a b \<Longrightarrow> keeps A b c \<Longrightarrow> keeps A a c"
  by (simp add: keeps_def)

lemma keeps_mono: "keeps B st st' \<Longrightarrow> A \<subseteq> B \<Longrightarrow> keeps A st st'"
  by (auto simp: keeps_def)

lemma links_keep:
  assumes "\<forall>j. j \<notin> link_words N \<longrightarrow> words st' j = words st j"
    and "\<And>x y. x \<in> A \<Longrightarrow> y \<in> N \<Longrightarrow> clear x y"
    and "\<And>x. x \<in> A \<Longrightarrow> 1 \<le> fst x" "\<And>y. y \<in> N \<Longrightarrow> 1 \<le> fst y \<and> 4 \<le> snd y"
  shows "keeps A st st'"
proof -
  have "words st' j = words st j" if x: "x \<in> A" "fst x - 1 \<le> j" "j < fst x + snd x - 1" for x j
  proof -
    have "j \<notin> link_words N"
    proof
      assume "j \<in> link_words N"
      then obtain y where "y \<in> N" "j = fst y \<or> j = fst y + 1" by (auto simp: link_words_def)
      with assms(2) [OF x(1), of y] assms(3) [OF x(1)] assms(4) [of y] x(2,3) show False
        by (auto simp: clear_def)
    qed
    with assms(1) show ?thesis by blast
  qed
  then show ?thesis by (simp add: keeps_def)
qed

lemma apart_blocksD:
  assumes "apart_blocks n B" "(i, k, a) \<in> B"
  shows "4 \<le> i" "4 \<le> k" "i + k \<le> n"
  using assms by (auto simp: apart_blocks_def)

lemma apart_blocks_clear:
  assumes "apart_blocks n B" "(i, k, a) \<in> B" "(j, l, b) \<in> B" "(i, k, a) \<noteq> (j, l, b)"
  shows "clear (i, k) (j, l)"
proof -
  from assms(1) have "\<forall>x \<in> B. \<forall>y \<in> B. x \<noteq> y \<longrightarrow> clear (fst x, fst (snd x)) (fst y, fst (snd y))"
    unfolding apart_blocks_def by (rule conjunct2)
  from this [THEN bspec, OF assms(2), THEN bspec, OF assms(3)] assms(4) show ?thesis by simp
qed

lemma clear_sym: "clear x y = clear y x"
  by (auto simp: clear_def)

lemma tiles_apart:
  assumes t: "tiles 4 bs n"
  shows "apart_blocks n (set bs)"
proof -
  have "clear (fst x, fst (snd x)) (fst y, fst (snd y))" if "x \<in> set bs" "y \<in> set bs" "x \<noteq> y" for x y
    using tiles_clear [OF t, of "fst x" "fst (snd x)" "snd (snd x)" "fst y" "fst (snd y)" "snd (snd y)"]
      that by simp
  with tiles_mem [OF t] show ?thesis unfolding apart_blocks_def by fastforce
qed

lemma free_setD: "N \<subseteq> free_set bs \<Longrightarrow> (i, k) \<in> N \<Longrightarrow> (i, k, False) \<in> set bs"
  by (auto simp: free_set_def)

text \<open>Tags and the fixed words are no links.\<close>

lemma tag_not_link:
  assumes ap: "apart_blocks n (set bs)" and N: "N \<subseteq> free_set bs" and b: "(i, k, a) \<in> set bs"
  shows "i - 1 \<notin> link_words N" "i + k - 2 \<notin> link_words N"
proof -
  have *: "j \<noteq> y \<and> j \<noteq> y + 1" if y: "(y, l) \<in> N" and j: "j = i - 1 \<or> j = i + k - 2" for y l j
  proof -
    note Y = free_setD [OF N y]
    note bi = apart_blocksD [OF ap b] and by' = apart_blocksD [OF ap Y]
    show ?thesis
    proof (cases "(i, k, a) = (y, l, False)")
      case True
      with bi j show ?thesis by auto
    next
      case False
      from apart_blocks_clear [OF ap b Y this] bi by' j show ?thesis by (auto simp: clear_def)
    qed
  qed
  show "i - 1 \<notin> link_words N" using * [of _ _ "i - 1"] by (fastforce simp: link_words_def)
  show "i + k - 2 \<notin> link_words N" using * [of _ _ "i + k - 2"] by (fastforce simp: link_words_def)
qed

lemma frame_not_link:
  assumes ap: "apart_blocks n (set bs)" and N: "N \<subseteq> free_set bs"
  shows "1 \<notin> link_words N" "2 \<notin> link_words N" "n - 1 \<notin> link_words N"
proof -
  have "4 \<le> y \<and> y + 4 \<le> n" if "(y, l) \<in> N" for y l
    using apart_blocksD [OF ap free_setD [OF N that]] by auto
  then show "1 \<notin> link_words N" "2 \<notin> link_words N" "n - 1 \<notin> link_words N"
    by (fastforce simp: link_words_def)+
qed

lemma links_base:
  assumes base: "base_inv st bs N" and M: "M \<subseteq> free_set bs" and same: "same_frame st st'"
    and frame: "\<forall>j. j \<notin> link_words M \<longrightarrow> words st' j = words st j"
    and segs: "segs_ok (heap_start st) (nwords st) (words st') (seg_list st') M'" "M' \<subseteq> free_set bs"
  shows "base_inv st' bs M'" "keeps (alloc_set bs) st st'"
proof -
  from base have ap: "apart_blocks (nwords st) (set bs)" by (simp add: base_inv_def)
  have "tags_ok (words st') bs"
  proof -
    have "words st' (i - 1) = tagw k a \<and> words st' (i + k - 2) = tagw k a" if "(i, k, a) \<in> set bs" for i k a
      using tag_not_link [OF ap M that] frame tags_okD [of "words st" bs i k a] that base
      by (simp add: base_inv_def)
    then show ?thesis by (auto simp: tags_ok_def)
  qed
  moreover have "frame_words (nwords st) (words st')"
    using frame_not_link [OF ap M] frame base by (simp add: base_inv_def frame_words_def)
  ultimately show "base_inv st' bs M'"
    using base same segs by (simp add: base_inv_def same_frame_def)
  have "clear x y" if x: "x \<in> alloc_set bs" and y: "y \<in> M" for x y
  proof -
    obtain i k j l where "x = (i, k)" "y = (j, l)" by force
    with x y M have "(i, k, True) \<in> set bs" "(j, l, False) \<in> set bs"
      by (auto simp: alloc_set_def free_set_def)
    from apart_blocks_clear [OF ap this] \<open>x = (i, k)\<close> \<open>y = (j, l)\<close> show ?thesis by simp
  qed
  moreover have "1 \<le> fst x" if "x \<in> alloc_set bs" for x
  proof -
    obtain j l where jl: "x = (j, l)" by force
    with that have "(j, l, True) \<in> set bs" by (auto simp: alloc_set_def)
    from apart_blocksD(1) [OF ap this] jl show ?thesis by simp
  qed
  moreover have "1 \<le> fst y \<and> 4 \<le> snd y" if "y \<in> M" for y
  proof -
    obtain j l where jl: "y = (j, l)" by force
    with that M have "(j, l, False) \<in> set bs" by (auto simp: free_set_def)
    from apart_blocksD [OF ap this] jl show ?thesis by simp
  qed
  ultimately show "keeps (alloc_set bs) st st'" by (intro links_keep [OF frame])
qed

lemma remove_base:
  assumes base: "base_inv st bs N" and mem: "(i, k) \<in> N" and lo: "heap_start st = lo"
  shows "\<exists>st'. node_remove (at lo i) st = Some st' \<and> same_frame st st' \<and>
    base_inv st' bs (N - {(i, k)}) \<and> keeps (alloc_set bs) st st' \<and>
    (\<forall>j. j \<notin> link_words (N - {(i, k)}) \<longrightarrow> words st' j = words st j)"
proof -
  from base have wf: "heap_wf st" and N: "N \<subseteq> free_set bs"
    and segs: "segs_ok lo (nwords st) (words st) (seg_list st) N" using lo by (simp_all add: base_inv_def)
  from node_remove_ok [OF wf lo refl segs mem] obtain st' where st':
    "node_remove (at lo i) st = Some st'" "same_frame st st'"
    "segs_ok lo (nwords st) (words st') (seg_list st') (N - {(i, k)})"
    "\<forall>j. j \<notin> link_words (N - {(i, k)}) \<longrightarrow> words st' j = words st j" by blast
  from N have "N - {(i, k)} \<subseteq> free_set bs" by blast
  from links_base [OF base this st'(2,4) _ this] st' lo show ?thesis by auto
qed

lemma add_base:
  assumes base: "base_inv st bs N" and b: "(i, k, False) \<in> set bs" and new: "(i, k) \<notin> N"
    and lo: "heap_start st = lo"
  shows "\<exists>st'. node_add (at lo i) (sz k) st = Some st' \<and> same_frame st st' \<and>
    base_inv st' bs (insert (i, k) N) \<and> keeps (alloc_set bs) st st'"
proof -
  from base have wf: "heap_wf st" and N: "N \<subseteq> free_set bs" and ap: "apart_blocks (nwords st) (set bs)"
    and tags: "tags_ok (words st) bs"
    and segs: "segs_ok lo (nwords st) (words st) (seg_list st) N" using lo by (simp_all add: base_inv_def)
  have node: "node_ok (nwords st) (words st) (i, k)"
    using apart_blocksD [OF ap b] tags_okD [OF tags b] by (simp add: node_ok_def)
  have "clear (i, k) y" if y: "y \<in> N" for y
  proof -
    obtain j l where jl: "y = (j, l)" by force
    with y N have "(j, l, False) \<in> set bs" by (auto simp: free_set_def)
    from apart_blocks_clear [OF ap b this] new y jl show ?thesis by auto
  qed
  then have "\<forall>y \<in> N. clear (i, k) y" by blast
  from node_add_ok [OF wf lo refl segs node this] obtain st' where st':
    "node_add (at lo i) (sz k) st = Some st'" "same_frame st st'"
    "segs_ok lo (nwords st) (words st') (seg_list st') (insert (i, k) N)"
    "\<forall>j. j \<notin> link_words (insert (i, k) N) \<longrightarrow> words st' j = words st j" by blast
  from N b have "insert (i, k) N \<subseteq> free_set bs" by (auto simp: free_set_def)
  from links_base [OF base this st'(2,4) _ this] st' lo show ?thesis by auto
qed

section \<open>Writing tags\<close>

lemma segs_ok_cong:
  assumes segs: "segs_ok lo n W seg N" and n: "n < 2 ^ 61"
    and same: "\<And>x. x \<in> N \<Longrightarrow> wsize (W' (fst x - 1)) = wsize (W (fst x - 1)) \<and>
      W' (fst x) = W (fst x) \<and> W' (fst x + 1) = W (fst x + 1)"
  shows "segs_ok lo n W' seg N"
proof -
  from segs have N: "nodes_ok n W N" by (simp add: segs_ok_def)
  have "nodes_ok n W' N" using same by (intro nodes_ok_cong [OF N]) simp
  moreover have "\<exists>xs. seg_ok lo W' c (seg ! c) N xs" if c: "c < 61" for c
  proof -
    from segs c obtain xs where xs: "seg_ok lo W c (seg ! c) N xs" by (auto simp: segs_ok_def)
    have "x \<in> N" if "x \<in> set xs" for x using xs that by (auto simp: seg_ok_def)
    with same nodes_ok_bounds [OF N] n have "seg_ok lo W' c (seg ! c) N xs"
      by (intro seg_ok_cong [OF xs]) fastforce+
    then show ?thesis ..
  qed
  ultimately show ?thesis using segs by (simp add: segs_ok_def)
qed

lemma put_base:
  assumes base: "base_inv st bs N" and j: "3 \<le> j" "j + 1 < nwords st"
    and out: "\<And>i k a. (i, k, a) \<in> set bs \<Longrightarrow> j < i - 1 \<or> i + k - 1 \<le> j"
  shows "base_inv (put_at j v st) bs N" "keeps (alloc_set bs) st (put_at j v st)"
proof -
  from base have wf: "heap_wf st" and ap: "apart_blocks (nwords st) (set bs)" and N: "N \<subseteq> free_set bs"
    and tags: "tags_ok (words st) bs"
    and segs: "segs_ok (heap_start st) (nwords st) (words st) (seg_list st) N"
    by (simp_all add: base_inv_def)
  have w: "words (put_at j v st) = (words st)(j := v)" using wf j by simp
  have "tags_ok ((words st)(j := v)) bs"
  proof -
    have "((words st)(j := v)) (i - 1) = tagw k a \<and> ((words st)(j := v)) (i + k - 2) = tagw k a"
      if b: "(i, k, a) \<in> set bs" for i k a
      using out [OF b] apart_blocksD [OF ap b] tags_okD [OF tags b] by auto
    then show ?thesis by (auto simp: tags_ok_def)
  qed
  moreover have "frame_words (nwords st) ((words st)(j := v))"
    using base j by (auto simp: base_inv_def frame_words_def)
  moreover have "segs_ok (heap_start st) (nwords st) ((words st)(j := v)) (seg_list st) N"
  proof (rule segs_ok_cong [OF segs nwords_61 [OF wf]])
    fix x assume "x \<in> N"
    then have b: "(fst x, snd x, False) \<in> set bs" using N by (auto simp: free_set_def)
    with out [OF b] apart_blocksD [OF ap b]
    show "wsize (((words st)(j := v)) (fst x - 1)) = wsize (words st (fst x - 1)) \<and>
      ((words st)(j := v)) (fst x) = words st (fst x) \<and> ((words st)(j := v)) (fst x + 1) = words st (fst x + 1)"
      by auto
  qed
  ultimately show "base_inv (put_at j v st) bs N" using base w by (simp add: base_inv_def)
  have "words (put_at j v st) m = words st m"
    if x: "x \<in> alloc_set bs" "fst x - 1 \<le> m" "m < fst x + snd x - 1" for x m
  proof -
    have "(fst x, snd x, True) \<in> set bs" using x by (auto simp: alloc_set_def)
    from out [OF this] x w show ?thesis by auto
  qed
  then show "keeps (alloc_set bs) st (put_at j v st)" by (simp add: keeps_def)
qed

lemma base_subset:
  "base_inv st bs N \<Longrightarrow> set bs' \<subseteq> set bs \<Longrightarrow> N \<subseteq> free_set bs' \<Longrightarrow> base_inv st bs' N"
  unfolding base_inv_def apart_blocks_def tags_ok_def by blast

lemma base_cong_set: "base_inv st bs N \<Longrightarrow> set bs' = set bs \<Longrightarrow> base_inv st bs' N"
  by (simp add: base_inv_def tags_ok_def free_set_def)

lemma base_extend:
  assumes base: "base_inv st bs N" and bs': "set bs' = insert (i, k, a) (set bs)"
    and ik: "4 \<le> i" "4 \<le> k" "i + k \<le> nwords st"
    and out: "\<And>j l b. (j, l, b) \<in> set bs \<Longrightarrow> clear (i, k) (j, l)"
    and tags: "words st (i - 1) = tagw k a" "words st (i + k - 2) = tagw k a"
  shows "base_inv st bs' N"
proof -
  from base have ap: "apart_blocks (nwords st) (set bs)" by (simp add: base_inv_def)
  have "apart_blocks (nwords st) (insert (i, k, a) (set bs))"
  proof -
    have "clear (fst x, fst (snd x)) (fst y, fst (snd y))"
      if "x \<in> insert (i, k, a) (set bs)" "y \<in> insert (i, k, a) (set bs)" "x \<noteq> y" for x y
    proof -
      note xy = that
      have new: "clear (i, k) (fst z, fst (snd z))" if "z \<in> set bs" for z
        using out [of "fst z" "fst (snd z)" "snd (snd z)"] that by simp
      consider "x \<in> set bs" "y \<in> set bs" | "x = (i, k, a)" "y \<in> set bs" | "y = (i, k, a)" "x \<in> set bs"
        using xy by auto
      then show ?thesis
      proof cases
        case 1
        with apart_blocks_clear [OF ap, of "fst x" "fst (snd x)" "snd (snd x)" "fst y" "fst (snd y)" "snd (snd y)"]
          xy(3) show ?thesis by simp
      next
        case 2
        with new show ?thesis by simp
      next
        case 3
        with new clear_sym [of "(i, k)" "(fst x, fst (snd x))"] show ?thesis by simp
      qed
    qed
    moreover have "\<forall>(j, l, b) \<in> insert (i, k, a) (set bs). 4 \<le> j \<and> 4 \<le> l \<and> j + l \<le> nwords st"
      using ap ik unfolding apart_blocks_def by simp
    ultimately show ?thesis unfolding apart_blocks_def by blast
  qed
  moreover have "tags_ok (words st) bs'"
    using base tags bs' by (auto simp: base_inv_def tags_ok_def)
  moreover have "free_set bs \<subseteq> free_set bs'" using bs' by (auto simp: free_set_def)
  then have "N \<subseteq> free_set bs'" using base unfolding base_inv_def by blast
  ultimately show ?thesis using base bs' by (simp add: base_inv_def)
qed

section \<open>Holes\<close>

lemma keeps_same: "keeps A st st' \<Longrightarrow> x \<in> A \<Longrightarrow> fst x - 1 \<le> j \<Longrightarrow> j < fst x + snd x - 1 \<Longrightarrow> words st' j = words st j"
  by (simp add: keeps_def)

lemma tiles_disjoint_mem:
  assumes "tiles 4 pre s" "tiles e post n" "s + 4 \<le> e" "(i, k, a) \<in> set (pre @ post)"
  shows "i + k \<le> s \<or> e \<le> i" "4 \<le> i" "4 \<le> k" "i + k \<le> n"
  using assms(4) tiles_mem [OF assms(1), of i k a] tiles_mem [OF assms(2), of i k a] assms(3)
    tiles_le [OF assms(2)] by auto

text \<open>The words of a hole may be written freely.\<close>

lemma hole_put:
  assumes hole: "hole_inv st pre s e post" and j: "s - 1 \<le> j" "j < e - 1"
  shows "hole_inv (put_at j v st) pre s e post" "keeps (alloc_set (pre @ post)) st (put_at j v st)"
    "j < nwords st"
proof -
  from hole have t: "tiles 4 pre s" "tiles e post (nwords st)" "s + 4 \<le> e"
    and base: "base_inv st (pre @ post) (free_set (pre @ post))" by (simp_all add: hole_inv_def)
  note le = tiles_le [OF t(1)] tiles_le [OF t(2)]
  have jj: "3 \<le> j" "j + 1 < nwords st" using le j t(3) by auto
  have out: "j < i - 1 \<or> i + k - 1 \<le> j" if "(i, k, a) \<in> set (pre @ post)" for i k a
    using tiles_disjoint_mem [OF t that] j by auto
  from put_base [where v = v, OF base jj out] hole
  show "hole_inv (put_at j v st) pre s e post" "keeps (alloc_set (pre @ post)) st (put_at j v st)"
    by (simp_all add: hole_inv_def)
  show "j < nwords st" using jj by simp
qed

text \<open>Taking a free block out of its list opens a hole; taking its neighbour out widens it.\<close>

lemma hole_open:
  assumes inv: "heap_inv st (pre @ (i, k, False) # post)" and lo: "heap_start st = lo"
  shows "\<exists>st'. node_remove (at lo i) st = Some st' \<and> same_frame st st' \<and>
    hole_inv st' pre i (i + k) post \<and> keeps (alloc_set (pre @ post)) st st' \<and>
    words st' (i - 1) = tagw k False \<and> words st' (i + k - 2) = tagw k False"
proof -
  let ?bs = "pre @ (i, k, False) # post"
  from inv have t: "tiles 4 ?bs (nwords st)" and base: "base_inv st ?bs (free_set ?bs)"
    by (simp_all add: heap_inv_def)
  from t have tp: "tiles 4 pre i" "tiles (i + k) post (nwords st)" "4 \<le> k" "even k"
    by (auto simp: tiles_append)
  have "(i, k) \<in> free_set ?bs" by simp
  from remove_base [OF base this lo] obtain st' where st': "node_remove (at lo i) st = Some st'"
    "same_frame st st'" "base_inv st' ?bs (free_set ?bs - {(i, k)})" "keeps (alloc_set ?bs) st st'" by blast
  have eq: "free_set ?bs - {(i, k)} = free_set (pre @ post)"
  proof -
    have "(i, k) \<notin> free_set (pre @ post)"
    proof
      assume "(i, k) \<in> free_set (pre @ post)"
      then have "(i, k, False) \<in> set (pre @ post)" by (auto simp: free_set_def)
      then show False using tiles_mem [OF tp(1)] tiles_mem [OF tp(2)] tp(3) by fastforce
    qed
    then show ?thesis by auto
  qed
  have "base_inv st' (pre @ post) (free_set (pre @ post))"
    by (rule base_subset [OF st'(3) [unfolded eq]]) auto
  with tp st'(2) tiles_even [OF tp(1)] have "hole_inv st' pre i (i + k) post" by (simp add: hole_inv_def same_frame_def)
  moreover have "words st' (i - 1) = tagw k False \<and> words st' (i + k - 2) = tagw k False"
    using st'(3) by (simp add: base_inv_def)
  ultimately show ?thesis using st' by auto
qed

lemma hole_widen:
  assumes base: "base_inv st bs (free_set bs)" and b: "(i, k, False) \<in> set bs" and lo: "heap_start st = lo"
    and bs': "set bs = insert (i, k, False) (set bs')" "(i, k, False) \<notin> set bs'"
  shows "\<exists>st'. node_remove (at lo i) st = Some st' \<and> same_frame st st' \<and>
    base_inv st' bs' (free_set bs') \<and> keeps (alloc_set bs') st st' \<and>
    words st' (i - 1) = tagw k False \<and> words st' (i + k - 2) = tagw k False \<and>
    (\<forall>j. j \<notin> link_words (free_set bs') \<longrightarrow> words st' j = words st j)"
proof -
  have mem: "(i, k) \<in> free_set bs" using b by (simp add: free_set_def)
  have eq: "free_set bs - {(i, k)} = free_set bs'" using bs' by (auto simp: free_set_def)
  have al: "alloc_set bs' = alloc_set bs" using bs' by (auto simp: alloc_set_def)
  from remove_base [OF base mem lo] obtain st' where st': "node_remove (at lo i) st = Some st'"
    "same_frame st st'" "base_inv st' bs (free_set bs')" "keeps (alloc_set bs) st st'"
    "\<forall>j. j \<notin> link_words (free_set bs') \<longrightarrow> words st' j = words st j" unfolding eq by blast
  have "base_inv st' bs' (free_set bs')" by (rule base_subset [OF st'(3)]) (use bs' in auto)
  moreover have "words st' (i - 1) = tagw k False \<and> words st' (i + k - 2) = tagw k False"
    using st'(3) b by (auto simp: base_inv_def dest: tags_okD)
  ultimately show ?thesis using st' al by auto
qed

text \<open>The words of a hole, and the tags of the free block that bounds it, are no links.\<close>

lemma hole_not_link:
  assumes t: "tiles 4 pre s" "tiles e post n" "s + 4 \<le> e" and j: "s - 1 \<le> j" "j < e - 1"
  shows "j \<notin> link_words (free_set (pre @ post))"
proof
  assume "j \<in> link_words (free_set (pre @ post))"
  then obtain i k where "(i, k, False) \<in> set (pre @ post)" "j = i \<or> j = i + 1"
    by (auto simp: link_words_def free_set_def)
  with tiles_disjoint_mem [OF t this(1)] j show False by auto
qed

lemma hole_right:
  assumes hole: "hole_inv st pre s e ((e, l, False) # post)" and lo: "heap_start st = lo"
  shows "\<exists>st'. node_remove (at lo e) st = Some st' \<and> same_frame st st' \<and>
    hole_inv st' pre s (e + l) post \<and> keeps (alloc_set (pre @ post)) st st' \<and>
    words st' (e - 1) = tagw l False \<and> words st' (e + l - 2) = tagw l False \<and>
    (\<forall>j. s - 1 \<le> j \<longrightarrow> j < e - 1 \<longrightarrow> words st' j = words st j)"
proof -
  let ?bs = "pre @ (e, l, False) # post"
  from hole have t: "tiles 4 pre s" "tiles (e + l) post (nwords st)" "s + 4 \<le> e" "4 \<le> l" "even l" "even e"
    and base: "base_inv st ?bs (free_set ?bs)" by (simp_all add: hole_inv_def)
  have nin: "(e, l, False) \<notin> set (pre @ post)"
    using tiles_mem [OF t(1), of e l False] tiles_mem [OF t(2), of e l False] t(3,4) by auto
  from hole_widen [OF base _ lo _ nin] obtain st' where st': "node_remove (at lo e) st = Some st'"
    "same_frame st st'" "base_inv st' (pre @ post) (free_set (pre @ post))"
    "keeps (alloc_set (pre @ post)) st st'" "words st' (e - 1) = tagw l False"
    "words st' (e + l - 2) = tagw l False"
    "\<forall>j. j \<notin> link_words (free_set (pre @ post)) \<longrightarrow> words st' j = words st j" by auto
  have "hole_inv st' pre s (e + l) post"
    using t st'(2,3) by (simp add: hole_inv_def same_frame_def)
  moreover have "words st' j = words st j" if "s - 1 \<le> j" "j < e - 1" for j
    using hole_not_link [OF t(1,2), of j] t(3,4) that st'(7) by simp
  ultimately show ?thesis using st' by blast
qed

lemma hole_left:
  assumes hole: "hole_inv st (pre @ [(i, l, False)]) s e post" and lo: "heap_start st = lo"
  shows "\<exists>st'. node_remove (at lo i) st = Some st' \<and> same_frame st st' \<and> i + l = s \<and>
    hole_inv st' pre i e post \<and> keeps (alloc_set (pre @ post)) st st' \<and>
    words st' (i - 1) = tagw l False \<and> words st' (s - 2) = tagw l False \<and>
    (\<forall>j. s - 1 \<le> j \<longrightarrow> j < e - 1 \<longrightarrow> words st' j = words st j)"
proof -
  let ?bs = "(pre @ [(i, l, False)]) @ post"
  from hole have t: "tiles 4 pre i" "tiles e post (nwords st)" "s + 4 \<le> e" "4 \<le> l" "even l" "even e"
    "i + l = s" and base: "base_inv st ?bs (free_set ?bs)"
    unfolding hole_inv_def by (auto simp: tiles_append)
  have nin: "(i, l, False) \<notin> set (pre @ post)"
    using tiles_mem [OF t(1), of i l False] tiles_mem [OF t(2), of i l False] t(3,4,7) by auto
  from hole_widen [OF base _ lo _ nin] obtain st' where st': "node_remove (at lo i) st = Some st'"
    "same_frame st st'" "base_inv st' (pre @ post) (free_set (pre @ post))"
    "keeps (alloc_set (pre @ post)) st st'" "words st' (i - 1) = tagw l False"
    "words st' (i + l - 2) = tagw l False"
    "\<forall>j. j \<notin> link_words (free_set (pre @ post)) \<longrightarrow> words st' j = words st j" by auto
  have "hole_inv st' pre i e post"
    using t st'(2,3) by (simp add: hole_inv_def same_frame_def)
  moreover have "words st' j = words st j" if "s - 1 \<le> j" "j < e - 1" for j
    using hole_not_link [OF t(1,2), of j] t(3,4,7) that st'(7) by simp
  ultimately show ?thesis using st' t(7) by auto
qed

text \<open>Closing a hole: by a free block, which goes into its list, or by an allocated one.\<close>

lemma hole_base_extend:
  assumes hole: "hole_inv st pre s e post" and m: "s + 4 \<le> m" "m \<le> e"
    and tags: "words st (s - 1) = tagw (m - s) a" "words st (m - 2) = tagw (m - s) a"
  shows "base_inv st (pre @ (s, m - s, a) # post) (free_set (pre @ post))"
proof -
  from hole have t: "tiles 4 pre s" "tiles e post (nwords st)" "s + 4 \<le> e"
    and base: "base_inv st (pre @ post) (free_set (pre @ post))" by (simp_all add: hole_inv_def)
  show ?thesis
  proof (rule base_extend [OF base])
    show "set (pre @ (s, m - s, a) # post) = insert (s, m - s, a) (set (pre @ post))" by simp
    show "4 \<le> s" "4 \<le> m - s" "s + (m - s) \<le> nwords st"
      using tiles_le [OF t(1)] tiles_le [OF t(2)] m by auto
    show "clear (s, m - s) (j, l)" if "(j, l, b) \<in> set (pre @ post)" for j l b
      using tiles_disjoint_mem [OF t that] m by (auto simp: clear_def)
    show "words st (s - 1) = tagw (m - s) a" by (rule tags(1))
    show "words st (s + (m - s) - 2) = tagw (m - s) a" using tags(2) m by simp
  qed
qed

lemma hole_close_free:
  assumes hole: "hole_inv st pre s e post" and lo: "heap_start st = lo"
    and tags: "words st (s - 1) = tagw (e - s) False" "words st (e - 2) = tagw (e - s) False"
  shows "\<exists>st'. node_add (at lo s) (sz (e - s)) st = Some st' \<and> same_frame st st' \<and>
    heap_inv st' (pre @ (s, e - s, False) # post) \<and> keeps (alloc_set (pre @ post)) st st'"
proof -
  let ?bs = "pre @ (s, e - s, False) # post"
  from hole have t: "tiles 4 pre s" "tiles e post (nwords st)" "s + 4 \<le> e" "even e"
    by (simp_all add: hole_inv_def)
  have "base_inv st ?bs (free_set (pre @ post))"
    using hole_base_extend [OF hole, of e False] tags t(3) by simp
  moreover have "(s, e - s) \<notin> free_set (pre @ post)"
  proof
    assume "(s, e - s) \<in> free_set (pre @ post)"
    then have "(s, e - s, False) \<in> set (pre @ post)" by (simp add: free_set_def)
    from tiles_disjoint_mem [OF t(1-3) this] t(3) show False by simp
  qed
  ultimately obtain st' where st': "node_add (at lo s) (sz (e - s)) st = Some st'" "same_frame st st'"
    "base_inv st' ?bs (insert (s, e - s) (free_set (pre @ post)))" "keeps (alloc_set ?bs) st st'"
    using add_base [of st ?bs _ s "e - s" lo] lo by auto
  moreover have "tiles 4 ?bs (nwords st')"
    using t tiles_even [OF t(1)] st'(2) by (auto simp: tiles_append same_frame_def)
  moreover have "insert (s, e - s) (free_set (pre @ post)) = free_set ?bs" by simp
  ultimately show ?thesis by (auto simp: heap_inv_def)
qed

lemma hole_close_alloc:
  assumes hole: "hole_inv st pre s e post"
    and tags: "words st (s - 1) = tagw (e - s) True" "words st (e - 2) = tagw (e - s) True"
  shows "heap_inv st (pre @ (s, e - s, True) # post)"
proof -
  from hole have t: "tiles 4 pre s" "tiles e post (nwords st)" "s + 4 \<le> e" "even e"
    by (simp_all add: hole_inv_def)
  have "base_inv st (pre @ (s, e - s, True) # post) (free_set (pre @ post))"
    using hole_base_extend [OF hole, of e True] tags t(3) by simp
  moreover have "tiles 4 (pre @ (s, e - s, True) # post) (nwords st)"
    using t tiles_even [OF t(1)] by (auto simp: tiles_append)
  ultimately show ?thesis by (simp add: heap_inv_def)
qed

text \<open>An allocated block at the beginning of a hole, the rest of which stays open.\<close>

lemma hole_split:
  assumes hole: "hole_inv st pre s e post" and m: "s + 4 \<le> m" "m + 4 \<le> e" "even m"
    and tags: "words st (s - 1) = tagw (m - s) True" "words st (m - 2) = tagw (m - s) True"
  shows "hole_inv st (pre @ [(s, m - s, True)]) m e post"
proof -
  from hole have t: "tiles 4 pre s" "tiles e post (nwords st)" "s + 4 \<le> e" "even e"
    by (simp_all add: hole_inv_def)
  have "base_inv st (pre @ (s, m - s, True) # post) (free_set (pre @ post))"
    using hole_base_extend [OF hole m(1) _ tags] m by simp
  moreover have "tiles 4 (pre @ [(s, m - s, True)]) m"
    using t tiles_even [OF t(1)] m by (auto simp: tiles_append)
  ultimately show ?thesis using t m by (simp add: hole_inv_def)
qed

section \<open>Coalescing\<close>

text \<open>What coalescing does to the sequence of blocks: a free block absorbs a free neighbour on either
  side.\<close>

definition absorb_left :: "block list \<Rightarrow> nat \<Rightarrow> nat \<Rightarrow> block list \<times> nat \<times> nat" where
  "absorb_left pre i k =
     (if pre = [] \<or> snd (snd (last pre)) then (pre, i, k)
      else (butlast pre, fst (last pre), fst (snd (last pre)) + k))"

fun absorb_right :: "nat \<Rightarrow> block list \<Rightarrow> nat \<times> block list" where
  "absorb_right k ((j, l, False) # post) = (k + l, post)"
| "absorb_right k post = (k, post)"

definition merge_at :: "block list \<Rightarrow> nat \<Rightarrow> nat \<Rightarrow> block list \<Rightarrow> block list" where
  "merge_at pre i k post = (case absorb_left pre i k of (pre', i', k') \<Rightarrow>
     (case absorb_right k' post of (k'', post') \<Rightarrow> pre' @ (i', k'', False) # post'))"

lemma hole_env:
  assumes "hole_inv st pre s e post"
  shows "heap_wf st" "4 \<le> s" "s + 4 \<le> e" "e \<le> nwords st"
  using assms tiles_le [of 4 pre s] tiles_le [of e post "nwords st"]
  by (auto simp: hole_inv_def base_inv_def)

lemma same_frameD:
  assumes "same_frame st st'"
  shows "heap_start st' = heap_start st" "nwords st' = nwords st" "heap_wf st' = heap_wf st"
  using assms by (simp_all add: same_frame_def)

text \<open>The tags a block sees of its neighbours.\<close>

lemma heap_inv_env:
  assumes "heap_inv st (pre @ (i, k, a) # post)"
  shows "heap_wf st" "4 \<le> i" "4 \<le> k" "i + k \<le> nwords st" "words st (i - 1) = tagw k a"
    "words st (i + k - 2) = tagw k a"
proof -
  from assms have t: "tiles 4 (pre @ (i, k, a) # post) (nwords st)"
    and base: "base_inv st (pre @ (i, k, a) # post) (free_set (pre @ (i, k, a) # post))"
    by (simp_all add: heap_inv_def)
  from base show "heap_wf st" "words st (i - 1) = tagw k a" "words st (i + k - 2) = tagw k a"
    by (simp_all add: base_inv_def)
  show "4 \<le> i" "4 \<le> k" "i + k \<le> nwords st" using tiles_mem [OF t, of i k a] by simp_all
qed

lemma prev_tag:
  assumes inv: "heap_inv st (pre @ (i, k, a) # post)"
  shows "\<exists>l b. words st (i - 2) = tagw l b \<and> words st (i - l - 1) = tagw l b \<and> 2 \<le> l \<and> l + 2 \<le> i \<and>
    (if pre = [] then b else last pre = (i - l, l, b) \<and> l + 4 \<le> i)"
proof (cases "pre = []")
  case True
  with inv have "i = 4" "words st 1 = tagw 2 True" "words st 2 = tagw 2 True"
    by (simp_all add: heap_inv_def base_inv_def frame_words_def)
  with True show ?thesis by (intro exI [of _ 2] exI [of _ True]) simp
next
  case False
  then obtain pre' j l b where pre: "pre = pre' @ [(j, l, b)]" by (metis prod_cases3 rev_exhaust)
  with inv have t: "tiles 4 pre' j" "4 \<le> l" "j + l = i" "tags_ok (words st) pre"
    by (auto simp: heap_inv_def base_inv_def tiles_append)
  with pre tiles_le [OF t(1)] show ?thesis
    by (intro exI [of _ l] exI [of _ b]) auto
qed

lemma next_tag:
  assumes inv: "heap_inv st (pre @ (i, k, a) # post)"
  shows "(if post = [] then words st (i + k - 1) = tagw 0 True
    else \<exists>l b post'. post = (i + k, l, b) # post' \<and> words st (i + k - 1) = tagw l b)"
proof (cases post)
  case Nil
  with inv show ?thesis by (auto simp: heap_inv_def base_inv_def frame_words_def tiles_append)
next
  case (Cons p post')
  obtain j l b where p: "p = (j, l, b)" by (cases p)
  with inv Cons have "j = i + k" "words st (j - 1) = tagw l b"
    by (auto simp: heap_inv_def base_inv_def tiles_append)
  with Cons p show ?thesis by auto
qed

text \<open>The last steps of all cases: the tags of the merged block, in either order, and its
  insertion.\<close>

lemma hole_two_tags:
  assumes hole: "hole_inv st pre s e post"
    and ab: "a = s - 1 \<and> b = e - 2 \<or> a = e - 2 \<and> b = s - 1"
  shows "hole_inv (put_at b v (put_at a v st)) pre s e post"
    "keeps (alloc_set (pre @ post)) st (put_at b v (put_at a v st))"
    "words (put_at b v (put_at a v st)) = (words st)(s - 1 := v, e - 2 := v)"
proof -
  note env = hole_env [OF hole]
  have a: "s - 1 \<le> a" "a < e - 1" and b: "s - 1 \<le> b" "b < e - 1" using ab env by auto
  note h1 = hole_put(1,2) [OF hole a, of v]
  note h2 = hole_put(1,2) [OF h1(1) b, of v]
  note bound = hole_put(3) [OF hole a] hole_put(3) [OF hole b]
  show "hole_inv (put_at b v (put_at a v st)) pre s e post" by (rule h2)
  show "keeps (alloc_set (pre @ post)) st (put_at b v (put_at a v st))"
    using keeps_trans [OF h1(2) h2(2)] .
  show "words (put_at b v (put_at a v st)) = (words st)(s - 1 := v, e - 2 := v)"
    using env bound ab by (auto simp: fun_eq_iff)
qed

lemma hole_merge:
  assumes hole: "hole_inv st pre s e post" and lo: "heap_start st = lo"
    and ab: "a = s - 1 \<and> b = e - 2 \<or> a = e - 2 \<and> b = s - 1" and k: "k = e - s"
  shows "\<exists>st'. node_add (at lo s) (sz k) (put_at b (tagw k False) (put_at a (tagw k False) st)) = Some st' \<and>
    same_frame st st' \<and> heap_inv st' (pre @ (s, k, False) # post) \<and> keeps (alloc_set (pre @ post)) st st'"
proof -
  let ?t = "tagw (e - s) False"
  let ?s2 = "put_at b ?t (put_at a ?t st)"
  note h = hole_two_tags [OF hole ab, of ?t]
  have tags: "words ?s2 (s - 1) = ?t" "words ?s2 (e - 2) = ?t" unfolding h(3) by simp_all
  have lo2: "heap_start ?s2 = lo" using lo by simp
  from hole_close_free [OF h(1) lo2 tags] obtain st' where "node_add (at lo s) (sz (e - s)) ?s2 = Some st'"
    "same_frame ?s2 st'" "heap_inv st' (pre @ (s, e - s, False) # post)" "keeps (alloc_set (pre @ post)) ?s2 st'"
    by blast
  moreover from this have "same_frame st st'" by (simp add: same_frame_def)
  ultimately show ?thesis using keeps_trans [OF h(2)] k by blast
qed

text \<open>The four cases.\<close>

lemma walloc_0: "walloc (tagw k False) = 0" and walloc_1: "walloc (tagw k True) \<noteq> 0"
  by simp_all

lemma coalesce_none:
  assumes inv: "heap_inv st (pre @ (i, k, False) # post)" and lo: "heap_start st = lo"
    and prev: "words st (i - 2) = tagw l True" "words st (i - l - 1) = tagw l True" "2 \<le> l" "l + 2 \<le> i"
    and nxt: "words st (i + k - 1) = tagw m True"
  shows "coalesce (at lo i) st = Some (at lo i, st)"
  using heap_inv_env [OF inv] lo prev nxt
  by (simp add: coalesce_def PREV_BLKP_at [where k = l] NEXT_BLKP_at [where k = k])

lemma coalesce_right:
  assumes inv: "heap_inv st (pre @ (i, k, False) # (i + k, m, False) # post)" and lo: "heap_start st = lo"
    and prev: "words st (i - 2) = tagw l True" "words st (i - l - 1) = tagw l True" "2 \<le> l" "l + 2 \<le> i"
    and nxt: "words st (i + k - 1) = tagw m False"
  shows "\<exists>st'. coalesce (at lo i) st = Some (at lo i, st') \<and> same_frame st st' \<and>
    heap_inv st' (pre @ (i, k + m, False) # post) \<and> keeps (alloc_set (pre @ post)) st st'"
proof -
  note E = heap_inv_env [OF inv]
  have m: "4 \<le> m" "i + k + m \<le> nwords st"
    using heap_inv_env(3,4) [of st "pre @ [(i, k, False)]" "i + k" m False post] inv by simp_all
  from hole_open [OF inv lo] obtain s1 where s1: "node_remove (at lo i) st = Some s1" "same_frame st s1"
    "hole_inv s1 pre i (i + k) ((i + k, m, False) # post)"
    "keeps (alloc_set (pre @ (i + k, m, False) # post)) st s1"
    "words s1 (i - 1) = tagw k False" by blast
  note f1 = same_frameD [OF s1(2)]
  from hole_right [OF s1(3), of lo] lo f1(1) obtain s2 where s2: "node_remove (at lo (i + k)) s1 = Some s2"
    "same_frame s1 s2" "hole_inv s2 pre i (i + k + m) post" "keeps (alloc_set (pre @ post)) s1 s2"
    "words s2 (i + k - 1) = tagw m False"
    "\<forall>j. i - 1 \<le> j \<longrightarrow> j < i + k - 1 \<longrightarrow> words s2 j = words s1 j" by auto
  note f2 = same_frameD [OF s2(2)]
  have w2: "words s2 (i - 1) = tagw k False" using s2(6) s1(5) E by simp
  have lo2: "heap_start s2 = lo" using f1 f2 lo by simp
  from hole_merge [OF s2(3) lo2, of "i - 1" "i + k + m - 2" "k + m"] obtain s4 where
    s4: "node_add (at lo i) (sz (k + m)) (put_at (i + k + m - 2) (tagw (k + m) False)
      (put_at (i - 1) (tagw (k + m) False) s2)) = Some s4"
    "same_frame s2 s4" "heap_inv s4 (pre @ (i, k + m, False) # post)" "keeps (alloc_set (pre @ post)) s2 s4"
    by auto
  have "coalesce (at lo i) st = Some (at lo i, s4)"
    using E m lo prev nxt s1(1,5) s2(1,5) w2 f1 f2 s4(1)
    by (simp add: coalesce_def Let_def PREV_BLKP_at [where k = l] NEXT_BLKP_at [where k = k]
        FTRP_at [where k = "k + m"] add.assoc)
  moreover have "keeps (alloc_set (pre @ post)) st s1" using s1(4) by (rule keeps_mono) simp
  ultimately show ?thesis
    using s4 s2 s1 keeps_trans same_frame_trans by blast
qed

lemma coalesce_left:
  assumes inv: "heap_inv st ((pre @ [(j, l, False)]) @ (i, k, False) # post)" and lo: "heap_start st = lo"
    and nxt: "words st (i + k - 1) = tagw m True"
  shows "\<exists>st'. coalesce (at lo i) st = Some (at lo j, st') \<and> same_frame st st' \<and>
    heap_inv st' (pre @ (j, l + k, False) # post) \<and> keeps (alloc_set (pre @ post)) st st'"
proof -
  note E = heap_inv_env [OF inv]
  from inv have P: "heap_inv st (pre @ (j, l, False) # (i, k, False) # post)" by simp
  from heap_inv_env [OF P] inv have J: "4 \<le> j" "4 \<le> l" "j + l = i" "words st (j - 1) = tagw l False"
    "words st (i - 2) = tagw l False"
    by (auto simp: heap_inv_def tiles_append)
  then have j: "j = i - l" "l + 4 \<le> i" by simp_all
  from hole_open [OF inv lo] obtain s1 where s1: "node_remove (at lo i) st = Some s1" "same_frame st s1"
    "hole_inv s1 (pre @ [(j, l, False)]) i (i + k) post"
    "keeps (alloc_set ((pre @ [(j, l, False)]) @ post)) st s1" "words s1 (i - 1) = tagw k False" by blast
  note f1 = same_frameD [OF s1(2)]
  have w1: "words s1 (i - 2) = tagw l False"
    using s1(3) J(3) by (auto simp: hole_inv_def base_inv_def)
  from hole_left [OF s1(3), of lo] lo f1(1) obtain s2 where s2: "node_remove (at lo j) s1 = Some s2"
    "same_frame s1 s2" "hole_inv s2 pre j (i + k) post" "keeps (alloc_set (pre @ post)) s1 s2"
    "words s2 (j - 1) = tagw l False" "words s2 (i - 2) = tagw l False"
    "\<forall>x. i - 1 \<le> x \<longrightarrow> x < i + k - 1 \<longrightarrow> words s2 x = words s1 x" by auto
  note f2 = same_frameD [OF s2(2)]
  have w2: "words s2 (i - 1) = tagw k False" using s2(7) s1(5) E by simp
  have lo2: "heap_start s2 = lo" using f1 f2 lo by simp
  from hole_merge [OF s2(3) lo2, of "i + k - 2" "j - 1" "l + k"] J obtain s4 where
    s4: "node_add (at lo j) (sz (l + k)) (put_at (j - 1) (tagw (l + k) False)
      (put_at (i + k - 2) (tagw (l + k) False) s2)) = Some s4"
    "same_frame s2 s4" "heap_inv s4 (pre @ (j, l + k, False) # post)" "keeps (alloc_set (pre @ post)) s2 s4"
    by auto
  have ne: "i - 2 \<noteq> i + k - 2" "i - 2 \<noteq> i - (l + 1)" using J(1-3) E(3) by auto
  have "coalesce (at lo i) st = Some (at lo j, s4)"
    using E lo j nxt J s1(1) w1 s2(1,5,6) w2 f1 f2 s4(1) ne
    by (simp add: coalesce_def Let_def PREV_BLKP_at [where k = l] NEXT_BLKP_at [where k = k]
        FTRP_at [where k = k] add.commute [of k l] del: One_nat_def)
  moreover have "keeps (alloc_set (pre @ post)) st s1" using s1(4) by (rule keeps_mono) simp
  ultimately show ?thesis
    using s4 s2 s1 keeps_trans same_frame_trans by blast
qed

lemma coalesce_both:
  assumes inv: "heap_inv st ((pre @ [(j, l, False)]) @ (i, k, False) # (i + k, m, False) # post)"
    and lo: "heap_start st = lo" and nxt: "words st (i + k - 1) = tagw m False"
  shows "\<exists>st'. coalesce (at lo i) st = Some (at lo j, st') \<and> same_frame st st' \<and>
    heap_inv st' (pre @ (j, l + k + m, False) # post) \<and> keeps (alloc_set (pre @ post)) st st'"
proof -
  note E = heap_inv_env [OF inv]
  have m: "4 \<le> m" "i + k + m \<le> nwords st"
    using heap_inv_env(3,4) [of st "(pre @ [(j, l, False)]) @ [(i, k, False)]" "i + k" m False post] inv
    by simp_all
  from inv have P: "heap_inv st (pre @ (j, l, False) # (i, k, False) # (i + k, m, False) # post)" by simp
  from heap_inv_env [OF P] inv have J: "4 \<le> j" "4 \<le> l" "j + l = i" "words st (j - 1) = tagw l False"
    "words st (i - 2) = tagw l False"
    by (auto simp: heap_inv_def tiles_append)
  then have j: "j = i - l" "l + 4 \<le> i" by simp_all
  from hole_open [OF inv lo] obtain s1 where s1: "node_remove (at lo i) st = Some s1" "same_frame st s1"
    "hole_inv s1 (pre @ [(j, l, False)]) i (i + k) ((i + k, m, False) # post)"
    "keeps (alloc_set ((pre @ [(j, l, False)]) @ (i + k, m, False) # post)) st s1"
    "words s1 (i - 1) = tagw k False" by blast
  note f1 = same_frameD [OF s1(2)]
  have w1: "words s1 (i - 2) = tagw l False"
    using s1(3) J(3) by (auto simp: hole_inv_def base_inv_def)
  from hole_left [OF s1(3), of lo] lo f1(1) obtain s2 where s2: "node_remove (at lo j) s1 = Some s2"
    "same_frame s1 s2" "hole_inv s2 pre j (i + k) ((i + k, m, False) # post)"
    "keeps (alloc_set (pre @ (i + k, m, False) # post)) s1 s2"
    "words s2 (j - 1) = tagw l False" "words s2 (i - 2) = tagw l False"
    "\<forall>x. i - 1 \<le> x \<longrightarrow> x < i + k - 1 \<longrightarrow> words s2 x = words s1 x" by auto
  note f2 = same_frameD [OF s2(2)]
  have w2: "words s2 (i - 1) = tagw k False" using s2(7) s1(5) E by simp
  from hole_right [OF s2(3), of lo] lo f1(1) f2(1) obtain s3 where s3: "node_remove (at lo (i + k)) s2 = Some s3"
    "same_frame s2 s3" "hole_inv s3 pre j (i + k + m) post" "keeps (alloc_set (pre @ post)) s2 s3"
    "words s3 (i + k - 1) = tagw m False"
    "\<forall>x. j - 1 \<le> x \<longrightarrow> x < i + k - 1 \<longrightarrow> words s3 x = words s2 x" by auto
  note f3 = same_frameD [OF s3(2)]
  have w3: "words s3 (i - 1) = tagw k False" "words s3 (i - 2) = tagw l False" "words s3 (j - 1) = tagw l False"
    using s3(6) w2 s2(5,6) E J by simp_all
  have lo3: "heap_start s3 = lo" using f1 f2 f3 lo by simp
  have e: "l + k + m = i + k + m - j" using J by simp
  from hole_merge [OF s3(3) lo3 _ e, of "j - 1" "i + k + m - 2"] obtain s4 where
    s4: "node_add (at lo j) (sz (l + k + m)) (put_at (i + k + m - 2) (tagw (l + k + m) False)
      (put_at (j - 1) (tagw (l + k + m) False) s3)) = Some s4"
    "same_frame s3 s4" "heap_inv s4 (pre @ (j, l + k + m, False) # post)" "keeps (alloc_set (pre @ post)) s3 s4"
    by blast
  have ne: "i - 2 \<noteq> i + k + m - 2" "i - 2 \<noteq> i - (l + 1)" "i - 1 \<noteq> i + k + m - 2" "i - 1 \<noteq> i - (l + 1)"
    "i + k - 1 \<noteq> i - (l + 1)" using J(1-3) m E(3) by auto
  have sum: "k + (l + m) = l + k + m" by simp
  have "coalesce (at lo i) st = Some (at lo j, s4)"
  proof -
    let ?p = "put_at (j - 1) (tagw (l + k + m) False) s3"
    have a1: "PREV_BLKP (at lo i) st = Some (at lo j)" "NEXT_BLKP (at lo i) st = Some (at lo (i + k))"
      "GET_ALLOC (HDRP (at lo j)) st = Some 0" "GET_ALLOC (HDRP (at lo (i + k))) st = Some 0"
      "GET_SIZE (HDRP (at lo i)) st = Some (sz k)"
      using E m lo j J nxt by (simp_all add: PREV_BLKP_at [where k = l] NEXT_BLKP_at [where k = k])
    have a2: "PREV_BLKP (at lo i) s1 = Some (at lo j)" "NEXT_BLKP (at lo i) s2 = Some (at lo (i + k))"
      using E m lo j w1 w2 f1 f2 by (simp_all add: PREV_BLKP_at [where k = l] NEXT_BLKP_at [where k = k])
    have a3: "PREV_BLKP (at lo i) s3 = Some (at lo j)" "NEXT_BLKP (at lo i) s3 = Some (at lo (i + k))"
      "GET_SIZE (HDRP (at lo j)) s3 = Some (sz l)" "GET_SIZE (HDRP (at lo (i + k))) s3 = Some (sz m)"
      "PUT (HDRP (at lo j)) (tagw (l + k + m) False) s3 = Some ?p"
      using E m lo j J w3 s3(5) f1 f2 f3
      by (simp_all add: PREV_BLKP_at [where k = l] NEXT_BLKP_at [where k = k])
    have w4: "words ?p (i - 1) = tagw k False" "words ?p (i - 2) = tagw l False"
      "words ?p (i + k - 1) = tagw m False"
    proof -
      have "j - 1 < nwords s3" using J(1,3) m E(3) f1 f2 f3 by linarith
      then have "words ?p = (words s3)(j - 1 := tagw (l + k + m) False)"
        using E f1 f2 f3 by (intro words_put_at) simp_all
      moreover have "i - 1 \<noteq> j - 1" "i - 2 \<noteq> j - 1" "i + k - 1 \<noteq> j - 1" using J(1-3) by auto
      ultimately show "words ?p (i - 1) = tagw k False" "words ?p (i - 2) = tagw l False"
        "words ?p (i + k - 1) = tagw m False" using w3 s3(5) by simp_all
    qed
    have a4: "NEXT_BLKP (at lo i) ?p = Some (at lo (i + k))" "FTRP (at lo (i + k)) ?p = Some (at lo (i + k + m - 2))"
      "PUT (at lo (i + k + m - 2)) (tagw (l + k + m) False) ?p = Some (put_at (i + k + m - 2) (tagw (l + k + m) False) ?p)"
      using E m lo w4 f1 f2 f3
      by (simp_all add: NEXT_BLKP_at [where k = k] FTRP_at [where k = m])
    have "words (put_at (i + k + m - 2) (tagw (l + k + m) False) ?p) (i - 2) = tagw l False"
    proof -
      have "i + k + m - 2 < nwords st" using m E(2) by linarith
      then show ?thesis using w4(2) ne E f1 f2 f3 by simp
    qed
    then have a5: "PREV_BLKP (at lo i) (put_at (i + k + m - 2) (tagw (l + k + m) False) ?p) = Some (at lo j)"
      using E m lo j f1 f2 f3 by (simp add: PREV_BLKP_at [where k = l])
    have sizes: "sz k + (sz l + sz m) = sz (l + k + m)" using sum by (simp only: sz_add)
    show ?thesis
      by (simp only: coalesce_def Let_def a1 a2 a3 a4 a5 s1(1) s2(1) s3(1) s4(1) sizes PACK_sz
          Option.bind_lunit simp_thms if_False if_True)
  qed
  moreover have k1: "keeps (alloc_set (pre @ post)) st s1" using s1(4) by (rule keeps_mono) simp
  have k2: "keeps (alloc_set (pre @ post)) s1 s2" using s2(4) by (rule keeps_mono) simp
  have "keeps (alloc_set (pre @ post)) st s4"
    by (rule keeps_trans [OF k1 keeps_trans [OF k2 keeps_trans [OF s3(4) s4(4)]]])
  moreover have "same_frame st s4"
    by (rule same_frame_trans [OF s1(2) same_frame_trans [OF s2(2) same_frame_trans [OF s3(2) s4(2)]]])
  ultimately show ?thesis using s4(3) by blast
qed

lemma coalesce_ok:
  assumes inv: "heap_inv st (pre @ (i, k, False) # post)" and lo: "heap_start st = lo"
  shows "\<exists>st'. coalesce (at lo i) st = Some (at lo (fst (snd (absorb_left pre i k))), st') \<and>
    same_frame st st' \<and> heap_inv st' (merge_at pre i k post) \<and> keeps (alloc_set (pre @ post)) st st'"
proof -
  from prev_tag [OF inv] obtain l b where p: "words st (i - 2) = tagw l b" "words st (i - l - 1) = tagw l b"
    "2 \<le> l" "l + 2 \<le> i" "if pre = [] then b else last pre = (i - l, l, b) \<and> l + 4 \<le> i" by blast
  note nx = next_tag [OF inv]
  show ?thesis
  proof (cases b)
    case True
    have ab: "absorb_left pre i k = (pre, i, k)" using p(5) True by (auto simp: absorb_left_def)
    show ?thesis
    proof (cases "post = [] \<or> (\<exists>m. hd post = (i + k, m, True))")
      case t: True
      then obtain m where "words st (i + k - 1) = tagw m True" "absorb_right k post = (k, post)"
        using nx by (cases post) (auto split: if_splits)
      with coalesce_none [OF inv lo, of l m] p True inv ab show ?thesis by (simp add: merge_at_def)
    next
      case False
      with nx obtain m post' where m: "post = (i + k, m, False) # post'" "words st (i + k - 1) = tagw m False"
        by (auto split: if_splits)
      from coalesce_right [of st pre i k m post' lo l] inv lo p True m ab show ?thesis
        by (auto simp: merge_at_def)
    qed
  next
    case False
    with p(5) obtain pre' where pre: "pre = pre' @ [(i - l, l, False)]"
      by (metis append_butlast_last_id)
    then have ab: "absorb_left pre i k = (pre', i - l, l + k)" by (simp add: absorb_left_def)
    show ?thesis
    proof (cases "post = [] \<or> (\<exists>m. hd post = (i + k, m, True))")
      case t: True
      then obtain m where "words st (i + k - 1) = tagw m True" "absorb_right (l + k) post = (l + k, post)"
        using nx by (cases post) (auto split: if_splits)
      with coalesce_left [of st pre' "i - l" l i k post lo m] inv lo pre ab show ?thesis
        by (auto simp: merge_at_def)
    next
      case False
      with nx obtain m post' where m: "post = (i + k, m, False) # post'" "words st (i + k - 1) = tagw m False"
        by (auto split: if_splits)
      from coalesce_both [of st pre' "i - l" l i k m post' lo] inv lo m pre ab show ?thesis
        by (auto simp: merge_at_def)
    qed
  qed
qed

lemma coalesced_Cons: "coalesced (x # bs) \<longleftrightarrow> (bs = [] \<or> snd (snd x) \<or> snd (snd (hd bs))) \<and> coalesced bs"
  by (cases x; cases bs) auto

lemma coalesced_append:
  "coalesced (xs @ ys) \<longleftrightarrow> coalesced xs \<and> coalesced ys \<and>
     (xs = [] \<or> ys = [] \<or> snd (snd (last xs)) \<or> snd (snd (hd ys)))"
  by (induction xs) (auto simp: coalesced_Cons)

lemma merge_coalesced:
  assumes pre: "coalesced pre" and post: "coalesced post"
  shows "coalesced (merge_at pre i k post)"
proof -
  obtain pre' i' k' where L: "absorb_left pre i k = (pre', i', k')" by (metis prod_cases3)
  obtain k'' post' where R: "absorb_right k' post = (k'', post')" by force
  have l: "coalesced pre' \<and> (pre' = [] \<or> snd (snd (last pre')))"
  proof (cases "pre = [] \<or> snd (snd (last pre))")
    case True
    with L pre show ?thesis by (auto simp: absorb_left_def)
  next
    case False
    then have "pre = butlast pre @ [last pre]" by simp
    with pre False have "coalesced (butlast pre)" "butlast pre = [] \<or> snd (snd (last (butlast pre)))"
      using coalesced_append [of "butlast pre" "[last pre]"] by auto
    with L False show ?thesis by (auto simp: absorb_left_def)
  qed
  have r: "coalesced post' \<and> (post' = [] \<or> snd (snd (hd post')))"
    using R post by (cases "(k', post)" rule: absorb_right.cases) (auto simp: coalesced_Cons)
  from l r L R show ?thesis by (auto simp: merge_at_def coalesced_append coalesced_Cons)
qed

text \<open>Merging changes no allocated block.\<close>

lemma merge_alloc: "alloc_set (merge_at pre i k post) = alloc_set (pre @ post)"
proof -
  obtain pre' i' k' where L: "absorb_left pre i k = (pre', i', k')" by (metis prod_cases3)
  obtain k'' post' where R: "absorb_right k' post = (k'', post')" by force
  have "alloc_set pre' = alloc_set pre"
  proof (cases "pre = [] \<or> snd (snd (last pre))")
    case False
    then obtain ps j l where "pre = ps @ [(j, l, False)]"
      by (metis append_butlast_last_id prod.collapse)
    with L show ?thesis by (auto simp: absorb_left_def)
  qed (use L in \<open>auto simp: absorb_left_def\<close>)
  moreover have "alloc_set post' = alloc_set post"
    using R by (cases "(k', post)" rule: absorb_right.cases) auto
  ultimately show ?thesis using L R by (simp add: merge_at_def)
qed

end
