(* ===== verification/Mm_Alloc.thy ===== *)
theory Mm_Alloc
  imports Mm_Blocks
begin

text \<open>
  The operations of the allocator on the sequence of blocks: the search is a best fit, placing
  and extending keep the invariant, and \<open>mm_init\<close>, \<open>malloc\<close> and \<open>free\<close> do what they promise
  on top of any memory system that behaves like a break (a locale, with \<open>memlib.c\<close> and
  \<open>kernel_malloc.c\<close> as its two instances).
\<close>

section \<open>Searching\<close>

lemma find_in_list_seg:
  assumes "heap_wf st" "heap_start st = lo" "a < 2 ^ 61"
    and "dseg (blk_links (words st) lo) pv p (addrs lo xs) m NULL"
    and "\<forall>x \<in> set xs. node_ok (nwords st) (words st) x"
  shows "find_in_list st (sz a) p = Some (case dropWhile (\<lambda>x. snd x < a) xs of [] \<Rightarrow> NULL | x # _ \<Rightarrow> at lo (fst x))"
  using assms(4,5)
proof (induction xs arbitrary: pv p)
  case Nil
  then show ?case by (simp add: find_in_list.simps)
next
  case (Cons x xs)
  note n61 = nwords_61 [OF assms(1)]
  from Cons.prems have x: "1 \<le> fst x" "4 \<le> snd x" "fst x + snd x \<le> nwords st"
    "wsize (words st (fst x - 1)) = sz (snd x)" by (simp_all add: node_ok_def)
  with Cons.prems n61 have p: "p = at lo (fst x)" "p \<noteq> NULL"
    "dseg (blk_links (words st) lo) p (words st (fst x)) (addrs lo xs) m NULL" by auto
  have size: "GET_SIZE (HDRP p) st = Some (sz (snd x))" and nxt: "PREV_BLK p st = Some (words st (fst x))"
    using assms(1,2) p(1) x by simp_all
  have le: "sz a \<le> sz (snd x) \<longleftrightarrow> a \<le> snd x" using assms(3) x n61 by (simp add: sz_le)
  show ?case
  proof (cases "a \<le> snd x")
    case True
    with p size le show ?thesis by (subst find_in_list.simps) simp
  next
    case False
    from Cons.IH [OF p(3)] Cons.prems(2) False p size nxt le show ?thesis
      by (subst find_in_list.simps) simp
  qed
qed

text \<open>The result of the search: a smallest free block that is large enough.\<close>

definition best_fit :: "nat \<Rightarrow> (nat \<times> nat) set \<Rightarrow> u64 \<Rightarrow> u64 \<Rightarrow> bool" where
  "best_fit a N lo r \<longleftrightarrow> (let F = {x \<in> N. a \<le> snd x} in
     if F = {} then r = NULL else \<exists>x \<in> F. r = at lo (fst x) \<and> (\<forall>y \<in> F. snd x \<le> snd y))"

definition fits :: "nat \<Rightarrow> block list \<Rightarrow> bool" where
  "fits a bs \<longleftrightarrow> (\<exists>x \<in> free_set bs. a \<le> snd x)"

lemma best_fit_cong:
  "{x \<in> M. a \<le> snd x} = {x \<in> N. a \<le> snd x} \<Longrightarrow> best_fit a M lo r = best_fit a N lo r"
  by (simp only: best_fit_def)

lemma best_fit_filter:
  assumes "\<And>x. x \<in> N \<Longrightarrow> a \<le> snd x \<Longrightarrow> P x \<longleftrightarrow> Q x"
  shows "best_fit a {x \<in> N. P x} lo r \<longleftrightarrow> best_fit a {x \<in> N. Q x} lo r"
proof (rule best_fit_cong, rule Collect_cong)
  show "x \<in> {x \<in> N. P x} \<and> a \<le> snd x \<longleftrightarrow> x \<in> {x \<in> N. Q x} \<and> a \<le> snd x" for x
    using assms [of x] by (simp only: mem_Collect_eq) blast
qed

lemma find_fit_from_ok:
  assumes wf: "heap_wf st" "heap_start st = lo" "a < 2 ^ 61"
    and segs: "segs_ok lo (nwords st) (words st) (seg_list st) N" and c: "c \<le> 61"
  shows "\<exists>r. find_fit_from st (sz a) (int c) = Some r \<and> best_fit a {x \<in> N. c \<le> cls (snd x)} lo r"
  using c
proof (induction "61 - c" arbitrary: c)
  case 0
  have "\<not> 61 \<le> cls k" for k using cls_less [of k] by linarith
  with 0 have none: "{x \<in> N. c \<le> cls (snd x)} = {}" by simp
  have "best_fit a {x \<in> N. c \<le> cls (snd x)} lo NULL" unfolding none by (simp add: best_fit_def)
  with 0 show ?case by (simp add: find_fit_from.simps MAX_LEN_def)
next
  case (Suc d)
  then have c61: "c < 61" by simp
  from segs have len: "length (seg_list st) = 61" and N: "nodes_ok (nwords st) (words st) N"
    by (simp_all add: segs_ok_def)
  from segs c61 obtain xs where xs: "seg_ok lo (words st) c (seg_list st ! c) N xs"
    by (auto simp: segs_ok_def)
  then have mem: "set xs \<subseteq> N" by (auto simp: seg_ok_def)
  have ok: "\<forall>x \<in> set xs. node_ok (nwords st) (words st) x" using mem N by (auto simp: nodes_ok_def)
  from seg_ok_dseg [OF xs] obtain m where
    m: "dseg (blk_links (words st) lo) NULL (seg_list st ! c) (addrs lo xs) m NULL" by blast
  note find = find_in_list_seg [OF wf m ok]
  have setx: "set xs = {x \<in> N. cls (snd x) = c}" using xs by (simp only: seg_ok_def)
  show ?case
  proof (cases "dropWhile (\<lambda>x. snd x < a) xs")
    case Nil
    then have none: "\<forall>x \<in> set xs. snd x < a" by (simp add: dropWhile_eq_Nil_conv)
    have small: "snd x < a" if "x \<in> N" "cls (snd x) = c" for x
      using none that setx by blast
    have "d = 61 - (c + 1)" "c + 1 \<le> 61" using Suc c61 by simp_all
    from Suc.hyps(1) [OF this] obtain r where r: "find_fit_from st (sz a) (int (c + 1)) = Some r"
      "best_fit a {x \<in> N. c + 1 \<le> cls (snd x)} lo r" by blast
    have iff: "c + 1 \<le> cls (snd x) \<longleftrightarrow> c \<le> cls (snd x)" if x: "x \<in> N" "a \<le> snd x" for x
      using small [OF x(1)] x(2) by linarith
    have "best_fit a {x \<in> N. c \<le> cls (snd x)} lo r"
      using best_fit_filter [of N a "\<lambda>x. c + 1 \<le> cls (snd x)" "\<lambda>x. c \<le> cls (snd x)" lo r, OF iff] r(2) by blast
    moreover have "find_fit_from st (sz a) (int c) = Some r"
      using r(1) find Nil len c61 by (simp add: find_fit_from.simps [of st _ "int c"] MAX_LEN_def add.commute)
    ultimately show ?thesis by blast
  next
    case (Cons x ys)
    then have split: "xs = takeWhile (\<lambda>x. snd x < a) xs @ x # ys" by (metis takeWhile_dropWhile_id)
    then have x: "x \<in> set xs" "a \<le> snd x"
      using Cons hd_dropWhile [of "\<lambda>x. snd x < a" xs] by (metis in_set_conv_decomp, auto)
    have least: "snd x \<le> snd y" if y: "y \<in> N" "c \<le> cls (snd y)" "a \<le> snd y" for y
    proof (cases "cls (snd y) = c")
      case True
      then have "y \<in> set xs" using y setx by blast
      then have "y \<in> set (takeWhile (\<lambda>x. snd x < a) xs) \<or> y = x \<or> y \<in> set ys"
        using split by (metis Un_iff set_ConsD set_append)
      moreover have "y \<notin> set (takeWhile (\<lambda>x. snd x < a) xs)"
        using y(3) set_takeWhileD [of y "\<lambda>x. snd x < a" xs] by linarith
      ultimately have "y = x \<or> y \<in> set ys" by blast
      moreover have "sorted (map snd (takeWhile (\<lambda>x. snd x < a) xs @ x # ys))"
        using xs unfolding seg_ok_def by (subst split [symmetric]) simp
      then have "\<forall>z \<in> set ys. snd x \<le> snd z" by (simp only: map_append sorted_append list.map sorted_simps) auto
      ultimately show ?thesis by blast
    next
      case False
      have "cls (snd x) = c" using x(1) setx by blast
      with False y(2) have "cls (snd x) < cls (snd y)" by simp
      then show ?thesis using cls_mono [of "snd y" "snd x"] by linarith
    qed
    have xN: "x \<in> N" "cls (snd x) = c" using x(1) setx by blast+
    have nn: "at lo (fst x) \<noteq> NULL"
      using at_not_NULL [OF wf(1,2)] nodes_ok_bounds [OF N xN(1)] by simp
    have "find_fit_from st (sz a) (int c) = Some (at lo (fst x))"
      using find Cons len c61 nn by (simp add: find_fit_from.simps [of st _ "int c"] MAX_LEN_def)
    moreover have "best_fit a {x \<in> N. c \<le> cls (snd x)} lo (at lo (fst x))"
    proof -
      have "x \<in> {x \<in> {x \<in> N. c \<le> cls (snd x)}. a \<le> snd x}" using xN x(2) by simp
      moreover have "\<forall>y \<in> {x \<in> {x \<in> N. c \<le> cls (snd x)}. a \<le> snd x}. snd x \<le> snd y"
        using least by simp
      ultimately show ?thesis unfolding best_fit_def Let_def by (metis (lifting) empty_iff)
    qed
    ultimately show ?thesis by blast
  qed
qed

lemma find_fit_ok:
  assumes wf: "heap_wf st" "heap_start st = lo" and a: "1 \<le> a" "a < 2 ^ 61"
    and segs: "segs_ok lo (nwords st) (words st) (seg_list st) N"
  shows "\<exists>r. find_fit (sz a) st = Some r \<and> best_fit a N lo r"
proof -
  have "cls a \<le> 61" using cls_less [of a] by linarith
  from find_fit_from_ok [OF wf a(2) segs this] obtain r where
    r: "find_fit_from st (sz a) (int (cls a)) = Some r" "best_fit a {x \<in> N. cls a \<le> cls (snd x)} lo r"
    by blast
  have "cls a \<le> cls (snd x) \<longleftrightarrow> True" if "x \<in> N" "a \<le> snd x" for x using cls_mono [OF that(2)] by simp
  from best_fit_filter [of N a "\<lambda>x. cls a \<le> cls (snd x)" "\<lambda>x. True" lo r, OF this] r(2)
  have "best_fit a N lo r" by simp
  with r(1) select_list_sz [OF a] show ?thesis by (simp add: find_fit_def)
qed

section \<open>Placing\<close>

text \<open>What \<open>place\<close> makes of a free block of \<open>k\<close> words: one allocated block, or an allocated block of
  \<open>a\<close> words and a free rest.\<close>

definition placed :: "nat \<Rightarrow> nat \<Rightarrow> nat \<Rightarrow> block list" where
  "placed i k a = (if k - a \<le> 4 then [(i, k, True)] else [(i, a, True), (i + a, k - a, False)])"

lemma place_ok:
  assumes inv: "heap_inv st (pre @ (i, k, False) # post)" and lo: "heap_start st = lo"
    and a: "4 \<le> a" "even a" "a \<le> k"
  shows "\<exists>st'. place (at lo i) (sz a) st = Some st' \<and> same_frame st st' \<and>
    heap_inv st' (pre @ placed i k a @ post) \<and> keeps (alloc_set (pre @ post)) st st'"
proof -
  note E = heap_inv_env [OF inv]
  have n61: "nwords st < 2 ^ 61" by (rule nwords_61 [OF E(1)])
  from hole_open [OF inv lo] obtain s1 where s1: "node_remove (at lo i) st = Some s1" "same_frame st s1"
    "hole_inv s1 pre i (i + k) post" "keeps (alloc_set (pre @ post)) st s1" by blast
  note f1 = same_frameD [OF s1(2)]
  have lo1: "heap_start s1 = lo" and wf1: "heap_wf s1" and n1: "nwords s1 = nwords st" using f1 lo E by simp_all
  have size: "GET_SIZE (HDRP (at lo i)) st = Some (sz k)" using E lo by simp
  have rem: "sz k - sz a = sz (k - a)" using a by simp
  have le4: "sz (k - a) \<le> DSIZE * 2 \<longleftrightarrow> k - a \<le> 4"
    unfolding sz_consts(3) using E n61 by (intro sz_le) linarith+
  show ?thesis
  proof (cases "k - a \<le> 4")
    case True
    let ?t = "tagw k True"
    let ?p = "put_at (i - 1) ?t s1"
    have ab: "i - 1 = i - 1 \<and> i + k - 2 = i + k - 2 \<or> i - 1 = i + k - 2 \<and> i + k - 2 = i - 1" by simp
    note two = hole_two_tags [OF s1(3) ab, of ?t]
    have b: "i - 1 < nwords st" "i + k - 2 < nwords st" using E by linarith+
    have p1: "PUT (HDRP (at lo i)) ?t s1 = Some ?p" using E lo1 wf1 n1 b by simp
    have p2: "FTRP (at lo i) ?p = Some (at lo (i + k - 2))"
      using E lo1 wf1 n1 b by (simp add: FTRP_at [where k = k])
    have p3: "PUT (at lo (i + k - 2)) ?t ?p = Some (put_at (i + k - 2) ?t ?p)" using lo1 wf1 n1 b by simp
    have "place (at lo i) (sz a) st = Some (put_at (i + k - 2) ?t ?p)"
      by (simp only: place_def Let_def size s1(1) rem le4 True if_True PACK_sz p1 p2 p3 Option.bind_lunit)
    moreover have "words (put_at (i + k - 2) ?t ?p) (i - 1) = tagw (i + k - i) True"
      "words (put_at (i + k - 2) ?t ?p) (i + k - 2) = tagw (i + k - i) True"
      unfolding two(3) by simp_all
    then have "heap_inv (put_at (i + k - 2) ?t ?p) (pre @ (i, i + k - i, True) # post)"
      by (rule hole_close_alloc [OF two(1)])
    moreover have "same_frame st (put_at (i + k - 2) ?t ?p)" using s1(2) by (simp add: same_frame_def)
    ultimately show ?thesis using True keeps_trans [OF s1(4) two(2)] by (auto simp: placed_def)
  next
    case False
    let ?t = "tagw a True" and ?r = "tagw (k - a) False"
    let ?p = "put_at (i - 1) ?t s1"
    let ?q = "put_at (i + a - 2) ?t ?p"
    let ?u = "put_at (i + a - 1) ?r ?q"
    let ?v = "put_at (i + k - 2) ?r ?u"
    have b: "i - 1 < nwords st" "i + a - 2 < nwords st" "i + a - 1 < nwords st" "i + k - 2 < nwords st"
      "i + a - 2 < i + k - 1" "i - 1 \<le> i + a - 2" "i - 1 < i + k - 1"
      using E a False by linarith+
    have ne: "i - 1 \<noteq> i + a - 2" "i - 1 \<noteq> i + a - 1" "i + a - 1 \<noteq> i + k - 2" "i - 1 \<noteq> i + k - 2" "i + a - 2 \<noteq> i + a - 1" using E a False by linarith+
    note h1 = hole_put(1,2) [OF s1(3) order_refl b(7), of ?t]
    note h2 = hole_put(1,2) [OF h1(1) b(6,5), of ?t]
    have wq: "words ?q = (words s1)(i - 1 := ?t, i + a - 2 := ?t)" using wf1 n1 b by simp
    have c: "i + 4 \<le> i + a" "i + a + 4 \<le> i + k" using a False by linarith+
    have ev: "even (i + a)" using s1(3) a(2) tiles_even [of 4 pre i] by (simp add: hole_inv_def)
    have "words ?q (i - 1) = tagw (i + a - i) True" "words ?q (i + a - 2) = tagw (i + a - i) True"
      unfolding wq using ne by simp_all
    then have "hole_inv ?q (pre @ [(i, i + a - i, True)]) (i + a) (i + k) post"
      by (rule hole_split [OF h2(1) c ev])
    then have h3: "hole_inv ?q (pre @ [(i, a, True)]) (i + a) (i + k) post" by simp
    have lo3: "heap_start ?q = lo" using lo1 by simp
    from hole_merge [OF h3 lo3, of "i + a - 1" "i + k - 2" "k - a"] obtain s4 where
      s4: "node_add (at lo (i + a)) (sz (k - a)) ?v = Some s4" "same_frame ?q s4"
      "heap_inv s4 ((pre @ [(i, a, True)]) @ (i + a, k - a, False) # post)"
      "keeps (alloc_set ((pre @ [(i, a, True)]) @ post)) ?q s4" by auto
    have p1: "PUT (HDRP (at lo i)) ?t s1 = Some ?p" using E lo1 wf1 n1 b by simp
    have p2: "FTRP (at lo i) ?p = Some (at lo (i + a - 2))"
      using E lo1 wf1 n1 b a by (simp add: FTRP_at [where k = a])
    have p3: "PUT (at lo (i + a - 2)) ?t ?p = Some ?q" using lo1 wf1 n1 b by simp
    have wq1: "words ?q (i - 1) = ?t" unfolding wq using ne by simp
    have p4: "NEXT_BLKP (at lo i) ?q = Some (at lo (i + a))"
      using E lo1 wf1 n1 b wq1 by (simp add: NEXT_BLKP_at [where k = a])
    have p5: "PUT (HDRP (at lo (i + a))) ?r ?q = Some ?u" using E lo1 wf1 n1 b by simp
    have wu: "words ?u = (words ?q)(i + a - 1 := ?r)" using wf1 n1 b by (intro words_put_at) simp_all
    have wu1: "words ?u (i - 1) = ?t" "words ?u (i + a - 1) = ?r" using wq1 ne by (simp_all only: wu) simp_all
    have p6: "NEXT_BLKP (at lo i) ?u = Some (at lo (i + a))"
      using E lo1 wf1 n1 b wu1 by (simp add: NEXT_BLKP_at [where k = a])
    have p7: "FTRP (at lo (i + a)) ?u = Some (at lo (i + k - 2))"
      using E lo1 wf1 n1 b a wu1 False by (simp add: FTRP_at [where k = "k - a"])
    have p8: "PUT (at lo (i + k - 2)) ?r ?u = Some ?v" using lo1 wf1 n1 b by simp
    have wv: "words ?v = (words ?u)(i + k - 2 := ?r)" using wf1 n1 b by (intro words_put_at) simp_all
    have wv1: "words ?v (i - 1) = ?t" using wu1 ne by (simp only: wv) simp
    have p9: "NEXT_BLKP (at lo i) ?v = Some (at lo (i + a))"
      using E lo1 wf1 n1 b wv1 by (simp add: NEXT_BLKP_at [where k = a])
    have F: "(k - a \<le> 4) = False" using False by simp
    have "place (at lo i) (sz a) st = Some s4"
      by (simp only: place_def Let_def size s1(1) rem le4 F if_False PACK_sz p1 p2 p3 p4 p5 p6 p7 p8 p9
          s4(1) Option.bind_lunit)
    moreover have "same_frame st s4" using s1(2) s4(2) by (simp add: same_frame_def)
    moreover have "keeps (alloc_set (pre @ post)) ?q s4" using s4(4) by (rule keeps_mono) auto
    then have "keeps (alloc_set (pre @ post)) st s4"
      by (rule keeps_trans [OF s1(4) keeps_trans [OF h1(2) keeps_trans [OF h2(2)]]])
    ultimately show ?thesis using s4(3) False by (auto simp: placed_def)
  qed
qed

section \<open>Growing the heap\<close>

lemma segs_ok_grow:
  assumes segs: "segs_ok lo n W seg N" and n: "n < 2 ^ 61" "n \<le> n'"
    and same: "\<And>x. x \<in> N \<Longrightarrow> W' (fst x - 1) = W (fst x - 1) \<and>
      W' (fst x) = W (fst x) \<and> W' (fst x + 1) = W (fst x + 1)"
  shows "segs_ok lo n' W' seg N"
proof -
  have "segs_ok lo n W' seg N" using same by (intro segs_ok_cong [OF segs n(1)]) simp
  moreover have "nodes_ok n W' N \<Longrightarrow> nodes_ok n' W' N"
    unfolding nodes_ok_def node_ok_def using n(2) by fastforce
  ultimately show ?thesis by (simp add: segs_ok_def)
qed

lemma grow_hole:
  assumes inv: "heap_inv st bs" and k: "4 \<le> k" "even k"
    and st': "heap_start st' = heap_start st" "heap_listp st' = heap_listp st" "seg_list st' = seg_list st"
      "heap_wf st'" "nwords st' = nwords st + k"
    and words: "\<And>j. j < nwords st - 1 \<Longrightarrow> words st' j = words st j"
      "words st' (nwords st + k - 1) = tagw 0 True"
  shows "hole_inv st' bs (nwords st) (nwords st + k) []"
proof -
  let ?n = "nwords st"
  from inv have t: "tiles 4 bs ?n" and base: "base_inv st bs (free_set bs)" by (simp_all add: heap_inv_def)
  then have wf: "heap_wf st" and ap: "apart_blocks ?n (set bs)" and tags: "tags_ok (words st) bs"
    and frame: "frame_words ?n (words st)"
    and segs: "segs_ok (heap_start st) ?n (words st) (seg_list st) (free_set bs)"
    by (simp_all add: base_inv_def)
  have n: "4 \<le> ?n" using tiles_le [OF t] .
  have "apart_blocks (?n + k) (set bs)" using ap unfolding apart_blocks_def by fastforce
  moreover have "tags_ok (words st') bs"
  proof -
    have "words st' (i - 1) = tagw m a \<and> words st' (i + m - 2) = tagw m a" if b: "(i, m, a) \<in> set bs" for i m a
    proof -
      have "i - 1 < ?n - 1" "i + m - 2 < ?n - 1" using apart_blocksD [OF ap b] by linarith+
      then show ?thesis using words(1) tags_okD [OF tags b] by simp
    qed
    then show ?thesis by (auto simp: tags_ok_def)
  qed
  moreover have "frame_words (?n + k) (words st')"
    using frame words n k by (simp add: frame_words_def)
  moreover have "segs_ok (heap_start st) (?n + k) (words st') (seg_list st) (free_set bs)"
  proof (rule segs_ok_grow [OF segs nwords_61 [OF wf]])
    fix x assume "x \<in> free_set bs"
    then have "(fst x, snd x, False) \<in> set bs" by (auto simp: free_set_def)
    from apart_blocksD [OF ap this] have "fst x - 1 < ?n - 1" "fst x < ?n - 1" "fst x + 1 < ?n - 1" by linarith+
    then show "words st' (fst x - 1) = words st (fst x - 1) \<and> words st' (fst x) = words st (fst x) \<and>
        words st' (fst x + 1) = words st (fst x + 1)" using words(1) by blast
  qed simp
  ultimately have "base_inv st' bs (free_set bs)" using base st' by (simp add: base_inv_def)
  with t k st'(5) tiles_even [OF t] show ?thesis by (simp add: hole_inv_def)
qed

text \<open>
  The memory system under the allocator, as the allocator uses it: a successful call moves the
  break up by the bytes asked for and returns the old break; a failing one changes nothing;
  and a call that stays below the limit succeeds.
\<close>

locale break_provider =
  fixes sbrk :: sbrk
  assumes grow: "\<And>st k. unat (mem_brk st) + 8 * k < 2 ^ 64 \<Longrightarrow>
      sbrk (sz k) st = (- 1, st) \<or>
      sbrk (sz k) st = (mem_brk st, st\<lparr>mem_brk := mem_brk st + sz k\<rparr>) \<and>
        unat (mem_brk st) + 8 * k \<le> unat (mem_max_addr st)"
    and room: "\<And>st k. unat (mem_brk st) + 8 * k \<le> unat (mem_max_addr st) \<Longrightarrow> 8 * k < 2 ^ 63 \<Longrightarrow>
      sbrk (sz k) st = (mem_brk st, st\<lparr>mem_brk := mem_brk st + sz k\<rparr>)"

text \<open>The state after the break has moved.\<close>

definition moved :: "nat \<Rightarrow> heap_state \<Rightarrow> heap_state" where
  "moved k st = st\<lparr>mem_brk := mem_brk st + sz k\<rparr>"

lemma moved_simps [simp]:
  "heap_start (moved k st) = heap_start st" "heap_listp (moved k st) = heap_listp st"
  "seg_list (moved k st) = seg_list st" "mem_max_addr (moved k st) = mem_max_addr st"
  by (simp_all add: moved_def)

lemma moved_wf:
  assumes wf: "heap_wf st" and k: "unat (mem_brk st) + 8 * k < 2 ^ 64"
  shows "heap_wf (moved k st)" "nwords (moved k st) = nwords st + k"
    "\<And>j. j < nwords st \<Longrightarrow> words (moved k st) j = words st j"
    "unat (mem_brk (moved k st)) = unat (mem_brk st) + 8 * k"
proof -
  have "unat (sz k) = 8 * k" using k by (intro unat_sz) simp
  then show b: "unat (mem_brk (moved k st)) = unat (mem_brk st) + 8 * k"
    using k by (simp add: moved_def unat_word_ariths)
  define a where "a = unat (heap_start st)"
  have "unat (mem_brk (moved k st)) = a + 8 * (nwords st + k)"
    using wf b by (simp add: heap_wf_def a_def)
  then have "nwords (moved k st) = (a + 8 * (nwords st + k) - a) div 8"
    by (simp only: nwords_def moved_simps a_def)
  then show n: "nwords (moved k st) = nwords st + k" by simp
  show "heap_wf (moved k st)" using wf b n by (simp add: heap_wf_def)
  show "words (moved k st) j = words st j" if "j < nwords st" for j
    using that n by (simp add: words_def) (simp add: moved_def)
qed

lemma brk_at: "heap_wf st \<Longrightarrow> heap_start st = lo \<Longrightarrow> mem_brk st = at lo (nwords st)"
  using unat_at_wf [of st lo "nwords st"] by (simp add: word_unat_eq_iff heap_wf_def)

lemma aligned_not_minus1: "8 dvd unat p \<Longrightarrow> p \<noteq> - 1" for p :: u64
proof
  assume "8 dvd unat p" "p = - 1"
  then have "8 dvd unat (- 1 :: u64)" by simp
  moreover have "unat (- 1 :: u64) = 18446744073709551615"
    by (simp add: unsigned_minus_1_eq_mask mask_eq_exp_minus_1)
  ultimately show False by simp
qed

text \<open>The two cases of \<open>extend_heap\<close> after its rounding: the words asked for are even.\<close>

definition extended :: "nat \<Rightarrow> heap_state \<Rightarrow> heap_state" where
  "extended k st = (let n = nwords st in
     put_at (n + k - 1) (tagw 0 True) (put_at (n + k - 2) (tagw k False)
       (put_at (n - 1) (tagw k False) (moved k st))))"

lemma extended_hole:
  assumes inv: "heap_inv st bs" and k: "4 \<le> k" "even k" and small: "unat (mem_brk st) + 8 * k < 2 ^ 64"
  shows "hole_inv (extended k st) bs (nwords st) (nwords st + k) []"
    "words (extended k st) (nwords st - 1) = tagw k False"
    "words (extended k st) (nwords st + k - 2) = tagw k False"
    "keeps (alloc_set bs) st (extended k st)"
    "heap_start (extended k st) = heap_start st"
    "unat (mem_brk (extended k st)) = unat (mem_brk st) + 8 * k"
    "mem_max_addr (extended k st) = mem_max_addr st"
proof -
  let ?n = "nwords st"
  from inv have wf: "heap_wf st" and t: "tiles 4 bs ?n" by (simp_all add: heap_inv_def base_inv_def)
  have n: "4 \<le> ?n" using tiles_le [OF t] .
  note m = moved_wf [OF wf small]
  have b: "?n - 1 < ?n + k" "?n + k - 2 < ?n + k" "?n + k - 1 < ?n + k" using n k by linarith+
  have ne: "?n - 1 \<noteq> ?n + k - 2" "?n - 1 \<noteq> ?n + k - 1" "?n + k - 2 \<noteq> ?n + k - 1" using n k by linarith+
  have w: "words (extended k st) = (words (moved k st))(?n - 1 := tagw k False,
      ?n + k - 2 := tagw k False, ?n + k - 1 := tagw 0 True)"
  proof -
    have "words (extended k st) = (words (put_at (?n + k - 2) (tagw k False)
        (put_at (?n - 1) (tagw k False) (moved k st))))(?n + k - 1 := tagw 0 True)"
      unfolding extended_def Let_def using m b by (intro words_put_at) simp_all
    also have "words (put_at (?n + k - 2) (tagw k False) (put_at (?n - 1) (tagw k False) (moved k st))) =
        (words (put_at (?n - 1) (tagw k False) (moved k st)))(?n + k - 2 := tagw k False)"
      using m b by (intro words_put_at) simp_all
    also have "words (put_at (?n - 1) (tagw k False) (moved k st)) =
        (words (moved k st))(?n - 1 := tagw k False)"
      using m b by (intro words_put_at) simp_all
    finally show ?thesis .
  qed
  show w1: "words (extended k st) (?n - 1) = tagw k False"
    and w2: "words (extended k st) (?n + k - 2) = tagw k False"
    using ne unfolding w by simp_all
  have low: "words (extended k st) j = words st j" if "j < ?n - 1" for j
  proof -
    have "j \<noteq> ?n - 1" "j \<noteq> ?n + k - 2" "j \<noteq> ?n + k - 1" "j < ?n" using that k by linarith+
    with m(3) [of j] show ?thesis unfolding w by simp
  qed
  show "heap_start (extended k st) = heap_start st"
    "unat (mem_brk (extended k st)) = unat (mem_brk st) + 8 * k"
    "mem_max_addr (extended k st) = mem_max_addr st"
    using m by (simp_all add: extended_def Let_def)
  show "hole_inv (extended k st) bs ?n (?n + k) []"
  proof (rule grow_hole [OF inv k])
    show "words (extended k st) (?n + k - 1) = tagw 0 True" unfolding w by simp
  qed (use m low in \<open>simp_all add: extended_def Let_def\<close>)
  have "words (extended k st) j = words st j"
    if x: "x \<in> alloc_set bs" "j < fst x + snd x - 1" for x j
  proof -
    have "(fst x, snd x, True) \<in> set bs" using x by (auto simp: alloc_set_def)
    with tiles_mem [OF t] x have "j < ?n - 1" by fastforce
    then show ?thesis by (rule low)
  qed
  then show "keeps (alloc_set bs) st (extended k st)" unfolding keeps_def by blast
qed

lemma heap_listp_upd_simps [simp]:
  "nwords (st\<lparr>heap_listp := p\<rparr>) = nwords st" "heap_wf (st\<lparr>heap_listp := p\<rparr>) = heap_wf st"
  "words (st\<lparr>heap_listp := p\<rparr>) = words st"
  by (simp_all add: nwords_def heap_wf_def words_def fun_eq_iff)

lemma even_words: "even k \<Longrightarrow> k < 2 ^ 61 \<Longrightarrow> (of_nat k :: u64) mod 2 = 0"
proof -
  assume "even k" "k < 2 ^ 61"
  then have "unat ((of_nat k :: u64) mod 2) = 0" by (simp add: unat_mod unat_of_nat)
  then show ?thesis by (simp only: unat_eq_0)
qed

lemma words_WSIZE: "of_nat k * WSIZE = sz k"
  by (simp add: WSIZE_def sz_def)

context break_provider
begin

lemma extend_heap_cases:
  assumes inv: "heap_inv st bs" and lo: "heap_start st = lo" and k: "4 \<le> k" "even k"
    and small: "unat (mem_brk st) + 8 * k < 2 ^ 64"
    and i: "absorb_left bs (nwords st) k = (bs', i', k')"
  shows "(extend_heap sbrk (of_nat k) st = Some (NULL, st) \<and>
      (unat (mem_max_addr st) < unat (mem_brk st) + 8 * k \<or> 2 ^ 63 \<le> 8 * k)) \<or>
    (\<exists>st'. extend_heap sbrk (of_nat k) st = Some (at lo i', st') \<and> heap_inv st' (bs' @ [(i', k', False)]) \<and>
      heap_start st' = lo \<and> mem_max_addr st' = mem_max_addr st \<and>
      unat (mem_brk st') = unat (mem_brk st) + 8 * k \<and>
      unat (mem_brk st) + 8 * k \<le> unat (mem_max_addr st) \<and> keeps (alloc_set bs) st st')"
proof -
  let ?n = "nwords st"
  have k61: "k < 2 ^ 61" using small by simp
  note bytes = even_words [OF k(2) k61] words_WSIZE
  from inv have wf: "heap_wf st" and t: "tiles 4 bs ?n" by (simp_all add: heap_inv_def base_inv_def)
  have n: "4 \<le> ?n" using tiles_le [OF t] .
  have brk: "mem_brk st = at lo ?n" by (rule brk_at [OF wf lo])
  from grow [OF small] room [of st k]
  consider (fail) "sbrk (sz k) st = (- 1, st)"
      "unat (mem_max_addr st) < unat (mem_brk st) + 8 * k \<or> 2 ^ 63 \<le> 8 * k"
    | (ok) "sbrk (sz k) st = (at lo ?n, moved k st)" "unat (mem_brk st) + 8 * k \<le> unat (mem_max_addr st)"
    unfolding moved_def brk by fastforce
  then show ?thesis
  proof cases
    case fail
    then have "extend_heap sbrk (of_nat k) st = Some (NULL, st)" by (simp add: extend_heap_def bytes)
    with fail(2) show ?thesis by blast
  next
    case ok
    note m = moved_wf [OF wf small]
    note ext = extended_hole [OF inv k small]
    let ?p = "put_at (?n - 1) (tagw k False) (moved k st)"
    let ?q = "put_at (?n + k - 2) (tagw k False) ?p"
    have "8 dvd unat (at lo ?n)" using at_aligned [OF wf lo order_refl] by (simp add: aligned8_dvd)
    then have nm: "at lo ?n \<noteq> - 1" by (rule aligned_not_minus1)
    have b: "?n - 1 < ?n + k" "?n + k - 2 < ?n + k" "?n + k - 1 < ?n + k" "?n - 1 \<noteq> ?n + k - 2"
      using n k by linarith+
    have p1: "PUT (HDRP (at lo ?n)) (tagw k False) (moved k st) = Some ?p" using m lo b n by simp
    have p2: "FTRP (at lo ?n) ?p = Some (at lo (?n + k - 2))"
      using m lo b n k by (simp add: FTRP_at [where k = k])
    have p3: "PUT (at lo (?n + k - 2)) (tagw k False) ?p = Some ?q" using m lo b by simp
    have "words ?q = (words ?p)(?n + k - 2 := tagw k False)" using m b by (intro words_put_at) simp_all
    then have "wsize (words ?q (?n - 1)) = sz k" using m b by simp
    then have p4: "NEXT_BLKP (at lo ?n) ?q = Some (at lo (?n + k))"
      using m lo b n by (simp add: NEXT_BLKP_at [where k = k])
    have p5: "PUT (HDRP (at lo (?n + k))) (tagw 0 True) ?q = Some (extended k st)"
      using m lo b k by (simp add: extended_def Let_def)
    have z: "PACK 0 1 = tagw 0 True" by (simp add: PACK_def tagw_def sz_def)
    have lo2: "heap_start (extended k st) = lo" using ext(5) lo by simp
    from hole_close_free [OF ext(1) lo2] ext(2,3) obtain s2 where
      s2: "node_add (at lo ?n) (sz k) (extended k st) = Some s2" "same_frame (extended k st) s2"
      "heap_inv s2 (bs @ (?n, k, False) # [])" "keeps (alloc_set (bs @ [])) (extended k st) s2" by auto
    have lo3: "heap_start s2 = lo" using s2(2) lo2 by (simp add: same_frame_def)
    from coalesce_ok [OF s2(3) lo3] i obtain s3 where
      s3: "coalesce (at lo ?n) s2 = Some (at lo i', s3)" "same_frame s2 s3"
      "heap_inv s3 (bs' @ [(i', k', False)])" "keeps (alloc_set (bs @ [])) s2 s3" by (auto simp: merge_at_def)
    have "extend_heap sbrk (of_nat k) st = Some (at lo i', s3)"
      using nm by (simp only: extend_heap_def Let_def bytes ok(1) PACK_sz p1 p2 p3 p4 p5 z s2(1) s3(1)
          Option.bind_lunit split_conv simp_thms if_False if_True refl)
    moreover have "keeps (alloc_set bs) st s3"
      using keeps_trans [OF ext(4) keeps_trans [OF s2(4) [simplified] s3(4) [simplified]]] .
    ultimately show ?thesis using s2(2) s3(2,3) lo2 ext(6,7) ok(2) by (auto simp: same_frame_def)
  qed
qed

lemma mm_init_cases:
  assumes wf: "heap_wf st" "mem_brk st = heap_start st" and lo: "heap_start st = lo"
    and small: "unat (mem_brk st) + 8 * 2052 < 2 ^ 64"
  shows "\<exists>ok st'. mm_init_with sbrk st = Some (ok, st') \<and>
    (ok \<longrightarrow> heap_inv st' [(4, 2048, False)] \<and> heap_start st' = lo \<and>
      mem_max_addr st' = mem_max_addr st \<and> unat (mem_brk st') = unat (mem_brk st) + 8 * 2052 \<and>
      unat (mem_brk st') \<le> unat (mem_max_addr st)) \<and>
    (unat (mem_brk st) + 8 * 2052 \<le> unat (mem_max_addr st) \<longrightarrow> ok)"
proof -
  let ?s0 = "st\<lparr>seg_list := replicate (nat MAX_LEN) NULL\<rparr>"
  have n0: "nwords st = 0" using wf by (simp add: nwords_def)
  have wf0: "heap_wf ?s0" and n00: "nwords ?s0 = 0" and brk0: "mem_brk ?s0 = at lo 0"
    using wf lo n0 by (simp_all add: at_def)
  have small0: "unat (mem_brk ?s0) + 8 * 4 < 2 ^ 64" using small by simp
  have b4: "4 * WSIZE = sz 4" by (simp add: WSIZE_def sz_def)
  note m = moved_wf [OF wf0 small0]
  have brkst: "mem_brk ?s0 = mem_brk st" by simp
  consider (fail) "sbrk (sz 4) ?s0 = (- 1, ?s0)" "unat (mem_max_addr st) < unat (mem_brk st) + 8 * 4"
    | (ok) "sbrk (sz 4) ?s0 = (at lo 0, moved 4 ?s0)"
    using grow [OF small0] room [of ?s0 4] brk0 unfolding moved_def by fastforce
  then show ?thesis
  proof cases
    case fail
    then show ?thesis by (intro exI [of _ False]) (simp add: mm_init_with_def Let_def b4)
  next
    case ok
    let ?s1 = "(moved 4 ?s0)\<lparr>heap_listp := at lo 0\<rparr>"
    have s1: "heap_wf ?s1" "nwords ?s1 = 4" "heap_start ?s1 = lo" "mem_brk ?s1 = mem_brk (moved 4 ?s0)"
      "mem_max_addr ?s1 = mem_max_addr st" "seg_list ?s1 = replicate 61 NULL"
      using m n00 lo by (simp_all add: heap_wf_def nwords_def MAX_LEN_def) 
    have nm: "at lo 0 \<noteq> - 1"
      using at_aligned [OF s1(1,3), of 0] by (intro aligned_not_minus1) (simp add: aligned8_dvd)
    let ?t = "tagw 2 True"
    let ?s5 = "put_at 3 (tagw 0 True) (put_at 2 ?t (put_at 1 ?t (put_at 0 0 ?s1)))"
    let ?s6 = "?s5\<lparr>heap_listp := at lo 2\<rparr>"
    have off: "at lo 0 + 1 * WSIZE = at lo 1" "at lo 0 + 2 * WSIZE = at lo 2" "at lo 0 + 3 * WSIZE = at lo 3"
      by (simp_all add: at_def WSIZE_def)
    have tag: "PACK DSIZE 1 = ?t" "PACK 0 1 = tagw 0 True" using PACK_sz(2) [of 2] PACK_sz(2) [of 0]
      by (simp_all add: sz_def DSIZE_def)
    have p0: "PUT (at lo 0) 0 ?s1 = Some (put_at 0 0 ?s1)" using s1 by simp
    have p1: "PUT (at lo 1) ?t (put_at 0 0 ?s1) = Some (put_at 1 ?t (put_at 0 0 ?s1))" using s1 by simp
    have p2: "PUT (at lo 2) ?t (put_at 1 ?t (put_at 0 0 ?s1)) = Some (put_at 2 ?t (put_at 1 ?t (put_at 0 0 ?s1)))"
      using s1 by simp
    have p3: "PUT (at lo 3) (tagw 0 True) (put_at 2 ?t (put_at 1 ?t (put_at 0 0 ?s1))) = Some ?s5"
      using s1 by simp
    have w5: "words ?s5 1 = ?t" "words ?s5 2 = ?t" "words ?s5 3 = tagw 0 True" using s1(1,2) by simp_all
    have s6: "heap_wf ?s6" "nwords ?s6 = 4" "heap_start ?s6 = lo" "mem_brk ?s6 = mem_brk (moved 4 ?s0)"
      "mem_max_addr ?s6 = mem_max_addr st" "seg_list ?s6 = replicate 61 NULL" "words ?s6 = words ?s5"
      using s1 by simp_all
    have "segs_ok lo 4 (words ?s6) (replicate 61 NULL) {}"
    proof -
      have "seg_ok lo (words ?s6) c (replicate 61 NULL ! c) {} []" if "c < 61" for c
        using that by (simp add: seg_ok_def)
      then show ?thesis by (auto simp: segs_ok_def nodes_ok_def)
    qed
    then have inv: "heap_inv ?s6 []"
      using s6 w5 by (simp add: heap_inv_def base_inv_def frame_words_def apart_blocks_def)
    have small6: "unat (mem_brk ?s6) + 8 * 2048 < 2 ^ 64" using m(4) s6(4) small by simp
    have chunk: "CHUNKSIZE div WSIZE = of_nat 2048" by (simp add: CHUNKSIZE_def WSIZE_def)
    have left: "absorb_left [] (nwords ?s6) 2048 = ([], 4, 2048)" using s6(2) by (simp add: absorb_left_def)
    have step: "mm_init_with sbrk st = (case extend_heap sbrk (of_nat 2048) ?s6 of None \<Rightarrow> None
        | Some (bp, st') \<Rightarrow> Some (bp \<noteq> NULL, st'))"
      using nm by (simp only: mm_init_with_def Let_def b4 ok off tag p0 p1 p2 p3 chunk
          Option.bind_lunit split_conv simp_thms if_False if_True refl)
        (simp split: Option.bind_split option.split)
    have nn: "at lo 4 \<noteq> NULL"
      using at_not_NULL [OF s6(1,3), of 4] s6(2) by simp
    have le: "(4 :: nat) \<le> 2048" "even (2048 :: nat)" by simp_all
    from extend_heap_cases [OF inv s6(3) le small6 left] nn m(4) s6(4,5)
    show ?thesis unfolding step
      by (elim disjE exE conjE) (simp_all, auto intro: exI [of _ False] exI [of _ True])
  qed
qed

lemma malloc_fit:
  assumes inv: "heap_inv st bs" and co: "coalesced bs" and lo: "heap_start st = lo"
    and a: "4 \<le> a" "even a" and b: "(i, k, False) \<in> set bs" "a \<le> k"
  shows "\<exists>st' bs' m. place (at lo i) (sz a) st = Some st' \<and> same_frame st st' \<and> heap_inv st' bs' \<and>
    coalesced bs' \<and> keeps (alloc_set bs) st st' \<and> a \<le> m \<and> m \<le> a + 4 \<and>
    (i, m) \<notin> alloc_set bs \<and> alloc_set bs' = insert (i, m) (alloc_set bs)"
proof -
  from b(1) obtain pre post where bs: "bs = pre @ (i, k, False) # post" by (meson split_list)
  from inv have t: "tiles 4 bs (nwords st)" by (simp add: heap_inv_def)
  from place_ok [OF inv [unfolded bs] lo a b(2)] obtain st' where
    st': "place (at lo i) (sz a) st = Some st'" "same_frame st st'"
    "heap_inv st' (pre @ placed i k a @ post)" "keeps (alloc_set (pre @ post)) st st'" by blast
  have al: "alloc_set (pre @ post) = alloc_set bs" by (simp add: bs)
  have new: "(i, m) \<notin> alloc_set bs" for m
  proof
    assume "(i, m) \<in> alloc_set bs"
    then have m: "(i, m, True) \<in> set bs" by (simp add: alloc_set_def)
    from tiles_clear [OF t m b(1)] tiles_mem [OF t m] tiles_mem [OF t b(1)] show False
      by (auto simp: clear_def)
  qed
  define m where "m = (if k - a \<le> 4 then k else a)"
  have m: "a \<le> m" "m \<le> a + 4" using b(2) by (auto simp: m_def)
  have "alloc_set (pre @ placed i k a @ post) = insert (i, m) (alloc_set bs)"
    by (auto simp: placed_def m_def bs)
  moreover have "coalesced (pre @ placed i k a @ post)"
  proof -
    from co have c: "coalesced pre" "coalesced post" "pre = [] \<or> snd (snd (last pre))" "post = [] \<or> snd (snd (hd post))"
      by (auto simp: bs coalesced_append coalesced_Cons)
    then show ?thesis by (auto simp: placed_def coalesced_append coalesced_Cons)
  qed
  ultimately show ?thesis using st'(1-3) st'(4) [unfolded al] m new by blast
qed

lemma malloc_cases:
  assumes inv: "heap_inv st bs" and co: "coalesced bs" and lo: "heap_start st = lo"
    and w: "w \<noteq> 0" and a: "adjusted_size w = sz a" "4 \<le> a" "even a"
    and small: "unat (mem_brk st) + 8 * max a 2048 < 2 ^ 64"
  shows "\<exists>p st' bs'. malloc_with sbrk w st = Some (p, st') \<and> heap_inv st' bs' \<and> coalesced bs' \<and>
    heap_start st' = lo \<and> mem_max_addr st' = mem_max_addr st \<and> keeps (alloc_set bs) st st' \<and>
    (if p = NULL then st' = st \<and> bs' = bs \<and> \<not> fits a bs \<and>
       (unat (mem_max_addr st) < unat (mem_brk st) + 8 * max a 2048 \<or> 2 ^ 63 \<le> 8 * max a 2048)
     else unat (mem_brk st') = unat (mem_brk st) + (if fits a bs then 0 else 8 * max a 2048) \<and>
       (fits a bs \<or> unat (mem_brk st') \<le> unat (mem_max_addr st)) \<and>
       (\<exists>i m. p = at lo i \<and> a \<le> m \<and> m \<le> a + 4 \<and> (i, m) \<notin> alloc_set bs \<and>
         alloc_set bs' = insert (i, m) (alloc_set bs) \<and>
         (fits a bs \<longrightarrow> (\<exists>k. (i, k) \<in> free_set bs \<and> a \<le> k \<and> (\<forall>y \<in> free_set bs. a \<le> snd y \<longrightarrow> k \<le> snd y)))))"
proof -
  let ?n = "nwords st" and ?k = "max a 2048"
  from inv have t: "tiles 4 bs ?n" and wf: "heap_wf st"
    and segs: "segs_ok lo ?n (words st) (seg_list st) (free_set bs)"
    using lo by (simp_all add: heap_inv_def base_inv_def)
  have a61: "1 \<le> a" "a < 2 ^ 61" using a small by auto
  have k: "4 \<le> ?k" "even ?k" "?k < 2 ^ 61" using a small by (auto simp: max_def)
  from find_fit_ok [OF wf lo a61 segs] obtain r where
    r: "find_fit (sz a) st = Some r" "best_fit a (free_set bs) lo r" by blast
  note m = malloc_with_def Let_def a(1)
  show ?thesis
  proof (cases "fits a bs")
    case True
    then have "{x \<in> free_set bs. a \<le> snd x} \<noteq> {}" unfolding fits_def by blast
    with r(2) have "\<exists>x \<in> {x \<in> free_set bs. a \<le> snd x}. r = at lo (fst x) \<and>
        (\<forall>y \<in> {x \<in> free_set bs. a \<le> snd x}. snd x \<le> snd y)"
      unfolding best_fit_def Let_def by (simp only: if_False)
    then obtain x where x: "x \<in> free_set bs" "a \<le> snd x" "r = at lo (fst x)"
      "\<forall>y \<in> {x \<in> free_set bs. a \<le> snd x}. snd x \<le> snd y" by blast
    then have b: "(fst x, snd x, False) \<in> set bs" by (auto simp: free_set_def)
    from tiles_mem [OF t b] wf lo have nn: "r \<noteq> NULL" using x(3) at_not_NULL [of st lo "fst x"] by simp
    from malloc_fit [OF inv co lo a(2,3) b x(2)] obtain st' bs' m' where st':
      "place (at lo (fst x)) (sz a) st = Some st'" "same_frame st st'" "heap_inv st' bs'" "coalesced bs'"
      "keeps (alloc_set bs) st st'" "a \<le> m'" "m' \<le> a + 4" "(fst x, m') \<notin> alloc_set bs"
      "alloc_set bs' = insert (fst x, m') (alloc_set bs)" by blast
    have "malloc_with sbrk w st = Some (r, st')" using w r(1) nn st'(1) x(3) by (simp add: m)
    moreover have "\<exists>k. (fst x, k) \<in> free_set bs \<and> a \<le> k \<and> (\<forall>y \<in> free_set bs. a \<le> snd y \<longrightarrow> k \<le> snd y)"
    proof (intro exI conjI)
      show "(fst x, snd x) \<in> free_set bs" using x(1) by simp
      show "a \<le> snd x" by (rule x(2))
      show "\<forall>y \<in> free_set bs. a \<le> snd y \<longrightarrow> snd x \<le> snd y" using x(4) by blast
    qed
    ultimately show ?thesis using True nn st' x(3) lo
      by (intro exI [of _ r] exI [of _ st'] exI [of _ bs'])
        (simp add: same_frame_def del: split_paired_Ex, blast)
  next
    case False
    then have "{x \<in> free_set bs. a \<le> snd x} = {}" unfolding fits_def by blast
    with r(2) have r0: "r = NULL" unfolding best_fit_def Let_def by simp
    have mx: "MAX64 (sz a) CHUNKSIZE div WSIZE = of_nat ?k"
    proof -
      have "MAX64 (sz a) CHUNKSIZE = sz ?k"
        using a61 by (auto simp: MAX64_def sz_consts(6) sz_less max_def)
      moreover have "unat (sz ?k div WSIZE) = ?k" using k by (simp add: unat_div unat_sz WSIZE_def)
      moreover have "unat (of_nat ?k :: u64) = ?k" using k by (simp add: unat_of_nat)
      ultimately show ?thesis by (metis word_unat_eq_iff)
    qed
    obtain pre i k' where ab: "absorb_left bs ?n ?k = (pre, i, k')" by (metis prod_cases3)
    then have k': "?k \<le> k'" by (auto simp: absorb_left_def split: if_splits)
    have ext: "malloc_with sbrk w st = (case extend_heap sbrk (of_nat ?k) st of None \<Rightarrow> None
        | Some (bp, st1) \<Rightarrow> if bp = NULL then Some (NULL, st1)
            else (case place bp (sz a) st1 of None \<Rightarrow> None | Some st2 \<Rightarrow> Some (bp, st2)))"
      using w r(1) by (simp only: m r0 mx Option.bind_lunit if_True simp_thms if_False)
        (simp split: Option.bind_split option.split)
    from extend_heap_cases [OF inv lo k(1,2) small ab]
    consider (fail) "extend_heap sbrk (of_nat ?k) st = Some (NULL, st)"
        "unat (mem_max_addr st) < unat (mem_brk st) + 8 * ?k \<or> 2 ^ 63 \<le> 8 * ?k"
      | (ok) st1 where "extend_heap sbrk (of_nat ?k) st = Some (at lo i, st1)"
        "heap_inv st1 (pre @ [(i, k', False)])" "heap_start st1 = lo" "mem_max_addr st1 = mem_max_addr st"
        "unat (mem_brk st1) = unat (mem_brk st) + 8 * ?k" "unat (mem_brk st) + 8 * ?k \<le> unat (mem_max_addr st)"
        "keeps (alloc_set bs) st st1" by blast
    then show ?thesis
    proof cases
      case fail
      then have "malloc_with sbrk w st = Some (NULL, st)" unfolding ext by simp
      with inv co lo False fail(2) show ?thesis by fastforce
    next
      case ok
      have mg: "merge_at bs ?n ?k [] = pre @ [(i, k', False)]" using ab by (simp add: merge_at_def)
      have co1: "coalesced (pre @ [(i, k', False)])"
        using merge_coalesced [OF co, of "[]" ?n ?k] mg by simp
      have al: "alloc_set (pre @ [(i, k', False)]) = alloc_set bs"
        using merge_alloc [of bs ?n ?k "[]"] mg by simp
      have b: "(i, k', False) \<in> set (pre @ [(i, k', False)])" "a \<le> k'" using k' by simp_all
      from ok(2) have t1: "tiles 4 (pre @ [(i, k', False)]) (nwords st1)" and wf1: "heap_wf st1"
        by (simp_all add: heap_inv_def base_inv_def)
      from tiles_mem [OF t1 b(1)] wf1 ok(3) have nn: "at lo i \<noteq> NULL" using at_not_NULL [of st1 lo i] by simp
      from malloc_fit [OF ok(2) co1 ok(3) a(2,3) b] obtain st' bs' m' where st':
        "place (at lo i) (sz a) st1 = Some st'" "same_frame st1 st'" "heap_inv st' bs'" "coalesced bs'"
        "keeps (alloc_set bs) st1 st'" "a \<le> m'" "m' \<le> a + 4" "(i, m') \<notin> alloc_set bs"
        "alloc_set bs' = insert (i, m') (alloc_set bs)" unfolding al by blast
      have "malloc_with sbrk w st = Some (at lo i, st')" unfolding ext using ok(1) nn st'(1) by simp
      then show ?thesis using False nn st' ok(3-6) keeps_trans [OF ok(7) st'(5)]
        by (intro exI [of _ "at lo i"] exI [of _ st'] exI [of _ bs']) (auto simp: same_frame_def)
    qed
  qed
qed

end

end
