(* ===== verification/Mm_Heap.thy ===== *)
theory Mm_Heap
  imports Mm_Alloc
begin

text \<open>
  Freeing, writing to payloads, and the allocator of \<open>mm.c\<close> on the memory system of
  \<open>memlib.c\<close>: what each call promises of the set of allocated blocks, and every run of calls.
\<close>

section \<open>Freeing\<close>

lemma alloc_hole:
  assumes inv: "heap_inv st (pre @ (i, k, True) # post)"
  shows "hole_inv st pre i (i + k) post"
proof -
  let ?bs = "pre @ (i, k, True) # post"
  from inv have t: "tiles 4 ?bs (nwords st)" and base: "base_inv st ?bs (free_set ?bs)"
    by (simp_all add: heap_inv_def)
  from t have tp: "tiles 4 pre i" "tiles (i + k) post (nwords st)" "4 \<le> k" "even k"
    by (auto simp: tiles_append)
  have f: "free_set ?bs = free_set (pre @ post)" by simp
  have "base_inv st (pre @ post) (free_set (pre @ post))"
    by (rule base_subset [OF base [unfolded f]]) auto
  with tp tiles_even [OF tp(1)] show ?thesis by (simp add: hole_inv_def)
qed

text \<open>The last steps of both \<open>free\<close> functions: the two tags, the insertion, the coalescing.\<close>

lemma release:
  assumes inv: "heap_inv st (pre @ (i, k, True) # post)" and lo: "heap_start st = lo"
  shows "\<exists>st2 bp st'. node_add (at lo i) (sz k) (put_at (i + k - 2) (tagw k False) (put_at (i - 1) (tagw k False) st)) = Some st2 \<and>
    coalesce (at lo i) st2 = Some (bp, st') \<and> same_frame st st' \<and>
    heap_inv st' (merge_at pre i k post) \<and> keeps (alloc_set (pre @ post)) st st'"
proof -
  from hole_merge [OF alloc_hole [OF inv] lo, of "i - 1" "i + k - 2" k] obtain s2 where
    s2: "node_add (at lo i) (sz k) (put_at (i + k - 2) (tagw k False) (put_at (i - 1) (tagw k False) st)) = Some s2"
    "same_frame st s2" "heap_inv s2 (pre @ (i, k, False) # post)" "keeps (alloc_set (pre @ post)) st s2"
    by auto
  have lo2: "heap_start s2 = lo" using s2(2) lo by (simp add: same_frame_def)
  from coalesce_ok [OF s2(3) lo2] obtain s3 where
    s3: "coalesce (at lo i) s2 = Some (at lo (fst (snd (absorb_left pre i k))), s3)"
    "same_frame s2 s3" "heap_inv s3 (merge_at pre i k post)" "keeps (alloc_set (pre @ post)) s2 s3" by blast
  show ?thesis
    using s2(1) s3(1) same_frame_trans [OF s2(2) s3(2)] s3(3) keeps_trans [OF s2(4) s3(4)] by blast
qed

lemma put_same_words: "heap_wf st \<Longrightarrow> j < nwords st \<Longrightarrow> words (put_at j (words st j) st) = words st"
  by simp

lemma heap_inv_cong:
  assumes "same_frame st st'" "seg_list st' = seg_list st" "words st' = words st"
  shows "heap_inv st' bs = heap_inv st bs"
  using assms by (simp add: heap_inv_def base_inv_def same_frame_def)

lemma PUT_TAG_at [simp]:
  "heap_wf st \<Longrightarrow> heap_start st = lo \<Longrightarrow> j < nwords st \<Longrightarrow> words st j = tagw k a \<Longrightarrow>
   PUT_TAG (at lo j) v st = Some (put_at j v st)"
  by (simp add: PUT_TAG_def)

lemma mm_free_ok:
  assumes inv: "heap_inv st (pre @ (i, k, True) # post)" and lo: "heap_start st = lo"
  shows "\<exists>st'. mm_free (at lo i) st = Some st' \<and> same_frame st st' \<and>
    heap_inv st' (merge_at pre i k post) \<and> keeps (alloc_set (pre @ post)) st st'"
proof -
  note E = heap_inv_env [OF inv]
  from next_tag [OF inv] obtain l b where nt: "words st (i + k - 1) = tagw l b"
    by (auto split: if_splits)
  let ?s1 = "put_at (i + k - 1) (tagw l b) st"
  have b: "i - 1 < nwords st" "i + k - 2 < nwords st" "i + k - 1 < nwords st" "i - 1 \<noteq> i + k - 2"
  proof -
    from inv have "tiles 4 (pre @ (i, k, True) # post) (nwords st)" "frame_words (nwords st) (words st)"
      by (simp_all add: heap_inv_def base_inv_def)
    then show "i + k - 1 < nwords st" using E by linarith
  qed (use E in linarith)+
  have w1: "words ?s1 = words st" using put_same_words [OF E(1) b(3)] nt by simp
  have inv1: "heap_inv ?s1 (pre @ (i, k, True) # post)"
    using inv heap_inv_cong [of st ?s1] w1 by simp
  have lo1: "heap_start ?s1 = lo" using lo by simp
  from release [OF inv1 lo1] obtain st2 bp st' where r:
    "node_add (at lo i) (sz k) (put_at (i + k - 2) (tagw k False) (put_at (i - 1) (tagw k False) ?s1)) = Some st2"
    "coalesce (at lo i) st2 = Some (bp, st')" "same_frame ?s1 st'"
    "heap_inv st' (merge_at pre i k post)" "keeps (alloc_set (pre @ post)) ?s1 st'" by blast
  have g: "GET_SIZE (HDRP (at lo i)) st = Some (sz k)" "NEXT_BLKP (at lo i) st = Some (at lo (i + k))"
    "TAG_REMOVE (HDRP (at lo (i + k))) st = Some ?s1"
    using E lo b nt by (simp_all add: NEXT_BLKP_at [where k = k])
  let ?s2 = "put_at (i - 1) (tagw k False) ?s1"
  have wf1: "heap_wf ?s1" and n1: "nwords ?s1 = nwords st" using E by simp_all
  have p1: "PUT_TAG (HDRP (at lo i)) (tagw k False) ?s1 = Some ?s2"
    using E lo1 wf1 n1 b PUT_TAG_at [of ?s1 lo "i - 1" k True] w1 by simp
  have w2: "words ?s2 = (words st)(i - 1 := tagw k False)"
    using words_put_at [of ?s1 "i - 1" "tagw k False"] w1 wf1 n1 b by simp
  have p2: "FTRP (at lo i) ?s2 = Some (at lo (i + k - 2))"
    using E lo b by (simp add: FTRP_at [where k = k])
  have p3: "PUT_TAG (at lo (i + k - 2)) (tagw k False) ?s2 = Some (put_at (i + k - 2) (tagw k False) ?s2)"
  proof (rule PUT_TAG_at)
    show "words ?s2 (i + k - 2) = tagw k True" unfolding w2 using b(4) E(6) by simp
  qed (use E lo b in simp_all)
  have "mm_free (at lo i) st = Some st'"
    by (simp only: mm_free_def g p1 p2 p3 PACK_sz r(1,2) Option.bind_lunit split_conv)
  moreover have "keeps (alloc_set (pre @ post)) st st'"
    using r(5) w1 by (simp add: keeps_def)
  moreover have "same_frame st st'" using r(3) by (simp add: same_frame_def)
  ultimately show ?thesis using r(4) by blast
qed

text \<open>Freeing any allocated block.\<close>

lemma free_alloc:
  assumes inv: "heap_inv st bs" and co: "coalesced bs" and lo: "heap_start st = lo"
    and b: "(i, k) \<in> alloc_set bs"
  shows "\<exists>st' bs'. mm_free (at lo i) st = Some st' \<and> same_frame st st' \<and> heap_inv st' bs' \<and> coalesced bs' \<and>
    alloc_set bs' = alloc_set bs - {(i, k)} \<and> keeps (alloc_set bs - {(i, k)}) st st'"
proof -
  from b have "(i, k, True) \<in> set bs" by (simp add: alloc_set_def)
  then obtain pre post where bs: "bs = pre @ (i, k, True) # post" by (meson split_list)
  from inv have t: "tiles 4 bs (nwords st)" by (simp add: heap_inv_def)
  then have tp: "tiles 4 pre i" "tiles (i + k) post (nwords st)" "4 \<le> k"
    by (auto simp: bs tiles_append)
  have al: "alloc_set bs - {(i, k)} = alloc_set (pre @ post)"
  proof -
    have "(i, k) \<notin> alloc_set (pre @ post)"
      using tiles_mem [OF tp(1), of i k True] tiles_mem [OF tp(2), of i k True] tp(3)
      by (auto simp: alloc_set_def)
    then show ?thesis by (auto simp: bs)
  qed
  from co have c: "coalesced pre" "coalesced post" by (auto simp: bs coalesced_append coalesced_Cons)
  from mm_free_ok [OF inv [unfolded bs] lo] obtain st' where "mm_free (at lo i) st = Some st'"
    "same_frame st st'" "heap_inv st' (merge_at pre i k post)" "keeps (alloc_set (pre @ post)) st st'" by blast
  with merge_coalesced [OF c] merge_alloc [of pre i k post] al show ?thesis by metis
qed

section \<open>The allocator on \<open>memlib.c\<close>\<close>

lemma sz_not_negative: "8 * k < 2 ^ 63 \<Longrightarrow> \<not> sz k <s 0"
proof -
  assume k: "8 * k < 2 ^ 63"
  then have "\<not> bit k 60" by (simp add: bit_iff_odd)
  then have "\<not> bit (sz k) 63" unfolding bit_sz by simp
  then show ?thesis by (simp add: word_sless_alt sint_uint bit_uint_iff)
qed

interpretation memlib: break_provider mem_sbrk
proof
  fix st :: heap_state and k
  assume small: "unat (mem_brk st) + 8 * k < 2 ^ 64"
  then have "unat (mem_brk st + sz k) = unat (mem_brk st) + 8 * k"
    using unat_sz [of k] by (simp add: unat_word_ariths)
  then show "mem_sbrk (sz k) st = (- 1, st) \<or>
      mem_sbrk (sz k) st = (mem_brk st, st\<lparr>mem_brk := mem_brk st + sz k\<rparr>) \<and>
        unat (mem_brk st) + 8 * k \<le> unat (mem_max_addr st)"
    by (auto simp: mem_sbrk_def word_less_nat_alt)
next
  fix st :: heap_state and k
  assume room: "unat (mem_brk st) + 8 * k \<le> unat (mem_max_addr st)" "8 * k < 2 ^ 63"
  with unat_lt64 [of "mem_max_addr st"] have "unat (mem_brk st + sz k) = unat (mem_brk st) + 8 * k"
    using unat_sz [of k] by (simp add: unat_word_ariths)
  with room sz_not_negative [OF room(2)]
  show "mem_sbrk (sz k) st = (mem_brk st, st\<lparr>mem_brk := mem_brk st + sz k\<rparr>)"
    by (simp add: mem_sbrk_def word_less_nat_alt)
qed

text \<open>The block size of a request, in words.\<close>

definition awords :: "nat \<Rightarrow> nat" where
  "awords n = (if n \<le> 16 then 4 else 2 * ((n + 31) div 16))"

lemma awords_props: "4 \<le> awords n" "even (awords n)" "n + 16 \<le> 8 * awords n" "8 * awords n \<le> n + 31 \<or> awords n = 4"
  by (auto simp: awords_def)

lemma align_up_unat: "unat x + 15 < 2 ^ 64 \<Longrightarrow> unat (align_up x) = 16 * ((unat x + 15) div 16)"
proof -
  assume x: "unat x + 15 < 2 ^ 64"
  then have "unat (x + 15) = unat x + 15" by (simp add: unat_word_ariths)
  then have d: "unat ((x + 15) div 16) = (unat x + 15) div 16" by (simp add: unat_div)
  moreover have "16 * ((unat x + 15) div 16) < 2 ^ 64" using x by linarith
  ultimately have "unat (16 * ((x + 15) div 16)) = 16 * ((unat x + 15) div 16)"
    by (simp add: unat_word_ariths)
  moreover have "x + 16 - 1 = x + 15" by simp
  ultimately show ?thesis by (simp only: align_up_def)
qed

lemma adjusted_size_awords:
  assumes w: "unat w + 31 < 2 ^ 64"
  shows "adjusted_size w = sz (awords (unat w))"
proof (cases "w \<le> DSIZE")
  case True
  then have "unat w \<le> 16" by (simp add: DSIZE_def word_le_nat_alt)
  with True show ?thesis by (simp add: adjusted_size_def awords_def sz_def DSIZE_def)
next
  case False
  then have w16: "\<not> unat w \<le> 16" by (simp add: DSIZE_def word_le_nat_alt)
  have s: "unat (w + 16) = unat w + 16" using w by (simp add: unat_word_ariths)
  then have "unat (align_up (w + 16)) = 16 * ((unat w + 31) div 16)"
    using align_up_unat [of "w + 16"] w by simp
  moreover have "awords (unat w) < 2 ^ 61"
    using w16 w awords_props(4) [of "unat w"] by (auto simp: awords_def)
  then have "unat (sz (awords (unat w))) = 8 * awords (unat w)" by (rule unat_sz)
  ultimately have "unat (align_up (w + 16)) = unat (sz (awords (unat w)))" using w16 by (simp add: awords_def)
  with False show ?thesis by (simp add: adjusted_size_def word_unat_eq_iff)
qed

section \<open>Payloads\<close>

text \<open>\<open>allocator st A\<close>: the heap is well formed and coalesced, and its allocated blocks are \<open>A\<close>, pairs of
  a first word and a length in words.\<close>

definition allocator :: "heap_state \<Rightarrow> (nat \<times> nat) set \<Rightarrow> bool" where
  "allocator st A \<longleftrightarrow> (\<exists>bs. heap_inv st bs \<and> coalesced bs \<and> alloc_set bs = A)"

lemma allocator_blocks:
  assumes al: "allocator st A" and x: "x \<in> A"
  shows "4 \<le> fst x" "4 \<le> snd x" "even (fst x)" "fst x + snd x \<le> nwords st" "finite A"
    "\<And>y. y \<in> A \<Longrightarrow> x \<noteq> y \<Longrightarrow> clear x y"
proof -
  from al obtain bs where bs: "heap_inv st bs" "alloc_set bs = A" by (auto simp: allocator_def)
  from bs(1) have t: "tiles 4 bs (nwords st)" by (simp add: heap_inv_def)
  have mem: "(fst y, snd y, True) \<in> set bs" if "y \<in> A" for y
    using that bs(2) by (auto simp: alloc_set_def)
  from tiles_mem [OF t mem [OF x]] tiles_mem_even [OF t _ mem [OF x]]
  show "4 \<le> fst x" "4 \<le> snd x" "even (fst x)" "fst x + snd x \<le> nwords st" by simp_all
  show "clear x y" if "y \<in> A" "x \<noteq> y" for y
    using tiles_clear [OF t mem [OF x] mem [OF that(1)]] that by (auto simp: prod_eq_iff)
  have "A \<subseteq> (\<lambda>b. (fst b, fst (snd b))) ` set bs" using mem by force
  then show "finite A" by (rule finite_subset) simp
qed

text \<open>The client writes to the payload of an allocated block: the words from \<open>i\<close> up to its footer.\<close>

lemma payload_write:
  assumes al: "allocator st A" and b: "(i, k) \<in> A" and same: "same_frame st st'" "seg_list st' = seg_list st"
    and out: "\<And>j. j < i \<or> i + k - 2 \<le> j \<Longrightarrow> words st' j = words st j"
  shows "allocator st' A" "keeps (A - {(i, k)}) st st'"
proof -
  from al obtain bs where bs: "heap_inv st bs" "coalesced bs" "alloc_set bs = A" by (auto simp: allocator_def)
  from bs(1) have t: "tiles 4 bs (nwords st)" and base: "base_inv st bs (free_set bs)"
    by (simp_all add: heap_inv_def)
  from b bs(3) have B: "(i, k, True) \<in> set bs" by (auto simp: alloc_set_def)
  note bi = tiles_mem [OF t B]
  have tags: "words st' (u - 1) = words st (u - 1) \<and> words st' (u + m - 2) = words st (u + m - 2)"
    if x: "(u, m, c) \<in> set bs" for u m c
  proof (cases "(u, m, c) = (i, k, True)")
    case True
    have "u - 1 < i" using True bi by simp
    then show ?thesis using out True by auto
  next
    case False
    from tiles_clear [OF t x B False] tiles_mem [OF t x] bi show ?thesis
      by (intro conjI out) (auto simp: clear_def)
  qed
  have "segs_ok (heap_start st) (nwords st) (words st') (seg_list st) (free_set bs)"
  proof (rule segs_ok_cong)
    show "segs_ok (heap_start st) (nwords st) (words st) (seg_list st) (free_set bs)" "nwords st < 2 ^ 61"
      using base nwords_61 by (simp_all add: base_inv_def)
    fix x assume "x \<in> free_set bs"
    then have x: "(fst x, snd x, False) \<in> set bs" by (auto simp: free_set_def)
    from tiles_clear [OF t x B] tiles_mem [OF t x] bi tags [OF x]
    show "wsize (words st' (fst x - 1)) = wsize (words st (fst x - 1)) \<and>
        words st' (fst x) = words st (fst x) \<and> words st' (fst x + 1) = words st (fst x + 1)"
      by (auto simp: clear_def intro!: out)
  qed
  moreover have "tags_ok (words st') bs" using base tags by (fastforce simp: base_inv_def tags_ok_def)
  moreover have "frame_words (nwords st) (words st')"
  proof -
    have "words st' 1 = words st 1" "words st' 2 = words st 2" "words st' (nwords st - 1) = words st (nwords st - 1)"
      using bi by (auto intro!: out)
    with base show ?thesis by (simp add: base_inv_def frame_words_def)
  qed
  ultimately have "base_inv st' bs (free_set bs)" using base same by (simp add: base_inv_def same_frame_def)
  with t same bs show "allocator st' A" by (auto simp: allocator_def heap_inv_def same_frame_def)
  have "words st' j = words st j" if x: "x \<in> A - {(i, k)}" "fst x - 1 \<le> j" "j < fst x + snd x - 1" for x j
  proof -
    have "clear x (i, k)" "4 \<le> snd x" "4 \<le> fst x"
      using allocator_blocks [OF al, of x] x b by auto
    with x bi show ?thesis by (intro out) (auto simp: clear_def)
  qed
  then show "keeps (A - {(i, k)}) st st'" unfolding keeps_def by blast
qed

section \<open>The calls\<close>

lemma fresh_heap:
  assumes addr: "16 dvd unat addr" "unat addr + 2 ^ 40 < 2 ^ 64"
    and init: "mem_init addr st = Some st0"
  shows "heap_wf st0" "mem_brk st0 = addr" "heap_start st0 = addr"
    "unat (mem_max_addr st0) = unat addr + 2 ^ 40"
proof -
  have "unat MAX_HEAP_SIZE = 2 ^ 40" by (simp add: MAX_HEAP_SIZE_def push_bit_of_1)
  then have "unat (addr + MAX_HEAP_SIZE) = unat addr + 2 ^ 40" using addr by (simp add: unat_word_ariths)
  with init addr show "heap_wf st0" "mem_brk st0 = addr" "heap_start st0 = addr"
    "unat (mem_max_addr st0) = unat addr + 2 ^ 40"
    by (auto simp: mem_init_def mem_reset_brk_def heap_wf_def nwords_def split: if_splits)
qed

lemma allocator_init: "heap_inv st [(4, k, False)] \<Longrightarrow> allocator st {}"
  by (force simp: allocator_def)

lemma boot:
  assumes "16 dvd unat addr" "unat addr + 2 ^ 40 < 2 ^ 64" "mem_init addr st = Some st0"
  shows "\<exists>st'. mm_init st0 = Some (True, st') \<and> heap_inv st' [(4, 2048, False)] \<and> allocator st' {} \<and>
    heap_start st' = addr \<and> mem_max_addr st' = mem_max_addr st0 \<and> mem_brk st' \<le> mem_max_addr st'"
proof -
  note f = fresh_heap [OF assms]
  have b: "mem_brk st0 = heap_start st0" "unat (mem_brk st0) + 8 * 2052 < 2 ^ 64"
    "unat (mem_brk st0) + 8 * 2052 \<le> unat (mem_max_addr st0)" using f assms(2) by simp_all
  from memlib.mm_init_cases [OF f(1) b(1) f(3) b(2)] b(3) show ?thesis
    by (auto simp: mm_init_def word_le_nat_alt intro: allocator_init)
qed

context break_provider
begin

lemma alloc_step:
  assumes "allocator st A" "w \<noteq> 0" "unat w < 2 ^ 62" "unat (mem_brk st) < 2 ^ 63"
  shows "\<exists>p st'. malloc_with sbrk w st = Some (p, st') \<and> heap_start st' = heap_start st \<and> mem_max_addr st' = mem_max_addr st \<and>
    keeps A st st' \<and> unat (mem_brk st') \<le> unat (mem_brk st) + 8 * max (awords (unat w)) 2048 \<and>
    (if p = NULL then st' = st \<and> unat (mem_max_addr st) < unat (mem_brk st) + 8 * max (awords (unat w)) 2048
     else \<exists>i m. p = at (heap_start st) i \<and> (i, m) \<notin> A \<and> allocator st' (insert (i, m) A) \<and>
       awords (unat w) \<le> m \<and> m \<le> awords (unat w) + 4 \<and> (mem_brk st \<le> mem_max_addr st \<longrightarrow> mem_brk st' \<le> mem_max_addr st))"
proof -
  let ?a = "awords (unat w)"
  from assms(1) obtain bs where bs: "heap_inv st bs" "coalesced bs" "alloc_set bs = A"
    by (auto simp: allocator_def)
  have a: "adjusted_size w = sz ?a" using assms(3) by (intro adjusted_size_awords) simp
  have small: "unat (mem_brk st) + 8 * max ?a 2048 < 2 ^ 64"
    using assms(3,4) awords_props(4) [of "unat w"] by (auto simp: max_def)
  from malloc_cases [OF bs(1,2) refl assms(2) a awords_props(1,2) small] obtain p st' bs' where
    p: "malloc_with sbrk w st = Some (p, st')" "heap_inv st' bs'" "coalesced bs'" "heap_start st' = heap_start st"
      "mem_max_addr st' = mem_max_addr st" "keeps (alloc_set bs) st st'"
      "if p = NULL then st' = st \<and> bs' = bs \<and> \<not> fits ?a bs \<and>
         (unat (mem_max_addr st) < unat (mem_brk st) + 8 * max ?a 2048 \<or> 2 ^ 63 \<le> 8 * max ?a 2048)
       else unat (mem_brk st') = unat (mem_brk st) + (if fits ?a bs then 0 else 8 * max ?a 2048) \<and>
         (fits ?a bs \<or> unat (mem_brk st') \<le> unat (mem_max_addr st)) \<and>
         (\<exists>i m. p = at (heap_start st) i \<and> ?a \<le> m \<and> m \<le> ?a + 4 \<and> (i, m) \<notin> alloc_set bs \<and>
           alloc_set bs' = insert (i, m) (alloc_set bs) \<and>
           (fits ?a bs \<longrightarrow> (\<exists>k. (i, k) \<in> free_set bs \<and> ?a \<le> k \<and> (\<forall>y \<in> free_set bs. ?a \<le> snd y \<longrightarrow> k \<le> snd y))))"
    by blast
  show ?thesis
  proof (cases "p = NULL")
    case True
    have nb: "\<not> 2 ^ 63 \<le> 8 * max ?a 2048" using assms(3) awords_props(4) [of "unat w"] by (auto simp: max_def)
    from p(7) True have "st' = st \<and> (unat (mem_max_addr st) < unat (mem_brk st) + 8 * max ?a 2048 \<or> 2 ^ 63 \<le> 8 * max ?a 2048)"
      by (simp only: if_True simp_thms)
    with nb have "st' = st" "unat (mem_max_addr st) < unat (mem_brk st) + 8 * max ?a 2048" by blast+
    with True p(1,4-6) bs(3) show ?thesis by simp
  next
    case False
    with p(7) obtain i m where im: "p = at (heap_start st) i" "?a \<le> m" "m \<le> ?a + 4" "(i, m) \<notin> A"
      "alloc_set bs' = insert (i, m) A" "fits ?a bs \<longrightarrow> unat (mem_brk st') = unat (mem_brk st)"
      "fits ?a bs \<or> unat (mem_brk st') \<le> unat (mem_max_addr st)" unfolding bs(3) by auto
    then have "allocator st' (insert (i, m) A)" using p(2,3) by (auto simp: allocator_def)
    moreover have "mem_brk st \<le> mem_max_addr st \<longrightarrow> mem_brk st' \<le> mem_max_addr st"
      using im(6,7) by (auto simp: word_le_nat_alt)
    ultimately have "\<exists>i m. p = at (heap_start st) i \<and> (i, m) \<notin> A \<and> allocator st' (insert (i, m) A) \<and>
        ?a \<le> m \<and> m \<le> ?a + 4 \<and> (mem_brk st \<le> mem_max_addr st \<longrightarrow> mem_brk st' \<le> mem_max_addr st)"
      using im(1-4) by blast
    moreover have "unat (mem_brk st') \<le> unat (mem_brk st) + 8 * max ?a 2048" using p(7) False by auto
    ultimately show ?thesis using False p(1,4-6) bs(3) by simp
  qed
qed

end

lemmas malloc_step = memlib.alloc_step [folded mm_malloc_def]

lemma free_step:
  assumes "allocator st A" "(i, k) \<in> A"
  shows "\<exists>st'. mm_free (at (heap_start st) i) st = Some st' \<and> allocator st' (A - {(i, k)}) \<and>
    keeps (A - {(i, k)}) st st' \<and> same_frame st st'"
proof -
  from assms(1) obtain bs where bs: "heap_inv st bs" "coalesced bs" "alloc_set bs = A"
    by (auto simp: allocator_def)
  from free_alloc [OF bs(1,2) refl, of i k] assms(2) bs(3) show ?thesis by (auto simp: allocator_def)
qed

end
