(* ===== verification/Mm_Calls.thy ===== *)
theory Mm_Calls
  imports Mm_Heap
begin

text \<open>
  What \<open>mm_init\<close>, \<open>malloc\<close>, \<open>free\<close>, \<open>realloc\<close> and \<open>calloc\<close> of \<open>mm.c\<close> promise their client, one
  call at a time and over every run of calls, and where they break these promises.
\<close>

section \<open>A heap to start from\<close>

definition start_state :: heap_state where
  "start_state = \<lparr>hmem = (\<lambda>_. 0), heap_start = 0, mem_brk = 0, mem_max_addr = 0, heap_listp = 0, seg_list = []\<rparr>"

definition booted :: heap_state where
  "booted = snd (the (mm_init (the (mem_init 4096 start_state))))"

lemma booted:
  "mm_init (the (mem_init 4096 start_state)) = Some (True, booted)"
  "allocator booted {}" "heap_inv booted [(4, 2048, False)]" "heap_start booted = 4096"
  "unat (mem_brk booted) < 2 ^ 63" "mem_brk booted \<le> mem_max_addr booted" "unat (mem_max_addr booted) = 2 ^ 40 + 4096"
proof -
  have i: "mem_init 4096 start_state = Some (the (mem_init 4096 start_state))" by (simp add: mem_init_def)
  have a: "16 dvd unat (4096 :: u64)" "unat (4096 :: u64) + 2 ^ 40 < 2 ^ 64" by simp_all
  from boot [OF a i] obtain st' where
    st': "mm_init (the (mem_init 4096 start_state)) = Some (True, st')" "heap_inv st' [(4, 2048, False)]"
      "allocator st' {}" "heap_start st' = 4096" "mem_brk st' \<le> mem_max_addr st'"
      "mem_max_addr st' = mem_max_addr (the (mem_init 4096 start_state))" by blast
  moreover from this have b: "booted = st'" by (simp add: booted_def)
  moreover have "unat (mem_max_addr st') = 2 ^ 40 + 4096"
    using fresh_heap(4) [OF a i] st'(6) by simp
  moreover from this st'(5) have "unat (mem_brk st') < 2 ^ 63" by (simp add: word_le_nat_alt)
  ultimately show "mm_init (the (mem_init 4096 start_state)) = Some (True, booted)"
    "allocator booted {}" "heap_inv booted [(4, 2048, False)]" "heap_start booted = 4096"
    "unat (mem_brk booted) < 2 ^ 63" "mem_brk booted \<le> mem_max_addr booted" "unat (mem_max_addr booted) = 2 ^ 40 + 4096"
    by simp_all
qed

section \<open>Single calls\<close>

text \<open>C12: After \<open>mem_init\<close> at an address aligned to 16 bytes (as \<open>mmap\<close> returns it), \<open>mm_init\<close> is
  defined and succeeds: the heap is well formed, its blocks are the prologue, one free block of
  \<open>CHUNKSIZE\<close> bytes and the epilogue, and nothing is allocated.\<close>

theorem mm_init_ok:
  assumes "16 dvd unat addr" "unat addr + 2 ^ 40 < 2 ^ 64" "mem_init addr st = Some st0"
  shows "\<exists>st'. mm_init st0 = Some (True, st') \<and> heap_inv st' [(4, 2048, False)] \<and> allocator st' {} \<and>
    heap_start st' = addr \<and> mem_max_addr st' = mem_max_addr st0 \<and> mem_brk st' \<le> mem_max_addr st'"
  by (rule boot [OF assms])

theorem mm_init_ok_witness:
  "\<exists>st'. mm_init (the (mem_init 4096 start_state)) = Some (True, st') \<and> heap_inv st' [(4, 2048, False)]"
  using mm_init_ok [of 4096 start_state "the (mem_init 4096 start_state)"]
  by (auto simp: mem_init_def)

text \<open>C3: \<open>mm_malloc\<close> of a positive size returns \<open>NULL\<close>, and then it changes nothing and the heap
  could not grow by the block (or by \<open>CHUNKSIZE\<close>) without passing its limit; or it returns a block that
  was not allocated before, of the smallest multiple of 16 bytes that holds the request and both
  tags, or at most 32 bytes more. The blocks allocated before keep their words, and the heap stays
  well formed and coalesced.\<close>

theorem mm_malloc_ok:
  assumes "allocator st A" "w \<noteq> 0" "unat w < 2 ^ 62" "unat (mem_brk st) < 2 ^ 63"
  shows "\<exists>p st'. mm_malloc w st = Some (p, st') \<and> heap_start st' = heap_start st \<and> mem_max_addr st' = mem_max_addr st \<and>
    keeps A st st' \<and> unat (mem_brk st') \<le> unat (mem_brk st) + 8 * max (awords (unat w)) 2048 \<and>
    (if p = NULL then st' = st \<and> unat (mem_max_addr st) < unat (mem_brk st) + 8 * max (awords (unat w)) 2048
     else \<exists>i m. p = at (heap_start st) i \<and> (i, m) \<notin> A \<and> allocator st' (insert (i, m) A) \<and>
       awords (unat w) \<le> m \<and> m \<le> awords (unat w) + 4 \<and> (mem_brk st \<le> mem_max_addr st \<longrightarrow> mem_brk st' \<le> mem_max_addr st))"
  by (rule malloc_step [OF assms])

theorem mm_malloc_ok_witness:
  "\<exists>p st' i m. mm_malloc 100 booted = Some (p, st') \<and> p \<noteq> NULL \<and> p = at 4096 i \<and>
     allocator st' {(i, m)} \<and> 16 \<le> m \<and> m \<le> 20"
proof -
  have aw: "awords 100 = 16" by (simp add: awords_def)
  have n: "nwords booted = 2052" using booted(3) by (simp add: heap_inv_def)
  have "unat (mem_brk booted) = 4096 + 8 * 2052"
    using booted(3,4) n by (simp add: heap_inv_def base_inv_def heap_wf_def)
  then have "\<not> unat (mem_max_addr booted) < unat (mem_brk booted) + 8 * max 16 2048"
    using booted(7) by simp
  with mm_malloc_ok [of booted "{}" 100] booted(2,4,5) aw show ?thesis by (auto split: if_splits)
qed

lemma best_fit_step:
  assumes "heap_inv st bs" "coalesced bs" "w \<noteq> 0" "unat w < 2 ^ 62" "unat (mem_brk st) < 2 ^ 63"
    and "fits (awords (unat w)) bs"
  shows "\<exists>i k st'. mm_malloc w st = Some (at (heap_start st) i, st') \<and> mem_brk st' = mem_brk st \<and>
    (i, k) \<in> free_set bs \<and> awords (unat w) \<le> k \<and>
    (\<forall>y \<in> free_set bs. awords (unat w) \<le> snd y \<longrightarrow> k \<le> snd y)"
proof -
  let ?a = "awords (unat w)"
  have a: "adjusted_size w = sz ?a" using assms(4) by (intro adjusted_size_awords) simp
  have small: "unat (mem_brk st) + 8 * max ?a 2048 < 2 ^ 64"
    using assms(4,5) awords_props(4) [of "unat w"] by (auto simp: max_def)
  from memlib.malloc_cases [OF assms(1,2) refl assms(3) a awords_props(1,2) small] assms(6)
  obtain st' i k where p: "mm_malloc w st = Some (at (heap_start st) i, st')"
    "unat (mem_brk st') = unat (mem_brk st)" "(i, k) \<in> free_set bs" "?a \<le> k"
    "\<forall>y \<in> free_set bs. ?a \<le> snd y \<longrightarrow> k \<le> snd y"
    unfolding mm_malloc_def by (simp del: split_paired_Ex split: if_splits) blast
  from p(2) have "mem_brk st' = mem_brk st" by (simp only: word_unat_eq_iff)
  with p show ?thesis by blast
qed

text \<open>C10: When some free block is large enough, \<open>mm_malloc\<close> does not move the break and returns
  the beginning of a smallest one of them (best fit).\<close>

theorem mm_malloc_best_fit:
  assumes "heap_inv st bs" "coalesced bs" "w \<noteq> 0" "unat w < 2 ^ 62" "unat (mem_brk st) < 2 ^ 63"
    and "fits (awords (unat w)) bs"
  shows "\<exists>i k st'. mm_malloc w st = Some (at (heap_start st) i, st') \<and> mem_brk st' = mem_brk st \<and>
    (i, k) \<in> free_set bs \<and> awords (unat w) \<le> k \<and>
    (\<forall>y \<in> free_set bs. awords (unat w) \<le> snd y \<longrightarrow> k \<le> snd y)"
  by (rule best_fit_step [OF assms])

theorem mm_malloc_best_fit_witness:
  "\<exists>st'. mm_malloc 100 booted = Some (at 4096 4, st') \<and> mem_brk st' = mem_brk booted"
proof -
  have "fits (awords 100) [(4, 2048, False)]" by (simp add: fits_def awords_def)
  with mm_malloc_best_fit [of booted "[(4, 2048, False)]" 100] booted show ?thesis by auto
qed

text \<open>C4: \<open>mm_free\<close> of an allocated block is defined, makes exactly that block free, merges it with
  its free neighbours (no two free blocks are left side by side), and keeps the words of every
  other allocated block.\<close>

theorem mm_free_releases:
  assumes "allocator st A" "(i, k) \<in> A"
  shows "\<exists>st'. mm_free (at (heap_start st) i) st = Some st' \<and> allocator st' (A - {(i, k)}) \<and>
    keeps (A - {(i, k)}) st st' \<and> same_frame st st'"
  by (rule free_step [OF assms])

lemma one_block: "\<exists>st i m. mm_malloc 100 booted = Some (at 4096 i, st) \<and> allocator st {(i, m)} \<and>
    heap_start st = 4096 \<and> unat (mem_brk st) < 2 ^ 63 \<and> 16 \<le> m \<and> m \<le> 20"
proof -
  have aw: "awords (unat (100 :: u64)) = 16" by (simp add: awords_def)
  have n: "nwords booted = 2052" using booted(3) by (simp add: heap_inv_def)
  have "unat (mem_brk booted) = 4096 + 8 * 2052"
    using booted(3,4) n by (simp add: heap_inv_def base_inv_def heap_wf_def)
  then have nr: "\<not> unat (mem_max_addr booted) < unat (mem_brk booted) + 8 * max 16 2048"
    using booted(7) by simp
  have "(100 :: u64) \<noteq> 0" "unat (100 :: u64) < 2 ^ 62" by simp_all
  from malloc_step [OF booted(2) this booted(5), unfolded aw booted(4)] nr booted(6,7)
  show ?thesis by (auto simp: word_le_nat_alt split: if_splits) blast+
qed

theorem mm_free_releases_witness:
  "\<exists>st p st'. mm_malloc 100 booted = Some (p, st) \<and> mm_free p st = Some st' \<and> allocator st' {}"
proof -
  from one_block obtain st i m where "mm_malloc 100 booted = Some (at 4096 i, st)" "allocator st {(i, m)}"
    "heap_start st = 4096" by blast
  with mm_free_releases [of st "{(i, m)}" i m] show ?thesis by auto
qed

section \<open>Copies and fills inside the heap\<close>

lemma load64_shift:
  "(\<And>k. k < 8 \<Longrightarrow> m' (a + of_nat k) = m (b + of_nat k)) \<Longrightarrow> load64 m' a = load64 m b"
  by (intro bit_word_eqI) (auto simp: bit_load64)

lemma hmem_upd_simps [simp]:
  "nwords (st\<lparr>hmem := m\<rparr>) = nwords st" "heap_wf (st\<lparr>hmem := m\<rparr>) = heap_wf st"
  "same_frame st (st\<lparr>hmem := m\<rparr>)"
  by (simp_all add: nwords_def heap_wf_def same_frame_def)

lemma offset_at: "at lo j + of_nat t - at lo i = of_nat (8 * j + t) - of_nat (8 * i)"
  by (simp add: at_def)

lemma words_outside:
  assumes wf: "heap_wf st" and ic: "i + c \<le> nwords st"
    and same: "\<And>b. \<not> unat (b - at (heap_start st) i) < 8 * c \<Longrightarrow> m' b = hmem st b"
    and j: "j < i \<or> i + c \<le> j"
  shows "words (st\<lparr>hmem := m'\<rparr>) j = words st j"
proof (cases "j < nwords st")
  case True
  note n = nwords_61 [OF wf]
  have "load64 m' (at (heap_start st) j) = load64 (hmem st) (at (heap_start st) j)"
  proof (rule load64_cong)
    fix t :: nat assume t: "t < 8"
    let ?x = "of_nat (8 * j + t) :: u64" and ?y = "of_nat (8 * i) :: u64"
    have u: "unat ?x = 8 * j + t" "unat ?y = 8 * i"
      using True t ic n by (simp_all only: unat_of_nat) (simp_all add: word_size)
    have "\<not> unat (?x - ?y) < 8 * c"
    proof (cases "?y \<le> ?x")
      case True
      then have "unat (?x - ?y) = 8 * j + t - 8 * i" using u by (simp only: unat_sub)
      moreover have "i + c \<le> j" using True j t u by (simp only: word_le_nat_alt) linarith
      ultimately show ?thesis using ic by linarith
    next
      case False
      then have "unat (?x - ?y) = 2 ^ 64 + (8 * j + t) - 8 * i"
        using u by (simp only: unat_sub_if_size word_size word_le_nat_alt if_False) simp
      moreover have "8 * i + 8 * c < 2 ^ 64" using ic n by simp
      ultimately show ?thesis by linarith
    qed
    then show "m' (at (heap_start st) j + of_nat t) = hmem st (at (heap_start st) j + of_nat t)"
      by (intro same) (simp only: offset_at not_False_eq_True)
  qed
  with True show ?thesis by (simp add: words_def)
qed (simp add: words_def)

lemma words_copied:
  assumes wf: "heap_wf st" and lo: "heap_start st = lo" and ij: "i + c \<le> nwords st" "i' + c \<le> nwords st"
    and t: "t < c"
  shows "words (st\<lparr>hmem := copied (hmem st) (at lo i') (at lo i) (8 * c)\<rparr>) (i' + t) = words st (i + t)"
proof -
  note n = nwords_61 [OF wf]
  have "load64 (copied (hmem st) (at lo i') (at lo i) (8 * c)) (at lo (i' + t)) = load64 (hmem st) (at lo (i + t))"
  proof (rule load64_shift)
    fix k :: nat assume k: "k < 8"
    have a: "at lo (x + t) + of_nat k = at lo x + of_nat (8 * t + k)" for x by (simp add: at_def)
    have "unat (of_nat (8 * t + k) :: u64) = 8 * t + k"
      using t k ij n by (simp only: unat_of_nat) simp
    then show "copied (hmem st) (at lo i') (at lo i) (8 * c) (at lo (i' + t) + of_nat k) =
        hmem st (at lo (i + t) + of_nat k)"
      unfolding a using t k by (simp add: copied_def)
  qed
  with ij t lo show ?thesis by (simp add: words_def)
qed

lemma no_overlap_at:
  assumes wf: "heap_wf st" and lo: "heap_start st = lo" and ij: "i + c \<le> nwords st" "i' + c \<le> nwords st"
    and ap: "i + c \<le> i' \<or> i' + c \<le> i"
  shows "no_overlap (at lo i') (at lo i) (8 * c)"
proof -
  note n = nwords_61 [OF wf]
  have d: "8 * c \<le> unat (of_nat (8 * x) - of_nat (8 * y) :: u64)"
    if xy: "x + c \<le> nwords st" "y + c \<le> nwords st" "x + c \<le> y \<or> y + c \<le> x" for x y
  proof -
    let ?x = "of_nat (8 * x) :: u64" and ?y = "of_nat (8 * y) :: u64"
    have "x < 2 ^ 61" "y < 2 ^ 61" using xy n by linarith+
    then have u: "unat ?x = 8 * x" "unat ?y = 8 * y" by (simp_all only: unat_sz [unfolded sz_def])
    show ?thesis
    proof (cases "?y \<le> ?x")
      case True
      then have "unat (?x - ?y) = 8 * x - 8 * y" using u by (simp only: unat_sub)
      moreover have "8 * y \<le> 8 * x" using True unfolding word_le_nat_alt u .
      ultimately show ?thesis using xy(3) by linarith
    next
      case False
      then have "unat (?x - ?y) = 2 ^ 64 + 8 * x - 8 * y"
        using u by (simp only: unat_sub_if_size word_size word_le_nat_alt if_False) simp
      moreover have "8 * y + 8 * c < 2 ^ 64" using xy n by simp
      ultimately show ?thesis by linarith
    qed
  qed
  have "at lo x - at lo y = of_nat (8 * x) - of_nat (8 * y)" for x y by (simp add: at_def)
  with d [OF ij(2,1)] d [OF ij] ap show ?thesis by (auto simp: no_overlap_def)
qed

lemma range_at:
  assumes "heap_wf st" "heap_start st = lo" "i + c \<le> nwords st" "c < 2 ^ 61"
  shows "in_heap_range st (at lo i) (sz c)"
  using assms unat_at_wf [of st lo i] unat_sz [of c] by (simp add: in_heap_range_def heap_wf_def)

text \<open>Writing bytes of the payload of one block.\<close>

lemma allocated_block:
  assumes al: "allocator st A" and x: "(i, k) \<in> A"
  shows "heap_wf st" "4 \<le> i" "4 \<le> k" "even k" "i + k \<le> nwords st" "words st (i - 1) = tagw k True"
    "words st (i + k - 2) = tagw k True" "at (heap_start st) i \<noteq> NULL"
proof -
  from al obtain bs where bs: "heap_inv st bs" "alloc_set bs = A" by (auto simp: allocator_def)
  then have b: "(i, k, True) \<in> set bs" using x by (auto simp: alloc_set_def)
  from bs(1) have t: "tiles 4 bs (nwords st)" and wf: "heap_wf st" and tags: "tags_ok (words st) bs"
    by (simp_all add: heap_inv_def base_inv_def)
  from tiles_mem [OF t b] tags_okD [OF tags b] wf at_not_NULL [OF wf refl, of i]
  show "heap_wf st" "4 \<le> i" "4 \<le> k" "even k" "i + k \<le> nwords st" "words st (i - 1) = tagw k True"
    "words st (i + k - 2) = tagw k True" "at (heap_start st) i \<noteq> NULL" by simp_all
qed

lemma payload_bytes:
  assumes al: "allocator st A" and b: "(i, k) \<in> A"
    and same: "\<And>a. \<not> unat (a - at (heap_start st) i) < 8 * (k - 2) \<Longrightarrow> m' a = hmem st a"
  shows "allocator (st\<lparr>hmem := m'\<rparr>) A" "keeps (A - {(i, k)}) st (st\<lparr>hmem := m'\<rparr>)"
proof -
  note B = allocated_block [OF al b]
  have out: "words (st\<lparr>hmem := m'\<rparr>) j = words st j" if j: "j < i \<or> i + k - 2 \<le> j" for j
  proof (rule words_outside [OF B(1) _ same])
    show "i + (k - 2) \<le> nwords st" "j < i \<or> i + (k - 2) \<le> j" using B(3,5) j by linarith+
  qed
  have "same_frame st (st\<lparr>hmem := m'\<rparr>)" "seg_list (st\<lparr>hmem := m'\<rparr>) = seg_list st" by simp_all
  from payload_write [OF al b this out]
  show "allocator (st\<lparr>hmem := m'\<rparr>) A" "keeps (A - {(i, k)}) st (st\<lparr>hmem := m'\<rparr>)" by simp_all
qed

lemma outside:
  "n \<le> c \<Longrightarrow> \<not> unat (a - d) < c \<Longrightarrow> copied m d s n a = m a"
  "n \<le> c \<Longrightarrow> \<not> unat (a - d) < c \<Longrightarrow> filled m d v n a = m a"
  by (simp_all add: copied_def filled_def)

section \<open>\<open>realloc\<close> and \<open>calloc\<close>\<close>

text \<open>The payload \<open>realloc\<close> asks for, in words.\<close>

definition rwords :: "nat \<Rightarrow> nat" where
  "rwords n = (if n \<le> 16 then 4 else 2 * ((n + 15) div 16))"

lemma rwords_less: "n < 2 ^ 62 \<Longrightarrow> rwords n < 2 ^ 61"
  by (auto simp: rwords_def)

lemma rwords_asize:
  assumes "unat w < 2 ^ 62"
  shows "(if w \<le> DSIZE then 2 * DSIZE else align_up w) = sz (rwords (unat w))"
proof (cases "w \<le> DSIZE")
  case True
  then have "unat w \<le> 16" by (simp add: DSIZE_def word_le_nat_alt)
  with True show ?thesis by (simp add: rwords_def sz_def DSIZE_def)
next
  case False
  then have w16: "\<not> unat w \<le> 16" by (simp add: DSIZE_def word_le_nat_alt)
  have "unat (align_up w) = unat (sz (rwords (unat w)))"
    using align_up_unat [of w] assms w16 unat_sz [OF rwords_less [OF assms]] by (simp add: rwords_def)
  with False show ?thesis by (simp add: word_unat_eq_iff)
qed

lemma awords_rwords: "even k \<Longrightarrow> k - 2 < rwords n \<Longrightarrow> k \<le> awords n"
  by (auto simp: awords_def rwords_def elim!: evenE)

lemma keepsD:
  "keeps A st st' \<Longrightarrow> (i, k) \<in> A \<Longrightarrow> i - 1 \<le> j \<Longrightarrow> j < i + k - 1 \<Longrightarrow> words st' j = words st j"
  by (force simp: keeps_def)

lemma realloc_moves:
  assumes al: "allocator st A" and b: "(i, k) \<in> A" and w: "w \<noteq> 0" "unat w < 2 ^ 62"
    and big: "\<not> rwords (unat w) \<le> k - 2"
    and malloc: "mm_malloc w st = Some (at (heap_start st) i', st1)" "heap_start st1 = heap_start st"
      "keeps A st st1" "(i', m) \<notin> A" "allocator st1 (insert (i', m) A)" "awords (unat w) \<le> m"
  shows "\<exists>st'. mm_realloc (at (heap_start st) i) w st = Some (at (heap_start st) i', st') \<and>
    allocator st' (insert (i', m) (A - {(i, k)})) \<and> keeps (A - {(i, k)}) st st' \<and>
    (\<forall>j < k - 2. words st' (i' + j) = words st (i + j)) \<and> same_frame st1 st'"
proof -
  let ?lo = "heap_start st" and ?c = "k - 2" and ?B = "insert (i', m) A"
  note old = allocated_block [OF al b]
  have m: "(i', m) \<in> ?B" "(i, k) \<in> ?B" using b by simp_all
  note new = allocated_block [OF malloc(5) m(1)] and old1 = allocated_block [OF malloc(5) m(2)]
  have km: "k \<le> m" using awords_rwords [OF old(4), of "unat w"] big malloc(6) by linarith
  have ne: "(i', m) \<noteq> (i, k)" using malloc(4) b by auto
  have ap: "i + ?c \<le> i' \<or> i' + ?c \<le> i"
    using allocator_blocks(6) [OF malloc(5) m(1,2) ne] km by (auto simp: clear_def)
  have ij: "i + ?c \<le> nwords st1" "i' + ?c \<le> nwords st1" using old1(5) new(5) km by linarith+
  have c61: "?c < 2 ^ 61" using nwords_61 [OF new(1)] ij by linarith
  let ?m2 = "copied (hmem st1) (at ?lo i') (at ?lo i) (8 * ?c)"
  let ?s2 = "st1\<lparr>hmem := ?m2\<rparr>"
  have r61: "rwords (unat w) < 2 ^ 61" by (rule rwords_less [OF w(2)])
  have "sz k - 16 = sz ?c" using sz_sub [of 2 k] old(3) by (simp add: sz_def)
  moreover have "\<not> sz ?c \<ge> sz (rwords (unat w))" using big r61 c61 by (simp only: sz_le not_False_eq_True)
  moreover have "\<not> sz (rwords (unat w)) < sz ?c" using big sz_less [OF r61 c61] by linarith
  moreover have "GET_SIZE (HDRP (at ?lo i)) st = Some (sz k)" using old by simp
  moreover have "mem_memcpy (hmem st1) (at ?lo i') (at ?lo i) (sz ?c) = ?m2"
    using mem_memcpy_copied [of "at ?lo i'" "at ?lo i" "sz ?c"]
      no_overlap_at [OF new(1) malloc(2) ij ap] unat_sz [OF c61] by simp
  moreover have "in_heap_range st1 (at ?lo i') (sz ?c)" "in_heap_range st1 (at ?lo i) (sz ?c)"
    using range_at [OF new(1) malloc(2) _ c61] ij by blast+
  ultimately have step: "mm_realloc (at ?lo i) w st =
      (case mm_free (at ?lo i) ?s2 of None \<Rightarrow> None | Some st' \<Rightarrow> Some (at ?lo i', st'))"
    using w(1) old(8) malloc(1) rwords_asize [OF w(2)]
    by (simp only: mm_realloc_def Let_def if_False simp_thms Option.bind_lunit split_conv guard_simps)
      (simp split: Option.bind_split option.split)
  have s2: "allocator ?s2 ?B" "keeps (?B - {(i', m)}) st1 ?s2"
  proof -
    have "?m2 a = hmem st1 a" if "\<not> unat (a - at (heap_start st1) i') < 8 * (m - 2)" for a
      using that km unfolding malloc(2) by (intro outside) auto
    from payload_bytes [OF malloc(5) m(1) this]
    show "allocator ?s2 ?B" "keeps (?B - {(i', m)}) st1 ?s2" by simp_all
  qed
  have lo2: "heap_start ?s2 = ?lo" using malloc(2) by simp
  from free_step [OF s2(1) m(2)] obtain st' where st': "mm_free (at ?lo i) ?s2 = Some st'"
    "allocator st' (?B - {(i, k)})" "keeps (?B - {(i, k)}) ?s2 st'" "same_frame ?s2 st'" unfolding lo2 by blast
  have eq: "?B - {(i, k)} = insert (i', m) (A - {(i, k)})" using ne by auto
  have "keeps (A - {(i, k)}) st st1" by (rule keeps_mono [OF malloc(3)]) auto
  moreover have "keeps (A - {(i, k)}) st1 ?s2" by (rule keeps_mono [OF s2(2)]) (use malloc(4) in auto)
  moreover have "keeps (A - {(i, k)}) ?s2 st'" by (rule keeps_mono [OF st'(3)]) auto
  ultimately have "keeps (A - {(i, k)}) st st'" by (blast intro: keeps_trans)
  moreover have "words st' (i' + j) = words st (i + j)" if j: "j < ?c" for j
  proof -
    have "words st' (i' + j) = words ?s2 (i' + j)"
      using j km new(2) ne by (intro keepsD [OF st'(3), of i' m]) auto
    also have "\<dots> = words st1 (i + j)" by (rule words_copied [OF new(1) malloc(2) ij j])
    also have "\<dots> = words st (i + j)" using j by (intro keepsD [OF malloc(3) b]) auto
    finally show ?thesis .
  qed
  moreover have "same_frame st1 st'" using st'(4) by (simp add: same_frame_def)
  ultimately show ?thesis using step st'(1,2) eq by auto
qed

lemma realloc_step:
  assumes "allocator st A" "(i, k) \<in> A" "w \<noteq> 0" "unat w < 2 ^ 62" "unat (mem_brk st) < 2 ^ 63"
    and "heap_start st \<noteq> NULL"
  shows "if rwords (unat w) \<le> k - 2 then mm_realloc (at (heap_start st) i) w st = Some (at (heap_start st) i, st)
    else (mm_malloc w st = Some (NULL, st) \<and> mm_realloc (at (heap_start st) i) w st = None) \<or>
      (\<exists>i' m st'. mm_realloc (at (heap_start st) i) w st = Some (at (heap_start st) i', st') \<and>
        (i', m) \<notin> A \<and> awords (unat w) \<le> m \<and> allocator st' (insert (i', m) (A - {(i, k)})) \<and>
        keeps (A - {(i, k)}) st st' \<and> (\<forall>j < k - 2. words st' (i' + j) = words st (i + j)) \<and>
        (\<exists>st1. mm_malloc w st = Some (at (heap_start st) i', st1) \<and> same_frame st1 st'))"
proof (cases "rwords (unat w) \<le> k - 2")
  case True
  note old = allocated_block [OF assms(1,2)]
  have "k < 2 ^ 61" using nwords_61 [OF old(1)] old(5) by linarith
  with True rwords_less [OF assms(4)] have "sz (rwords (unat w)) \<le> sz (k - 2)"
    by (subst sz_le) linarith+
  moreover have "sz k - 16 = sz (k - 2)" using sz_sub [of 2 k] old(3) by (simp add: sz_def)
  moreover have "GET_SIZE (HDRP (at (heap_start st) i)) st = Some (sz k)" using old by simp
  ultimately have "mm_realloc (at (heap_start st) i) w st = Some (at (heap_start st) i, st)"
    using assms(3) old(8) rwords_asize [OF assms(4)]
    by (simp only: mm_realloc_def Let_def if_False if_True simp_thms Option.bind_lunit)
  with True show ?thesis by simp
next
  case False
  note old = allocated_block [OF assms(1,2)]
  from malloc_step [OF assms(1,3-5)] obtain p st1 where p: "mm_malloc w st = Some (p, st1)"
    "heap_start st1 = heap_start st" "keeps A st st1"
    "if p = NULL then st1 = st \<and> unat (mem_max_addr st) < unat (mem_brk st) + 8 * max (awords (unat w)) 2048
     else \<exists>i m. p = at (heap_start st) i \<and> (i, m) \<notin> A \<and> allocator st1 (insert (i, m) A) \<and>
       awords (unat w) \<le> m \<and> m \<le> awords (unat w) + 4 \<and>
       (mem_brk st \<le> mem_max_addr st \<longrightarrow> mem_brk st1 \<le> mem_max_addr st)" by blast
  have k61: "k - 2 < 2 ^ 61" "k - 2 \<noteq> 0" using nwords_61 [OF old(1)] old(3,5) by linarith+
  have size: "sz k - 16 = sz (k - 2)" using sz_sub [of 2 k] old(3) by (simp add: sz_def)
  have g: "GET_SIZE (HDRP (at (heap_start st) i)) st = Some (sz k)" using old by simp
  show ?thesis
  proof (cases "p = NULL")
    case True
    with p(4) have "st1 = st" by simp
    have r61: "rwords (unat w) < 2 ^ 61" by (rule rwords_less [OF assms(4)])
    have c: "\<not> sz (k - 2) \<ge> sz (rwords (unat w))" using False r61 k61(1) by (simp only: sz_le not_False_eq_True)
    have d: "\<not> sz (rwords (unat w)) < sz (k - 2)" using False sz_less [OF r61 k61(1)] by linarith
    have "unat (sz (k - 2)) \<noteq> 0" using unat_sz [OF k61(1)] k61(2) by simp
    then have "sz (k - 2) \<noteq> 0" by (simp only: unat_eq_0 not_False_eq_True)
    moreover have "unat (heap_start st) \<noteq> 0" using assms(6) by (simp only: unat_eq_0 not_False_eq_True)
    ultimately have nr: "\<not> in_heap_range st NULL (sz (k - 2))" by (simp add: in_heap_range_def)
    have "mm_realloc (at (heap_start st) i) w st = None"
      using assms(3) old(8) rwords_asize [OF assms(4)] p(1) nr
      by (simp only: mm_realloc_def Let_def if_False simp_thms Option.bind_lunit split_conv g size c d
          True \<open>st1 = st\<close> guard_simps guard_def Option.bind.bind_lzero)
    with True p(1) \<open>st1 = st\<close> False show ?thesis by simp
  next
    case pn: False
    with p(4) obtain i' m where im: "p = at (heap_start st) i'" "(i', m) \<notin> A" "allocator st1 (insert (i', m) A)"
      "awords (unat w) \<le> m" by auto
    from realloc_moves [OF assms(1-4) False p(1) [unfolded im(1)] p(2,3) im(2,3,4)] im(2,4) False
      p(1) [unfolded im(1)]
    show ?thesis by auto
  qed
qed

text \<open>C5: \<open>mm_realloc\<close> of an allocated block, to a positive size. A payload that is large enough
  stays where it is. Otherwise the block moves: the new block is well formed and at least as large
  as asked for, the old one is free, every word of the old payload is found at the same
  offset of the new one, and all other blocks keep their words. When \<open>mm_malloc\<close> finds no memory the
  call is undefined: \<open>NULL\<close> is not checked before the copy.\<close>

theorem mm_realloc_ok:
  assumes "allocator st A" "(i, k) \<in> A" "w \<noteq> 0" "unat w < 2 ^ 62" "unat (mem_brk st) < 2 ^ 63"
    and "heap_start st \<noteq> NULL"
  shows "if rwords (unat w) \<le> k - 2 then mm_realloc (at (heap_start st) i) w st = Some (at (heap_start st) i, st)
    else (mm_malloc w st = Some (NULL, st) \<and> mm_realloc (at (heap_start st) i) w st = None) \<or>
      (\<exists>i' m st'. mm_realloc (at (heap_start st) i) w st = Some (at (heap_start st) i', st') \<and>
        (i', m) \<notin> A \<and> awords (unat w) \<le> m \<and> allocator st' (insert (i', m) (A - {(i, k)})) \<and>
        keeps (A - {(i, k)}) st st' \<and> (\<forall>j < k - 2. words st' (i' + j) = words st (i + j)))"
  using realloc_step [OF assms] by (auto split: if_splits)

theorem mm_realloc_ok_witness:
  "\<exists>st p. mm_malloc 100 booted = Some (p, st) \<and> mm_realloc p 50 st = Some (p, st)"
proof -
  from one_block obtain st i m where st: "mm_malloc 100 booted = Some (at 4096 i, st)" "allocator st {(i, m)}"
    "heap_start st = 4096" "unat (mem_brk st) < 2 ^ 63" "16 \<le> m" by blast
  have "rwords 50 \<le> m - 2" using st(5) by (simp add: rwords_def)
  with mm_realloc_ok [of st "{(i, m)}" i m 50] st show ?thesis by auto
qed

text \<open>C11: \<open>mm_calloc\<close> whose product does not overflow returns \<open>NULL\<close> and changes nothing, or a
  fresh block that is large enough and all of whose requested bytes are zero; every other block
  keeps its words.\<close>

theorem mm_calloc_ok:
  assumes al: "allocator st A" and n: "unat nmemb * unat w = n" "n \<noteq> 0" "n < 2 ^ 62"
    and brk: "unat (mem_brk st) < 2 ^ 63"
  shows "mm_calloc nmemb w st = Some (NULL, st) \<or>
    (\<exists>i m st'. mm_calloc nmemb w st = Some (at (heap_start st) i, st') \<and> (i, m) \<notin> A \<and>
      allocator st' (insert (i, m) A) \<and> n + 16 \<le> 8 * m \<and> keeps A st st' \<and>
      (\<forall>b. unat (b - at (heap_start st) i) < n \<longrightarrow> hmem st' b = 0))"
proof -
  let ?w = "w * nmemb" and ?lo = "heap_start st"
  have un: "unat ?w = n" using n by (simp add: unat_word_ariths mult.commute)
  then have w0: "?w \<noteq> 0" using n(2) by (metis unat_0)
  from malloc_step [OF al w0 _ brk] un n(3) obtain p st1 where p: "mm_malloc ?w st = Some (p, st1)"
    "heap_start st1 = ?lo" "keeps A st st1"
    "if p = NULL then st1 = st \<and> unat (mem_max_addr st) < unat (mem_brk st) + 8 * max (awords (unat ?w)) 2048
     else \<exists>i m. p = at ?lo i \<and> (i, m) \<notin> A \<and> allocator st1 (insert (i, m) A) \<and>
       awords (unat ?w) \<le> m \<and> m \<le> awords (unat ?w) + 4 \<and>
       (mem_brk st \<le> mem_max_addr st \<longrightarrow> mem_brk st1 \<le> mem_max_addr st)" by blast
  show ?thesis
  proof (cases "p = NULL")
    case True
    with p show ?thesis by (simp add: mm_calloc_def)
  next
    case False
    with p(4) obtain i m where im: "p = at ?lo i" "(i, m) \<notin> A" "allocator st1 (insert (i, m) A)"
      "awords n \<le> m" unfolding un by auto
    have b: "(i, m) \<in> insert (i, m) A" by simp
    note B = allocated_block [OF im(3) b]
    have nm: "n + 16 \<le> 8 * m" using awords_props(3) [of n] im(4) by linarith
    let ?m2 = "filled (hmem st1) (at ?lo i) 0 n"
    let ?s2 = "st1\<lparr>hmem := ?m2\<rparr>"
    have fill: "mem_memset (hmem st1) (at ?lo i) 0 ?w = ?m2"
      using mem_memset_words_filled [of "fill_word 0" 0 "hmem st1" "at ?lo i" ?w] fill_word_byte [of _ 0] un
      by (simp add: mem_memset_def)
    have "in_heap_range st1 (at ?lo i) ?w"
      using B(1,5) p(2) un nm unat_at_wf [OF B(1) p(2), of i] by (auto simp: in_heap_range_def heap_wf_def)
    then have "mm_calloc nmemb w st = Some (at ?lo i, ?s2)"
      using p(1) im(1) False fill by (simp add: mm_calloc_def)
    moreover have s2: "allocator ?s2 (insert (i, m) A)" "keeps (insert (i, m) A - {(i, m)}) st1 ?s2"
    proof -
      have "?m2 a = hmem st1 a" if "\<not> unat (a - at (heap_start st1) i) < 8 * (m - 2)" for a
        using that nm unfolding p(2) by (intro outside) auto
      from payload_bytes [OF im(3) b this]
      show "allocator ?s2 (insert (i, m) A)" "keeps (insert (i, m) A - {(i, m)}) st1 ?s2" by simp_all
    qed
    moreover have "keeps A st1 ?s2" by (rule keeps_mono [OF s2(2)]) (use im(2) in auto)
    then have "keeps A st ?s2" using p(3) by (blast intro: keeps_trans)
    moreover have "\<forall>b. unat (b - at ?lo i) < n \<longrightarrow> hmem ?s2 b = 0" by (simp add: filled_def)
    ultimately show ?thesis using im(2) s2(1) nm by blast
  qed
qed

theorem mm_calloc_ok_witness:
  "mm_calloc 5 20 booted = Some (NULL, booted) \<or>
    (\<exists>i m st'. mm_calloc 5 20 booted = Some (at 4096 i, st') \<and> allocator st' {(i, m)} \<and> 116 \<le> 8 * m \<and>
      (\<forall>b. unat (b - at 4096 i) < 100 \<longrightarrow> hmem st' b = 0))"
  using mm_calloc_ok [of booted "{}" 5 20 100] booted by auto

section \<open>Runs of calls\<close>

text \<open>
  A client: it asks for blocks and frees blocks it holds, the \<open>n\<close>-th of them. It keeps the list of
  its blocks.
\<close>

datatype call = Malloc u64 | Free nat

fun run_calls :: "call list \<Rightarrow> heap_state \<Rightarrow> u64 list \<Rightarrow> (heap_state \<times> u64 list) option" where
  "run_calls [] st live = Some (st, live)"
| "run_calls (Malloc w # cs) st live = do {
     (p, st) \<leftarrow> mm_malloc w st;
     run_calls cs st (if p = NULL then live else live @ [p])
   }"
| "run_calls (Free n # cs) st live =
     (if n < length live then do {
        st \<leftarrow> mm_free (live ! n) st;
        run_calls cs st (take n live @ drop (Suc n) live)
      } else run_calls cs st live)"

definition client_inv :: "heap_state \<Rightarrow> u64 list \<Rightarrow> bool" where
  "client_inv st live \<longleftrightarrow> (\<exists>xs. allocator st (set xs) \<and> distinct xs \<and>
     live = map (\<lambda>x. at (heap_start st) (fst x)) xs) \<and>
     mem_brk st \<le> mem_max_addr st \<and> unat (mem_max_addr st) < 2 ^ 63"

definition sane :: "call \<Rightarrow> bool" where
  "sane c \<longleftrightarrow> (case c of Malloc w \<Rightarrow> unat w < 2 ^ 62 | Free n \<Rightarrow> True)"

lemma client_malloc:
  assumes inv: "client_inv st live" and w: "unat w < 2 ^ 62"
  shows "\<exists>p st'. mm_malloc w st = Some (p, st') \<and> client_inv st' (if p = NULL then live else live @ [p])"
proof (cases "w = 0")
  case True
  with inv show ?thesis by (simp add: mm_malloc_def malloc_with_def)
next
  case False
  from inv obtain xs where xs: "allocator st (set xs)" "distinct xs"
    "live = map (\<lambda>x. at (heap_start st) (fst x)) xs" "mem_brk st \<le> mem_max_addr st"
    "unat (mem_max_addr st) < 2 ^ 63" by (auto simp: client_inv_def)
  then have "unat (mem_brk st) < 2 ^ 63" by (simp add: word_le_nat_alt)
  from malloc_step [OF xs(1) False w this] obtain p st' where p: "mm_malloc w st = Some (p, st')"
    "heap_start st' = heap_start st" "mem_max_addr st' = mem_max_addr st"
    "if p = NULL then st' = st \<and> unat (mem_max_addr st) < unat (mem_brk st) + 8 * max (awords (unat w)) 2048
     else \<exists>i m. p = at (heap_start st) i \<and> (i, m) \<notin> set xs \<and> allocator st' (insert (i, m) (set xs)) \<and>
       awords (unat w) \<le> m \<and> m \<le> awords (unat w) + 4 \<and>
       (mem_brk st \<le> mem_max_addr st \<longrightarrow> mem_brk st' \<le> mem_max_addr st)" by blast
  show ?thesis
  proof (cases "p = NULL")
    case True
    with p inv show ?thesis by simp
  next
    case pn: False
    with p(4) obtain i m where im: "p = at (heap_start st) i" "(i, m) \<notin> set xs"
      "allocator st' (insert (i, m) (set xs))" "mem_brk st' \<le> mem_max_addr st" using xs(4) by auto
    have "client_inv st' (live @ [p])"
      unfolding client_inv_def using p(2,3) im xs
      by (intro conjI exI [of _ "xs @ [(i, m)]"]) simp_all
    with p(1) pn show ?thesis by simp
  qed
qed

lemma client_free:
  assumes inv: "client_inv st live" and n: "n < length live"
  shows "\<exists>st'. mm_free (live ! n) st = Some st' \<and> client_inv st' (take n live @ drop (Suc n) live)"
proof -
  from inv obtain xs where xs: "allocator st (set xs)" "distinct xs"
    "live = map (\<lambda>x. at (heap_start st) (fst x)) xs" "mem_brk st \<le> mem_max_addr st"
    "unat (mem_max_addr st) < 2 ^ 63" by (auto simp: client_inv_def)
  with n have nl: "n < length xs" by simp
  obtain i k where ik: "xs ! n = (i, k)" by force
  then have mem: "(i, k) \<in> set xs" using nl by (metis nth_mem)
  from free_step [OF xs(1) mem] obtain st' where st': "mm_free (at (heap_start st) i) st = Some st'"
    "allocator st' (set xs - {(i, k)})" "same_frame st st'" by blast
  have split: "xs = take n xs @ (i, k) # drop (Suc n) xs" using nl ik by (metis id_take_nth_drop)
  with xs(2) have "distinct (take n xs @ (i, k) # drop (Suc n) xs)" by simp
  then have d: "distinct (take n xs @ drop (Suc n) xs)" "(i, k) \<notin> set (take n xs @ drop (Suc n) xs)" by auto
  have "set xs = insert (i, k) (set (take n xs @ drop (Suc n) xs))" by (subst split) auto
  with d(2) have "set xs - {(i, k)} = set (take n xs @ drop (Suc n) xs)" by blast
  with st' xs d(1) have "client_inv st' (take n live @ drop (Suc n) live)"
    unfolding client_inv_def
    by (intro conjI exI [of _ "take n xs @ drop (Suc n) xs"])
      (simp_all add: same_frame_def take_map drop_map)
  with st'(1) nl ik xs(3) show ?thesis by simp
qed

lemma run_calls_inv:
  "client_inv st live \<Longrightarrow> \<forall>c \<in> set cs. sane c \<Longrightarrow>
   \<exists>st' live'. run_calls cs st live = Some (st', live') \<and> client_inv st' live'"
proof (induction cs arbitrary: st live)
  case (Cons c cs)
  then have cs: "\<forall>c \<in> set cs. sane c" by simp
  show ?case
  proof (cases c)
    case (Malloc w)
    then have "unat w < 2 ^ 62" using Cons.prems(2) by (simp add: sane_def)
    from client_malloc [OF Cons.prems(1) this] Cons.IH [OF _ cs] Malloc show ?thesis by auto
  next
    case (Free n)
    show ?thesis
    proof (cases "n < length live")
      case True
      from client_free [OF Cons.prems(1) True] Cons.IH [OF _ cs] Free True show ?thesis by auto
    next
      case False
      with Cons.IH [OF Cons.prems(1) cs] Free show ?thesis by simp
    qed
  qed
qed simp

text \<open>C1: From a heap set up by \<open>mem_init\<close> and \<open>mm_init\<close>, every run of \<open>malloc\<close>s (of any sizes below
  \<open>2^62\<close>) and \<open>free\<close>s of blocks the client holds is defined, to its end: no access leaves the heap, no
  search loops. At the end the heap is well formed and coalesced, and its allocated blocks are
  exactly the blocks the client holds, all different.\<close>

theorem mm_runs_ok:
  assumes "16 dvd unat addr" "unat addr + 2 ^ 40 < 2 ^ 63" "mem_init addr st = Some st0"
    and "\<forall>c \<in> set cs. sane c"
  shows "\<exists>st1 st' live xs. mm_init st0 = Some (True, st1) \<and> run_calls cs st1 [] = Some (st', live) \<and>
    allocator st' (set xs) \<and> distinct xs \<and> live = map (\<lambda>x. at (heap_start st') (fst x)) xs"
proof -
  have a: "unat addr + 2 ^ 40 < 2 ^ 64" using assms(2) by simp
  from boot [OF assms(1) a assms(3)] obtain st1 where st1: "mm_init st0 = Some (True, st1)"
    "allocator st1 {}" "mem_brk st1 \<le> mem_max_addr st1" "mem_max_addr st1 = mem_max_addr st0" by blast
  then have "client_inv st1 []"
    using fresh_heap(4) [OF assms(1) a assms(3)] assms(2) by (simp add: client_inv_def)
  from run_calls_inv [OF this assms(4)] st1(1) show ?thesis by (force simp: client_inv_def)
qed

theorem mm_runs_ok_witness:
  "\<exists>st1 st' live. mm_init (the (mem_init 4096 start_state)) = Some (True, st1) \<and>
    run_calls [Malloc 100, Malloc 5000, Free 0, Malloc 0, Free 7, Malloc 40] st1 [] = Some (st', live)"
  using mm_runs_ok [of 4096 start_state "the (mem_init 4096 start_state)"
    "[Malloc 100, Malloc 5000, Free 0, Malloc 0, Free 7, Malloc 40]"]
  by (auto simp: mem_init_def sane_def)

section \<open>Where the calls break their promises\<close>

text \<open>C15: Sizes close to \<open>2^64\<close> wrap around: \<open>malloc(2^64 - 17)\<close> looks for a block of size 0 and
  reads outside \<open>seg_list\<close>; \<open>malloc(2^64 - 1)\<close> looks for a block of 16 bytes, which has no payload at
  all.\<close>

theorem mm_malloc_wraps:
  "mm_malloc (- 17) st = None \<and> adjusted_size (- 1) = 16"
proof -
  have "\<not> (- 17 :: u64) \<le> 16" "\<not> (- 1 :: u64) \<le> 16"
    by (simp_all add: word_le_nat_alt unsigned_minus_1_eq_mask mask_eq_exp_minus_1)
  then have "adjusted_size (- 17) = 0" "adjusted_size (- 1) = 16"
    by (simp_all add: adjusted_size_def align_up_def DSIZE_def)
  then show ?thesis
    by (simp add: mm_malloc_def malloc_with_def find_fit_def select_list_def find_fit_from.simps
        MAX_LEN_def seg_get_def)
qed

text \<open>C16: The null pointer and the product of \<open>calloc\<close> are not guarded: \<open>free(NULL)\<close> reads outside the
  heap, \<open>realloc(NULL, n)\<close> allocates nothing, and \<open>calloc(2, 2^63 + 8)\<close> is \<open>calloc(1, 16)\<close>.\<close>

theorem mm_unguarded_calls:
  "mm_free NULL st = None \<and> mm_realloc NULL w st = (if w = 0 then None else Some (NULL, st)) \<and>
    mm_calloc 2 (2 ^ 63 + 8) st = mm_calloc 1 16 st"
proof -
  have "\<not> in_heap8 st (- 8)" using unat_lt64 [of "mem_brk st"] by (simp add: in_heap8_def)
  then have "GET (HDRP NULL) st = None" by (simp add: GET_def HDRP_def WSIZE_def)
  moreover have "(2 ^ 63 + 8) * 2 = (16 :: u64)" by (simp add: word_unat_eq_iff)
  then have "mm_calloc 2 (2 ^ 63 + 8) st = mm_calloc 1 16 st" by (simp only: mm_calloc_def mult_1_right)
  ultimately show ?thesis by (simp add: mm_free_def GET_SIZE_def mm_realloc_def)
qed

text \<open>C17: \<open>mm_checkheap\<close> takes the block after the prologue for the epilogue: it rejects every well
  formed heap that has a block at all, from \<open>mm_init\<close> on.\<close>

theorem mm_checkheap_rejects:
  assumes "heap_inv st bs" "bs \<noteq> []"
  shows "mm_checkheap st = Some False"
proof -
  obtain i k a bs' where bs: "bs = (i, k, a) # bs'" using assms(2) by (metis prod_cases3 neq_Nil_conv)
  from assms(1) have t: "tiles 4 bs (nwords st)" and wf: "heap_wf st"
    and lp: "heap_listp st = at (heap_start st) 2" and fr: "words st 1 = tagw 2 True" "words st 2 = tagw 2 True"
    and tags: "tags_ok (words st) bs"
    by (simp_all add: heap_inv_def base_inv_def frame_words_def)
  with bs have i: "i = 4" "4 \<le> k" "words st 3 = tagw k a" "4 + k \<le> nwords st"
    using tiles_le [of "4 + k" bs' "nwords st"] by simp_all
  have k0: "sz k \<noteq> 0"
    using sz_eq [of k 0] i(2,4) nwords_61 [OF wf] by (simp add: sz_def)
  have "DSIZE = sz 2" by (simp add: sz_def DSIZE_def)
  moreover have "NEXT_BLKP (at (heap_start st) 2) st = Some (at (heap_start st) 4)"
    using wf i fr by (subst NEXT_BLKP_at [where k = 2]) simp_all
  moreover have "FTRP (at (heap_start st) 2) st = Some (at (heap_start st) 2)"
    using wf i fr by (subst FTRP_at [where k = 2]) simp_all
  ultimately show ?thesis using wf i fr lp k0 by (simp add: mm_checkheap_def)
qed

theorem mm_checkheap_rejects_witness: "mm_checkheap booted = Some False"
  using mm_checkheap_rejects [OF booted(3)] by simp

end
