(* ===== verification/Kernel_Alloc.thy ===== *)
theory Kernel_Alloc
  imports Mm_Calls
begin

text \<open>
  The allocator of the kernel, \<open>kernel_extra.c\<close>: the functions of \<open>mm.c\<close> on the memory system of
  \<open>kernel_malloc.c\<close>, with a \<open>free\<close> that ignores the tag bit, and the test the kernel runs on it.
\<close>

section \<open>\<open>kernel_extra.c\<close>\<close>

text \<open>The text of these functions is that of \<open>mm.c\<close>, line by line.\<close>

definition kernel_select_list :: "u64 \<Rightarrow> int" where
  "kernel_select_list bsize = select_list bsize"

definition kernel_node_add :: "u64 \<Rightarrow> u64 \<Rightarrow> heap_state \<Rightarrow> heap_state option" where
  "kernel_node_add ptr bsize st = node_add ptr bsize st"

definition kernel_node_remove :: "u64 \<Rightarrow> heap_state \<Rightarrow> heap_state option" where
  "kernel_node_remove ptr st = node_remove ptr st"

definition kernel_coalesce :: "u64 \<Rightarrow> heap_state \<Rightarrow> (u64 \<times> heap_state) option" where
  "kernel_coalesce bp st = coalesce bp st"

definition kernel_find_fit :: "u64 \<Rightarrow> heap_state \<Rightarrow> u64 option" where
  "kernel_find_fit asize st = find_fit asize st"

definition kernel_place :: "u64 \<Rightarrow> u64 \<Rightarrow> heap_state \<Rightarrow> heap_state option" where
  "kernel_place bp asize st = place bp asize st"

text \<open>These reach \<open>mem_sbrk\<close>, here the one of the kernel.\<close>

definition kernel_extend_heap :: "u64 \<Rightarrow> heap_state \<Rightarrow> (u64 \<times> heap_state) option" where
  "kernel_extend_heap nw st = extend_heap kernel_mem_sbrk nw st"

definition kernel_mm_init :: "heap_state \<Rightarrow> (bool \<times> heap_state) option" where
  "kernel_mm_init st = mm_init_with kernel_mem_sbrk st"

definition kernel_malloc :: "u64 \<Rightarrow> heap_state \<Rightarrow> (u64 \<times> heap_state) option" where
  "kernel_malloc bsize st = malloc_with kernel_mem_sbrk bsize st"

definition kernel_free :: "u64 \<Rightarrow> heap_state \<Rightarrow> heap_state option" where
  "kernel_free ptr st = do {
     bsize \<leftarrow> GET_SIZE (HDRP ptr) st;
     st \<leftarrow> PUT (HDRP ptr) (PACK bsize 0) st;
     ftr \<leftarrow> FTRP ptr st;
     st \<leftarrow> PUT ftr (PACK bsize 0) st;
     st \<leftarrow> kernel_node_add ptr bsize st;
     (bp, st) \<leftarrow> kernel_coalesce ptr st;
     Some st
   }"

text \<open>Here nothing stops the break from moving down, but the allocator never asks for that.\<close>

interpretation kmem: break_provider kernel_mem_sbrk
proof
  fix st :: heap_state and k
  assume small: "unat (mem_brk st) + 8 * k < 2 ^ 64"
  then have "unat (mem_brk st + sz k) = unat (mem_brk st) + 8 * k"
    using unat_sz [of k] by (simp add: unat_word_ariths)
  then show "kernel_mem_sbrk (sz k) st = (- 1, st) \<or>
      kernel_mem_sbrk (sz k) st = (mem_brk st, st\<lparr>mem_brk := mem_brk st + sz k\<rparr>) \<and>
        unat (mem_brk st) + 8 * k \<le> unat (mem_max_addr st)"
    by (auto simp: kernel_mem_sbrk_def word_less_nat_alt)
next
  fix st :: heap_state and k
  assume room: "unat (mem_brk st) + 8 * k \<le> unat (mem_max_addr st)" "8 * k < 2 ^ 63"
  with unat_lt64 [of "mem_max_addr st"] have "unat (mem_brk st + sz k) = unat (mem_brk st) + 8 * k"
    using unat_sz [of k] by (simp add: unat_word_ariths)
  with room show "kernel_mem_sbrk (sz k) st = (mem_brk st, st\<lparr>mem_brk := mem_brk st + sz k\<rparr>)"
    by (simp add: kernel_mem_sbrk_def word_less_nat_alt)
qed

lemmas kernel_malloc_step = kmem.alloc_step [folded kernel_malloc_def]

lemma release_allocated:
  assumes al: "allocator st A" and b: "(i, k) \<in> A" and lo: "heap_start st = lo"
  shows "\<exists>st2 bp st'. node_add (at lo i) (sz k) (put_at (i + k - 2) (tagw k False) (put_at (i - 1) (tagw k False) st)) = Some st2 \<and>
    coalesce (at lo i) st2 = Some (bp, st') \<and> same_frame st st' \<and>
    allocator st' (A - {(i, k)}) \<and> keeps (A - {(i, k)}) st st'"
proof -
  from al obtain bs where bs: "heap_inv st bs" "coalesced bs" "alloc_set bs = A"
    by (auto simp: allocator_def)
  then have "(i, k, True) \<in> set bs" using b by (auto simp: alloc_set_def)
  then obtain pre post where split: "bs = pre @ (i, k, True) # post" by (meson split_list)
  have "(i, k) \<notin> alloc_set (pre @ post)"
  proof
    assume "(i, k) \<in> alloc_set (pre @ post)"
    then have m: "(i, k, True) \<in> set pre \<or> (i, k, True) \<in> set post" by (auto simp: alloc_set_def)
    from bs(1) have t: "tiles 4 pre i" "tiles (i + k) post (nwords st)" "4 \<le> k"
      by (auto simp: split heap_inv_def tiles_append)
    from m tiles_mem [OF t(1), of i k True] tiles_mem [OF t(2), of i k True] t(3) show False by auto
  qed
  then have eq: "A - {(i, k)} = alloc_set (pre @ post)" using bs(3) by (auto simp: split)
  from bs(2) have c: "coalesced pre" "coalesced post" by (auto simp: split coalesced_append coalesced_Cons)
  from release [OF bs(1) [unfolded split] lo] merge_coalesced [OF c] merge_alloc [of pre i k post]
  show ?thesis unfolding eq allocator_def by metis
qed

lemma kernel_free_step:
  assumes al: "allocator st A" and b: "(i, k) \<in> A" and lo: "heap_start st = lo"
  shows "\<exists>st'. kernel_free (at lo i) st = Some st' \<and> allocator st' (A - {(i, k)}) \<and>
    keeps (A - {(i, k)}) st st' \<and> same_frame st st'"
proof -
  note B = allocated_block [OF al b]
  from release_allocated [OF al b lo] obtain st2 bp st' where r:
    "node_add (at lo i) (sz k) (put_at (i + k - 2) (tagw k False) (put_at (i - 1) (tagw k False) st)) = Some st2"
    "coalesce (at lo i) st2 = Some (bp, st')" "same_frame st st'"
    "allocator st' (A - {(i, k)})" "keeps (A - {(i, k)}) st st'" by blast
  let ?s1 = "put_at (i - 1) (tagw k False) st"
  have n: "i - 1 < nwords st" "i + k - 2 < nwords st" using B by linarith+
  have p1: "GET_SIZE (HDRP (at lo i)) st = Some (sz k)" "PUT (HDRP (at lo i)) (tagw k False) st = Some ?s1"
    using B lo n by simp_all
  have p2: "FTRP (at lo i) ?s1 = Some (at lo (i + k - 2))"
    using B lo n by (simp add: FTRP_at [where k = k])
  have p3: "PUT (at lo (i + k - 2)) (tagw k False) ?s1 = Some (put_at (i + k - 2) (tagw k False) ?s1)"
    using B lo n by simp
  have "kernel_free (at lo i) st = Some st'"
    by (simp only: kernel_free_def kernel_node_add_def kernel_coalesce_def p1 p2 p3 PACK_sz r(1,2)
        Option.bind_lunit split_conv)
  with r show ?thesis by blast
qed

section \<open>The test of the kernel\<close>

text \<open>Its outcomes: 0 points, 40 points, or an endless loop after an error message.\<close>

datatype extra_result = Points0 | Points40 | Stuck

definition all_bytes :: "memory \<Rightarrow> u64 \<Rightarrow> u8 \<Rightarrow> nat \<Rightarrow> bool" where
  "all_bytes m p v n = list_all (\<lambda>i. m (p + of_nat i) = v) [0..<n]"

definition mem_extra_test :: "heap_state \<Rightarrow> (extra_result \<times> heap_state) option" where
  "mem_extra_test st = do {
     (ok, st) \<leftarrow> kernel_mm_init st;
     (p1, st) \<leftarrow> kernel_malloc 1024 st;
     if p1 = NULL then Some (Points0, st)
     else do {
       guard (in_heap_range st p1 1024);
       let st = st\<lparr>hmem := kernel_memset (hmem st) p1 0xAA 1024\<rparr>;
       (p2, st) \<leftarrow> kernel_malloc 86 st;
       if p2 = NULL then Some (Stuck, st)
       else do {
         (p3, st) \<leftarrow> kernel_malloc 1024 st;
         if p3 = NULL then Some (Stuck, st)
         else do {
           st \<leftarrow> kernel_free p2 st;
           guard (in_heap_range st p3 1024 \<and> in_heap_range st p1 1024);
           let st = st\<lparr>hmem := kernel_memcpy (hmem st) p3 p1 1024\<rparr>;
           st \<leftarrow> kernel_free p1 st;
           guard (in_heap_range st p3 1024);
           if all_bytes (hmem st) p3 0xAA 1024 then do {
             st \<leftarrow> kernel_free p3 st;
             Some (Points40, st)
           } else Some (Stuck, st)
         }
       }
     }
   }"

section \<open>Bytes of payloads\<close>

lemma bytes_of_words:
  assumes wf: "heap_wf st" "heap_wf st'" "heap_start st' = heap_start st" "heap_start st = lo"
    and j: "j < nwords st" "j < nwords st'" "words st' j = words st j" and t: "t < 8"
  shows "hmem st' (at lo j + of_nat t) = hmem st (at lo j + of_nat t)"
  using byte_of_load [OF t, of "hmem st'" "at lo j"] byte_of_load [OF t, of "hmem st" "at lo j"] wf(3,4) j
  by (simp add: words_def)

lemma keeps_bytes:
  assumes al: "allocator st A" "allocator st' A'" and b: "(i, k) \<in> A" "(i, k) \<in> A'" "(i, k) \<in> B"
    and kp: "keeps B st st'" and lo: "heap_start st = lo" "heap_start st' = lo" and x: "x < 8 * (k - 2)"
  shows "hmem st' (at lo i + of_nat x) = hmem st (at lo i + of_nat x)"
proof -
  note P = allocated_block [OF al(1) b(1)] and Q = allocated_block [OF al(2) b(2)]
  define j where "j = i + x div 8"
  have at: "at lo i + of_nat x = at lo j + of_nat (x mod 8)"
  proof -
    have "of_nat x = of_nat (8 * (x div 8)) + (of_nat (x mod 8) :: u64)"
      by (metis mult_div_mod_eq of_nat_add)
    then show ?thesis by (simp add: at_def j_def algebra_simps)
  qed
  have j: "i \<le> j" "j < i + k - 2" using x P(3) by (auto simp: j_def)
  have "words st' j = words st j" using j by (intro keepsD [OF kp b(3)]) auto
  then show ?thesis unfolding at using j P Q lo by (intro bytes_of_words) auto
qed

text \<open>\<open>holds p v n st\<close>: the \<open>n\<close> bytes at \<open>p\<close> are \<open>v\<close>.\<close>

lemma all_bytes_iff: "all_bytes m p v n \<longleftrightarrow> (\<forall>x < n. m (p + of_nat x) = v)"
  by (auto simp: all_bytes_def list_all_iff)

lemma all_bytes_filled: "n < 2 ^ 64 \<Longrightarrow> all_bytes (filled m p v n) p v n"
  by (simp add: all_bytes_iff filled_def unat_of_nat)

lemma all_bytes_copied: "n < 2 ^ 64 \<Longrightarrow> all_bytes m s v n \<Longrightarrow> all_bytes (copied m d s n) d v n"
  by (simp add: all_bytes_iff copied_def unat_of_nat)

lemma all_bytes_keeps:
  assumes "all_bytes (hmem st) (at lo i) v n" "allocator st A" "allocator st' A'" "(i, k) \<in> A" "(i, k) \<in> A'"
    "(i, k) \<in> B" "keeps B st st'" "heap_start st = lo" "heap_start st' = lo" "n \<le> 8 * (k - 2)"
  shows "all_bytes (hmem st') (at lo i) v n"
  using assms(1,10) keeps_bytes [OF assms(2-9)] by (simp add: all_bytes_iff)

lemma payload_range:
  assumes al: "allocator st A" and b: "(i, k) \<in> A" and lo: "heap_start st = lo"
    and n: "unat w \<le> 8 * (k - 2)"
  shows "in_heap_range st (at lo i) w"
proof -
  note B = allocated_block [OF al b]
  show ?thesis using B(1,5) lo n unat_at_wf [OF B(1) lo, of i] by (auto simp: in_heap_range_def heap_wf_def)
qed

section \<open>The test passes\<close>

lemma kernel_malloc_room:
  assumes al: "allocator st A" and w: "w \<noteq> 0" "unat w \<le> 16000" and lo: "heap_start st = lo"
    and brk: "unat (mem_brk st) < 2 ^ 63" "unat (mem_brk st) + 16384 \<le> unat (mem_max_addr st)"
  shows "\<exists>i m st'. kernel_malloc w st = Some (at lo i, st') \<and> at lo i \<noteq> NULL \<and> (i, m) \<notin> A \<and>
    allocator st' (insert (i, m) A) \<and> unat w \<le> 8 * (m - 2) \<and> heap_start st' = lo \<and>
    mem_max_addr st' = mem_max_addr st \<and> unat (mem_brk st') \<le> unat (mem_brk st) + 16384 \<and> keeps A st st'"
proof -
  have w62: "unat w < 2 ^ 62" using w(2) by simp
  have mx: "8 * max (awords (unat w)) 2048 = 16384" using w(2) by (auto simp: awords_def max_def)
  from kernel_malloc_step [OF al w(1) w62 brk(1)] obtain p st' where p: "kernel_malloc w st = Some (p, st')"
    "heap_start st' = lo" "mem_max_addr st' = mem_max_addr st" "keeps A st st'"
    "unat (mem_brk st') \<le> unat (mem_brk st) + 16384"
    "if p = NULL then st' = st \<and> unat (mem_max_addr st) < unat (mem_brk st) + 16384
     else \<exists>i m. p = at lo i \<and> (i, m) \<notin> A \<and> allocator st' (insert (i, m) A) \<and> awords (unat w) \<le> m \<and>
       m \<le> awords (unat w) + 4 \<and> (mem_brk st \<le> mem_max_addr st \<longrightarrow> mem_brk st' \<le> mem_max_addr st)"
    unfolding mx lo by blast
  from p(6) brk(2) have "p \<noteq> NULL" by auto
  with p(6) obtain i m where im: "p = at lo i" "(i, m) \<notin> A" "allocator st' (insert (i, m) A)" "awords (unat w) \<le> m"
    by auto
  have "unat w \<le> 8 * (m - 2)" using awords_props(3) [of "unat w"] im(4) by linarith
  with p im \<open>p \<noteq> NULL\<close> show ?thesis by blast
qed

text \<open>What the test needs of the state between its steps.\<close>

definition kheap :: "u64 \<Rightarrow> nat \<Rightarrow> heap_state \<Rightarrow> (nat \<times> nat) set \<Rightarrow> bool" where
  "kheap lo room st A \<longleftrightarrow> allocator st A \<and> heap_start st = lo \<and> unat (mem_brk st) + room \<le> unat (mem_max_addr st) \<and>
     unat (mem_max_addr st) < 2 ^ 63"

lemma kheap_boot:
  assumes "16 dvd unat base" "unat base + 2 ^ 20 < 2 ^ 63"
  shows "\<exists>st'. kernel_mm_init (kernel_mem_init base (2 ^ 20) st) = Some (True, st') \<and> kheap base 49152 st' {}"
proof -
  let ?s = "kernel_mem_init base (2 ^ 20) st"
  have mx: "unat (mem_max_addr ?s) = unat base + 2 ^ 20"
    using assms(2) by (simp add: kernel_mem_init_def unat_word_ariths)
  have wf: "heap_wf ?s" "mem_brk ?s = heap_start ?s" "heap_start ?s = base"
    using assms by (simp_all add: kernel_mem_init_def heap_wf_def nwords_def)
  have small: "unat (mem_brk ?s) + 8 * 2052 < 2 ^ 64" "unat (mem_brk ?s) + 8 * 2052 \<le> unat (mem_max_addr ?s)"
    using wf mx assms(2) by simp_all
  from kmem.mm_init_cases [OF wf small(1)] small(2) obtain st' where
    st': "mm_init_with kernel_mem_sbrk ?s = Some (True, st')" "heap_inv st' [(4, 2048, False)]"
    "heap_start st' = base" "mem_max_addr st' = mem_max_addr ?s" "unat (mem_brk st') = unat (mem_brk ?s) + 8 * 2052"
    by auto
  then have "kheap base 49152 st' {}"
    using allocator_init [of st' 2048] mx wf assms(2) by (simp add: kheap_def)
  with st'(1) show ?thesis by (auto simp: kernel_mm_init_def)
qed

lemma kheap_malloc:
  assumes "kheap lo (16384 + r) st A" "w \<noteq> 0" "unat w \<le> 16000"
  shows "\<exists>i m st'. kernel_malloc w st = Some (at lo i, st') \<and> at lo i \<noteq> NULL \<and> (i, m) \<notin> A \<and>
    kheap lo r st' (insert (i, m) A) \<and> unat w \<le> 8 * (m - 2) \<and> keeps A st st'"
proof -
  from assms(1) have k: "allocator st A" "heap_start st = lo" "unat (mem_brk st) < 2 ^ 63"
    "unat (mem_brk st) + 16384 \<le> unat (mem_max_addr st)" "unat (mem_max_addr st) < 2 ^ 63"
    "unat (mem_brk st) + (16384 + r) \<le> unat (mem_max_addr st)" unfolding kheap_def by linarith+
  from kernel_malloc_room [OF k(1) assms(2,3) k(2-4)] obtain i m st' where
    m: "kernel_malloc w st = Some (at lo i, st')" "at lo i \<noteq> NULL" "(i, m) \<notin> A"
    "allocator st' (insert (i, m) A)" "unat w \<le> 8 * (m - 2)" "heap_start st' = lo"
    "mem_max_addr st' = mem_max_addr st" "unat (mem_brk st') \<le> unat (mem_brk st) + 16384" "keeps A st st'"
    by blast
  have "unat (mem_brk st') + r \<le> unat (mem_max_addr st)" using m(8) k(6) by linarith
  with m k(5) have "kheap lo r st' (insert (i, m) A)" by (simp add: kheap_def)
  with m show ?thesis by blast
qed

lemma kheap_free:
  assumes "kheap lo r st A" "(i, k) \<in> A"
  shows "\<exists>st'. kernel_free (at lo i) st = Some st' \<and> kheap lo r st' (A - {(i, k)}) \<and> keeps (A - {(i, k)}) st st'"
  using kernel_free_step [of st A i k lo] assms by (auto simp: kheap_def same_frame_def)

lemma kheap_write:
  assumes k: "kheap lo r st A" and b: "(i, m) \<in> A"
    and same: "\<And>a. \<not> unat (a - at lo i) < 8 * (m - 2) \<Longrightarrow> m' a = hmem st a"
  shows "kheap lo r (st\<lparr>hmem := m'\<rparr>) A" "keeps (A - {(i, m)}) st (st\<lparr>hmem := m'\<rparr>)"
  using payload_bytes [of st A i m m'] assms by (simp_all add: kheap_def)

lemma kheap_bytes:
  assumes "all_bytes (hmem st) (at lo i) v n" "kheap lo r st A" "kheap lo r' st' A'" "keeps B st st'"
    "(i, k) \<in> A" "(i, k) \<in> A'" "(i, k) \<in> B" "n \<le> 8 * (k - 2)"
  shows "all_bytes (hmem st') (at lo i) v n"
  using all_bytes_keeps [of st lo i v n A st' A' k B] assms by (simp add: kheap_def)

lemma mem_extra_test_room:
  assumes "16 dvd unat base" "unat base + 2 ^ 20 < 2 ^ 63"
  shows "\<exists>st'. mem_extra_test (kernel_mem_init base (2 ^ 20) st) = Some (Points40, st') \<and> allocator st' {}"
proof -
  let ?lo = base
  from kheap_boot [OF assms] obtain s1 where
    s1: "kernel_mm_init (kernel_mem_init base (2 ^ 20) st) = Some (True, s1)" "kheap ?lo 49152 s1 {}" by blast
  have w: "(1024 :: u64) \<noteq> 0" "unat (1024 :: u64) = 1024" "unat (1024 :: u64) \<le> 16000"
    "(86 :: u64) \<noteq> 0" "unat (86 :: u64) \<le> 16000" by simp_all
  have k1: "kheap ?lo (16384 + 32768) s1 {}" using s1(2) by simp
  from kheap_malloc [OF k1 w(1,3)] obtain i1 m1 s2 where
    s2: "kernel_malloc 1024 s1 = Some (at ?lo i1, s2)" "at ?lo i1 \<noteq> NULL" "kheap ?lo 32768 s2 {(i1, m1)}"
    "1024 \<le> 8 * (m1 - 2)" unfolding w(2) by blast
  let ?f = "filled (hmem s2) (at ?lo i1) 0xAA 1024"
  let ?s3 = "s2\<lparr>hmem := ?f\<rparr>"
  have "ucast (0xAA :: u32) = (0xAA :: u8)" by simp
  then have fill: "kernel_memset (hmem s2) (at ?lo i1) 0xAA 1024 = ?f" by (simp add: kernel_memset_filled)
  have s3: "kheap ?lo 32768 ?s3 {(i1, m1)}"
    using kheap_write(1) [OF s2(3), of i1 m1 ?f] s2(4) by (simp add: outside)
  have b3: "all_bytes (hmem ?s3) (at ?lo i1) 0xAA 1024" by (simp add: all_bytes_filled)
  have k3: "kheap ?lo (16384 + 16384) ?s3 {(i1, m1)}" using s3 by simp
  from kheap_malloc [OF k3 w(4,5)] obtain i2 m2 s4 where
    s4: "kernel_malloc 86 ?s3 = Some (at ?lo i2, s4)" "at ?lo i2 \<noteq> NULL" "(i2, m2) \<noteq> (i1, m1)"
    "kheap ?lo 16384 s4 {(i2, m2), (i1, m1)}" "keeps {(i1, m1)} ?s3 s4" by blast
  have k4: "kheap ?lo (16384 + 0) s4 {(i2, m2), (i1, m1)}" using s4(4) by simp
  from kheap_malloc [OF k4 w(1,3)] obtain i3 m3 s5 where
    s5: "kernel_malloc 1024 s4 = Some (at ?lo i3, s5)" "at ?lo i3 \<noteq> NULL"
    "(i3, m3) \<noteq> (i1, m1)" "(i3, m3) \<noteq> (i2, m2)" "kheap ?lo 0 s5 {(i3, m3), (i2, m2), (i1, m1)}"
    "1024 \<le> 8 * (m3 - 2)" "keeps {(i2, m2), (i1, m1)} s4 s5" unfolding w(2) by blast
  have e1: "{(i3, m3), (i2, m2), (i1, m1)} - {(i2, m2)} = {(i3, m3), (i1, m1)}" using s4(3) s5(4) by auto
  from kheap_free [OF s5(5), of i2 m2] obtain s6 where s6: "kernel_free (at ?lo i2) s5 = Some s6"
    "kheap ?lo 0 s6 {(i3, m3), (i1, m1)}" "keeps {(i3, m3), (i1, m1)} s5 s6" unfolding e1 by auto
  have b4: "all_bytes (hmem s4) (at ?lo i1) 0xAA 1024"
    by (rule kheap_bytes [OF b3 s3 s4(4,5)]) (use s2(4) in simp_all)
  have b5: "all_bytes (hmem s5) (at ?lo i1) 0xAA 1024"
    by (rule kheap_bytes [OF b4 s4(4) s5(5,7)]) (use s2(4) in simp_all)
  have b6: "all_bytes (hmem s6) (at ?lo i1) 0xAA 1024"
    by (rule kheap_bytes [OF b5 s5(5) s6(2,3)]) (use s2(4) in simp_all)
  let ?c = "copied (hmem s6) (at ?lo i3) (at ?lo i1) 1024"
  let ?s7 = "s6\<lparr>hmem := ?c\<rparr>"
  have copy: "kernel_memcpy (hmem s6) (at ?lo i3) (at ?lo i1) 1024 = ?c"
  proof -
    have A: "allocator s6 {(i3, m3), (i1, m1)}" "heap_start s6 = ?lo" using s6(2) by (simp_all add: kheap_def)
    have mem: "(i3, m3) \<in> {(i3, m3), (i1, m1)}" "(i1, m1) \<in> {(i3, m3), (i1, m1)}" by simp_all
    note B3 = allocated_block [OF A(1) mem(1)] and B1 = allocated_block [OF A(1) mem(2)]
    have c: "i1 + 128 \<le> nwords s6" "i3 + 128 \<le> nwords s6" using B1(5) B3(5) s2(4) s5(6) by linarith+
    have "i1 + 128 \<le> i3 \<or> i3 + 128 \<le> i1"
      using allocator_blocks(6) [OF A(1) mem s5(3)] s2(4) s5(6) by (auto simp: clear_def)
    from no_overlap_at [OF B1(1) A(2) c this] show ?thesis by (simp add: kernel_memcpy_copied)
  qed
  have s7: "kheap ?lo 0 ?s7 {(i3, m3), (i1, m1)}"
    using kheap_write(1) [OF s6(2), of i3 m3 ?c] s5(6) by (simp add: outside)
  have b7: "all_bytes (hmem ?s7) (at ?lo i3) 0xAA 1024" using all_bytes_copied [OF _ b6] by simp
  have e2: "{(i3, m3), (i1, m1)} - {(i1, m1)} = {(i3, m3)}" using s5(3) by auto
  from kheap_free [OF s7, of i1 m1] obtain s8 where s8: "kernel_free (at ?lo i1) ?s7 = Some s8"
    "kheap ?lo 0 s8 {(i3, m3)}" "keeps {(i3, m3)} ?s7 s8" unfolding e2 by auto
  have b8: "all_bytes (hmem s8) (at ?lo i3) 0xAA 1024"
    by (rule kheap_bytes [OF b7 s7 s8(2,3)]) (use s5(6) in simp_all)
  from kheap_free [OF s8(2), of i3 m3] obtain s9 where s9: "kernel_free (at ?lo i3) s8 = Some s9"
    "allocator s9 {}" by (auto simp: kheap_def)
  have r1: "in_heap_range s2 (at ?lo i1) 1024"
    using payload_range [of s2 "{(i1, m1)}" i1 m1 ?lo 1024] s2(3,4) w(2) by (simp add: kheap_def)
  have r3: "in_heap_range s6 (at ?lo i3) 1024" "in_heap_range s6 (at ?lo i1) 1024"
    using payload_range [of s6 "{(i3, m3), (i1, m1)}" i3 m3 ?lo 1024]
      payload_range [of s6 "{(i3, m3), (i1, m1)}" i1 m1 ?lo 1024] s6(2) s2(4) s5(6) w(2)
    by (simp_all add: kheap_def)
  have r8: "in_heap_range s8 (at ?lo i3) 1024"
    using payload_range [of s8 "{(i3, m3)}" i3 m3 ?lo 1024] s8(2) s5(6) w(2) by (simp add: kheap_def)
  have "mem_extra_test (kernel_mem_init base (2 ^ 20) st) = Some (Points40, s9)"
    using s2(2) s4(2) s5(2) r1 r3 r8 b8
    by (simp only: mem_extra_test_def s1(1) s2(1) fill s4(1) s5(1) s6(1) copy s8(1) s9(1) Let_def
        Option.bind_lunit split_conv guard_simps if_False if_True simp_thms)
  with s9(2) show ?thesis by blast
qed

text \<open>C20: The allocator of the kernel passes the test of the kernel: from a 1 MB heap at an aligned
  address the test neither reports missing base nor loops in one of its error branches; the
  1024 bytes it wrote survive the calls in between, and at the end every block is free again.\<close>

theorem mem_extra_test_passes:
  assumes "16 dvd unat base" "unat base + 2 ^ 20 < 2 ^ 63"
  shows "\<exists>st'. mem_extra_test (kernel_mem_init base (2 ^ 20) st) = Some (Points40, st') \<and> allocator st' {}"
  by (rule mem_extra_test_room [OF assms])

theorem mem_extra_test_passes_witness:
  "\<exists>st'. mem_extra_test (kernel_mem_init 0x400000 (2 ^ 20) start_state) = Some (Points40, st')"
  using mem_extra_test_passes [where base = "0x400000" and st = start_state] by auto

end
