(* ===== verification/Page_Tables.thy ===== *)
theory Page_Tables
  imports Kernel_Alloc
begin

text \<open>
  \<open>kernel_code.c\<close>: the page tables the kernel builds, as writes of bit-fields into memory, and
  the system call entry. The specification is the page walk of the processor: which physical
  address each virtual address is mapped to, and with which rights.
\<close>

section \<open>Page table entries\<close>

text \<open>The bit-fields of \<open>struct pte\<close>, from bit 0 up.\<close>

datatype pte_field = F_p | F_rw | F_us | F_pwt | F_pcd | F_a | F_ign | F_mbz1 | F_mbz2 | F_avl
  | F_page_addr | F_avail | F_pke | F_nonexec

fun field_off :: "pte_field \<Rightarrow> nat" where
  "field_off F_p = 0" | "field_off F_rw = 1" | "field_off F_us = 2" | "field_off F_pwt = 3"
| "field_off F_pcd = 4" | "field_off F_a = 5" | "field_off F_ign = 6" | "field_off F_mbz1 = 7"
| "field_off F_mbz2 = 8" | "field_off F_avl = 9" | "field_off F_page_addr = 12"
| "field_off F_avail = 52" | "field_off F_pke = 59" | "field_off F_nonexec = 63"

fun field_width :: "pte_field \<Rightarrow> nat" where
  "field_width F_avl = 3" | "field_width F_page_addr = 40" | "field_width F_avail = 7"
| "field_width F_pke = 4" | "field_width f = 1"

definition get_field :: "pte_field \<Rightarrow> u64 \<Rightarrow> u64" where
  "get_field f w = take_bit (field_width f) (drop_bit (field_off f) w)"

definition set_field :: "pte_field \<Rightarrow> u64 \<Rightarrow> u64 \<Rightarrow> u64" where
  "set_field f v w = (w AND NOT (push_bit (field_off f) (mask (field_width f)))) OR
     push_bit (field_off f) (take_bit (field_width f) v)"

text \<open>An assignment to a field, and the assignments to the fields of one entry.\<close>

definition put_field :: "memory \<Rightarrow> u64 \<Rightarrow> pte_field \<Rightarrow> u64 \<Rightarrow> memory" where
  "put_field m a f v = store64 m a (set_field f v (load64 m a))"

definition set_fields :: "memory \<Rightarrow> u64 \<Rightarrow> (pte_field \<times> u64) list \<Rightarrow> memory" where
  "set_fields m a fs = foldl (\<lambda>m (f, v). put_field m a f v) m fs"

definition present_entry :: "u64 \<Rightarrow> (pte_field \<times> u64) list" where
  "present_entry page = [(F_p, 1), (F_rw, 1), (F_us, 0), (F_pwt, 0), (F_pcd, 0), (F_a, 0), (F_ign, 0),
     (F_mbz1, 0), (F_mbz2, 0), (F_avl, 0), (F_page_addr, page), (F_avail, 0), (F_pke, 0), (F_nonexec, 0)]"

definition absent_entry :: "(pte_field \<times> u64) list" where
  "absent_entry = [(F_p, 0), (F_rw, 0), (F_us, 0), (F_pwt, 0), (F_pcd, 0), (F_a, 0), (F_ign, 0),
     (F_mbz1, 0), (F_mbz2, 0), (F_avl, 0), (F_page_addr, 0), (F_avail, 0), (F_pke, 0), (F_nonexec, 0)]"

section \<open>\<open>kernel_init\<close>\<close>

text \<open>The address of an element of an array of entries.\<close>

definition elem :: "u64 \<Rightarrow> nat \<Rightarrow> u64" where
  "elem p i = p + 8 * of_nat i"

definition init_pte :: "memory \<Rightarrow> u64 \<Rightarrow> memory" where
  "init_pte m p = foldl (\<lambda>m i. set_fields m (elem p i) (present_entry (of_nat i))) m [0..<1048576]"

definition init_pde :: "memory \<Rightarrow> u64 \<Rightarrow> u64 \<Rightarrow> memory" where
  "init_pde m p pd = foldl (\<lambda>m i. let start = elem p (512 * i) in
     set_fields m (elem pd i) (present_entry (drop_bit 12 start))) m [0..<2048]"

definition init_pdpe :: "memory \<Rightarrow> u64 \<Rightarrow> u64 \<Rightarrow> memory" where
  "init_pdpe m pd pdp = foldl (\<lambda>m i. let start2 = elem pd (512 * i) in
     if i < 4 then set_fields m (elem pdp i) (present_entry (drop_bit 12 start2))
     else set_fields m (elem pdp i) absent_entry) m [0..<512]"

definition init_pml :: "memory \<Rightarrow> u64 \<Rightarrow> u64 \<Rightarrow> memory" where
  "init_pml m pdp pml = foldl (\<lambda>m i. let start3 = elem pdp (512 * i) in
     if i < 1 then set_fields m (elem pml i) (present_entry (drop_bit 12 start3))
     else set_fields m (elem pml i) absent_entry) m [0..<512]"

text \<open>The same loop runs on each of the three tables for the user.\<close>

definition clear_table :: "memory \<Rightarrow> u64 \<Rightarrow> memory" where
  "clear_table m t = foldl (\<lambda>m i. set_fields m (elem t i) absent_entry) m [0..<512]"

definition user_entry :: "u64 \<Rightarrow> (pte_field \<times> u64) list" where
  "user_entry page = [(F_p, 1), (F_rw, 1), (F_us, 1), (F_page_addr, page)]"

definition map_user :: "memory \<Rightarrow> u64 \<Rightarrow> u64 \<Rightarrow> u64 \<Rightarrow> u64 \<Rightarrow> u64 \<Rightarrow> u64 \<Rightarrow> memory" where
  "map_user m pml pdp_user pd_user p_user uprogram ustack =
     (let m = set_fields m (elem pml 511) (user_entry (drop_bit 12 pdp_user));
          m = set_fields m (elem pdp_user 511) (user_entry (drop_bit 12 pd_user));
          m = set_fields m (elem pd_user 511) (user_entry (drop_bit 12 p_user));
          m = set_fields m (elem p_user 511) (user_entry (drop_bit 12 uprogram))
      in set_fields m (elem p_user 510) (user_entry (drop_bit 12 (ustack - 4096))))"

text \<open>The tables, and the address of the top one.\<close>

definition build_tables :: "u64 \<Rightarrow> u64 \<Rightarrow> u64 \<Rightarrow> memory \<Rightarrow> u64 \<times> memory" where
  "build_tables ustack uprogram p m =
     (let m = init_pte m p;
          pd = elem p 1048576; m = init_pde m p pd;
          pdp = elem pd 2048; m = init_pdpe m pd pdp;
          pml = elem pdp 512; m = init_pml m pdp pml;
          pdp_user = elem pml 512; pd_user = elem pdp_user 512; p_user = elem pd_user 512;
          m = clear_table m pdp_user; m = clear_table m pd_user; m = clear_table m p_user
      in (pml, map_user m pml pdp_user pd_user p_user uprogram ustack))"

text \<open>The system call: the string that is printed, and the result.\<close>

definition syscall_entry :: "u64 \<Rightarrow> u64 \<Rightarrow> u64 \<Rightarrow> u64 \<Rightarrow> u64 \<Rightarrow> u64 \<Rightarrow> u64 option \<times> u64" where
  "syscall_entry n a1 a2 a3 a4 a5 = (if n = 1 then (Some a1, 0) else (None, - 1))"

section \<open>The page walk of the processor\<close>

text \<open>
  The walk through four levels of tables with 4 KB pages: the physical address, and whether the
  page may be written and accessed by the user, which all levels must allow. A page of 2 MB or
  1 GB (bit 7 of an entry above the lowest level) is not followed.
\<close>

definition index :: "nat \<Rightarrow> u64 \<Rightarrow> nat" where
  "index l va = unat va div 2 ^ (12 + 9 * l) mod 512"

definition target :: "u64 \<Rightarrow> u64" where
  "target e = push_bit 12 (get_field F_page_addr e)"

fun walk :: "memory \<Rightarrow> nat \<Rightarrow> u64 \<Rightarrow> bool \<Rightarrow> bool \<Rightarrow> u64 \<Rightarrow> (u64 \<times> bool \<times> bool) option" where
  "walk m l t rw us va =
     (let e = load64 m (elem t (index l va));
          rw' = (rw \<and> get_field F_rw e = 1); us' = (us \<and> get_field F_us e = 1)
      in if get_field F_p e = 0 then None
         else if l = 0 then Some (target e OR take_bit 12 va, rw', us')
         else if get_field F_mbz1 e = 1 then None
         else walk m (l - 1) (target e) rw' us' va)"

declare walk.simps [simp del]

definition translate :: "memory \<Rightarrow> u64 \<Rightarrow> u64 \<Rightarrow> (u64 \<times> bool \<times> bool) option" where
  "translate m cr3 va = walk m 3 cr3 True True va"

text \<open>The \<open>n\<close> bytes from \<open>a\<close> on can be read and written at their own addresses.\<close>

definition mapped :: "memory \<Rightarrow> u64 \<Rightarrow> u64 \<Rightarrow> nat \<Rightarrow> bool" where
  "mapped m cr3 a n \<longleftrightarrow> list_all (\<lambda>i. let va = a + of_nat i in
     case translate m cr3 va of None \<Rightarrow> False | Some (pa, rw, us) \<Rightarrow> pa = va \<and> rw) [0..<n]"

section \<open>Fields\<close>

lemma bit_get_field: "bit (get_field f w) n \<longleftrightarrow> n < field_width f \<and> bit w (field_off f + n)"
  by (simp add: get_field_def bit_take_bit_iff bit_drop_bit_eq)

lemma field_bound: "field_off f + field_width f \<le> 64"
  by (cases f) simp_all

lemma bit_set_field:
  "n < 64 \<Longrightarrow> bit (set_field f v w) n \<longleftrightarrow>
     (if field_off f \<le> n \<and> n < field_off f + field_width f then bit v (n - field_off f) else bit w n)"
  by (auto simp: set_field_def bit_or_iff bit_and_iff bit_not_iff bit_push_bit_iff bit_mask_iff
      bit_take_bit_iff possible_bit_word)

lemma fields_apart:
  "f \<noteq> g \<Longrightarrow> field_off f + field_width f \<le> field_off g \<or> field_off g + field_width g \<le> field_off f"
  by (cases f; cases g) simp_all

lemma get_set_same: "get_field f (set_field f v w) = take_bit (field_width f) v"
proof (rule bit_word_eqI)
  fix n assume "n < LENGTH(64)"
  show "bit (get_field f (set_field f v w)) n = bit (take_bit (field_width f) v) n"
    using field_bound [of f] by (auto simp: bit_get_field bit_set_field bit_take_bit_iff)
qed

lemma get_set_other:
  assumes "f \<noteq> g" shows "get_field g (set_field f v w) = get_field g w"
proof (rule bit_word_eqI)
  fix n assume "n < LENGTH(64)"
  show "bit (get_field g (set_field f v w)) n = bit (get_field g w) n"
    using field_bound [of g] fields_apart [OF assms] by (auto simp: bit_get_field bit_set_field)
qed

section \<open>The tables as an array of entries\<close>

definition n_entries :: nat where "n_entries = 1053184"

text \<open>The memory the tables take: page-aligned, and in reach of the 40 bits of \<open>page_addr\<close>.\<close>

definition base_ok :: "u64 \<Rightarrow> bool" where
  "base_ok base \<longleftrightarrow> 4096 dvd unat base \<and> unat base + 8 * n_entries \<le> 2 ^ 52"

definition entry :: "memory \<Rightarrow> u64 \<Rightarrow> nat \<Rightarrow> pte_field \<Rightarrow> u64" where
  "entry m base j f = get_field f (load64 m (elem base j))"

lemma elem_elem [simp]: "elem (elem base b) i = elem base (b + i)"
  by (simp add: elem_def algebra_simps)

lemma unat_elem:
  assumes "base_ok base" "j \<le> n_entries"
  shows "unat (elem base j) = unat base + 8 * j"
proof -
  have j: "8 * j < 2 ^ 64" and s: "unat base + 8 * j < 2 ^ 64"
    using assms by (simp_all add: base_ok_def n_entries_def)
  have o: "unat (of_nat (8 * j) :: u64) = 8 * j" using j by (simp only: unat_of_nat) simp
  have "elem base j = base + of_nat (8 * j)" by (simp add: elem_def)
  moreover have "unat (base + of_nat (8 * j)) = unat base + unat (of_nat (8 * j) :: u64)"
    using s o by (intro unat_add_small) simp
  ultimately show ?thesis using o by (simp only:)
qed

lemma elem_aligned: "base_ok base \<Longrightarrow> j < n_entries \<Longrightarrow> aligned8 (elem base j)"
proof -
  assume a: "base_ok base" "j < n_entries"
  then have "4096 dvd unat base" by (simp add: base_ok_def)
  moreover have "8 dvd (4096 :: nat)" by simp
  ultimately have "8 dvd unat base" by (rule dvd_trans [rotated])
  with a show ?thesis by (simp add: aligned8_dvd unat_elem)
qed

lemma elem_inj:
  "base_ok base \<Longrightarrow> i < n_entries \<Longrightarrow> j < n_entries \<Longrightarrow> elem base i = elem base j \<longleftrightarrow> i = j"
  by (simp add: word_unat_eq_iff unat_elem)

lemma entry_put:
  assumes b: "base_ok base" "i < n_entries" "j < n_entries"
  shows "entry (put_field m (elem base i) g v) base j f =
    (if i = j \<and> f = g then take_bit (field_width f) v else entry m base j f)"
proof (cases "i = j")
  case True
  then show ?thesis by (simp add: entry_def put_field_def get_set_same get_set_other)
next
  case False
  then have "load64 (put_field m (elem base i) g v) (elem base j) = load64 m (elem base j)"
    unfolding put_field_def using elem_aligned [OF b(1)] elem_inj [OF b] b
    by (intro mem64.get_put_other) simp_all
  with False show ?thesis by (simp add: entry_def)
qed

text \<open>The value the last assignment of a list gives a field.\<close>

fun field_val :: "(pte_field \<times> u64) list \<Rightarrow> pte_field \<Rightarrow> u64 \<Rightarrow> u64" where
  "field_val [] f d = d"
| "field_val ((g, v) # fs) f d = field_val fs f (if f = g then take_bit (field_width f) v else d)"

lemma entry_set_fields:
  assumes b: "base_ok base" "i < n_entries" "j < n_entries"
  shows "entry (set_fields m (elem base i) fs) base j f =
    (if i = j then field_val fs f (entry m base j f) else entry m base j f)"
proof (induction fs arbitrary: m)
  case Nil
  then show ?case by (simp add: set_fields_def)
next
  case (Cons x fs)
  obtain g v where x: "x = (g, v)" by force
  have "set_fields m (elem base i) (x # fs) = set_fields (put_field m (elem base i) g v) (elem base i) fs"
    by (simp add: set_fields_def x)
  then show ?case using Cons.IH [of "put_field m (elem base i) g v"] entry_put [OF b]
    by (cases "i = j"; cases "f = g") (simp_all add: x)
qed

text \<open>A loop over the entries \<open>b\<close> to \<open>b + n\<close>.\<close>

lemma entry_loop:
  assumes b: "base_ok base" "b + n \<le> n_entries" "j < n_entries"
    and loop: "\<And>m i. step m i = set_fields m (elem base (b + i)) (fs i)"
  shows "entry (foldl step m [0..<n]) base j f =
    (if b \<le> j \<and> j < b + n then field_val (fs (j - b)) f (entry m base j f) else entry m base j f)"
  using b(2)
proof (induction n)
  case (Suc n)
  have "b + n < n_entries" using Suc.prems by simp
  note put = entry_set_fields [OF b(1) this b(3)]
  from Suc have IH: "entry (foldl step m [0..<n]) base j f =
    (if b \<le> j \<and> j < b + n then field_val (fs (j - b)) f (entry m base j f) else entry m base j f)" by simp
  have "foldl step m [0..<Suc n] = set_fields (foldl step m [0..<n]) (elem base (b + n)) (fs n)"
    by (simp add: upt_Suc) (rule loop)
  then have "entry (foldl step m [0..<Suc n]) base j f = (if b + n = j
      then field_val (fs n) f (entry (foldl step m [0..<n]) base j f) else entry (foldl step m [0..<n]) base j f)"
    by (simp only: put)
  then show ?case unfolding IH by auto
qed auto

section \<open>The contents of the tables\<close>

text \<open>What an entry of the finished tables holds: presence, access by the user, and the page.\<close>

definition page_no :: "u64 \<Rightarrow> u64" where
  "page_no a = take_bit 40 (drop_bit 12 a)"

fun entry_is :: "bool \<Rightarrow> bool \<Rightarrow> u64 \<Rightarrow> (pte_field \<Rightarrow> u64) \<Rightarrow> bool" where
  "entry_is p u page e \<longleftrightarrow> e F_p = of_bool p \<and> e F_rw = of_bool p \<and> e F_us = of_bool u \<and>
     e F_mbz1 = 0 \<and> e F_page_addr = page"

lemma present_val: "entry_is True False (take_bit 40 page) (\<lambda>f. field_val (present_entry page) f (d f))"
  by (simp add: present_entry_def)

lemma absent_val: "entry_is False False 0 (\<lambda>f. field_val absent_entry f (d f))"
  by (simp add: absent_entry_def)

lemma user_val: "d F_mbz1 = 0 \<Longrightarrow> entry_is True True (take_bit 40 page) (\<lambda>f. field_val (user_entry page) f (d f))"
  by (simp add: user_entry_def)

text \<open>The layout: where each table begins, in entries.\<close>

definition at_pd :: nat where "at_pd = 1048576"
definition at_pdp :: nat where "at_pdp = 1050624"
definition at_pml :: nat where "at_pml = 1051136"
definition at_pdp_user :: nat where "at_pdp_user = 1051648"
definition at_pd_user :: nat where "at_pd_user = 1052160"
definition at_p_user :: nat where "at_p_user = 1052672"

lemmas layout = at_pd_def at_pdp_def at_pml_def at_pdp_user_def at_pd_user_def at_p_user_def n_entries_def

definition kernel_tables :: "u64 \<Rightarrow> memory \<Rightarrow> memory" where
  "kernel_tables base m =
     (let m = init_pte m base; m = init_pde m base (elem base at_pd);
          m = init_pdpe m (elem base at_pd) (elem base at_pdp); m = init_pml m (elem base at_pdp) (elem base at_pml);
          m = clear_table m (elem base at_pdp_user); m = clear_table m (elem base at_pd_user)
      in clear_table m (elem base at_p_user))"

lemma build_tables_kernel:
  "build_tables ustack uprogram base m =
     (elem base at_pml, map_user (kernel_tables base m) (elem base at_pml) (elem base at_pdp_user)
        (elem base at_pd_user) (elem base at_p_user) uprogram ustack)"
  by (simp add: build_tables_def kernel_tables_def Let_def layout)

lemma entry_init_pte:
  assumes "base_ok base" "j < n_entries"
  shows "entry (init_pte m base) base j f =
    (if j < 1048576 then field_val (present_entry (of_nat j)) f (entry m base j f) else entry m base j f)"
  unfolding init_pte_def
  using entry_loop [OF assms(1) _ assms(2), of 0 1048576 "\<lambda>m i. set_fields m (elem base i) (present_entry (of_nat i))"
      "\<lambda>i. present_entry (of_nat i)"] by (simp add: n_entries_def)

lemma entry_init_pde:
  assumes "base_ok base" "j < n_entries"
  shows "entry (init_pde m base (elem base at_pd)) base j f =
    (if at_pd \<le> j \<and> j < at_pdp then field_val (present_entry (drop_bit 12 (elem base (512 * (j - at_pd))))) f (entry m base j f)
     else entry m base j f)"
  unfolding init_pde_def Let_def
  by (subst entry_loop [OF assms(1) _ assms(2), where b = at_pd and
      fs = "\<lambda>i. present_entry (drop_bit 12 (elem base (512 * i)))"]) (simp_all add: layout)

lemma entry_init_pdpe:
  assumes "base_ok base" "j < n_entries"
  shows "entry (init_pdpe m (elem base at_pd) (elem base at_pdp)) base j f =
    (if at_pdp \<le> j \<and> j < at_pml then field_val (if j - at_pdp < 4
        then present_entry (drop_bit 12 (elem base (at_pd + 512 * (j - at_pdp)))) else absent_entry) f (entry m base j f)
     else entry m base j f)"
  unfolding init_pdpe_def Let_def
  by (subst entry_loop [OF assms(1) _ assms(2), where b = at_pdp and
      fs = "\<lambda>i. if i < 4 then present_entry (drop_bit 12 (elem base (at_pd + 512 * i))) else absent_entry"])
    (auto simp: layout)

lemma entry_init_pml:
  assumes "base_ok base" "j < n_entries"
  shows "entry (init_pml m (elem base at_pdp) (elem base at_pml)) base j f =
    (if at_pml \<le> j \<and> j < at_pdp_user then field_val (if j - at_pml < 1
        then present_entry (drop_bit 12 (elem base (at_pdp + 512 * (j - at_pml)))) else absent_entry) f (entry m base j f)
     else entry m base j f)"
  unfolding init_pml_def Let_def
  by (subst entry_loop [OF assms(1) _ assms(2), where b = at_pml and
      fs = "\<lambda>i. if i < 1 then present_entry (drop_bit 12 (elem base (at_pdp + 512 * i))) else absent_entry"])
    (auto simp: layout)

lemma entry_clear_table:
  assumes "base_ok base" "j < n_entries" "b + 512 \<le> n_entries"
  shows "entry (clear_table m (elem base b)) base j f =
    (if b \<le> j \<and> j < b + 512 then field_val absent_entry f (entry m base j f) else entry m base j f)"
  unfolding clear_table_def
  by (subst entry_loop [OF assms(1,3,2), where fs = "\<lambda>i. absent_entry"]) simp_all

text \<open>The range an entry lies in decides every guard of the loops.\<close>

lemma kernel_tables_entry_val:
  assumes b: "base_ok base" "j < n_entries"
  shows "entry (kernel_tables base m) base j f = field_val
    (if j < at_pd then present_entry (of_nat j)
     else if j < at_pdp then present_entry (drop_bit 12 (elem base (512 * (j - at_pd))))
     else if j < at_pdp + 4 then present_entry (drop_bit 12 (elem base (at_pd + 512 * (j - at_pdp))))
     else if j = at_pml then present_entry (drop_bit 12 (elem base at_pdp)) else absent_entry)
    f (entry m base j f)"
proof -
  have c: "at_pdp_user + 512 \<le> n_entries" "at_pd_user + 512 \<le> n_entries" "at_p_user + 512 \<le> n_entries"
    by (simp_all add: layout)
  have E: "entry (kernel_tables base m) base j f =
    (let d = entry m base j f;
         d = (if j < 1048576 then field_val (present_entry (of_nat j)) f d else d);
         d = (if at_pd \<le> j \<and> j < at_pdp then field_val (present_entry (drop_bit 12 (elem base (512 * (j - at_pd))))) f d else d);
         d = (if at_pdp \<le> j \<and> j < at_pml then field_val (if j - at_pdp < 4
              then present_entry (drop_bit 12 (elem base (at_pd + 512 * (j - at_pdp)))) else absent_entry) f d else d);
         d = (if at_pml \<le> j \<and> j < at_pdp_user then field_val (if j - at_pml < 1
              then present_entry (drop_bit 12 (elem base (at_pdp + 512 * (j - at_pml)))) else absent_entry) f d else d);
         d = (if at_pdp_user \<le> j \<and> j < at_pdp_user + 512 then field_val absent_entry f d else d);
         d = (if at_pd_user \<le> j \<and> j < at_pd_user + 512 then field_val absent_entry f d else d)
     in if at_p_user \<le> j \<and> j < at_p_user + 512 then field_val absent_entry f d else d)"
    by (simp only: kernel_tables_def Let_def entry_init_pte [OF b] entry_init_pde [OF b] entry_init_pdpe [OF b]
      entry_init_pml [OF b] entry_clear_table [OF b c(1)] entry_clear_table [OF b c(2)] entry_clear_table [OF b c(3)])
  consider "j < at_pd" | "at_pd \<le> j" "j < at_pdp" | "at_pdp \<le> j" "j < at_pdp + 4" | "at_pdp + 4 \<le> j" "j < at_pml"
    | "j = at_pml" | "at_pml < j" "j < at_pdp_user"
    | "at_pdp_user \<le> j" "j < at_pd_user" | "at_pd_user \<le> j" "j < at_p_user" | "at_p_user \<le> j" by linarith
  then show ?thesis
  proof cases
    case 3
    then have "j - at_pdp < 4" by linarith
    with 3 show ?thesis unfolding E Let_def by (simp add: layout del: field_val.simps)
  next
    case 4
    then have "\<not> j - at_pdp < 4" by linarith
    with 4 show ?thesis unfolding E Let_def by (simp add: layout del: field_val.simps)
  next
    case 5
    then show ?thesis unfolding E Let_def by (simp add: layout del: field_val.simps)
  qed (use b(2) in \<open>simp_all add: E layout Let_def del: field_val.simps\<close>)
qed

lemma kernel_tables_entry:
  assumes b: "base_ok base" "j < n_entries"
  shows "entry_is (j < at_pdp + 4 \<or> j = at_pml) False
    (if j < at_pd then take_bit 40 (of_nat j)
     else if j < at_pdp then page_no (elem base (512 * (j - at_pd)))
     else if j < at_pdp + 4 then page_no (elem base (at_pd + 512 * (j - at_pdp)))
     else if j = at_pml then page_no (elem base at_pdp) else 0)
    (entry (kernel_tables base m) base j)"
proof -
  have P: "entry_is True False (page_no a) (\<lambda>f. field_val (present_entry (drop_bit 12 a)) f (d f))" for a d
    using present_val [of "drop_bit 12 a" d] by (simp only: page_no_def)
  have eq: "entry (kernel_tables base m) base j = (\<lambda>f. field_val
    (if j < at_pd then present_entry (of_nat j)
     else if j < at_pdp then present_entry (drop_bit 12 (elem base (512 * (j - at_pd))))
     else if j < at_pdp + 4 then present_entry (drop_bit 12 (elem base (at_pd + 512 * (j - at_pdp))))
     else if j = at_pml then present_entry (drop_bit 12 (elem base at_pdp)) else absent_entry)
    f (entry m base j f))" by (rule ext) (rule kernel_tables_entry_val [OF b])
  have lt: "j < at_pd \<Longrightarrow> j < at_pdp + 4" "j < at_pdp \<Longrightarrow> j < at_pdp + 4" by (simp_all add: layout)
  consider (a) "j < at_pd" | (b) "\<not> j < at_pd" "j < at_pdp" | (c) "\<not> j < at_pd" "\<not> j < at_pdp" "j < at_pdp + 4"
    | (d) "\<not> j < at_pd" "\<not> j < at_pdp" "\<not> j < at_pdp + 4" "j = at_pml"
    | (e) "\<not> j < at_pd" "\<not> j < at_pdp" "\<not> j < at_pdp + 4" "j \<noteq> at_pml" by blast
  then show ?thesis
  proof cases
    case a
    with lt(1) show ?thesis unfolding eq by (simp only: if_True simp_thms present_val)
  next
    case b
    with lt(2) show ?thesis unfolding eq by (simp only: if_True if_False simp_thms P)
  next
    case c
    then show ?thesis unfolding eq by (simp only: if_True if_False simp_thms P)
  next
    case d
    then have "(j = at_pml) = True" by simp
    with d(1-3) show ?thesis unfolding eq by (simp only: if_True if_False simp_thms P)
  next
    case e
    then show ?thesis unfolding eq by (simp only: if_True if_False simp_thms absent_val)
  qed
qed

text \<open>The finished tables.\<close>

definition user_page :: "u64 \<Rightarrow> u64 \<Rightarrow> u64 \<Rightarrow> nat \<Rightarrow> u64 option" where
  "user_page base uprogram ustack j =
     (if j = at_pml + 511 then Some (page_no (elem base at_pdp_user))
      else if j = at_pdp_user + 511 then Some (page_no (elem base at_pd_user))
      else if j = at_pd_user + 511 then Some (page_no (elem base at_p_user))
      else if j = at_p_user + 511 then Some (page_no uprogram)
      else if j = at_p_user + 510 then Some (page_no (ustack - 4096)) else None)"

lemma tables_entry:
  assumes b: "base_ok base" "j < n_entries" and t: "m' = snd (build_tables ustack uprogram base m)"
  shows "case user_page base uprogram ustack j of
      Some page \<Rightarrow> entry_is True True page (entry m' base j)
    | None \<Rightarrow> (\<forall>f. entry m' base j f = entry (kernel_tables base m) base j f)"
proof -
  have c: "at_pml + 511 < n_entries" "at_pdp_user + 511 < n_entries" "at_pd_user + 511 < n_entries"
    "at_p_user + 511 < n_entries" "at_p_user + 510 < n_entries" by (simp_all add: layout)
  have ne: "at_pml + 511 \<noteq> at_pdp_user + 511" "at_pml + 511 \<noteq> at_pd_user + 511" "at_pml + 511 \<noteq> at_p_user + 511"
    "at_pml + 511 \<noteq> at_p_user + 510" "at_pdp_user + 511 \<noteq> at_pd_user + 511" "at_pdp_user + 511 \<noteq> at_p_user + 511"
    "at_pdp_user + 511 \<noteq> at_p_user + 510" "at_pd_user + 511 \<noteq> at_p_user + 511"
    "at_pd_user + 511 \<noteq> at_p_user + 510" "at_p_user + 511 \<noteq> at_p_user + 510" by (simp_all add: layout)
  have m': "entry m' base j f = entry (map_user (kernel_tables base m) (elem base at_pml) (elem base at_pdp_user)
        (elem base at_pd_user) (elem base at_p_user) uprogram ustack) base j f" for f
    by (simp add: t build_tables_kernel)
  note E = m' map_user_def Let_def elem_elem entry_set_fields [OF b(1) c(1) b(2)]
    entry_set_fields [OF b(1) c(2) b(2)] entry_set_fields [OF b(1) c(3) b(2)]
    entry_set_fields [OF b(1) c(4) b(2)] entry_set_fields [OF b(1) c(5) b(2)]
  have K: "entry (kernel_tables base m) base j F_mbz1 = 0" using kernel_tables_entry [OF b, of m] unfolding entry_is.simps by blast
  show ?thesis
  proof (cases "user_page base uprogram ustack j")
    case None
    then have "j \<noteq> at_pml + 511" "j \<noteq> at_pdp_user + 511" "j \<noteq> at_pd_user + 511" "j \<noteq> at_p_user + 511"
      "j \<noteq> at_p_user + 510" by (auto simp: user_page_def split: if_splits)
    then show ?thesis using None by (simp add: E)
  next
    case (Some page)
    have v: "entry_is True True (page_no a) (\<lambda>f. field_val (user_entry (drop_bit 12 a)) f
        (entry (kernel_tables base m) base j f))" for a
      using K user_val [of "entry (kernel_tables base m) base j" "drop_bit 12 a"] by (simp add: page_no_def)
    have "\<exists>a. page = page_no a \<and> (\<forall>f. entry m' base j f =
        field_val (user_entry (drop_bit 12 a)) f (entry (kernel_tables base m) base j f))"
    proof -
      consider "j = at_pml + 511" "page = page_no (elem base at_pdp_user)"
        | "j = at_pdp_user + 511" "page = page_no (elem base at_pd_user)"
        | "j = at_pd_user + 511" "page = page_no (elem base at_p_user)"
        | "j = at_p_user + 511" "page = page_no uprogram"
        | "j = at_p_user + 510" "page = page_no (ustack - 4096)"
        using Some by (auto simp: user_page_def split: if_splits)
      then show ?thesis
      proof cases
        case 1
        have "\<forall>f. entry m' base j f = field_val (user_entry (drop_bit 12 (elem base at_pdp_user))) f (entry (kernel_tables base m) base j f)"
        proof -
          have d: "(at_pml + 511 = j) = True" "(at_pdp_user + 511 = j) = False" "(at_pd_user + 511 = j) = False" "(at_p_user + 511 = j) = False" "(at_p_user + 510 = j) = False"
            by (simp_all add: 1(1) layout)
          show ?thesis unfolding E d by (simp only: if_True if_False simp_thms)
        qed
        with 1(2) show ?thesis by blast
      next
        case 2
        have "\<forall>f. entry m' base j f = field_val (user_entry (drop_bit 12 (elem base at_pd_user))) f (entry (kernel_tables base m) base j f)"
        proof -
          have d: "(at_pml + 511 = j) = False" "(at_pdp_user + 511 = j) = True" "(at_pd_user + 511 = j) = False" "(at_p_user + 511 = j) = False" "(at_p_user + 510 = j) = False"
            by (simp_all add: 2(1) layout)
          show ?thesis unfolding E d by (simp only: if_True if_False simp_thms)
        qed
        with 2(2) show ?thesis by blast
      next
        case 3
        have "\<forall>f. entry m' base j f = field_val (user_entry (drop_bit 12 (elem base at_p_user))) f (entry (kernel_tables base m) base j f)"
        proof -
          have d: "(at_pml + 511 = j) = False" "(at_pdp_user + 511 = j) = False" "(at_pd_user + 511 = j) = True" "(at_p_user + 511 = j) = False" "(at_p_user + 510 = j) = False"
            by (simp_all add: 3(1) layout)
          show ?thesis unfolding E d by (simp only: if_True if_False simp_thms)
        qed
        with 3(2) show ?thesis by blast
      next
        case 4
        have "\<forall>f. entry m' base j f = field_val (user_entry (drop_bit 12 (uprogram))) f (entry (kernel_tables base m) base j f)"
        proof -
          have d: "(at_pml + 511 = j) = False" "(at_pdp_user + 511 = j) = False" "(at_pd_user + 511 = j) = False" "(at_p_user + 511 = j) = True" "(at_p_user + 510 = j) = False"
            by (simp_all add: 4(1) layout)
          show ?thesis unfolding E d by (simp only: if_True if_False simp_thms)
        qed
        with 4(2) show ?thesis by blast
      next
        case 5
        have "\<forall>f. entry m' base j f = field_val (user_entry (drop_bit 12 (ustack - 4096))) f (entry (kernel_tables base m) base j f)"
        proof -
          have d: "(at_pml + 511 = j) = False" "(at_pdp_user + 511 = j) = False" "(at_pd_user + 511 = j) = False" "(at_p_user + 511 = j) = False" "(at_p_user + 510 = j) = True"
            by (simp_all add: 5(1) layout)
          show ?thesis unfolding E d by (simp only: if_True if_False simp_thms)
        qed
        with 5(2) show ?thesis by blast
      qed
    qed
    then obtain a where a: "page = page_no a" "\<And>f. entry m' base j f =
        field_val (user_entry (drop_bit 12 a)) f (entry (kernel_tables base m) base j f)" by blast
    with v [of a] Some show ?thesis by simp
  qed
qed

section \<open>Walking the tables\<close>

lemma push_page_no:
  assumes "4096 dvd unat a" "unat a < 2 ^ 52"
  shows "push_bit 12 (page_no a) = a"
proof (rule bit_word_eqI)
  fix n assume "n < LENGTH(64)"
  have low: "\<not> bit a n" if "n < 12"
  proof -
    have "take_bit 12 a = 0"
    proof -
      have "unat (take_bit 12 a) = unat a mod 4096" by (simp add: unat_mod take_bit_eq_mod)
      also have "\<dots> = 0" using assms(1) by (simp add: dvd_eq_mod_eq_0)
      finally show ?thesis by (simp only: unat_eq_0)
    qed
    then have "\<not> bit (take_bit 12 a) n" by simp
    with that show ?thesis by (simp add: bit_take_bit_iff)
  qed
  have high: "\<not> bit a n" if "52 \<le> n"
  proof -
    have "take_bit 52 a = a"
      using assms(2) by (simp add: word_unat_eq_iff unat_mod take_bit_eq_mod)
    then have "bit a n = bit (take_bit 52 a) n" by simp
    with that show ?thesis by (simp add: bit_take_bit_iff)
  qed
  have "12 \<le> n \<and> n < 52" if "bit a n" using low high that by (meson not_less)
  with \<open>n < LENGTH(64)\<close> show "bit (push_bit 12 (page_no a)) n = bit a n"
    by (auto simp: page_no_def bit_push_bit_iff bit_take_bit_iff bit_drop_bit_eq not_less not_le)
qed

lemma push_table:
  assumes "base_ok base" "512 dvd j" "j < n_entries"
  shows "push_bit 12 (page_no (elem base j)) = elem base j"
proof (rule push_page_no)
  have u: "unat (elem base j) = unat base + 8 * j" using assms by (intro unat_elem) simp_all
  obtain k where "j = 512 * k" using assms(2) by blast
  then have "8 * j = 4096 * k" by simp
  with u assms(1) show "4096 dvd unat (elem base j)" by (simp add: base_ok_def)
  show "unat (elem base j) < 2 ^ 52" using u assms by (simp add: base_ok_def)
qed

lemma index_less: "index l va < 512"
  by (simp add: index_def)

lemma walk_step:
  assumes e: "entry_is p u page (entry m base (b + index l va))"
  shows "walk m l (elem base b) rw us va =
    (if \<not> p then None else if l = 0 then Some (push_bit 12 page OR take_bit 12 va, rw, us \<and> u)
     else walk m (l - 1) (push_bit 12 page) rw (us \<and> u) va)"
proof -
  define w where "w = load64 m (elem base (b + index l va))"
  have "get_field F_p w = of_bool p" "get_field F_rw w = of_bool p" "get_field F_us w = of_bool u"
    "get_field F_mbz1 w = 0" "get_field F_page_addr w = page"
    using e by (simp_all add: entry_def w_def)
  moreover have "walk m l (elem base b) rw us va =
      (if get_field F_p w = 0 then None
       else if l = 0 then Some (target w OR take_bit 12 va, rw \<and> get_field F_rw w = 1, us \<and> get_field F_us w = 1)
       else if get_field F_mbz1 w = 1 then None
       else walk m (l - 1) (target w) (rw \<and> get_field F_rw w = 1) (us \<and> get_field F_us w = 1) va)"
    by (subst walk.simps) (simp only: Let_def elem_elem w_def)
  ultimately show ?thesis by (simp add: target_def)
qed

text \<open>The virtual address, taken apart.\<close>

lemma index_parts:
  fixes va :: u64
  defines "v \<equiv> unat va mod 2 ^ 48"
  shows "v div 4096 = index 0 va + 512 * (index 1 va + 512 * (index 2 va + 512 * index 3 va))"
proof -
  define a where "a = unat va div 4096"
  have i: "index 0 va = a mod 512" "index 1 va = a div 512 mod 512" "index 2 va = a div 512 div 512 mod 512"
    "index 3 va = a div 512 div 512 div 512 mod 512"
    by (simp_all add: index_def a_def div_mult2_eq [symmetric])
  have "v div 4096 = a mod 2 ^ 36"
  proof -
    have "v div 4096 = (unat va mod (4096 * 2 ^ 36)) div 4096" by (simp add: v_def)
    then show ?thesis by (simp only: mod_mult2_eq a_def)
  qed
  also have "(2 ^ 36 :: nat) = 512 * (512 * (512 * 512))" by simp
  finally have "v div 4096 = a mod (512 * (512 * (512 * 512)))" .
  moreover have "512 * (512 * (512 * d + c) + b) + e = e + 512 * (b + 512 * (c + 512 * d))" for b c d e :: nat
    by simp
  ultimately show ?thesis unfolding i by (simp only: mod_mult2_eq div_mult2_eq)
qed

lemma parts_regions:
  fixes i0 :: nat
  assumes "i0 < 512" "i1 < 512" "i2 < 512" "i3 < 512"
  shows "i0 + 512 * (i1 + 512 * (i2 + 512 * i3)) < 1048576 \<longleftrightarrow> i3 = 0 \<and> i2 < 4"
    and "68719476734 \<le> i0 + 512 * (i1 + 512 * (i2 + 512 * i3)) \<longleftrightarrow> i3 = 511 \<and> i2 = 511 \<and> i1 = 511 \<and> 510 \<le> i0"
    and "68719476735 \<le> i0 + 512 * (i1 + 512 * (i2 + 512 * i3)) \<longleftrightarrow> i3 = 511 \<and> i2 = 511 \<and> i1 = 511 \<and> i0 = 511"
proof -
  show "i0 + 512 * (i1 + 512 * (i2 + 512 * i3)) < 1048576 \<longleftrightarrow> i3 = 0 \<and> i2 < 4"
    using assms by (cases "i3 = 0"; cases "i2 < 4") simp_all
  show "68719476734 \<le> i0 + 512 * (i1 + 512 * (i2 + 512 * i3)) \<longleftrightarrow> i3 = 511 \<and> i2 = 511 \<and> i1 = 511 \<and> 510 \<le> i0"
    using assms by (cases "i3 = 511"; cases "i2 = 511"; cases "i1 = 511") simp_all
  show "68719476735 \<le> i0 + 512 * (i1 + 512 * (i2 + 512 * i3)) \<longleftrightarrow> i3 = 511 \<and> i2 = 511 \<and> i1 = 511 \<and> i0 = 511"
    using assms by (cases "i3 = 511"; cases "i2 = 511"; cases "i1 = 511"; cases "i0 = 511") simp_all
qed

lemma index_regions:
  fixes va :: u64
  defines "v \<equiv> unat va mod 2 ^ 48"
  shows "v < 2 ^ 32 \<longleftrightarrow> index 3 va = 0 \<and> index 2 va < 4"
    and "2 ^ 48 - 8192 \<le> v \<longleftrightarrow> index 3 va = 511 \<and> index 2 va = 511 \<and> index 1 va = 511 \<and> 510 \<le> index 0 va"
    and "2 ^ 48 - 4096 \<le> v \<longleftrightarrow> index 3 va = 511 \<and> index 2 va = 511 \<and> index 1 va = 511 \<and> index 0 va = 511"
proof -
  define q where "q = v div 4096"
  have q: "q = index 0 va + 512 * (index 1 va + 512 * (index 2 va + 512 * index 3 va))"
    using index_parts [of va] by (simp only: q_def v_def)
  note l = index_less [of 0 va] index_less [of 1 va] index_less [of 2 va] index_less [of 3 va]
  have "v < 2 ^ 32 \<longleftrightarrow> q < 1048576" by (simp add: q_def div_less_iff_less_mult)
  then show "v < 2 ^ 32 \<longleftrightarrow> index 3 va = 0 \<and> index 2 va < 4"
    using parts_regions(1) [OF l] by (simp only: q)
  have ge: "4096 * x \<le> v \<longleftrightarrow> x \<le> q" for x by (simp add: q_def less_eq_div_iff_mult_less_eq mult.commute)
  have "2 ^ 48 - 8192 = 4096 * (68719476734 :: nat)" "2 ^ 48 - 4096 = 4096 * (68719476735 :: nat)" by simp_all
  then have "2 ^ 48 - 8192 \<le> v \<longleftrightarrow> 68719476734 \<le> q" "2 ^ 48 - 4096 \<le> v \<longleftrightarrow> 68719476735 \<le> q"
    by (simp_all only: ge)
  then show "2 ^ 48 - 8192 \<le> v \<longleftrightarrow> index 3 va = 511 \<and> index 2 va = 511 \<and> index 1 va = 511 \<and> 510 \<le> index 0 va"
    "2 ^ 48 - 4096 \<le> v \<longleftrightarrow> index 3 va = 511 \<and> index 2 va = 511 \<and> index 1 va = 511 \<and> index 0 va = 511"
    using parts_regions(2,3) [OF l] by (simp_all only: q)
qed

text \<open>The specification: the page of \<open>a\<close> with the offset of \<open>va\<close>, and the map the tables stand for.\<close>

definition in_page :: "u64 \<Rightarrow> u64 \<Rightarrow> u64" where
  "in_page a va = push_bit 12 (page_no a) OR take_bit 12 va"

definition address_map :: "u64 \<Rightarrow> u64 \<Rightarrow> u64 \<Rightarrow> (u64 \<times> bool \<times> bool) option" where
  "address_map uprogram ustack va =
     (let v = unat va mod 2 ^ 48
      in if v < 2 ^ 32 then Some (take_bit 48 va, True, False)
         else if 2 ^ 48 - 4096 \<le> v then Some (in_page uprogram va, True, True)
         else if 2 ^ 48 - 8192 \<le> v then Some (in_page (ustack - 4096) va, True, True)
         else None)"

lemma identity_page:
  fixes va :: u64
  assumes "unat va mod 2 ^ 48 div 4096 = j"
  shows "push_bit 12 (take_bit 40 (of_nat j)) OR take_bit 12 va = take_bit 48 va"
proof -
  have "unat (drop_bit 12 (take_bit 48 va)) = j"
    using assms by (simp add: take_bit_eq_mod drop_bit_eq_div unat_mod unat_div)
  then have "of_nat j = drop_bit 12 (take_bit 48 va)" by auto
  then show ?thesis
    by (intro bit_word_eqI) (auto simp: bit_or_iff bit_push_bit_iff bit_take_bit_iff bit_drop_bit_eq not_less)
qed

text \<open>The entries of the finished tables, one rule per kind.\<close>

lemma final_kernel:
  assumes b: "base_ok base" "j < n_entries" "user_page base uprogram ustack j = None"
  shows "entry_is (j < at_pdp + 4 \<or> j = at_pml) False
    (if j < at_pd then take_bit 40 (of_nat j)
     else if j < at_pdp then page_no (elem base (512 * (j - at_pd)))
     else if j < at_pdp + 4 then page_no (elem base (at_pd + 512 * (j - at_pdp)))
     else if j = at_pml then page_no (elem base at_pdp) else 0)
    (entry (snd (build_tables ustack uprogram base m)) base j)"
proof -
  have eq: "\<forall>f. entry (snd (build_tables ustack uprogram base m)) base j f = entry (kernel_tables base m) base j f"
    using tables_entry [OF b(1,2) refl, of ustack uprogram m] b(3) by simp
  show ?thesis using kernel_tables_entry [OF b(1,2), of m] unfolding entry_is.simps
    by (simp only: eq [rule_format])
qed

lemma final_user:
  "base_ok base \<Longrightarrow> j < n_entries \<Longrightarrow> user_page base uprogram ustack j = Some page \<Longrightarrow>
   entry_is True True page (entry (snd (build_tables ustack uprogram base m)) base j)"
  using tables_entry [OF _ _ refl, of base j ustack uprogram m] by simp

text \<open>\<open>has_tables\<close>: the entries of \<open>M\<close> are those of finished tables, whatever else \<open>M\<close> holds.\<close>

definition has_tables :: "u64 \<Rightarrow> u64 \<Rightarrow> u64 \<Rightarrow> memory \<Rightarrow> bool" where
  "has_tables ustack uprogram base M \<longleftrightarrow>
     (\<exists>m. \<forall>j < n_entries. entry M base j = entry (snd (build_tables ustack uprogram base m)) base j)"

lemma has_tables_built: "has_tables ustack uprogram base (snd (build_tables ustack uprogram base m))"
  by (auto simp: has_tables_def)

lemma has_kernel:
  assumes "has_tables ustack uprogram base M" "base_ok base" "j < n_entries" "user_page base uprogram ustack j = None"
  shows "entry_is (j < at_pdp + 4 \<or> j = at_pml) False
    (if j < at_pd then take_bit 40 (of_nat j)
     else if j < at_pdp then page_no (elem base (512 * (j - at_pd)))
     else if j < at_pdp + 4 then page_no (elem base (at_pd + 512 * (j - at_pdp)))
     else if j = at_pml then page_no (elem base at_pdp) else 0)
    (entry M base j)"
proof -
  from assms(1,3) obtain m where "entry M base j = entry (snd (build_tables ustack uprogram base m)) base j"
    by (auto simp: has_tables_def)
  then show ?thesis using final_kernel [OF assms(2-4), of m] by simp
qed

lemma has_user:
  assumes "has_tables ustack uprogram base M" "base_ok base" "j < n_entries" "user_page base uprogram ustack j = Some page"
  shows "entry_is True True page (entry M base j)"
proof -
  from assms(1,3) obtain m where "entry M base j = entry (snd (build_tables ustack uprogram base m)) base j"
    by (auto simp: has_tables_def)
  then show ?thesis using final_user [OF assms(2-4), of m] by simp
qed

lemma walk_absent:
  assumes M: "has_tables ustack uprogram base M" and b: "base_ok base" "j = b + index l va" "j < n_entries" "user_page base uprogram ustack j = None"
    "at_pdp + 4 \<le> j" "j \<noteq> at_pml"
  shows "walk M l (elem base b) rw us va = None"
proof -
  have "\<not> j < at_pd" "\<not> j < at_pdp" "\<not> j < at_pdp + 4" using b(5) by (simp_all add: layout)
  with has_kernel [OF M b(1,3,4)] b(6)
  have "entry_is False False 0 (entry M base (b + index l va))"
    by (simp only: b(2) if_False simp_thms)
  from walk_step [OF this] show ?thesis by simp
qed

lemma walk_user:
  assumes M: "has_tables ustack uprogram base M" and b: "base_ok base" "j = b + index l va" "j < n_entries" "user_page base uprogram ustack j = Some page"
  shows "walk M l (elem base b) rw us va =
    (if l = 0 then Some (push_bit 12 page OR take_bit 12 va, rw, us)
     else walk M (l - 1) (push_bit 12 page) rw us va)"
  using walk_step [OF has_user [OF M b(1,3,4), unfolded b(2)]] by simp

lemma walk_kernel:
  assumes M: "has_tables ustack uprogram base M" and b: "base_ok base" "j = b + index l va" "j < at_pdp + 4 \<or> j = at_pml"
    and page: "page = (if j < at_pd then take_bit 40 (of_nat j)
     else if j < at_pdp then page_no (elem base (512 * (j - at_pd)))
     else if j < at_pdp + 4 then page_no (elem base (at_pd + 512 * (j - at_pdp)))
     else page_no (elem base at_pdp))"
  shows "walk M l (elem base b) rw us va =
    (if l = 0 then Some (push_bit 12 page OR take_bit 12 va, rw, False)
     else walk M (l - 1) (push_bit 12 page) rw False va)"
proof -
  have n: "j < n_entries" and u: "user_page base uprogram ustack j = None"
    using b(3) by (auto simp: layout user_page_def)
  have "entry_is True False page (entry M base (b + index l va))"
  proof -
    have "(if j < at_pd then take_bit 40 (of_nat j)
       else if j < at_pdp then page_no (elem base (512 * (j - at_pd)))
       else if j < at_pdp + 4 then page_no (elem base (at_pd + 512 * (j - at_pdp)))
       else if j = at_pml then page_no (elem base at_pdp) else 0) = page"
      unfolding page using b(3) by auto
    moreover have "(j < at_pdp + 4 \<or> j = at_pml) = True" using b(3) by simp
    ultimately show ?thesis using has_kernel [OF M b(1) n u] by (simp only: b(2))
  qed
  from walk_step [OF this] show ?thesis by simp
qed

lemma translate_tables:
  assumes base: "base_ok base" and M: "has_tables ustack uprogram base M"
  shows "translate M (elem base at_pml) va = address_map uprogram ustack va"
proof -
  let ?m = M
  note walk = walk_kernel [OF M base refl]
  note user = walk_user [OF M base refl]
  note none = walk_absent [OF M base refl]
  define i0 i1 i2 i3 where i: "i0 = index 0 va" "i1 = index 1 va" "i2 = index 2 va" "i3 = index 3 va"
  have l: "i0 < 512" "i1 < 512" "i2 < 512" "i3 < 512" using index_less by (simp_all add: i)
  define v where "v = unat va mod 2 ^ 48"
  note R = index_regions [of va, folded v_def i]
  have v: "v div 4096 = i0 + 512 * (i1 + 512 * (i2 + 512 * i3))" using index_parts [of va] by (simp add: v_def i)
  have map: "address_map uprogram ustack va = (if i3 = 0 \<and> i2 < 4 then Some (take_bit 48 va, True, False)
      else if i3 = 511 \<and> i2 = 511 \<and> i1 = 511 \<and> i0 = 511 then Some (in_page uprogram va, True, True)
      else if i3 = 511 \<and> i2 = 511 \<and> i1 = 511 \<and> 510 \<le> i0 then Some (in_page (ustack - 4096) va, True, True)
      else None)"
    by (simp only: address_map_def Let_def v_def [symmetric] R)
  have d: "512 dvd at_pdp" "512 dvd at_pdp_user" "512 dvd at_pd_user" "512 dvd at_p_user" "512 dvd at_pd"
    "at_pdp < n_entries" "at_pdp_user < n_entries" "at_pd_user < n_entries" "at_p_user < n_entries"
    by (simp_all add: layout)
  show ?thesis
  proof (cases "i3 = 0")
    case True
    have s3: "translate ?m (elem base at_pml) va = walk ?m 2 (elem base at_pdp) True False va"
      using walk [of at_pml 3 va _ True True, OF _ refl] True push_table [OF base d(1,6)]
      by (simp add: translate_def i layout)
    show ?thesis
    proof (cases "i2 < 4")
      case i2: True
      have p2: "push_bit 12 (page_no (elem base (at_pd + 512 * i2))) = elem base (at_pd + 512 * i2)"
        using i2 by (intro push_table [OF base]) (simp_all add: layout)
      have s2: "walk ?m 2 (elem base at_pdp) True False va = walk ?m 1 (elem base (at_pd + 512 * i2)) True False va"
        using walk [of at_pdp 2 va _ True False, OF _ refl] i2 p2 by (simp add: i layout)
      have p1: "push_bit 12 (page_no (elem base (512 * (512 * i2 + i1)))) = elem base (512 * (512 * i2 + i1))"
        using i2 l by (intro push_table [OF base]) (simp_all add: layout)
      have j1: "at_pd + 512 * i2 + i1 < at_pdp" "\<not> at_pd + 512 * i2 + i1 < at_pd"
        using i2 l by (simp_all add: layout)
      let ?j = "at_pd + 512 * i2 + i1"
      have jj: "?j = at_pd + 512 * i2 + index 1 va" "?j < at_pdp + 4 \<or> ?j = at_pml" using j1 by (simp_all add: i)
      have pg: "page_no (elem base (512 * (512 * i2 + i1))) = (if ?j < at_pd then take_bit 40 (of_nat ?j)
          else if ?j < at_pdp then page_no (elem base (512 * (?j - at_pd)))
          else if ?j < at_pdp + 4 then page_no (elem base (at_pd + 512 * (?j - at_pdp))) else page_no (elem base at_pdp))"
        using j1 by simp
      have s1: "walk ?m 1 (elem base (at_pd + 512 * i2)) True False va = walk ?m 0 (elem base (512 * (512 * i2 + i1))) True False va"
        using walk_kernel [OF M base jj pg, of True False] p1 by simp
      have j0: "512 * (512 * i2 + i1) + i0 < at_pd" using i2 l by (simp add: layout)
      have "at_pd < at_pdp" by (simp add: layout)
      with j0 have s0: "walk ?m 0 (elem base (512 * (512 * i2 + i1))) True False va =
          Some (push_bit 12 (take_bit 40 (of_nat (512 * (512 * i2 + i1) + i0))) OR take_bit 12 va, True, False)"
        using walk [of "512 * (512 * i2 + i1)" 0 va _ True False, OF _ refl] by (simp add: i [symmetric])
      have "unat va mod 2 ^ 48 div 4096 = 512 * (512 * i2 + i1) + i0"
        using v True by (simp add: v_def)
      from identity_page [OF this] show ?thesis using s3 s2 s1 s0 True i2 by (simp only: map simp_thms if_True)
    next
      case False
      have "walk ?m 2 (elem base at_pdp) True False va = None"
        using none [of at_pdp 2 va] False l by (simp add: i [symmetric] layout user_page_def)
      with s3 False True show ?thesis by (simp only: map) simp
    qed
  next
    case i3: False
    show ?thesis
    proof (cases "i3 = 511")
      case False
      have "translate ?m (elem base at_pml) va = None"
        unfolding translate_def using none [of at_pml 3 va] False i3 l by (simp add: i [symmetric] layout user_page_def)
      with False i3 show ?thesis by (simp only: map) simp
    next
      case True
      have s3: "translate ?m (elem base at_pml) va = walk ?m 2 (elem base at_pdp_user) True True va"
        unfolding translate_def using user [of at_pml 3 va] True push_table [OF base d(2,7)]
        by (simp add: i [symmetric] layout user_page_def)
      show ?thesis
      proof (cases "i2 = 511")
        case False
        have "walk ?m 2 (elem base at_pdp_user) True True va = None"
          using none [of at_pdp_user 2 va] False l by (simp add: i [symmetric] layout user_page_def)
        with s3 False True i3 show ?thesis by (simp only: map) simp
      next
        case i2: True
        have s2: "walk ?m 2 (elem base at_pdp_user) True True va = walk ?m 1 (elem base at_pd_user) True True va"
          using user [of at_pdp_user 2 va] i2 push_table [OF base d(3,8)]
          by (simp add: i [symmetric] layout user_page_def)
        show ?thesis
        proof (cases "i1 = 511")
          case False
          have "walk ?m 1 (elem base at_pd_user) True True va = None"
            using none [of at_pd_user 1 va, folded i] False l by (simp add: layout user_page_def)
          with s3 s2 False True i3 show ?thesis by (simp only: map) simp
        next
          case i1: True
          have s1: "walk ?m 1 (elem base at_pd_user) True True va = walk ?m 0 (elem base at_p_user) True True va"
            using user [of at_pd_user 1 va, folded i] i1 push_table [OF base d(4,9)]
            by (simp add: layout user_page_def)
          consider "i0 = 511" | "i0 = 510" | "i0 < 510" using l by linarith
          then have s0: "walk ?m 0 (elem base at_p_user) True True va =
            (if i0 = 511 then Some (in_page uprogram va, True, True)
             else if i0 = 510 then Some (in_page (ustack - 4096) va, True, True) else None)"
          proof cases
            case 1
            then show ?thesis using user [of at_p_user 0 va] by (simp add: i [symmetric] layout user_page_def in_page_def)
          next
            case 2
            then show ?thesis using user [of at_p_user 0 va] by (simp add: i [symmetric] layout user_page_def in_page_def)
          next
            case 3
            then show ?thesis using none [of at_p_user 0 va] by (simp add: i [symmetric] layout user_page_def)
          qed
          have "(510 \<le> i0 \<and> i0 \<noteq> 511) = (i0 = 510)" using l by linarith
          with s3 s2 s1 s0 True i2 i1 i3 show ?thesis by (simp only: map) auto
        qed
      qed
    qed
  qed
qed

text \<open>Writes outside the tables leave them intact, and what lies in the first 4 GB is mapped to itself.\<close>

lemma has_tables_frame:
  assumes M: "has_tables ustack uprogram base M" and base: "base_ok base"
    and same: "\<And>a. unat base \<le> unat a \<Longrightarrow> unat a < unat base + 8 * n_entries \<Longrightarrow> M' a = M a"
  shows "has_tables ustack uprogram base M'"
proof -
  have "entry M' base j = entry M base j" if j: "j < n_entries" for j
  proof -
    have n: "unat base + 8 * n_entries < 2 ^ 64" using base by (simp add: base_ok_def)
    have "M' (elem base j + of_nat k) = M (elem base j + of_nat k)" if k: "k < 8" for k
    proof -
      have o: "unat (of_nat k :: u64) = k" using k by (simp add: unat_of_nat)
      have "unat (elem base j + of_nat k) = unat base + 8 * j + k"
        using j k n o unat_elem [OF base, of j] by (subst unat_add_small) simp_all
      with j k show ?thesis by (intro same) simp_all
    qed
    then have "load64 M' (elem base j) = load64 M (elem base j)" by (rule load64_cong)
    then show ?thesis by (simp add: entry_def fun_eq_iff)
  qed
  with M show ?thesis by (simp add: has_tables_def)
qed

lemma mapped_low:
  assumes base: "base_ok base" and M: "has_tables ustack uprogram base M" and n: "unat a + n \<le> 2 ^ 32"
  shows "mapped M (elem base at_pml) a n"
proof -
  have "translate M (elem base at_pml) (a + of_nat i) = Some (a + of_nat i, True, False)" if i: "i < n" for i
  proof -
    have o: "unat (of_nat i :: u64) = i" using i n by (simp add: unat_of_nat)
    have u: "unat (a + of_nat i) = unat a + i" using i n o by (subst unat_add_small) simp_all
    then have v: "unat (a + of_nat i) < 2 ^ 32" using i n by simp
    then have "take_bit 48 (a + of_nat i) = a + of_nat i"
      by (simp add: word_unat_eq_iff unsigned_take_bit_eq take_bit_nat_eq_self_iff)
    with v show ?thesis unfolding translate_tables [OF base M] by (simp add: address_map_def Let_def)
  qed
  then show ?thesis by (simp add: mapped_def list_all_iff Let_def)
qed

section \<open>Properties\<close>

text \<open>C19: The tables \<open>kernel_init\<close> builds mean what they should, for every virtual address: the first
  4 GB are mapped to themselves, writable, for the kernel only; the last page is the page of the
  user program and the page before it the page below the user stack pointer, both writable
  and open to the user; nothing else is mapped. The contents of the memory before do not matter.\<close>

theorem page_tables_map:
  assumes "base_ok base"
  shows "(case build_tables ustack uprogram base m of (pml, m') \<Rightarrow> translate m' pml va) = address_map uprogram ustack va"
  using translate_tables [OF assms has_tables_built, of ustack uprogram m va] by (simp add: build_tables_kernel)

theorem page_tables_map_witness:
  "(case build_tables 0x900000 0x200000 0x500000 (\<lambda>_. 0) of (pml, m') \<Rightarrow>
     (translate m' pml 0xDEADBEEF, translate m' pml 0xFFFFFFFFFFFFF000, translate m' pml 0xFFFFFFFFFFFFE000, translate m' pml 0x123456789)) =
   (Some (0xDEADBEEF, True, False), Some (0x200000, True, True), Some (0x8FF000, True, True), None)"
proof -
  have b: "base_ok 0x500000" by (simp add: base_ok_def n_entries_def)
  note map = page_tables_map [OF b, where ustack = "0x900000" and uprogram = "0x200000" and m = "\<lambda>_. 0"]
  have n: "unat (0xFFFFFFFFFFFFF000 :: u64) = 0xFFFFFFFFFFFFF000" "unat (0xFFFFFFFFFFFFE000 :: u64) = 0xFFFFFFFFFFFFE000"
    "unat (0xDEADBEEF :: u64) = 0xDEADBEEF" "unat (0x123456789 :: u64) = 0x123456789" by simp_all
  have "address_map 0x200000 0x900000 0xDEADBEEF = Some (0xDEADBEEF, True, False)"
    "address_map 0x200000 0x900000 0xFFFFFFFFFFFFF000 = Some (0x200000, True, True)"
    "address_map 0x200000 0x900000 0xFFFFFFFFFFFFE000 = Some (0x8FF000, True, True)"
    "address_map 0x200000 0x900000 0x123456789 = None"
    unfolding address_map_def Let_def n
    by (simp_all add: in_page_def page_no_def take_bit_eq_mod drop_bit_eq_div push_bit_eq_mult)
  with map show ?thesis by (simp add: case_prod_unfold)
qed

end
