(* ===== verification/Kernel_Frame.thy ===== *)
theory Kernel_Frame
  imports Kernel_Alloc
begin

text \<open>
  The frame of the kernel's allocator and of its test: whatever they do, and from whatever state,
  they write only between the start of the heap and the end of its memory. The page tables, which lie
  above, stay as they are.
\<close>

definition heap_byte :: "heap_state \<Rightarrow> u64 \<Rightarrow> bool" where
  "heap_byte st a \<longleftrightarrow> heap_start st \<le> a \<and> a < mem_max_addr st"

text \<open>\<open>within s st\<close>: \<open>st\<close> comes from \<open>s\<close>, with the break still inside the memory, by writes to the heap only.\<close>

definition within :: "heap_state \<Rightarrow> heap_state \<Rightarrow> bool" where
  "within s st \<longleftrightarrow> heap_start st = heap_start s \<and> mem_max_addr st = mem_max_addr s \<and> mem_brk st \<le> mem_max_addr s \<and>
     (\<forall>a. \<not> heap_byte s a \<longrightarrow> hmem st a = hmem s a)"

named_theorems frame \<comment> \<open>the operations keep \<open>within\<close>\<close>

lemma within_refl: "mem_brk s \<le> mem_max_addr s \<Longrightarrow> within s s"
  by (simp add: within_def)

lemma within_write:
  assumes "within s st" "unat (heap_start st) \<le> unat p" "unat p + n \<le> unat (mem_brk st)"
    "\<And>a. \<not> unat (a - p) < n \<Longrightarrow> m a = hmem st a"
  shows "within s (st\<lparr>hmem := m\<rparr>)"
proof -
  have "m a = hmem s a" if a: "\<not> heap_byte s a" for a
  proof -
    have "\<not> unat (a - p) < n"
    proof
      assume lt: "unat (a - p) < n"
      have small: "unat p + unat (a - p) < 2 ^ 64" using lt assms(3) unat_lt64 [of "mem_brk st"] by simp
      then have "unat a = unat p + unat (a - p)" using unat_add_small [of p "a - p"] by simp
      with lt assms(1-3) a show False by (auto simp: within_def heap_byte_def word_le_nat_alt word_less_nat_alt)
    qed
    with assms(1,4) a show ?thesis by (simp add: within_def)
  qed
  with assms(1) show ?thesis by (simp add: within_def)
qed

lemma PUT_within [frame]: "PUT p v st = Some st' \<Longrightarrow> within s st \<Longrightarrow> within s st'"
  by (auto simp: PUT_def in_heap8_def store64_def store_bytes_def split: if_splits intro!: within_write [where p = p and n = 8])

lemma SET_PTR_within [frame]: "SET_PTR p v st = Some st' \<Longrightarrow> within s st \<Longrightarrow> within s st'"
  unfolding SET_PTR_def by (rule PUT_within)

lemma seg_set_within [frame]: "seg_set l p st = Some st' \<Longrightarrow> within s st \<Longrightarrow> within s st'"
  by (auto simp: seg_set_def within_def split: if_splits Option.bind_splits)

lemma node_add_within [frame]: "node_add p n st = Some st' \<Longrightarrow> within s st \<Longrightarrow> within s st'"
  unfolding node_add_def Let_def by (auto split: if_splits Option.bind_splits) ((drule (1) frame)+, assumption)+

lemma node_remove_within [frame]: "node_remove p st = Some st' \<Longrightarrow> within s st \<Longrightarrow> within s st'"
  unfolding node_remove_def Let_def by (auto split: if_splits Option.bind_splits) ((drule (1) frame)+, assumption)+

lemma coalesce_within [frame]: "coalesce bp st = Some (r, st') \<Longrightarrow> within s st \<Longrightarrow> within s st'"
  unfolding coalesce_def Let_def by (auto split: if_splits Option.bind_splits) ((drule (1) frame)+, assumption)+

lemma sbrk_within [frame]: "kernel_mem_sbrk incr st = (r, st') \<Longrightarrow> within s st \<Longrightarrow> within s st'"
  by (auto simp: kernel_mem_sbrk_def within_def split: if_splits)

lemma extend_heap_within [frame]: "extend_heap kernel_mem_sbrk n st = Some (r, st') \<Longrightarrow> within s st \<Longrightarrow> within s st'"
  unfolding extend_heap_def Let_def by (auto split: if_splits Option.bind_splits prod.splits) ((drule (1) frame)+, assumption)+

lemma place_within [frame]: "place bp n st = Some st' \<Longrightarrow> within s st \<Longrightarrow> within s st'"
  unfolding place_def Let_def by (auto split: if_splits Option.bind_splits) ((drule (1) frame)+, assumption)+

lemma kernel_malloc_within [frame]: "kernel_malloc n st = Some (r, st') \<Longrightarrow> within s st \<Longrightarrow> within s st'"
  unfolding kernel_malloc_def malloc_with_def Let_def by (auto split: if_splits Option.bind_splits) ((drule (1) frame)+, assumption)+

lemma kernel_free_within [frame]: "kernel_free p st = Some st' \<Longrightarrow> within s st \<Longrightarrow> within s st'"
  unfolding kernel_free_def kernel_node_add_def kernel_coalesce_def by (auto split: if_splits Option.bind_splits) ((drule (1) frame)+, assumption)+

lemma kernel_mm_init_within [frame]: "kernel_mm_init st = Some (r, st') \<Longrightarrow> within s st \<Longrightarrow> within s st'"
proof -
  have h [simp]: "within s (st\<lparr>heap_listp := p\<rparr>) = within s st" "within s (st\<lparr>seg_list := l\<rparr>) = within s st" for st p l
    by (simp_all add: within_def)
  have f: "kernel_mem_sbrk incr (st\<lparr>seg_list := l\<rparr>) = (x, st') \<Longrightarrow> within s st \<Longrightarrow> within s st'"
    "PUT p v (st\<lparr>heap_listp := q\<rparr>) = Some st' \<Longrightarrow> within s st \<Longrightarrow> within s st'"
    "extend_heap kernel_mem_sbrk n (st\<lparr>heap_listp := q\<rparr>) = Some (b, st') \<Longrightarrow> within s st \<Longrightarrow> within s st'" for st st' incr l x p v q n b
    by (simp_all add: sbrk_within [of _ "st\<lparr>seg_list := l\<rparr>"] PUT_within [of _ _ "st\<lparr>heap_listp := q\<rparr>"]
      extend_heap_within [of _ "st\<lparr>heap_listp := q\<rparr>"])
  show "kernel_mm_init st = Some (r, st') \<Longrightarrow> within s st \<Longrightarrow> within s st'"
    unfolding kernel_mm_init_def mm_init_with_def Let_def
    by (auto split: if_splits Option.bind_splits prod.splits) ((drule (1) f frame)+, blast)+
qed

lemma memset_within:
  "in_heap_range st p n \<Longrightarrow> within s st \<Longrightarrow> within s (st\<lparr>hmem := kernel_memset (hmem st) p v (unat n)\<rparr>)"
proof -
  have "unat n < 2 ^ 64" using unat_lt64 [of n] by simp
  then show "in_heap_range st p n \<Longrightarrow> within s st \<Longrightarrow> within s (st\<lparr>hmem := kernel_memset (hmem st) p v (unat n)\<rparr>)"
    by (cases "n = 0") (auto simp: in_heap_range_def kernel_memset_filled filled_def
      intro!: within_write [where p = p and n = "unat n"])
qed

lemma memcpy_outside: "\<not> unat (a - d) < n \<Longrightarrow> kernel_memcpy m d p n a = m a"
proof (induction n arbitrary: m d p)
  case (Suc n)
  have "\<not> unat (a - (d + 1)) < n"
  proof
    assume lt: "unat (a - (d + 1)) < n"
    have "unat (x + 1) \<le> unat x + 1" for x :: u64 by (simp add: unat_word_ariths)
    from this [of "a - (d + 1)"] have "unat (a - d) \<le> unat (a - (d + 1)) + 1" by simp
    with lt Suc.prems show False by simp
  qed
  moreover have "a \<noteq> d" using Suc.prems by auto
  ultimately show ?case by (simp add: Suc.IH)
qed simp

lemma memcpy_within:
  "in_heap_range st d n \<Longrightarrow> within s st \<Longrightarrow> within s (st\<lparr>hmem := kernel_memcpy (hmem st) d p (unat n)\<rparr>)"
  by (cases "n = 0") (auto simp: in_heap_range_def memcpy_outside intro!: within_write [where p = d and n = "unat n"])

lemma mem_extra_test_within:
  assumes "mem_extra_test st = Some (r, st')" "within s st"
  shows "within s st'"
proof -
  have n: "unat (1024 :: u64) = 1024" by simp
  note f = kernel_malloc_within [OF _ memset_within [where n = 1024, unfolded n]]
    kernel_free_within [OF _ memcpy_within [where n = 1024, unfolded n]]
  from assms show ?thesis unfolding mem_extra_test_def Let_def
    by (auto simp: guard_def split: if_splits Option.bind_splits) ((drule (1) frame | drule (2) f)+, assumption)+
qed

end
