(* ===== verification/Printf.thy ===== *)
theory Printf
  imports Memory "HOL-Library.Char_ord"
begin

unbundle bit_operations_syntax

text \<open>
  \<open>printf.c\<close>: the formatted output of the kernel. The interpreter \<open>_do_vprintf\<close> is a state machine
  over the characters of the format; its output goes to a function, as in the code. The
  specification is a list of directives, what it looks like as a format and the text it prints.
\<close>

section \<open>Strings, arguments and output\<close>

text \<open>
  A C string is the list of the characters before its NUL. An argument is passed as an \<open>int\<close>, as
  a 64-bit integer, or as a pointer, here with the string it points to; \<open>va_arg\<close> with another
  type than that of the argument is undefined.
\<close>

datatype va = VaInt "32 word" | VaLong u64 | VaPtr u64 string

fun va_int :: "va list \<Rightarrow> (32 word \<times> va list) option" where
  "va_int (VaInt w # args) = Some (w, args)" | "va_int args = None"

fun va_long :: "va list \<Rightarrow> (u64 \<times> va list) option" where
  "va_long (VaLong w # args) = Some (w, args)" | "va_long args = None"

fun va_ptr :: "va list \<Rightarrow> (u64 \<times> string \<times> va list) option" where
  "va_ptr (VaPtr p s # args) = Some (p, s, args)" | "va_ptr args = None"

abbreviation NUL :: char where "NUL \<equiv> CHR 0x00"

definition cur :: "string \<Rightarrow> char" where
  "cur fmt = (case fmt of [] \<Rightarrow> NUL | c # _ \<Rightarrow> c)"

text \<open>An output function and its data; the count of the characters goes with the data.\<close>

type_synonym 's out = "char \<Rightarrow> 's \<Rightarrow> 's option"

definition emit :: "'s out \<Rightarrow> char \<Rightarrow> u64 \<times> 's \<Rightarrow> (u64 \<times> 's) option" where
  "emit fn c cs = (case cs of (count, s) \<Rightarrow> do { s \<leftarrow> fn c s; Some (count + 1, s) })"

fun emit_str :: "'s out \<Rightarrow> string \<Rightarrow> u64 \<times> 's \<Rightarrow> (u64 \<times> 's) option" where
  "emit_str fn [] cs = Some cs"
| "emit_str fn (c # cs') cs = do { cs \<leftarrow> emit fn c cs; emit_str fn cs' cs }"

text \<open>The loops \<open>for (; given_wd > limit; given_wd--)\<close>.\<close>

function pad :: "'s out \<Rightarrow> char \<Rightarrow> u64 \<Rightarrow> u64 \<Rightarrow> u64 \<times> 's \<Rightarrow> (u64 \<times> u64 \<times> 's) option" where
  "pad fn c limit wd cs =
     (if wd > limit then do { cs \<leftarrow> emit fn c cs; pad fn c limit (wd - 1) cs } else Some (wd, cs))"
  by pat_completeness auto
termination
proof (relation "measure (\<lambda>(fn, c, limit, wd, cs). unat wd)", goal_cases)
  case (2 fn c limit wd cs cs')
  then have "wd \<noteq> 0" by auto
  then show ?case by (simp add: unat_minus_one unat_gt_0 word_less_nat_alt)
qed simp

section \<open>Numbers\<close>

definition PR_POINTER :: "32 word" where "PR_POINTER = 0x001"
definition PR_NEGATIVE :: "32 word" where "PR_NEGATIVE = 0x002"
definition PR_LEFTJUST :: "32 word" where "PR_LEFTJUST = 0x004"
definition PR_PADLEFT0 :: "32 word" where "PR_PADLEFT0 = 0x008"
definition PR_DO_SIGN :: "32 word" where "PR_DO_SIGN = 0x010"
definition PR_8 :: "32 word" where "PR_8 = 0x020"
definition PR_16 :: "32 word" where "PR_16 = 0x040"
definition PR_64 :: "32 word" where "PR_64 = 0x080"
definition PR_BUFLEN :: nat where "PR_BUFLEN = 64"

lemmas pr_flags = PR_POINTER_def PR_NEGATIVE_def PR_LEFTJUST_def PR_PADLEFT0_def PR_DO_SIGN_def
  PR_8_def PR_16_def PR_64_def

definition HexDigits :: string where
  "HexDigits = ''0123456789ABCDEF0123456789abcdef''"

text \<open>
  \<open>where\<close> is kept as the string it points to. \<open>*--where = c\<close> puts a character before it; below
  the start of \<open>buf\<close> that is undefined.
\<close>

definition put_before :: "char \<Rightarrow> string \<Rightarrow> string option" where
  "put_before c at = (if length at < PR_BUFLEN - 1 then Some (c # at) else None)"

lemma word_div_smaller:
  fixes num :: u64
  assumes "num div of_nat b \<noteq> 0" "1 < b" "b < 2 ^ 64"
  shows "unat (num div of_nat b) < unat num"
proof -
  have "num \<noteq> 0" using assms(1) by auto
  then have "0 < unat num" by (simp add: unat_gt_0)
  then show ?thesis using assms(2,3) by (simp add: unat_div unat_of_nat)
qed

function write_uword_base10 :: "string \<Rightarrow> u64 \<Rightarrow> string option" where
  "write_uword_base10 at num = do {
     let temp = num mod 10;
     at \<leftarrow> put_before (char_of (unat temp + 48)) at;
     let num = num div 10;
     if num \<noteq> 0 then write_uword_base10 at num else Some at
   }"
  by pat_completeness auto
termination
  using word_div_smaller [of _ 10] by (relation "measure (\<lambda>(at, num). unat num)") simp_all

text \<open>The loop for the bases 8 and 16, where \<open>shift\<close> is 3 or 4; with 0 it would not end.\<close>

lemma word_shift_smaller:
  fixes num :: u64
  assumes "drop_bit k num \<noteq> 0" "k \<noteq> 0"
  shows "unat (drop_bit k num) < unat num"
proof -
  have "num \<noteq> 0" using assms(1) by auto
  then have "0 < unat num" by (simp add: unat_gt_0)
  moreover have "1 < (2 :: nat) ^ k" using assms(2) one_less_power [of "2 :: nat" k] by simp
  ultimately show ?thesis unfolding unat_drop_bit_eq drop_bit_nat_def by simp
qed

function write_uword_shift :: "string \<Rightarrow> nat \<Rightarrow> string \<Rightarrow> u64 \<Rightarrow> string option" where
  "write_uword_shift digits shift at num = do {
     let temp = num AND (push_bit shift 1 - 1);
     at \<leftarrow> put_before (digits ! unat temp) at;
     let num = drop_bit shift num;
     if num \<noteq> 0 \<and> shift \<noteq> 0 then write_uword_shift digits shift at num else Some at
   }"
  by pat_completeness auto
termination
  using word_shift_smaller by (relation "measure (\<lambda>(digits, shift, at, num). unat num)") simp_all

declare pad.simps [simp del] write_uword_base10.simps [simp del] write_uword_shift.simps [simp del]

text \<open>\<open>DO_NUM\<close>: the number, made positive, and the flags. Negating the least number overflows.\<close>

definition signed_number :: "32 word \<Rightarrow> va list \<Rightarrow> (u64 \<times> va list) option" where
  "signed_number flags args =
     (if flags AND PR_64 \<noteq> 0 then va_long args
      else do {
        (i, args) \<leftarrow> va_int args;
        Some (if flags AND (PR_16 OR PR_8) \<noteq> 0
          then if flags AND PR_16 \<noteq> 0 then scast (ucast i :: 16 word) else scast (ucast i :: 8 word)
          else scast i, args)
      })"

definition unsigned_number :: "32 word \<Rightarrow> va list \<Rightarrow> (u64 \<times> va list) option" where
  "unsigned_number flags args =
     (if flags AND PR_64 \<noteq> 0 then va_long args
      else do {
        (i, args) \<leftarrow> va_int args;
        Some (if flags AND (PR_16 OR PR_8) \<noteq> 0
          then if flags AND PR_16 \<noteq> 0 then ucast (ucast i :: 16 word) else ucast (ucast i :: 8 word)
          else ucast i, args)
      })"

definition do_num :: "32 word \<Rightarrow> va list \<Rightarrow> (32 word \<times> u64 \<times> va list) option" where
  "do_num flags args =
     (if flags AND PR_DO_SIGN \<noteq> 0 then do {
        (snum, args) \<leftarrow> signed_number flags args;
        if sint snum < 0 then do {
          guard (snum \<noteq> push_bit 63 1);
          Some (flags OR PR_NEGATIVE, - snum, args)
        } else Some (flags, snum, args)
      } else do {
        (num, args) \<leftarrow> unsigned_number flags args;
        Some (flags, num, args)
      })"

text \<open>\<open>DO_NUM_OUT\<close>: the characters of the number.\<close>

definition do_num_out :: "string \<Rightarrow> nat \<Rightarrow> u64 \<Rightarrow> string option" where
  "do_num_out digits shift num =
     (if shift = 0 then write_uword_base10 [] num else write_uword_shift digits shift [] num)"

definition num_conv :: "32 word \<Rightarrow> string \<Rightarrow> nat \<Rightarrow> va list \<Rightarrow> (32 word \<times> string \<times> va list) option" where
  "num_conv flags digits shift args = do {
     (flags, num, args) \<leftarrow> do_num flags args;
     at \<leftarrow> do_num_out digits shift num;
     Some (flags, at, args)
   }"

definition is_conv :: "char \<Rightarrow> bool" where
  "is_conv c \<longleftrightarrow> c \<in> set ''pxXdiuocs''"

text \<open>The cases of the inner \<open>switch\<close>: the new flags, \<open>where\<close> and the arguments that are left.\<close>

definition convert :: "char \<Rightarrow> 32 word \<Rightarrow> va list \<Rightarrow> (32 word \<times> string \<times> va list) option" where
  "convert c flags args =
     (if c = CHR ''p'' then do {
        let digits = drop 16 HexDigits;
        let flags = flags AND NOT (PR_DO_SIGN OR PR_NEGATIVE OR PR_8 OR PR_16 OR PR_64);
        let flags = flags OR PR_64;
        (num, _, args) \<leftarrow> va_ptr args;
        if num = 0 then Some (flags AND NOT PR_PADLEFT0, ''(nil)'', args)
        else do {
          at \<leftarrow> do_num_out digits 4 num;
          Some (flags OR PR_POINTER, at, args)
        }
      }
      else if c = CHR ''x'' then num_conv (flags AND NOT PR_DO_SIGN) (drop 16 HexDigits) 4 args
      else if c = CHR ''X'' then num_conv (flags AND NOT PR_DO_SIGN) HexDigits 4 args
      else if c = CHR ''d'' \<or> c = CHR ''i'' then num_conv (flags OR PR_DO_SIGN) HexDigits 0 args
      else if c = CHR ''u'' then num_conv (flags AND NOT PR_DO_SIGN) HexDigits 0 args
      else if c = CHR ''o'' then num_conv (flags AND NOT PR_DO_SIGN) HexDigits 3 args
      else if c = CHR ''c'' then do {
        let flags = flags AND NOT (PR_DO_SIGN OR PR_NEGATIVE OR PR_PADLEFT0);
        (i, args) \<leftarrow> va_int args;
        let ch = char_of (unat i);
        Some (flags, if ch = NUL then [] else [ch], args)
      }
      else do {
        let flags = flags AND NOT (PR_DO_SIGN OR PR_NEGATIVE OR PR_PADLEFT0);
        (p, s, args) \<leftarrow> va_ptr args;
        Some (flags, if p = 0 then ''(null)'' else s, args)
      })"

text \<open>Emitting the formatted string.\<close>

definition emit_sign :: "'s out \<Rightarrow> 32 word \<Rightarrow> u64 \<times> 's \<Rightarrow> (u64 \<times> 's) option" where
  "emit_sign fn flags cs =
     (if flags AND PR_POINTER \<noteq> 0 then do { cs \<leftarrow> emit fn CHR ''0'' cs; emit fn CHR ''x'' cs }
      else emit fn CHR ''-'' cs)"

definition emit_conv :: "'s out \<Rightarrow> 32 word \<Rightarrow> u64 \<Rightarrow> string \<Rightarrow> u64 \<times> 's \<Rightarrow> (u64 \<times> 's) option" where
  "emit_conv fn flags given_wd at cs = do {
     let signed = (flags AND (PR_POINTER OR PR_NEGATIVE) \<noteq> 0);
     let zeroes = (flags AND PR_PADLEFT0 \<noteq> 0);
     let actual_wd = of_nat (length at);
     let actual_wd = (if signed then actual_wd + 1 + (if flags AND PR_POINTER \<noteq> 0 then 1 else 0) else actual_wd);
     cs \<leftarrow> (if signed \<and> zeroes then emit_sign fn flags cs else Some cs);
     (given_wd, cs) \<leftarrow> (if flags AND PR_LEFTJUST = 0
        then pad fn (if zeroes then CHR ''0'' else CHR '' '') actual_wd given_wd cs else Some (given_wd, cs));
     cs \<leftarrow> (if signed \<and> \<not> zeroes then emit_sign fn flags cs else Some cs);
     cs \<leftarrow> emit_str fn at cs;
     let given_wd = (if given_wd < actual_wd then 0 else given_wd - actual_wd);
     (_, cs) \<leftarrow> pad fn CHR '' '' 0 given_wd cs;
     Some cs
   }"

section \<open>The state machine\<close>

text \<open>
  The local variables \<open>state\<close>, \<open>flags\<close> and \<open>given_wd\<close>. Each state is a function from the rest of
  the format; falling through is a call of the next one, \<open>break\<close> and \<open>continue\<close> are the end.
\<close>

record pr_locals =
  pr_state :: nat
  pr_fl :: "32 word"
  pr_wd :: u64

definition pr_start :: pr_locals where
  "pr_start = \<lparr>pr_state = 0, pr_fl = 0, pr_wd = 0\<rparr>"

type_synonym 's pr_result = "(string \<times> pr_locals \<times> va list \<times> u64 \<times> 's) option"

definition state4 :: "'s out \<Rightarrow> string \<Rightarrow> pr_locals \<Rightarrow> va list \<Rightarrow> u64 \<times> 's \<Rightarrow> 's pr_result" where
  "state4 fn fmt l args cs =
     (if is_conv (cur fmt) then do {
        (flags, at, args) \<leftarrow> convert (cur fmt) (pr_fl l) args;
        cs \<leftarrow> emit_conv fn flags (pr_wd l) at cs;
        Some (fmt, pr_start, args, cs)
      } else do {
        cs \<leftarrow> emit fn (cur fmt) cs;
        Some (fmt, pr_start, args, cs)
      })"

definition add_flag :: "32 word \<Rightarrow> pr_locals \<Rightarrow> pr_locals" where
  "add_flag f l = l\<lparr>pr_fl := pr_fl l OR f\<rparr>"

definition next_state :: "pr_locals \<Rightarrow> pr_locals" where
  "next_state l = l\<lparr>pr_state := pr_state l + 1\<rparr>"

definition state3 :: "'s out \<Rightarrow> string \<Rightarrow> pr_locals \<Rightarrow> va list \<Rightarrow> u64 \<times> 's \<Rightarrow> 's pr_result" where
  "state3 fn fmt l args cs =
     (if cur fmt = CHR ''z'' \<or> cur fmt = CHR ''t'' then Some (fmt, add_flag PR_64 l, args, cs)
      else if cur fmt = CHR ''l'' then
        if cur (tl fmt) = CHR ''l'' then Some (tl fmt, add_flag PR_64 l, args, cs)
        else Some (fmt, add_flag PR_64 l, args, cs)
      else if cur fmt = CHR ''L'' then Some (fmt, add_flag PR_64 l, args, cs)
      else if cur fmt = CHR ''h'' then
        if cur (tl fmt) = CHR ''h'' then Some (tl fmt, add_flag PR_8 l, args, cs)
        else Some (fmt, add_flag PR_16 l, args, cs)
      else state4 fn fmt (next_state l) args cs)"

definition state2 :: "'s out \<Rightarrow> string \<Rightarrow> pr_locals \<Rightarrow> va list \<Rightarrow> u64 \<times> 's \<Rightarrow> 's pr_result" where
  "state2 fn fmt l args cs =
     (if cur fmt \<ge> CHR ''0'' \<and> cur fmt \<le> CHR ''9''
      then Some (fmt, l\<lparr>pr_wd := 10 * pr_wd l + (of_char (cur fmt) - 48)\<rparr>, args, cs)
      else state3 fn fmt (next_state l) args cs)"

definition state1 :: "'s out \<Rightarrow> string \<Rightarrow> pr_locals \<Rightarrow> va list \<Rightarrow> u64 \<times> 's \<Rightarrow> 's pr_result" where
  "state1 fn fmt l args cs =
     (if cur fmt = CHR ''%'' then do {
        cs \<leftarrow> emit fn (cur fmt) cs;
        Some (fmt, l\<lparr>pr_state := 0\<rparr>, args, cs)
      }
      else if cur fmt = CHR ''-'' then Some (fmt, add_flag PR_LEFTJUST l, args, cs)
      else if cur fmt = CHR ''0''
        then state2 fn (tl fmt) ((next_state (add_flag PR_PADLEFT0 l))\<lparr>pr_wd := 0\<rparr>) args cs
      else state2 fn fmt ((next_state l)\<lparr>pr_wd := 0\<rparr>) args cs)"

definition state0 :: "'s out \<Rightarrow> string \<Rightarrow> pr_locals \<Rightarrow> va list \<Rightarrow> u64 \<times> 's \<Rightarrow> 's pr_result" where
  "state0 fn fmt l args cs =
     (if cur fmt \<noteq> CHR ''%'' then do {
        cs \<leftarrow> emit fn (cur fmt) cs;
        Some (fmt, l, args, cs)
      }
      else state1 fn (tl fmt) ((next_state l)\<lparr>pr_fl := 0\<rparr>) args cs)"

definition pr_switch :: "'s out \<Rightarrow> string \<Rightarrow> pr_locals \<Rightarrow> va list \<Rightarrow> u64 \<times> 's \<Rightarrow> 's pr_result" where
  "pr_switch fn fmt l args cs =
     (if pr_state l = 0 then state0 fn fmt l args cs
      else if pr_state l = 1 then state1 fn fmt l args cs
      else if pr_state l = 2 then state2 fn fmt l args cs
      else if pr_state l = 3 then state3 fn fmt l args cs
      else if pr_state l = 4 then state4 fn fmt l args cs
      else Some (fmt, pr_start, args, cs))"

lemmas pr_states = pr_switch_def state0_def state1_def state2_def state3_def state4_def

lemma pr_switch_rest:
  "pr_switch fn fmt l args cs = Some (fmt', r) \<Longrightarrow> length fmt' \<le> length fmt"
  by (auto simp: pr_states split: if_splits prod.splits Option.bind_splits)

text \<open>
  The loop over the format. When the \<open>switch\<close> leaves \<open>fmt\<close> at the NUL, the \<open>fmt++\<close> of the loop
  moves it past the end of the string, and reading there is undefined.
\<close>

function pr_loop :: "'s out \<Rightarrow> string \<Rightarrow> pr_locals \<Rightarrow> va list \<Rightarrow> u64 \<times> 's \<Rightarrow> (u64 \<times> 's) option" where
  "pr_loop fn fmt l args cs =
     (if fmt = [] then Some cs
      else case pr_switch fn fmt l args cs of
        None \<Rightarrow> None
      | Some (fmt', l, args, cs) \<Rightarrow> (if fmt' = [] then None else pr_loop fn (tl fmt') l args cs))"
  by pat_completeness auto
termination
  by (relation "measure (\<lambda>(fn, fmt, l, args, cs). length fmt)")
    (fastforce dest: pr_switch_rest simp: length_tl neq_Nil_conv)+

declare pr_loop.simps [simp del]

definition do_vprintf_size :: "'s out \<Rightarrow> string \<Rightarrow> va list \<Rightarrow> 's \<Rightarrow> (u64 \<times> 's) option" where
  "do_vprintf_size fn fmt args s = pr_loop fn fmt pr_start args (0, s)"

definition do_vprintf :: "'s out \<Rightarrow> string \<Rightarrow> va list \<Rightarrow> 's \<Rightarrow> (32 word \<times> 's) option" where
  "do_vprintf fn fmt args s = do {
     (count, s) \<leftarrow> do_vprintf_size fn fmt args s;
     s \<leftarrow> fn NUL s;
     Some (ucast count, s)
   }"

end
