(* ===== verification/Printf_Spec.thy ===== *)
theory Printf_Spec
  imports Printf
begin

unbundle bit_operations_syntax

text \<open>
  What the kernel's formatted output prints: formats as lists of directives, the text of each,
  and the proof that the state machine of \<open>printf.c\<close> emits that text, whatever the output
  function is. An interface (a locale) states what the printing functions need of an output.
\<close>

section \<open>Digits\<close>

function in_base :: "nat \<Rightarrow> nat \<Rightarrow> nat list" where
  "in_base b n = (if b < 2 \<or> n < b then [n] else in_base b (n div b) @ [n mod b])"
  by pat_completeness auto
termination
  by (relation "measure (\<lambda>(b, n). n)") auto

declare in_base.simps [simp del]

definition read_base :: "nat \<Rightarrow> nat list \<Rightarrow> nat" where
  "read_base b ds = foldl (\<lambda>a d. b * a + d) 0 ds"

lemma read_in_base: "2 \<le> b \<Longrightarrow> read_base b (in_base b n) = n"
  by (induction b n rule: in_base.induct) (subst in_base.simps, simp add: read_base_def)

lemma in_base_less: "2 \<le> b \<Longrightarrow> d \<in> set (in_base b n) \<Longrightarrow> d < b"
proof (induction b n rule: in_base.induct)
  case (1 b n)
  from "1.prems"(2) have "d \<in> set (if b < 2 \<or> n < b then [n] else in_base b (n div b) @ [n mod b])"
    by (subst (asm) in_base.simps)
  with "1.IH" "1.prems"(1) show ?case by (auto split: if_splits)
qed

lemma in_base_eval:
  "n < b \<Longrightarrow> in_base b n = [n]"
  "2 \<le> b \<Longrightarrow> b \<le> n \<Longrightarrow> in_base b n = in_base b (n div b) @ [n mod b]"
  by (subst in_base.simps, simp)+

lemma in_base_not_Nil [simp]: "in_base b n \<noteq> []"
  by (subst in_base.simps) simp

lemma hd_in_base: "2 \<le> b \<Longrightarrow> hd (in_base b n) = 0 \<longleftrightarrow> n = 0"
proof (induction b n rule: in_base.induct)
  case (1 b n)
  then show ?case by (subst in_base.simps) (auto simp: div_eq_0_iff)
qed

lemma length_in_base: "2 \<le> b \<Longrightarrow> n < b ^ Suc k \<Longrightarrow> length (in_base b n) \<le> Suc k"
proof (induction k arbitrary: n)
  case 0
  then show ?case by (subst in_base.simps) simp
next
  case (Suc k)
  have "n div b < b ^ Suc k"
    using Suc.prems by (simp add: div_less_iff_less_mult mult.commute)
  from Suc.IH [OF Suc.prems(1) this] show ?case by (subst in_base.simps) simp
qed

text \<open>The digits of a number in a table, and the loops that write them.\<close>

definition num_text :: "string \<Rightarrow> nat \<Rightarrow> nat \<Rightarrow> string" where
  "num_text tbl b n = map (nth tbl) (in_base b n)"

lemma num_text_step: "2 \<le> b \<Longrightarrow>
  num_text tbl b n = (if n < b then [tbl ! n] else num_text tbl b (n div b) @ [tbl ! (n mod b)])"
  unfolding num_text_def by (subst in_base.simps) simp

lemma length_num_text: "2 \<le> b \<Longrightarrow> n < b ^ Suc k \<Longrightarrow> length (num_text tbl b n) \<le> Suc k"
  by (simp add: num_text_def length_in_base del: power_Suc)

lemma put_before_room: "length s < 63 \<Longrightarrow> put_before c s = Some (c # s)"
  by (simp add: put_before_def PR_BUFLEN_def)

lemma decimal_char: "n < 10 \<Longrightarrow> char_of (n + 48) = HexDigits ! n"
proof -
  have "\<forall>n \<in> set [0..<10]. char_of (n + 48) = HexDigits ! n" by code_simp
  then show "n < 10 \<Longrightarrow> ?thesis" by simp
qed

lemma write_uword_base10_text:
  "length s + length (num_text HexDigits 10 (unat num)) \<le> 63 \<Longrightarrow>
    write_uword_base10 s num = Some (num_text HexDigits 10 (unat num) @ s)"
proof (induction s num rule: write_uword_base10.induct)
  case (1 s num)
  let ?c = "HexDigits ! (unat num mod 10)"
  have step: "num_text HexDigits 10 (unat num) =
      (if unat num < 10 then [HexDigits ! unat num] else num_text HexDigits 10 (unat num div 10) @ [?c])"
    by (simp add: num_text_step)
  have len: "length s < 63" using "1.prems" by (simp add: step split: if_splits)
  have c: "char_of (unat (num mod 10) + 48) = ?c" by (simp add: unat_mod decimal_char)
  have p: "put_before (char_of (unat (num mod 10) + 48)) s = Some (?c # s)" by (simp only: c put_before_room [OF len])
  have d: "unat (num div 10) = unat num div 10" by (simp add: unat_div)
  have z: "num div 10 = 0 \<longleftrightarrow> unat num < 10" by (simp add: word_unat_eq_iff d div_eq_0_iff)
  show ?case
  proof (cases "unat num < 10")
    case True
    then show ?thesis by (subst write_uword_base10.simps) (simp add: len put_before_room c z step)
  next
    case False
    have "write_uword_base10 (?c # s) (num div 10) = Some (num_text HexDigits 10 (unat (num div 10)) @ ?c # s)"
      using "1.prems" False
      by (intro "1.IH" [OF refl p refl]) (simp_all add: z d step)
    with False show ?thesis
      by (subst write_uword_base10.simps) (simp add: len put_before_room c z step d)
  qed
qed

lemma write_uword_shift_text:
  assumes "shift \<noteq> 0" "shift < 64"
  shows "length s + length (num_text tbl (2 ^ shift) (unat num)) \<le> 63 \<Longrightarrow>
    write_uword_shift tbl shift s num = Some (num_text tbl (2 ^ shift) (unat num) @ s)"
  using assms
proof (induction tbl shift s num rule: write_uword_shift.induct)
  case (1 tbl shift s num)
  have b: "2 \<le> (2 :: nat) ^ shift" using "1.prems"(2) by (cases shift) simp_all
  let ?c = "tbl ! (unat num mod 2 ^ shift)"
  have step: "num_text tbl (2 ^ shift) (unat num) = (if unat num < 2 ^ shift then [tbl ! unat num]
      else num_text tbl (2 ^ shift) (unat num div 2 ^ shift) @ [?c])"
    by (rule num_text_step [OF b])
  have len: "length s < 63" using "1.prems"(1) by (simp add: step split: if_splits)
  have m: "push_bit shift 1 - 1 = (mask shift :: u64)" by (simp add: mask_eq_exp_minus_1 push_bit_eq_mult)
  have c: "unat (num AND (push_bit shift 1 - 1)) = unat num mod 2 ^ shift"
    unfolding m take_bit_eq_mask [symmetric] unsigned_take_bit_eq by (simp only: take_bit_eq_mod)
  have p: "put_before (tbl ! unat (num AND (push_bit shift 1 - 1))) s = Some (?c # s)"
    by (simp only: c put_before_room [OF len])
  have d: "unat (drop_bit shift num) = unat num div 2 ^ shift" unfolding unat_drop_bit_eq drop_bit_nat_def by simp
  have z: "drop_bit shift num = 0 \<longleftrightarrow> unat num < 2 ^ shift"
    by (simp only: word_unat_eq_iff d unat_0 div_eq_0_iff) simp
  show ?case
  proof (cases "unat num < 2 ^ shift")
    case True
    then show ?thesis
      by (subst write_uword_shift.simps) (simp only: Let_def c, simp add: len put_before_room z step)
  next
    case False
    have "write_uword_shift tbl shift (?c # s) (drop_bit shift num) =
        Some (num_text tbl (2 ^ shift) (unat (drop_bit shift num)) @ ?c # s)"
      using "1.prems" False
      by (intro "1.IH" [OF refl p refl]) (simp_all add: z d step)
    with False "1.prems" show ?thesis
      by (subst write_uword_shift.simps) (simp only: Let_def c, simp add: len put_before_room z step d)
  qed
qed

section \<open>The specification\<close>

datatype conversion = C_p | C_x | C_X | C_d | C_i | C_u | C_o | C_c | C_s

datatype modifier = M_none | M_z | M_t | M_l | M_ll | M_L | M_h | M_hh

text \<open>Text without \<open>%\<close>; \<open>%%\<close>; a directive: left justified, zero padded, width, modifier, conversion.\<close>

datatype piece = Text string | Percent | Directive bool bool nat modifier conversion

text \<open>What a directive looks like in a format.\<close>

fun conv_char :: "conversion \<Rightarrow> char" where
  "conv_char C_p = CHR ''p''" | "conv_char C_x = CHR ''x''" | "conv_char C_X = CHR ''X''"
| "conv_char C_d = CHR ''d''" | "conv_char C_i = CHR ''i''" | "conv_char C_u = CHR ''u''"
| "conv_char C_o = CHR ''o''" | "conv_char C_c = CHR ''c''" | "conv_char C_s = CHR ''s''"

fun mod_text :: "modifier \<Rightarrow> string" where
  "mod_text M_none = ''''" | "mod_text M_z = ''z''" | "mod_text M_t = ''t''" | "mod_text M_l = ''l''"
| "mod_text M_ll = ''ll''" | "mod_text M_L = ''L''" | "mod_text M_h = ''h''" | "mod_text M_hh = ''hh''"

definition width_text :: "nat \<Rightarrow> string" where
  "width_text w = (if w = 0 then [] else num_text HexDigits 10 w)"

fun piece_format :: "piece \<Rightarrow> string" where
  "piece_format (Text t) = t"
| "piece_format Percent = ''%%''"
| "piece_format (Directive left zero w md cv) = ''%'' @ (if left then ''-'' else []) @
     (if zero then ''0'' else []) @ width_text w @ mod_text md @ [conv_char cv]"

definition format_of :: "piece list \<Rightarrow> string" where
  "format_of ps = concat (map piece_format ps)"

text \<open>The numbers an argument stands for.\<close>

fun is_long :: "modifier \<Rightarrow> bool" where
  "is_long M_none = False" | "is_long M_h = False" | "is_long M_hh = False" | "is_long md = True"

fun signed_value :: "modifier \<Rightarrow> va \<Rightarrow> int option" where
  "signed_value md (VaLong w) = (if is_long md \<and> sint w \<noteq> - (2 ^ 63) then Some (sint w) else None)"
| "signed_value md (VaInt w) = (if is_long md then None else
     Some (if md = M_h then signed_take_bit 15 (sint w) else if md = M_hh then signed_take_bit 7 (sint w) else sint w))"
| "signed_value md (VaPtr p s) = None"

fun unsigned_value :: "modifier \<Rightarrow> va \<Rightarrow> nat option" where
  "unsigned_value md (VaLong w) = (if is_long md then Some (unat w) else None)"
| "unsigned_value md (VaInt w) = (if is_long md then None else
     Some (if md = M_h then unat w mod 2 ^ 16 else if md = M_hh then unat w mod 2 ^ 8 else unat w))"
| "unsigned_value md (VaPtr p s) = None"

text \<open>The sign or prefix and the body of a conversion, and whether zeroes may fill the field.\<close>

definition in_numeral :: "string \<Rightarrow> nat \<Rightarrow> modifier \<Rightarrow> va \<Rightarrow> (string \<times> string \<times> bool) option" where
  "in_numeral tbl b md v = map_option (\<lambda>n. ([], num_text tbl b n, True)) (unsigned_value md v)"

definition signed_numeral :: "modifier \<Rightarrow> va \<Rightarrow> (string \<times> string \<times> bool) option" where
  "signed_numeral md v = map_option (\<lambda>i. (if i < 0 then ''-'' else [],
     num_text HexDigits 10 (nat \<bar>i\<bar>), True)) (signed_value md v)"

fun item :: "modifier \<Rightarrow> conversion \<Rightarrow> va \<Rightarrow> (string \<times> string \<times> bool) option" where
  "item md C_p (VaPtr p s) = Some (if p = 0 then ([], ''(nil)'', False)
     else (''0x'', num_text (drop 16 HexDigits) 16 (unat p), True))"
| "item md C_p v = None"
| "item md C_x v = in_numeral (drop 16 HexDigits) 16 md v"
| "item md C_X v = in_numeral HexDigits 16 md v"
| "item md C_o v = in_numeral HexDigits 8 md v"
| "item md C_u v = in_numeral HexDigits 10 md v"
| "item md C_d v = signed_numeral md v"
| "item md C_i v = signed_numeral md v"
| "item md C_c (VaInt w) = Some ([], let c = char_of (unat w) in if c = NUL then [] else [c], False)"
| "item md C_c v = None"
| "item md C_s (VaPtr p s) = Some ([], if p = 0 then ''(null)'' else s, False)"
| "item md C_s v = None"

definition padded :: "bool \<Rightarrow> bool \<Rightarrow> nat \<Rightarrow> string \<Rightarrow> string \<Rightarrow> string" where
  "padded left zero w sign body = (let n = w - length (sign @ body) in
     if left then sign @ body @ replicate n CHR '' ''
     else if zero then sign @ replicate n CHR ''0'' @ body
     else replicate n CHR '' '' @ sign @ body)"

fun piece_text :: "piece \<Rightarrow> va list \<Rightarrow> (string \<times> va list) option" where
  "piece_text (Text t) args = (if CHR ''%'' \<in> set t then None else Some (t, args))"
| "piece_text Percent args = Some (''%'', args)"
| "piece_text (Directive left zero w md cv) args = (case args of
     [] \<Rightarrow> None
   | v # args \<Rightarrow> if w < 2 ^ 64
       then map_option (\<lambda>(sign, body, num). (padded left (zero \<and> num) w sign body, args)) (item md cv v)
       else None)"

fun text_of :: "piece list \<Rightarrow> va list \<Rightarrow> string option" where
  "text_of [] args = Some []"
| "text_of (p # ps) args = do {
     (t, args) \<leftarrow> piece_text p args;
     ts \<leftarrow> text_of ps args;
     Some (t @ ts)
   }"

section \<open>Emitting\<close>

lemma emit_str_append: "emit_str fn (a @ b) cs = Option.bind (emit_str fn a cs) (emit_str fn b)"
  by (induction a arbitrary: cs) (simp_all split: Option.bind_split)

lemma pad_emits:
  "pad fn c limit wd cs = map_option (Pair (min wd limit)) (emit_str fn (replicate (unat wd - unat limit) c) cs)"
proof (induction fn c limit wd cs rule: pad.induct)
  case (1 fn c limit wd cs)
  show ?case
  proof (cases "limit < wd")
    case True
    then have "wd \<noteq> 0" by auto
    then have u: "unat (wd - 1) = unat wd - 1" "0 < unat wd" by (simp_all add: unat_minus_one unat_gt_0)
    from True have l: "unat limit < unat wd" by (simp add: word_less_nat_alt)
    have m: "min (wd - 1) limit = limit" "min wd limit = limit"
      using l u by (auto simp: min_def word_le_nat_alt word_unat_eq_iff)
    from l u have n: "unat wd - unat limit = Suc (unat (wd - 1) - unat limit)" by simp
    have "emit_str fn (replicate (unat wd - unat limit) c) cs =
        Option.bind (emit fn c cs) (emit_str fn (replicate (unat (wd - 1) - unat limit) c))"
      by (simp add: n)
    with True "1.IH" m show ?thesis
      by (subst pad.simps) (cases "emit fn c cs", simp_all)
  next
    case False
    then have "unat wd \<le> unat limit" by (simp add: word_le_nat_alt not_less)
    with False show ?thesis by (subst pad.simps) (auto simp: min_def dest: leD)
  qed
qed

lemma emit_str_append': "emit_str fn (a @ b) = (\<lambda>cs. Option.bind (emit_str fn a cs) (emit_str fn b))"
  by (rule ext) (rule emit_str_append)

lemma emit_str_eta: "emit_str fn [] = Some" "emit_str fn [c] = emit fn c"
  by (auto simp: fun_eq_iff intro: bind_runit [unfolded fun_eq_iff] split: Option.bind_split)

text \<open>Tests of flags are tests of bits.\<close>

lemma flag_bit: "x AND (2 ^ k :: 'a::len word) \<noteq> 0 \<longleftrightarrow> bit x k"
proof -
  have "x AND 2 ^ k = (if bit x k then 2 ^ k else 0)"
    by (rule bit_word_eqI) (auto simp: bit_and_iff bit_exp_iff)
  moreover have "(2 ^ k :: 'a word) \<noteq> 0" if "bit x k"
    using bit_imp_le_length [OF that] by (metis bit_0_eq bot_fun_def bit_exp_iff possible_bit_word bot_bool_def)
  ultimately show ?thesis by auto
qed

lemma pr_exp:
  "PR_POINTER = 2 ^ 0" "PR_NEGATIVE = 2 ^ 1" "PR_LEFTJUST = 2 ^ 2" "PR_PADLEFT0 = 2 ^ 3" "PR_DO_SIGN = 2 ^ 4"
  "PR_8 = 2 ^ 5" "PR_16 = 2 ^ 6" "PR_64 = 2 ^ 7"
  by (simp_all add: pr_flags)

lemmas bit_pr = pr_exp [THEN arg_cong [of _ _ bit], THEN fun_cong, unfolded bit_exp_iff possible_bit_word]

lemma flag_tests:
  "x AND PR_POINTER = 0 \<longleftrightarrow> \<not> bit x 0" "x AND PR_NEGATIVE = 0 \<longleftrightarrow> \<not> bit x 1"
  "x AND PR_LEFTJUST = 0 \<longleftrightarrow> \<not> bit x 2" "x AND PR_PADLEFT0 = 0 \<longleftrightarrow> \<not> bit x 3"
  "x AND PR_DO_SIGN = 0 \<longleftrightarrow> \<not> bit x 4" "x AND PR_8 = 0 \<longleftrightarrow> \<not> bit x 5"
  "x AND PR_16 = 0 \<longleftrightarrow> \<not> bit x 6" "x AND PR_64 = 0 \<longleftrightarrow> \<not> bit x 7"
  "x AND (PR_POINTER OR PR_NEGATIVE) = 0 \<longleftrightarrow> \<not> bit x 0 \<and> \<not> bit x 1"
  "x AND (PR_16 OR PR_8) = 0 \<longleftrightarrow> \<not> bit x 6 \<and> \<not> bit x 5"
  unfolding bit.conj_disj_distrib or_eq_0_iff pr_exp using flag_bit [of x] by blast+

lemmas flag_simps = flag_tests bit_or_iff bit_and_iff bit_not_iff bit_pr possible_bit_word

text \<open>The sign the flags ask for.\<close>

definition flag_sign :: "32 word \<Rightarrow> string" where
  "flag_sign F = (if bit F 0 then ''0x'' else if bit F 1 then ''-'' else [])"

lemma emit_sign_text: "bit F 0 \<or> bit F 1 \<Longrightarrow> emit_sign fn F cs = emit_str fn (flag_sign F) cs"
  by (auto simp: emit_sign_def flag_sign_def flag_simps emit_str_eta)

lemma emit_conv_text:
  assumes len: "length at + 2 < 2 ^ 64"
  shows "emit_conv fn F wd at cs = emit_str fn (padded (bit F 2) (bit F 3) (unat wd) (flag_sign F) at) cs"
proof -
  define act where "act = (of_nat (length (flag_sign F @ at)) :: u64)"
  have act: "(if F AND (PR_POINTER OR PR_NEGATIVE) \<noteq> 0
      then of_nat (length at) + 1 + (if F AND PR_POINTER \<noteq> 0 then 1 else 0) else of_nat (length at)) = act"
    by (simp add: flag_simps flag_sign_def act_def)
  have "length (flag_sign F @ at) < 2 ^ 64" using len by (simp add: flag_sign_def)
  then have u: "unat act = length (flag_sign F @ at)" by (simp add: act_def unat_of_nat del: of_nat_add)
  have rest: "unat (if w < act then 0 else w - act) = unat w - length (flag_sign F @ at)" for w
    using u by (auto simp: word_less_nat_alt unat_sub word_le_nat_alt not_less)
  have "unat (min wd act) \<le> unat act" by (simp add: min_def word_le_nat_alt)
  then have m: "unat (min wd act) - length (flag_sign F @ at) = 0" by (simp only: u diff_is_0_eq)
  then have m': "unat (min wd act) - (length (flag_sign F) + length at) = 0" by simp
  have sign: "(if F AND (PR_POINTER OR PR_NEGATIVE) \<noteq> 0 \<and> b then emit_sign fn F cs else Some cs) =
      emit_str fn (if b then flag_sign F else []) cs" for b cs
    by (cases "bit F 0 \<or> bit F 1") (auto simp: flag_tests emit_sign_text flag_sign_def)
  have left: "(if F AND PR_LEFTJUST = 0 then pad fn c act wd cs else Some (wd, cs)) =
      map_option (Pair (if bit F 2 then wd else min wd act))
        (emit_str fn (if bit F 2 then [] else replicate (unat wd - length (flag_sign F @ at)) c) cs)" for c cs
    by (simp add: flag_tests pad_emits u)
  have right: "Option.bind (pad fn c 0 (if w < act then 0 else w - act) cs) (\<lambda>(_, cs). Some cs) =
      emit_str fn (replicate (unat w - length (flag_sign F @ at)) c) cs" for w c cs
    unfolding pad_emits rest by (simp add: bind_map_option comp_def)
  have zero: "F AND PR_PADLEFT0 \<noteq> 0 \<longleftrightarrow> bit F 3" by (simp add: flag_tests)
  show ?thesis
    unfolding emit_conv_def Let_def act sign left right zero bind_map_option comp_def split_conv padded_def
    by (cases "bit F 2"; cases "bit F 3") (simp_all add: m' emit_str_append emit_str_append' emit_str_eta)
qed

section \<open>Conversions\<close>

lemma unat_less_pow: "2 ^ 64 \<le> m \<Longrightarrow> unat (num :: u64) < m"
  using unat_lt64 [of num] by simp

lemma do_num_out_text:
  "do_num_out tbl 4 num = Some (num_text tbl 16 (unat num))"
  "do_num_out tbl 3 num = Some (num_text tbl 8 (unat num))"
  "do_num_out tbl 0 num = Some (num_text HexDigits 10 (unat num))"
proof -
  have l: "length (num_text tbl 16 (unat num)) \<le> Suc 15" "length (num_text tbl 8 (unat num)) \<le> Suc 21"
    "length (num_text HexDigits 10 (unat num)) \<le> Suc 19" for tbl
    by (intro length_num_text unat_less_pow, simp, simp)+
  show "do_num_out tbl 4 num = Some (num_text tbl 16 (unat num))"
    using write_uword_shift_text [of 4 "[]" tbl num] l(1) [of tbl] by (simp add: do_num_out_def)
  show "do_num_out tbl 3 num = Some (num_text tbl 8 (unat num))"
    using write_uword_shift_text [of 3 "[]" tbl num] l(2) [of tbl] by (simp add: do_num_out_def)
  show "do_num_out tbl 0 num = Some (num_text HexDigits 10 (unat num))"
    using write_uword_base10_text [of "[]" num] l(3) by (simp add: do_num_out_def)
qed

text \<open>The flags that stand for a modifier, and those of a directive before its conversion.\<close>

definition has_mod :: "modifier \<Rightarrow> 32 word \<Rightarrow> bool" where
  "has_mod md F \<longleftrightarrow> bit F 5 = (md = M_hh) \<and> bit F 6 = (md = M_h) \<and> bit F 7 = is_long md"

lemma sint_narrow:
  "sint (scast (ucast w :: 16 word) :: u64) = signed_take_bit 15 (sint (w :: 32 word))"
  "sint (scast (ucast w :: 8 word) :: u64) = signed_take_bit 7 (sint w)"
  "sint (scast w :: u64) = sint w"
  unfolding sint_uint [of w]
  by (subst sint_up_scast, simp add: is_up, simp add: signed_ucast_eq signed_take_bit_signed_take_bit min_def)+
     (simp add: sint_up_scast is_up sint_uint)

lemma sint_32: "- (2 ^ 31) \<le> sint (w :: 32 word)" "sint w < 2 ^ 31"
  using sint_greater_eq [of w] sint_less [of w] by simp_all

lemma sint_not_least: "- (2 ^ 63) < sint w \<Longrightarrow> (w :: u64) \<noteq> push_bit 63 1"
  by auto

lemma signed_take_bit_range:
  "n < 63 \<Longrightarrow> - (2 ^ 63) < signed_take_bit n (i :: int)"
  using signed_take_bit_int_greater_eq_minus_exp [of n i] power_strict_increasing [of n 63 "2 :: int"] by linarith

lemma signed_number_value:
  assumes "signed_value md v = Some i" "has_mod md F"
  shows "\<exists>w. signed_number F (v # args) = Some (w, args) \<and> sint w = i \<and> - (2 ^ 63) < i"
proof (cases v)
  case (VaInt w)
  with assms sint_32 [of w] signed_take_bit_range [of 15 "sint w"] signed_take_bit_range [of 7 "sint w"]
  show ?thesis by (auto simp: signed_number_def has_mod_def flag_simps sint_narrow split: if_splits)
next
  case (VaLong w)
  have "- (2 ^ 63) \<le> sint w" using sint_greater_eq [of w] by simp
  with VaLong assms show ?thesis by (auto simp: signed_number_def has_mod_def flag_simps split: if_splits)
qed (use assms in simp)

lemma unsigned_number_value:
  assumes "unsigned_value md v = Some n" "has_mod md F"
  shows "\<exists>w. unsigned_number F (v # args) = Some (w, args) \<and> unat w = n"
proof (cases v)
  case (VaInt w)
  have w: "unat w < 2 ^ 32" using unsigned_less [of w, where ?'a = nat] by simp
  have "unat (ucast (ucast w :: 16 word) :: u64) = unat w mod 2 ^ 16" "unat (ucast (ucast w :: 8 word) :: u64) = unat w mod 2 ^ 8"
    "unat (ucast w :: u64) = unat w"
    using w by (simp_all only: unsigned_ucast_eq [where ?'a = nat] take_bit_take_bit) (simp_all add: take_bit_eq_mod)
  with VaInt assms show ?thesis by (auto simp: unsigned_number_def has_mod_def flag_simps split: if_splits)
qed (use assms in \<open>auto simp: unsigned_number_def has_mod_def flag_simps split: if_splits\<close>)

lemma unat_minus_sint: "- (2 ^ 63) < sint w \<Longrightarrow> sint w < 0 \<Longrightarrow> unat (- w :: u64) = nat (- sint w)"
proof -
  assume i: "- (2 ^ 63) < sint w" "sint w < 0"
  have "- w = of_int (- sint w)" by simp
  then have "uint (- w) = (- sint w) mod 2 ^ 64" using uint_word_of_int [of "- sint w", where ?'a = 64] by simp
  with i have "uint (- w) = - sint w" by simp
  then show ?thesis by (simp only: unat_eq_nat_uint)
qed

lemma do_num_signed:
  assumes "signed_value md v = Some i" "has_mod md F" "bit F 4"
  shows "\<exists>num. do_num F (v # args) = Some (if i < 0 then F OR PR_NEGATIVE else F, num, args) \<and> unat num = nat \<bar>i\<bar>"
proof -
  from signed_number_value [OF assms(1,2)] obtain w where
    w: "signed_number F (v # args) = Some (w, args)" "sint w = i" "- (2 ^ 63) < sint w" by blast
  have sg: "F AND PR_DO_SIGN \<noteq> 0" using assms(3) by (simp add: flag_tests)
  show ?thesis
  proof (cases "i < 0")
    case True
    then show ?thesis
      using w sg unat_minus_sint [OF w(3)] sint_not_least [OF w(3)]
      by (simp add: do_num_def)
  next
    case False
    then have "uint w = i" using w(2) uint_word_of_int [of "sint w", where ?'a = 64, unfolded of_int_sint] sint_less [of w] by simp
    then have "unat w = nat i" by (simp only: unat_eq_nat_uint)
    with False show ?thesis using w sg by (simp add: do_num_def)
  qed
qed

lemma do_num_unsigned:
  assumes "unsigned_value md v = Some n" "has_mod md F" "\<not> bit F 4"
  shows "\<exists>num. do_num F (v # args) = Some (F, num, args) \<and> unat num = n"
  using unsigned_number_value [OF assms(1,2), where args = args] assms(3) by (auto simp: do_num_def flag_tests)

definition plain :: "32 word \<Rightarrow> bool" where
  "plain F \<longleftrightarrow> \<not> bit F 0 \<and> \<not> bit F 1 \<and> \<not> bit F 4"

text \<open>What \<open>convert\<close> leaves in the flags.\<close>

definition result_flags :: "32 word \<Rightarrow> bool \<Rightarrow> string \<Rightarrow> 32 word \<Rightarrow> bool" where
  "result_flags F num sign F' \<longleftrightarrow> flag_sign F' = sign \<and> bit F' 2 = bit F 2 \<and> bit F' 3 = (bit F 3 \<and> num)"

lemma num_conv_unsigned:
  assumes "in_numeral tbl b md v = Some (sign, body, num)" "has_mod md F" "plain F"
    and "\<And>n. do_num_out tbl' k n = Some (num_text tbl b (unat n))"
  shows "\<exists>F'. num_conv (F AND NOT PR_DO_SIGN) tbl' k (v # args) = Some (F', body, args) \<and> result_flags F num sign F'"
proof -
  from assms(1) obtain n where n: "unsigned_value md v = Some n" "sign = []" "body = num_text tbl b n" "num"
    by (auto simp: in_numeral_def)
  have F: "has_mod md (F AND NOT PR_DO_SIGN)" "\<not> bit (F AND NOT PR_DO_SIGN) 4"
    using assms(2) by (auto simp: has_mod_def flag_simps)
  from do_num_unsigned [OF n(1) F, where args = args] obtain w where
    "do_num (F AND NOT PR_DO_SIGN) (v # args) = Some (F AND NOT PR_DO_SIGN, w, args)" "unat w = n" by blast
  with n assms(3,4) show ?thesis
    by (simp add: num_conv_def result_flags_def flag_sign_def plain_def flag_simps)
qed

lemma num_conv_signed:
  assumes "signed_numeral md v = Some (sign, body, num)" "has_mod md F" "plain F"
  shows "\<exists>F'. num_conv (F OR PR_DO_SIGN) tbl 0 (v # args) = Some (F', body, args) \<and> result_flags F num sign F'"
proof -
  from assms(1) obtain i where i: "signed_value md v = Some i" "sign = (if i < 0 then ''-'' else [])"
    "body = num_text HexDigits 10 (nat \<bar>i\<bar>)" "num" by (auto simp: signed_numeral_def)
  have F: "has_mod md (F OR PR_DO_SIGN)" "bit (F OR PR_DO_SIGN) 4"
    using assms(2) by (auto simp: has_mod_def flag_simps)
  from do_num_signed [OF i(1) F] obtain n where
    "do_num (F OR PR_DO_SIGN) (v # args) =
      Some (if i < 0 then (F OR PR_DO_SIGN) OR PR_NEGATIVE else F OR PR_DO_SIGN, n, args)" "unat n = nat \<bar>i\<bar>" by blast
  with i assms(3) show ?thesis
    by (simp add: num_conv_def do_num_out_text result_flags_def flag_sign_def plain_def flag_simps)
qed

lemma convert_char:
  "convert CHR ''x'' F args = num_conv (F AND NOT PR_DO_SIGN) (drop 16 HexDigits) 4 args"
  "convert CHR ''X'' F args = num_conv (F AND NOT PR_DO_SIGN) HexDigits 4 args"
  "convert CHR ''d'' F args = num_conv (F OR PR_DO_SIGN) HexDigits 0 args"
  "convert CHR ''i'' F args = num_conv (F OR PR_DO_SIGN) HexDigits 0 args"
  "convert CHR ''u'' F args = num_conv (F AND NOT PR_DO_SIGN) HexDigits 0 args"
  "convert CHR ''o'' F args = num_conv (F AND NOT PR_DO_SIGN) HexDigits 3 args"
  by (simp_all add: convert_def)

lemma convert_p:
  assumes "plain F"
  shows "\<exists>F'. convert CHR ''p'' F (VaPtr p s # args) =
      Some (F', if p = 0 then ''(nil)'' else num_text (drop 16 HexDigits) 16 (unat p), args) \<and>
    result_flags F (p \<noteq> 0) (if p = 0 then [] else ''0x'') F'"
proof -
  define G where "G = (F AND NOT (PR_DO_SIGN OR PR_NEGATIVE OR PR_8 OR PR_16 OR PR_64)) OR PR_64"
  have G: "\<not> bit G 0" "\<not> bit G 1" "bit G 2 = bit F 2" "bit G 3 = bit F 3"
    using assms by (simp_all add: G_def plain_def flag_simps)
  have "convert CHR ''p'' F (VaPtr p s # args) = (if p = 0 then Some (G AND NOT PR_PADLEFT0, ''(nil)'', args)
      else Some (G OR PR_POINTER, num_text (drop 16 HexDigits) 16 (unat p), args))"
    by (simp add: convert_def do_num_out_text G_def)
  with G show ?thesis by (simp add: result_flags_def flag_sign_def flag_simps)
qed

lemma convert_c_s:
  assumes "plain F"
  shows "\<exists>F'. convert CHR ''c'' F (VaInt w # args) = Some (F', let c = char_of (unat w) in if c = NUL then [] else [c], args) \<and>
      result_flags F False [] F'"
    "\<exists>F'. convert CHR ''s'' F (VaPtr p s # args) = Some (F', if p = 0 then ''(null)'' else s, args) \<and>
      result_flags F False [] F'"
proof -
  define G where "G = F AND NOT (PR_DO_SIGN OR PR_NEGATIVE OR PR_PADLEFT0)"
  have "\<not> bit G 0" "\<not> bit G 1" "bit G 2 = bit F 2" "\<not> bit G 3"
    using assms by (simp_all add: G_def plain_def flag_simps)
  then have "result_flags F False [] G" by (simp add: result_flags_def flag_sign_def)
  then show "\<exists>F'. convert CHR ''c'' F (VaInt w # args) = Some (F', let c = char_of (unat w) in if c = NUL then [] else [c], args) \<and>
      result_flags F False [] F'"
    "\<exists>F'. convert CHR ''s'' F (VaPtr p s # args) = Some (F', if p = 0 then ''(null)'' else s, args) \<and>
      result_flags F False [] F'"
    by (simp_all add: convert_def G_def Let_def)
qed

lemma convert_item:
  assumes it: "item md cv v = Some (sign, body, num)" and F: "has_mod md F" "plain F"
  shows "\<exists>F'. convert (conv_char cv) F (v # args) = Some (F', body, args) \<and> result_flags F num sign F'"
proof (cases cv)
  case C_p
  with it obtain p s where v: "v = VaPtr p s" by (cases v) auto
  from convert_p [OF F(2), of p s args] it show ?thesis by (cases "p = 0") (simp_all add: v C_p)
next
  case C_c
  with it convert_c_s(1) [OF F(2), where args = args] show ?thesis by (cases v) auto
next
  case C_s
  with it convert_c_s(2) [OF F(2), where args = args] show ?thesis by (cases v) auto
qed (use it num_conv_unsigned [OF _ F do_num_out_text(1), where args = args]
    num_conv_unsigned [OF _ F do_num_out_text(2), where args = args]
    num_conv_unsigned [OF _ F do_num_out_text(3), where args = args]
    num_conv_signed [OF _ F, where args = args] in \<open>simp_all add: convert_char\<close>)

section \<open>The state machine on a directive\<close>

text \<open>What the loop does after one pass of the \<open>switch\<close>.\<close>

definition resume :: "'s out \<Rightarrow> 's pr_result \<Rightarrow> (u64 \<times> 's) option" where
  "resume fn r = (case r of None \<Rightarrow> None
   | Some (fmt, l, args, cs) \<Rightarrow> (if fmt = [] then None else pr_loop fn (tl fmt) l args cs))"

lemma pr_loop_Nil: "pr_loop fn [] l args cs = Some cs"
  by (subst pr_loop.simps) simp

lemma pr_loop_Cons: "pr_loop fn (c # fmt) l args cs = resume fn (pr_switch fn (c # fmt) l args cs)"
  by (subst pr_loop.simps) (simp add: resume_def)

lemma pr_loop_at: "fmt \<noteq> [] \<Longrightarrow> pr_loop fn fmt l args cs = resume fn (pr_switch fn fmt l args cs)"
  by (cases fmt) (simp_all add: pr_loop_Cons)

lemma resume_Some [simp]: "resume fn (Some (c # fmt, l, args, cs)) = pr_loop fn fmt l args cs"
  by (simp add: resume_def)

lemma resume_bind: "resume fn (Option.bind x f) = Option.bind x (\<lambda>y. resume fn (f y))"
  by (cases x) (simp_all add: resume_def)

lemma cur_Cons [simp]: "cur (c # fmt) = c"
  by (simp add: cur_def)

lemma loop_text:
  "c \<noteq> CHR ''%'' \<Longrightarrow> pr_loop fn (c # fmt) pr_start args cs =
    Option.bind (emit fn c cs) (pr_loop fn fmt pr_start args)"
  by (simp add: pr_loop_Cons pr_switch_def state0_def pr_start_def resume_bind)

abbreviation locals :: "nat \<Rightarrow> 32 word \<Rightarrow> u64 \<Rightarrow> pr_locals" where
  "locals k F w \<equiv> \<lparr>pr_state = k, pr_fl = F, pr_wd = w\<rparr>"

lemma loop_percent:
  "pr_loop fn (CHR ''%'' # fmt) pr_start args cs = resume fn (state1 fn fmt (locals (Suc 0) 0 0) args cs)"
  by (simp add: pr_loop_Cons pr_switch_def state0_def pr_start_def next_state_def)

lemma state1_percent:
  "resume fn (state1 fn (CHR ''%'' # fmt) (locals (Suc 0) 0 0) args cs) =
    Option.bind (emit fn CHR ''%'' cs) (pr_loop fn fmt pr_start args)"
  by (simp add: state1_def resume_bind pr_start_def)

lemma state1_left:
  "fmt \<noteq> [] \<Longrightarrow> resume fn (state1 fn (CHR ''-'' # fmt) (locals (Suc 0) F w) args cs) =
    resume fn (state1 fn fmt (locals (Suc 0) (F OR PR_LEFTJUST) w) args cs)"
  by (simp add: state1_def pr_loop_at pr_switch_def add_flag_def)

lemma state1_zero:
  "resume fn (state1 fn (CHR ''0'' # fmt) (locals (Suc 0) F w) args cs) =
    resume fn (state2 fn fmt (locals 2 (F OR PR_PADLEFT0) 0) args cs)"
  by (simp add: state1_def add_flag_def next_state_def numeral_2_eq_2)

lemma state1_else:
  "cur fmt \<notin> {CHR ''%'', CHR ''-'', CHR ''0''} \<Longrightarrow>
    resume fn (state1 fn fmt (locals (Suc 0) F w) args cs) = resume fn (state2 fn fmt (locals 2 F 0) args cs)"
  by (simp add: state1_def next_state_def numeral_2_eq_2)

lemma digit_range:
  "d < 10 \<Longrightarrow> CHR ''0'' \<le> HexDigits ! d \<and> HexDigits ! d \<le> CHR ''9'' \<and> (of_char (HexDigits ! d) :: nat) = d + 48"
proof -
  have "\<forall>d \<in> set [0..<10]. CHR ''0'' \<le> HexDigits ! d \<and> HexDigits ! d \<le> CHR ''9'' \<and> (of_char (HexDigits ! d) :: nat) = d + 48"
    by code_simp
  then show "d < 10 \<Longrightarrow> ?thesis" by simp
qed

lemma state2_digit:
  assumes "d < 10" "fmt \<noteq> []"
  shows "resume fn (state2 fn (HexDigits ! d # fmt) (locals 2 F w) args cs) =
    resume fn (state2 fn fmt (locals 2 F (10 * w + of_nat d)) args cs)"
proof -
  have "(of_char (HexDigits ! d) :: u64) = of_nat (of_char (HexDigits ! d))"
    by (simp only: of_nat_of_char)
  then have "(of_char (HexDigits ! d) :: u64) - 48 = of_nat d"
    using digit_range [OF assms(1)] by (simp only:) simp
  then show ?thesis
    using digit_range [OF assms(1)] assms(2) by (simp add: state2_def pr_loop_at pr_switch_def)
qed

lemma state2_digits:
  assumes "fmt \<noteq> []"
  shows "\<forall>d \<in> set ds. d < 10 \<Longrightarrow> resume fn (state2 fn (map (nth HexDigits) ds @ fmt) (locals 2 F w) args cs) =
    resume fn (state2 fn fmt (locals 2 F (foldl (\<lambda>a d. 10 * a + of_nat d) w ds)) args cs)"
  by (induction ds arbitrary: w) (simp_all add: state2_digit assms)

lemma state2_width:
  assumes "fmt \<noteq> []"
  shows "resume fn (state2 fn (width_text w @ fmt) (locals 2 F 0) args cs) =
    resume fn (state2 fn fmt (locals 2 F (of_nat w)) args cs)"
proof (cases "w = 0")
  case False
  have fold: "foldl (\<lambda>a d. 10 * a + of_nat d) (of_nat a :: u64) ds = of_nat (foldl (\<lambda>a d. 10 * a + d) a ds)" for a ds
  proof (induction ds arbitrary: a)
    case (Cons d ds)
    show ?case using Cons.IH [of "10 * a + d"] by simp
  qed simp
  have "\<forall>d \<in> set (in_base 10 w). d < 10" by (simp add: in_base_less)
  note digits = state2_digits [OF assms this]
  have v: "foldl (\<lambda>a d. 10 * a + of_nat d) (0 :: u64) (in_base 10 w) = of_nat w"
    using fold [of 0 "in_base 10 w"] read_in_base [of 10 w] by (simp add: read_base_def)
  have t: "width_text w = map (nth HexDigits) (in_base 10 w)" using False by (simp add: width_text_def num_text_def)
  show ?thesis unfolding t digits v ..
qed (simp add: width_text_def)

text \<open>The characters at which the width and the modifiers end.\<close>

lemma state2_end:
  "cur fmt \<notin> set (take 10 HexDigits) \<Longrightarrow>
    resume fn (state2 fn fmt (locals 2 F w) args cs) = resume fn (state3 fn fmt (locals 3 F w) args cs)"
proof -
  assume n: "cur fmt \<notin> set (take 10 HexDigits)"
  define c where "c = cur fmt"
  have "\<not> (CHR ''0'' \<le> c \<and> c \<le> CHR ''9'')"
  proof
    assume "CHR ''0'' \<le> c \<and> c \<le> CHR ''9''"
    then have "(48 :: nat) \<le> of_char c \<and> of_char c \<le> (57 :: nat)" by (simp add: less_eq_char_def)
    then have "of_char c \<in> set [48..<58 :: nat]" by (simp only: set_upt atLeastLessThan_iff) auto
    then have "char_of (of_char c :: nat) \<in> char_of ` set [48..<58 :: nat]" by blast
    also have "\<dots> = set (take 10 HexDigits)" by code_simp
    finally show False using n by (simp add: c_def)
  qed
  then show ?thesis by (simp only: state2_def c_def if_False) (simp add: next_state_def)
qed

definition mod_flag :: "modifier \<Rightarrow> 32 word" where
  "mod_flag md = (if md = M_none then 0 else if md = M_h then PR_16 else if md = M_hh then PR_8 else PR_64)"

lemma state3_mod:
  assumes "fmt \<noteq> []" "cur fmt \<notin> set ''ztlLh''"
  shows "resume fn (state3 fn (mod_text md @ fmt) (locals 3 F w) args cs) =
    resume fn (state4 fn fmt (locals 4 (F OR mod_flag md) w) args cs)"
proof -
  have e: "resume fn (state3 fn fmt (locals 3 G w) args cs) = resume fn (state4 fn fmt (locals 4 G w) args cs)" for G
    using assms(2) by (simp add: state3_def next_state_def)
  show ?thesis
    using assms(1) e by (cases md) (use assms(2) in
      \<open>simp_all add: state3_def [of fn "_ # _"] add_flag_def mod_flag_def pr_loop_at pr_switch_def\<close>)
qed

lemma conv_char_other:
  "conv_char cv \<notin> set ''ztlLh''" "conv_char cv \<notin> set (take 10 HexDigits)" "is_conv (conv_char cv)"
  "conv_char cv \<notin> {CHR ''%'', CHR ''-'', CHR ''0''}"
  by (cases cv; simp add: is_conv_def HexDigits_def)+

lemma state4_conv:
  assumes "item md cv v = Some (sign, body, num)" "has_mod md F" "plain F" "length body + 2 < 2 ^ 64"
  shows "resume fn (state4 fn (conv_char cv # fmt) (locals 4 F w) (v # args) cs) =
    Option.bind (emit_str fn (padded (bit F 2) (bit F 3 \<and> num) (unat w) sign body) cs) (pr_loop fn fmt pr_start args)"
proof -
  from convert_item [OF assms(1-3), of args] obtain F' where
    "convert (conv_char cv) F (v # args) = Some (F', body, args)" "result_flags F num sign F'" by blast
  then show ?thesis
    using emit_conv_text [OF assms(4), of fn F' w cs]
    by (simp add: state4_def conv_char_other resume_bind result_flags_def)
qed

lemma mod_flag_has:
  "has_mod md (F OR mod_flag md) \<and> plain (F OR mod_flag md) \<and> bit (F OR mod_flag md) 2 = bit F 2 \<and> bit (F OR mod_flag md) 3 = bit F 3"
  if "plain F" "\<not> bit F 5" "\<not> bit F 6" "\<not> bit F 7"
  using that by (cases md) (simp_all add: mod_flag_def has_mod_def plain_def flag_simps)

text \<open>The first digit of a width is not the flag \<open>0\<close>.\<close>

lemma after_flags:
  "cur (width_text w @ mod_text md @ conv_char cv # fmt) \<notin> {CHR ''%'', CHR ''-'', CHR ''0''}"
proof (cases "w = 0")
  case True
  then show ?thesis using conv_char_other(4) [of cv] by (cases md) (simp_all add: width_text_def)
next
  case False
  define d where "d = hd (in_base 10 w)"
  have d: "d < 10" "d \<noteq> 0" using False in_base_less [of 10 d w] hd_in_base [of 10 w] by (simp_all add: d_def)
  have "\<forall>d \<in> set [1..<10]. HexDigits ! d \<notin> {CHR ''%'', CHR ''-'', CHR ''0''}" by code_simp
  then have "HexDigits ! d \<notin> {CHR ''%'', CHR ''-'', CHR ''0''}" using d by simp
  moreover have "cur (width_text w @ fmt') = HexDigits ! d" for fmt'
    using False in_base_not_Nil [of 10 w] by (cases "in_base 10 w") (simp_all add: width_text_def num_text_def d_def cur_def)
  ultimately show ?thesis by simp
qed

lemma loop_directive:
  assumes it: "item md cv v = Some (sign, body, num)" and w: "w < 2 ^ 64" and len: "length body + 2 < 2 ^ 64"
  shows "pr_loop fn (piece_format (Directive left zero w md cv) @ fmt) pr_start (v # args) cs =
    Option.bind (emit_str fn (padded left (zero \<and> num) w sign body) cs) (pr_loop fn fmt pr_start args)"
proof -
  define F where "F = (if left then PR_LEFTJUST else 0) OR (if zero then PR_PADLEFT0 else 0)"
  let ?G = "F OR mod_flag md"
  let ?c = "conv_char cv # fmt" and ?m = "mod_text md @ conv_char cv # fmt"
  let ?w = "width_text w @ ?m"
  have F: "plain F" "\<not> bit F 5" "\<not> bit F 6" "\<not> bit F 7" "bit F 2 = left" "bit F 3 = zero"
    by (simp_all add: F_def plain_def flag_simps)
  note G = mod_flag_has [OF F(1-4), of md]
  have m: "?m \<noteq> []" "?w \<noteq> []" "?c \<noteq> []" by simp_all
  have "pr_loop fn (piece_format (Directive left zero w md cv) @ fmt) pr_start (v # args) cs =
      resume fn (state1 fn ((if left then ''-'' else []) @ (if zero then ''0'' else []) @ ?w) (locals (Suc 0) 0 0) (v # args) cs)"
    by (simp add: loop_percent)
  also have "\<dots> = resume fn (state1 fn ((if zero then ''0'' else []) @ ?w)
      (locals (Suc 0) (if left then PR_LEFTJUST else 0) 0) (v # args) cs)"
    using m(2) by (simp add: state1_left)
  also have "\<dots> = resume fn (state2 fn ?w (locals 2 F 0) (v # args) cs)"
    by (simp add: state1_zero F_def state1_else [OF after_flags])
  also have "\<dots> = resume fn (state2 fn ?m (locals 2 F (of_nat w)) (v # args) cs)"
    by (rule state2_width [OF m(1)])
  also have "\<dots> = resume fn (state3 fn ?m (locals 3 F (of_nat w)) (v # args) cs)"
    using conv_char_other(2) [of cv] by (intro state2_end) (cases md; simp add: HexDigits_def)
  also have "\<dots> = resume fn (state4 fn ?c (locals 4 ?G (of_nat w)) (v # args) cs)"
    using conv_char_other(1) [of cv] by (intro state3_mod [OF m(3)]) simp
  also have "\<dots> = Option.bind (emit_str fn (padded left (zero \<and> num) w sign body) cs) (pr_loop fn fmt pr_start args)"
    using state4_conv [OF it _ _ len, of ?G fn fmt "of_nat w" args cs] G F w by (simp add: unat_of_nat)
  finally show ?thesis .
qed

lemma loop_text_piece:
  "CHR ''%'' \<notin> set t \<Longrightarrow> pr_loop fn (t @ fmt) pr_start args cs =
    Option.bind (emit_str fn t cs) (pr_loop fn fmt pr_start args)"
proof (induction t arbitrary: cs)
  case (Cons c t)
  then show ?case by (cases "emit fn c cs") (auto simp: loop_text)
qed simp

lemma padded_length: "length body \<le> length (padded left zero w sign body)"
  by (simp add: padded_def Let_def)


lemma loop_piece:
  assumes "piece_text p args = Some (t, args')" "length t + 2 < 2 ^ 64"
  shows "pr_loop fn (piece_format p @ fmt) pr_start args cs = Option.bind (emit_str fn t cs) (pr_loop fn fmt pr_start args')"
proof (cases p)
  case (Directive left zero w md cv)
  with assms(1) obtain v sign body num where
    v: "args = v # args'" "w < 2 ^ 64" "item md cv v = Some (sign, body, num)" "t = padded left (zero \<and> num) w sign body"
    by (auto split: list.splits if_splits)
  have "length body + 2 < 2 ^ 64" using padded_length [of body left "zero \<and> num" w sign] assms(2) v(4) by simp
  from loop_directive [OF v(3,2) this, of fn left zero fmt args' cs] show ?thesis
    by (simp only: Directive v(1,4))
qed (use assms in \<open>auto simp: loop_text_piece loop_percent state1_percent split: if_splits\<close>)

lemma loop_pieces:
  "text_of ps args = Some t \<Longrightarrow> length t + 2 < 2 ^ 64 \<Longrightarrow>
    pr_loop fn (format_of ps) pr_start args cs = emit_str fn t cs"
proof (induction ps args arbitrary: t cs rule: text_of.induct)
  case (2 p ps args)
  then obtain t1 args' t2 where t: "piece_text p args = Some (t1, args')" "text_of ps args' = Some t2" "t = t1 @ t2"
    by (auto split: Option.bind_splits)
  then have "length t1 + 2 < 2 ^ 64" "length t2 + 2 < 2 ^ 64" using "2.prems" by auto
  have rest: "pr_loop fn (format_of ps) pr_start args' = emit_str fn t2"
    using "2.IH" [OF t(1) refl t(2) \<open>length t2 + 2 < 2 ^ 64\<close>] by (simp add: fun_eq_iff)
  show ?case
    using loop_piece [OF t(1) \<open>length t1 + 2 < 2 ^ 64\<close>, of fn "format_of ps" cs]
    by (simp add: format_of_def emit_str_append t(3) rest [unfolded format_of_def])
qed (simp add: format_of_def pr_loop_Nil)

section \<open>Outputs\<close>

fun run :: "'s out \<Rightarrow> string \<Rightarrow> 's \<Rightarrow> 's option" where
  "run fn [] s = Some s"
| "run fn (c # t) s = Option.bind (fn c s) (run fn t)"

lemma emit_str_run: "emit_str fn t (k, s) = map_option (Pair (k + of_nat (length t))) (run fn t s)"
proof (induction t arbitrary: k s)
  case (Cons c t)
  then show ?case by (cases "fn c s") (simp_all add: emit_def algebra_simps)
qed simp

lemma run_append: "run fn (t @ u) s = Option.bind (run fn t s) (run fn u)"
  by (induction t arbitrary: s) (simp_all split: Option.bind_split)

lemma vprintf_runs:
  assumes "text_of ps args = Some t" "length t + 2 < 2 ^ 64"
  shows "do_vprintf fn (format_of ps) args s = map_option (Pair (of_nat (length t))) (run fn (t @ [NUL]) s)"
proof -
  have "take_bit 64 (length t) = length t" using assms(2) by (simp add: take_bit_nat_eq_self)
  then have "ucast (of_nat (length t) :: u64) = (of_nat (length t) :: 32 word)" by (simp add: unsigned_of_nat)
  then show ?thesis
    unfolding do_vprintf_def do_vprintf_size_def loop_pieces [OF assms] emit_str_run run_append
    by (cases "run fn t s"; simp; cases "fn NUL (the (run fn t s))"; simp)
qed

text \<open>
  The interface of an output: \<open>holds t s\<close> means that \<open>s\<close> is the state of the output after it has
  been given the text \<open>t\<close>, and it always accepts one more character.
\<close>

locale char_output =
  fixes fn :: "char \<Rightarrow> 's \<Rightarrow> 's option" and holds :: "string \<Rightarrow> 's \<Rightarrow> bool"
  assumes accepts: "holds t s \<Longrightarrow> \<exists>s'. fn c s = Some s' \<and> holds (t @ [c]) s'"
begin

lemma run_holds: "holds t s \<Longrightarrow> \<exists>s'. run fn u s = Some s' \<and> holds (t @ u) s'"
proof (induction u arbitrary: t s)
  case (Cons c u)
  from accepts [OF Cons.prems] obtain s1 where s1: "fn c s = Some s1" "holds (t @ [c]) s1" by blast
  from Cons.IH [OF s1(2)] s1(1) show ?case by simp
qed simp

lemma vprintf_holds:
  assumes "text_of ps args = Some t" "length t + 2 < 2 ^ 64" "holds u s"
  shows "\<exists>s'. do_vprintf fn (format_of ps) args s = Some (of_nat (length t), s') \<and> holds (u @ t @ [NUL]) s'"
  using run_holds [OF assms(3), of "t @ [NUL]"] vprintf_runs [OF assms(1,2), of fn s] by auto

end

section \<open>Printing into memory\<close>

record vsnprintf_output_s =
  Cur :: u64
  Num :: u64
  out_mem :: memory

definition vsnprintf_output :: "vsnprintf_output_s out" where
  "vsnprintf_output ch s = Some
     (if Num s \<noteq> 0 then
        let n = Num s - 1
        in s\<lparr>Cur := Cur s + 1, Num := n, out_mem := (out_mem s)(Cur s := if n \<noteq> 0 then of_char ch else 0)\<rparr>
      else s)"

definition vsprintf_output :: "(u64 \<times> memory) out" where
  "vsprintf_output ch s = (case s of (p, m) \<Rightarrow> Some (p + 1, m(p := of_char ch)))"

definition vsnprintf :: "u64 \<Rightarrow> u64 \<Rightarrow> string \<Rightarrow> va list \<Rightarrow> memory \<Rightarrow> (32 word \<times> memory) option" where
  "vsnprintf buf n fmt args m = do {
     (rv, s) \<leftarrow> do_vprintf vsnprintf_output fmt args \<lparr>Cur = buf, Num = n, out_mem = m\<rparr>;
     Some (rv, out_mem s)
   }"

definition vsprintf :: "u64 \<Rightarrow> string \<Rightarrow> va list \<Rightarrow> memory \<Rightarrow> (32 word \<times> memory) option" where
  "vsprintf buf fmt args m = do {
     (rv, p, m) \<leftarrow> do_vprintf vsprintf_output fmt args (buf, m);
     Some (rv, m)
   }"

text \<open>The variadic functions pass their arguments on.\<close>

definition snprintf :: "u64 \<Rightarrow> u64 \<Rightarrow> string \<Rightarrow> va list \<Rightarrow> memory \<Rightarrow> (32 word \<times> memory) option" where
  "snprintf buf n fmt args m = vsnprintf buf n fmt args m"

definition sprintf :: "u64 \<Rightarrow> string \<Rightarrow> va list \<Rightarrow> memory \<Rightarrow> (32 word \<times> memory) option" where
  "sprintf buf fmt args m = vsprintf buf fmt args m"

text \<open>A text in memory, and the part of a text that fits into \<open>n\<close> bytes.\<close>

fun put_text :: "memory \<Rightarrow> u64 \<Rightarrow> string \<Rightarrow> memory" where
  "put_text m a [] = m"
| "put_text m a (c # t) = put_text (m(a := of_char c)) (a + 1) t"

definition clip :: "nat \<Rightarrow> string \<Rightarrow> string" where
  "clip n t = (if length t < n then t else if n = 0 then [] else take (n - 1) t @ [NUL])"

lemma put_text_append: "put_text m a (t @ u) = put_text (put_text m a t) (a + of_nat (length t)) u"
  by (induction t arbitrary: m a) (simp_all add: algebra_simps)

lemma put_text_outside: "length t \<le> unat (b - a) \<Longrightarrow> put_text m a t b = m b"
proof (induction t arbitrary: m a)
  case (Cons c t)
  then have "b - a \<noteq> 0" by auto
  then have "unat (b - (a + 1)) = unat (b - a) - 1" by (metis diff_diff_add unat_minus_one)
  with Cons show ?case by auto
qed simp

lemma put_text_inside:
  "i < length t \<Longrightarrow> length t \<le> 2 ^ 64 \<Longrightarrow> put_text m a t (a + of_nat i) = of_char (t ! i)"
proof (induction t arbitrary: m a i)
  case (Cons c t)
  show ?case
  proof (cases i)
    case 0
    have "unat (a - (a + 1)) = 2 ^ 64 - 1" by (simp add: unsigned_minus_1_eq_mask mask_eq_exp_minus_1)
    then show ?thesis using Cons.prems 0 by (simp add: put_text_outside)
  next
    case (Suc j)
    then have "a + of_nat i = (a + 1) + of_nat j" by simp
    moreover have "put_text (m(a := of_char c)) (a + 1) t ((a + 1) + of_nat j) = of_char (t ! j)"
      using Cons.prems Suc by (intro Cons.IH) simp_all
    ultimately show ?thesis by (simp only: Suc put_text.simps nth_Cons_Suc)
  qed
qed simp

lemma length_clip: "length (clip n t) \<le> n"
  by (simp add: clip_def)

definition holds_clipped :: "u64 \<Rightarrow> u64 \<Rightarrow> memory \<Rightarrow> string \<Rightarrow> vsnprintf_output_s \<Rightarrow> bool" where
  "holds_clipped buf n m t s \<longleftrightarrow> Cur s = buf + of_nat (min (length t) (unat n)) \<and>
     Num s = n - of_nat (min (length t) (unat n)) \<and> out_mem s = put_text m buf (clip (unat n) t)"

interpretation vsn: char_output vsnprintf_output "holds_clipped buf n m" for buf n m
proof
  fix t s c assume h: "holds_clipped buf n m t s"
  show "\<exists>s'. vsnprintf_output c s = Some s' \<and> holds_clipped buf n m (t @ [c]) s'"
  proof (cases "length t < unat n")
    case True
    then have k: "n - of_nat (length t) \<noteq> 0" "unat (n - of_nat (length t)) = unat n - length t"
      using unat_lt64 [of n] by (auto simp: unat_sub word_le_nat_alt unat_of_nat word_unat_eq_iff)
    have z: "n - of_nat (length t) - 1 = 0 \<longleftrightarrow> Suc (length t) = unat n"
      using k True by (auto simp: word_unat_eq_iff unat_minus_one)
    show ?thesis
      using h True k z by (auto simp: vsnprintf_output_def holds_clipped_def clip_def Let_def put_text_append algebra_simps)
  next
    case False
    then show ?thesis using h
      by (auto simp: vsnprintf_output_def holds_clipped_def clip_def)
  qed
qed

interpretation vs: char_output vsprintf_output "\<lambda>t s. s = (buf + of_nat (length t), put_text m buf t)" for buf m
  by unfold_locales (simp add: vsprintf_output_def put_text_append algebra_simps)

section \<open>Properties\<close>

text \<open>Evaluation of the specification on concrete directives.\<close>

lemma replicate_eval: "replicate (numeral k) x = x # replicate (pred_numeral k) x"
  by (simp add: numeral_eq_Suc)

lemmas text_eval = num_text_def HexDigits_def in_base_eval in_numeral_def signed_numeral_def padded_def
  replicate_eval width_text_def format_of_def

text \<open>C22: The interpreter of formats prints what the directives mean: for every format built from text,
  \<open>%%\<close> and directives, with arguments of the types these ask for, \<open>do_vprintf\<close> gives exactly the
  specified text and a NUL to its output function and returns the length of the text.\<close>

theorem vprintf_prints:
  assumes "text_of ps args = Some t" "length t + 2 < 2 ^ 64"
  shows "do_vprintf fn (format_of ps) args s = map_option (Pair (of_nat (length t))) (run fn (t @ [NUL]) s)"
  by (rule vprintf_runs [OF assms])

theorem vprintf_prints_witness:
  "do_vprintf (\<lambda>c s. Some (s @ [c])) ''a%5d|%-04x%%%s'' [VaInt (- 42), VaInt 255, VaPtr 1 ''hey''] [] =
     Some (15, ''a  -42|ff  %hey'' @ [NUL])"
proof -
  let ?ps = "[Text ''a'', Directive False False 5 M_none C_d, Text ''|'', Directive True True 4 M_none C_x, Percent,
    Directive False False 0 M_none C_s]" and ?args = "[VaInt (- 42), VaInt 255, VaPtr 1 ''hey'']"
  have t: "text_of ?ps ?args = Some ''a  -42|ff  %hey''" by (simp add: text_eval)
  have f: "format_of ?ps = ''a%5d|%-04x%%%s''" by (simp add: text_eval)
  show ?thesis using vprintf_prints [OF t, where fn = "\<lambda>c s. Some (s @ [c])" and s = "[]"] unfolding f by simp
qed

text \<open>C23: \<open>vsnprintf\<close> never writes outside of the \<open>n\<close> bytes it is given, returns the length the whole
  text would have, and leaves the text in the buffer, cut to \<open>n - 1\<close> characters and
  terminated.\<close>

theorem vsnprintf_bounded:
  assumes "text_of ps args = Some t" "length t + 2 < 2 ^ 64"
  shows "\<exists>m'. vsnprintf buf n (format_of ps) args m = Some (of_nat (length t), m') \<and>
    (\<forall>a. m' a = (if unat (a - buf) < length (clip (unat n) (t @ [NUL]))
       then of_char (clip (unat n) (t @ [NUL]) ! unat (a - buf)) else m a)) \<and>
    length (clip (unat n) (t @ [NUL])) = min (unat n) (length t + 1)"
proof -
  let ?u = "clip (unat n) (t @ [NUL])"
  have h: "holds_clipped buf n m [] \<lparr>Cur = buf, Num = n, out_mem = m\<rparr>"
    by (simp add: holds_clipped_def clip_def)
  from vsn.vprintf_holds [OF assms h] obtain s' where
    s': "do_vprintf vsnprintf_output (format_of ps) args \<lparr>Cur = buf, Num = n, out_mem = m\<rparr> = Some (of_nat (length t), s')"
    "holds_clipped buf n m (t @ [NUL]) s'" by auto
  have len: "length ?u = min (unat n) (length t + 1)" by (auto simp: clip_def)
  then have small: "length ?u \<le> 2 ^ 64" using unat_lt64 [of n] by simp
  have "put_text m buf ?u a = (if unat (a - buf) < length ?u then of_char (?u ! unat (a - buf)) else m a)" for a
    using put_text_inside [OF _ small, of "unat (a - buf)" m buf] put_text_outside [of ?u a buf m] by simp
  with s' len show ?thesis by (simp add: vsnprintf_def holds_clipped_def)
qed

theorem vsnprintf_bounded_witness:
  "\<exists>m'. vsnprintf 0x1000 4 ''%u'' [VaInt 123456] (\<lambda>_. 7) = Some (6, m') \<and>
     map m' [0x1000, 0x1001, 0x1002, 0x1003, 0x1004] = [of_char CHR ''1'', of_char CHR ''2'', of_char CHR ''3'', 0, 7]"
proof -
  let ?ps = "[Directive False False 0 M_none C_u]" and ?args = "[VaInt 123456]"
  have t: "text_of ?ps ?args = Some ''123456''" by (simp add: text_eval)
  have f: "format_of ?ps = ''%u''" by (simp add: text_eval)
  show ?thesis
    using vsnprintf_bounded [OF t, where buf = "0x1000" and n = 4 and m = "\<lambda>_. 7"] unfolding f
    by (auto simp: clip_def)
qed

text \<open>With enough room the bounded and the unbounded function agree, and leave the text and a NUL.\<close>

theorem snprintf_agrees:
  assumes "text_of ps args = Some t" "length t + 2 < 2 ^ 64" "length t < unat n"
  shows "snprintf buf n (format_of ps) args m = sprintf buf (format_of ps) args m \<and>
    sprintf buf (format_of ps) args m = Some (of_nat (length t), put_text m buf (t @ [NUL]))"
proof
  from vs.vprintf_holds [OF assms(1,2), where u = "[]" and s = "(buf, m)" and buf = buf and m = m]
  show s: "sprintf buf (format_of ps) args m = Some (of_nat (length t), put_text m buf (t @ [NUL]))"
    by (auto simp: sprintf_def vsprintf_def)
  have h: "holds_clipped buf n m [] \<lparr>Cur = buf, Num = n, out_mem = m\<rparr>"
    by (simp add: holds_clipped_def clip_def)
  have "clip (unat n) (t @ [NUL]) = t @ [NUL]" using assms(3) by (auto simp: clip_def)
  with vsn.vprintf_holds [OF assms(1,2) h] show "snprintf buf n (format_of ps) args m = sprintf buf (format_of ps) args m"
    unfolding s by (auto simp: snprintf_def vsnprintf_def holds_clipped_def)
qed

theorem snprintf_agrees_witness:
  "snprintf 0x1000 64 ''%03o'' [VaInt 8] (\<lambda>_. 7) = Some (3, put_text (\<lambda>_. 7) 0x1000 (''010'' @ [NUL]))"
proof -
  have t: "text_of [Directive False True 3 M_none C_o] [VaInt 8] = Some ''010''" by (simp add: text_eval)
  have f: "format_of [Directive False True 3 M_none C_o] = ''%03o''" by (simp add: text_eval)
  show ?thesis using snprintf_agrees [OF t, where buf = "0x1000" and n = 64 and m = "\<lambda>_. 7"] unfolding f by simp
qed

text \<open>C24: Reading the decimal digits that are written gives the number back; there are at most 20 of
  them, and the first one is not 0 unless the number is 0.\<close>

theorem decimal_roundtrip:
  "\<exists>ds. write_uword_base10 [] num = Some (map (nth HexDigits) ds) \<and> read_base 10 ds = unat num \<and>
     list_all (\<lambda>d. d < 10) ds \<and> length ds \<le> 20 \<and> (hd ds = 0) = (num = 0)"
proof -
  have "length (in_base 10 (unat num)) \<le> Suc 19"
    by (rule length_in_base) (simp, rule unat_less_pow, simp)
  moreover have "write_uword_base10 [] num = Some (map (nth HexDigits) (in_base 10 (unat num)))"
    using do_num_out_text(3) [of "[]" num] by (simp add: do_num_out_def num_text_def)
  ultimately show ?thesis
    using read_in_base [of 10 "unat num"] in_base_less [of 10 _ "unat num"] hd_in_base [of 10 "unat num"]
    by (intro exI [of _ "in_base 10 (unat num)"]) (simp add: list_all_iff unsigned_eq_0_iff)
qed

text \<open>C25: A format that ends within a directive right after \<open>%\<close>, or after the flag \<open>0\<close>, is read past its
  terminator: the NUL is taken for a conversion and the loop steps over it.\<close>

theorem vprintf_past_the_end:
  assumes "CHR ''%'' \<notin> set t"
  shows "do_vprintf fn (t @ ''%'') args s = None \<and> do_vprintf fn (t @ ''%0'') args s = None"
proof -
  have 1: "resume fn (state1 fn [] (locals (Suc 0) 0 0) args cs) = None"
    "resume fn (state2 fn [] (locals 2 PR_PADLEFT0 0) args cs) = None" for cs
    by (simp_all add: pr_states cur_def is_conv_def next_state_def resume_bind less_eq_char_def)
       (simp_all add: resume_def)
  show ?thesis
    by (simp_all add: do_vprintf_def do_vprintf_size_def loop_text_piece [OF assms] loop_percent state1_zero 1)
qed

theorem vprintf_past_the_end_witness:
  "do_vprintf (\<lambda>c s. Some (s @ [c])) ''100%'' [] [] = None"
  using vprintf_past_the_end [of "''100''" "\<lambda>c s. Some (s @ [c])" "[]" "[]"] by simp

end
