(* ===== verification/Framebuffer.thy ===== *)
theory Framebuffer
  imports Ascii_Font Printf_Spec
begin

text \<open>
  \<open>fb.c\<close>, the console on the frame buffer, and the functions of \<open>printf.c\<close> that print on it. The
  specification is a grid of characters with a cursor; the pixels of the frame buffer show it.
\<close>

section \<open>\<open>fb.c\<close>\<close>

definition FONT_WIDTH :: nat where "FONT_WIDTH = 8"
definition FONT_HEIGHT :: nat where "FONT_HEIGHT = 16"

record fb_state =
  Fb :: "u32 list"
  Width :: u32
  PosX :: u32
  PosY :: u32
  MaxX :: u32
  MaxY :: u32

definition newline :: char where "newline = CHR 0x0A"

definition HELLO_STATEMENT :: string where
  "HELLO_STATEMENT = ''MiniOS Framebuffer Console (CMPSC 473)'' @ newline #
     ''Copyright (C) 2023 Ruslan Nikolaev'' @ [newline, newline]"

text \<open>
  \<open>fb_scrollup\<close>: the two \<open>do\<close> loops. The products are computed in \<open>unsigned int\<close>. The counters are of
  type \<open>size_t\<close> and tested after they are decremented; a position outside the array is
  undefined long before it could wrap around, so positions are natural numbers.
\<close>

lemma unat_pred_less: "x \<noteq> 0 \<Longrightarrow> unat (x - 1) < unat (x :: u64)"
  by (simp add: unat_minus_one unat_gt_0)

lemmas count_down = unat_pred_less [of "count - 1" for count]

function move_rows :: "nat \<Rightarrow> u64 \<Rightarrow> nat \<Rightarrow> u32 list \<Rightarrow> (nat \<times> u32 list) option" where
  "move_rows row count p fb = do {
     v \<leftarrow> array_get fb (p + row);
     fb \<leftarrow> array_set fb p v;
     let p = p + 1;
     let count = count - 1;
     if count \<noteq> 0 then move_rows row count p fb else Some (p, fb)
   }"
  by pat_completeness auto

termination
  by (relation "measure (\<lambda>(row, count, p, fb). unat (count - 1))") (simp, use count_down in simp)

function clear_row :: "u64 \<Rightarrow> nat \<Rightarrow> u32 list \<Rightarrow> u32 list option" where
  "clear_row row p fb = do {
     fb \<leftarrow> array_set fb p 0;
     let row = row - 1;
     if row \<noteq> 0 then clear_row row (p + 1) fb else Some fb
   }"
  by pat_completeness auto
termination
  by (relation "measure (\<lambda>(row, p, fb). unat (row - 1))") (simp, use count_down in simp)

declare move_rows.simps [simp del] clear_row.simps [simp del]

definition fb_scrollup :: "fb_state \<Rightarrow> fb_state option" where
  "fb_scrollup st = do {
     let count = (ucast (Width st * ((MaxY st - 1) * of_nat FONT_HEIGHT)) :: u64);
     let row = (ucast (Width st * of_nat FONT_HEIGHT) :: u64);
     (p, fb) \<leftarrow> move_rows (unat row) count 0 (Fb st);
     fb \<leftarrow> clear_row row p fb;
     Some (st\<lparr>Fb := fb\<rparr>)
   }"

text \<open>The loops over the rows of a character and the bits of a row.\<close>

fun draw_bits :: "nat \<Rightarrow> nat \<Rightarrow> u8 \<Rightarrow> u32 list \<Rightarrow> u32 list option" where
  "draw_bits 0 p bitmap fb = Some fb"
| "draw_bits (Suc k) p bitmap fb = do {
     let color = signed_drop_bit 7 bitmap;
     fb \<leftarrow> array_set fb p (scast color);
     draw_bits k (p + 1) (push_bit 1 bitmap) fb
   }"

fun draw_rows :: "nat \<Rightarrow> nat \<Rightarrow> nat \<Rightarrow> nat \<Rightarrow> u32 list \<Rightarrow> u32 list option" where
  "draw_rows 0 ptr p w fb = Some fb"
| "draw_rows (Suc k) ptr p w fb = do {
     bitmap \<leftarrow> array_get ascii_font ptr;
     fb \<leftarrow> draw_bits FONT_WIDTH p bitmap fb;
     draw_rows k (ptr + 1) (p + w) w fb
   }"

definition fb_output :: "char \<Rightarrow> fb_state \<Rightarrow> fb_state option" where
  "fb_output ch st =
     (if ch = NUL then Some st
      else do {
        let ch = (if of_char ch \<ge> (128 :: nat) then CHR ''?'' else ch);
        let st = (if ch = newline \<or> PosX st = MaxX st then st\<lparr>PosX := 0, PosY := PosY st + 1\<rparr> else st);
        st \<leftarrow> (if PosY st = MaxY st then fb_scrollup (st\<lparr>PosY := PosY st - 1\<rparr>) else Some st);
        if ch = newline then Some st
        else do {
          let ptr = of_char ch * (FONT_WIDTH * FONT_HEIGHT div 8);
          let p = unat (ucast (PosX st) * of_nat FONT_WIDTH + ucast ((PosY st * of_nat FONT_HEIGHT) * Width st) :: u64);
          fb \<leftarrow> draw_rows FONT_HEIGHT ptr p (unat (Width st)) (Fb st);
          Some (st\<lparr>Fb := fb, PosX := PosX st + 1\<rparr>)
        }
      })"

fun clear_pixels :: "nat \<Rightarrow> nat \<Rightarrow> u32 list \<Rightarrow> u32 list option" where
  "clear_pixels 0 i fb = Some fb"
| "clear_pixels (Suc n) i fb = do { fb \<leftarrow> array_set fb i 0; clear_pixels n (i + 1) fb }"

fun print_chars :: "string \<Rightarrow> fb_state \<Rightarrow> fb_state option" where
  "print_chars [] st = Some st"
| "print_chars (c # cs) st = do { st \<leftarrow> fb_output c st; print_chars cs st }"

definition fb_init :: "u32 list \<Rightarrow> u32 \<Rightarrow> u32 \<Rightarrow> fb_state option" where
  "fb_init fb width height = do {
     let num = (ucast width * ucast height :: u64);
     fb \<leftarrow> clear_pixels (unat num) 0 fb;
     let st = \<lparr>Fb = fb, Width = width, PosX = 0, PosY = 0,
       MaxX = width div of_nat FONT_WIDTH, MaxY = height div of_nat FONT_HEIGHT\<rparr>;
     print_chars HELLO_STATEMENT st
   }"

section \<open>Printing on the console\<close>

definition vprintf_output :: "fb_state out" where
  "vprintf_output ch st = fb_output ch st"

definition vprintf :: "string \<Rightarrow> va list \<Rightarrow> fb_state \<Rightarrow> (u32 \<times> fb_state) option" where
  "vprintf fmt args st = do_vprintf vprintf_output fmt args st"

definition printf :: "string \<Rightarrow> va list \<Rightarrow> fb_state \<Rightarrow> (u32 \<times> fb_state) option" where
  "printf fmt args st = vprintf fmt args st"

fun puts_loop :: "string \<Rightarrow> fb_state \<Rightarrow> fb_state option" where
  "puts_loop [] st = Some st"
| "puts_loop (c # s) st = do { st \<leftarrow> fb_output c st; puts_loop s st }"

definition puts :: "string \<Rightarrow> fb_state \<Rightarrow> (u32 \<times> fb_state) option" where
  "puts s st = do {
     st \<leftarrow> puts_loop s st;
     st \<leftarrow> fb_output newline st;
     Some (0, st)
   }"

section \<open>The console as a grid of characters\<close>

record console =
  con_x :: nat
  con_y :: nat
  con_cell :: "nat \<Rightarrow> nat \<Rightarrow> char"

definition con_start :: console where
  "con_start = \<lparr>con_x = 0, con_y = 0, con_cell = (\<lambda>r c. CHR '' '')\<rparr>"

definition con_newline :: "nat \<Rightarrow> console \<Rightarrow> console" where
  "con_newline rows con = (if con_y con + 1 = rows
     then con\<lparr>con_x := 0, con_cell := (\<lambda>r c. if r + 1 < rows then con_cell con (r + 1) c else CHR '' '')\<rparr>
     else con\<lparr>con_x := 0, con_y := con_y con + 1\<rparr>)"

definition con_char :: "char \<Rightarrow> console \<Rightarrow> console" where
  "con_char ch con = con\<lparr>con_x := con_x con + 1,
     con_cell := (\<lambda>r c. if r = con_y con \<and> c = con_x con then ch else con_cell con r c)\<rparr>"

definition con_put :: "nat \<Rightarrow> nat \<Rightarrow> char \<Rightarrow> console \<Rightarrow> console" where
  "con_put cols rows ch con =
     (if ch = NUL then con
      else if ch = newline then con_newline rows con
      else con_char (if of_char ch \<ge> (128 :: nat) then CHR ''?'' else ch)
        (if con_x con = cols then con_newline rows con else con))"

text \<open>A pixel of a character, and what it means that the frame buffer shows a grid.\<close>

definition pixel :: "char \<Rightarrow> nat \<Rightarrow> nat \<Rightarrow> u32" where
  "pixel ch j i = (if bit (glyph ch ! j) (7 - i) then - 1 else 0)"

definition shows_cells :: "nat \<Rightarrow> nat \<Rightarrow> nat \<Rightarrow> u32 list \<Rightarrow> (nat \<Rightarrow> nat \<Rightarrow> char) \<Rightarrow> bool" where
  "shows_cells w cols rows fb cell \<longleftrightarrow> (\<forall>r < rows. \<forall>c < cols. \<forall>j < 16. \<forall>i < 8.
     fb ! ((16 * r + j) * w + (8 * c + i)) = pixel (cell r c) j i)"

definition geometry :: "nat \<Rightarrow> nat \<Rightarrow> nat \<Rightarrow> fb_state \<Rightarrow> bool" where
  "geometry w cols rows st \<longleftrightarrow> unat (Width st) = w \<and> unat (MaxX st) = cols \<and> unat (MaxY st) = rows \<and>
     0 < cols \<and> 8 * cols \<le> w \<and> 2 \<le> rows \<and> 16 * rows * w < 2 ^ 32 \<and> 16 * rows * w \<le> length (Fb st)"

definition shows_console :: "nat \<Rightarrow> nat \<Rightarrow> nat \<Rightarrow> fb_state \<Rightarrow> console \<Rightarrow> bool" where
  "shows_console w cols rows st con \<longleftrightarrow> geometry w cols rows st \<and>
     unat (PosX st) = con_x con \<and> unat (PosY st) = con_y con \<and> con_x con \<le> cols \<and> con_y con < rows \<and>
     shows_cells w cols rows (Fb st) (con_cell con)"

section \<open>The loops\<close>

lemma move_rows_moves:
  "count \<noteq> 0 \<Longrightarrow> 0 < row \<Longrightarrow> p + row + unat count \<le> length fb \<Longrightarrow>
    \<exists>fb'. move_rows row count p fb = Some (p + unat count, fb') \<and> length fb' = length fb \<and>
      (\<forall>q. fb' ! q = (if p \<le> q \<and> q < p + unat count then fb ! (q + row) else fb ! q))"
proof (induction row count p fb rule: move_rows.induct)
  case (1 row count p fb)
  let ?fb = "fb[p := fb ! (p + row)]"
  have u: "0 < unat count" "unat (count - 1) = unat count - 1" using "1.prems"(1) by (simp_all add: unat_gt_0 unat_minus_one)
  have len: "p < length fb" "p + row < length fb" using "1.prems" u by linarith+
  then have ok: "array_get fb (p + row) = Some (fb ! (p + row))" "array_set fb p (fb ! (p + row)) = Some ?fb" by simp_all
  show ?case
  proof (cases "count - 1 = 0")
    case True
    then have "unat count = 1" using u by simp
    with True ok len show ?thesis by (subst move_rows.simps) (auto simp: nth_list_update)
  next
    case False
    from "1.IH" [OF ok refl refl] False "1.prems" u obtain fb' where
      fb': "move_rows row (count - 1) (p + 1) ?fb = Some (p + 1 + unat (count - 1), fb')" "length fb' = length fb"
      "\<And>q. fb' ! q = (if p + 1 \<le> q \<and> q < p + 1 + unat (count - 1) then ?fb ! (q + row) else ?fb ! q)" by auto
    have e: "p + 1 + unat (count - 1) = p + unat count" using u by linarith
    have "move_rows row count p fb = Some (p + unat count, fb')"
      using False ok fb'(1) e by (subst move_rows.simps) (simp only: Let_def Option.bind_lunit if_True not_False_eq_True)
    moreover have "fb' ! q = (if p \<le> q \<and> q < p + unat count then fb ! (q + row) else fb ! q)" for q
      unfolding fb'(3) e using "1.prems"(2) u(1) len by (auto simp: nth_list_update)
    ultimately show ?thesis using fb'(2) by blast
  qed
qed

lemma clear_row_clears:
  "row \<noteq> 0 \<Longrightarrow> p + unat row \<le> length fb \<Longrightarrow>
    \<exists>fb'. clear_row row p fb = Some fb' \<and> length fb' = length fb \<and>
      (\<forall>q. fb' ! q = (if p \<le> q \<and> q < p + unat row then 0 else fb ! q))"
proof (induction row p fb rule: clear_row.induct)
  case (1 row p fb)
  let ?fb = "fb[p := 0]"
  have u: "0 < unat row" "unat (row - 1) = unat row - 1" using "1.prems"(1) by (simp_all add: unat_gt_0 unat_minus_one)
  have ok: "array_set fb p 0 = Some ?fb" "p < length fb" using "1.prems" u by simp_all
  show ?case
  proof (cases "row - 1 = 0")
    case True
    then have "unat row = 1" using u by simp
    with True ok show ?thesis by (subst clear_row.simps) (auto simp: nth_list_update)
  next
    case False
    from "1.IH" [OF ok(1) refl] False "1.prems" u obtain fb' where
      fb': "clear_row (row - 1) (p + 1) ?fb = Some fb'" "length fb' = length fb"
      "\<And>q. fb' ! q = (if p + 1 \<le> q \<and> q < p + 1 + unat (row - 1) then 0 else ?fb ! q)" by auto
    have e: "p + 1 + unat (row - 1) = p + unat row" using u by linarith
    have "clear_row row p fb = Some fb'"
      using False ok fb'(1) by (subst clear_row.simps) (simp only: Let_def Option.bind_lunit if_True not_False_eq_True)
    moreover have "fb' ! q = (if p \<le> q \<and> q < p + unat row then 0 else fb ! q)" for q
      unfolding fb'(3) e using u(1) ok(2) by (auto simp: nth_list_update)
    ultimately show ?thesis using fb'(2) by blast
  qed
qed

definition shade :: "u8 \<Rightarrow> nat \<Rightarrow> u32" where
  "shade bitmap i = (if bit bitmap (7 - i) then - 1 else 0)"

lemma shade_first: "scast (signed_drop_bit 7 bitmap) = shade bitmap 0"
  by (rule bit_word_eqI) (auto simp: shade_def bit_signed_iff bit_signed_drop_bit_iff not_less_eq_eq)

lemma draw_bits_draws:
  "k \<le> 8 \<Longrightarrow> p + k \<le> length fb \<Longrightarrow>
    \<exists>fb'. draw_bits k p bitmap fb = Some fb' \<and> length fb' = length fb \<and>
      (\<forall>q. fb' ! q = (if p \<le> q \<and> q < p + k then shade bitmap (q - p) else fb ! q))"
proof (induction k arbitrary: p bitmap fb)
  case (Suc k)
  let ?fb = "fb[p := shade bitmap 0]"
  from Suc.IH [of "p + 1" ?fb "push_bit 1 bitmap"] Suc.prems obtain fb' where
    fb': "draw_bits k (p + 1) (push_bit 1 bitmap) ?fb = Some fb'" "length fb' = length fb"
    "\<And>q. fb' ! q = (if p + 1 \<le> q \<and> q < p + 1 + k then shade (push_bit 1 bitmap) (q - (p + 1)) else ?fb ! q)" by auto
  have sh: "shade (push_bit 1 bitmap) (q - (p + 1)) = shade bitmap (q - p)" if "p + 1 \<le> q" "q < p + 1 + k" for q
  proof -
    have "7 - (q - (p + 1)) = Suc (7 - (q - p))" "7 - (q - p) < 7" using that Suc.prems(1) by linarith+
    moreover have "bit (push_bit 1 bitmap) (Suc m) = bit bitmap m" if "m < 7" for m
      unfolding bit_push_bit_iff using that by simp
    ultimately show ?thesis by (simp only: shade_def)
  qed
  have "draw_bits (Suc k) p bitmap fb = Some fb'" using fb'(1) Suc.prems by (simp add: shade_first)
  moreover have "fb' ! q = (if p \<le> q \<and> q < p + Suc k then shade bitmap (q - p) else fb ! q)" for q
  proof (cases "p + 1 \<le> q \<and> q < p + 1 + k")
    case True
    then have "fb' ! q = shade bitmap (q - p)" by (simp only: fb'(3) if_True sh simp_thms)
    then show ?thesis using True by simp
  next
    case False
    then show ?thesis unfolding fb'(3) using Suc.prems(2) by (auto simp: nth_list_update)
  qed
  ultimately show ?case using fb'(2) by blast
qed auto

text \<open>Positions of a grid with rows of width \<open>w\<close>.\<close>

lemma grid_unique:
  fixes w :: nat
  assumes "C < w" "C' < w" "R * w + C = R' * w + C'"
  shows "R = R' \<and> C = C'"
proof -
  have "(R * w + C) div w = (R' * w + C') div w" "(R * w + C) mod w = (R' * w + C') mod w" using assms(3) by simp_all
  with assms(1,2) show ?thesis by simp
qed

lemma grid_span:
  fixes w :: nat
  assumes "C < w" "C0 + n \<le> w"
  shows "R0 * w + C0 \<le> R * w + C \<and> R * w + C < R0 * w + C0 + n \<longleftrightarrow> R = R0 \<and> C0 \<le> C \<and> C < C0 + n"
proof
  assume h: "R0 * w + C0 \<le> R * w + C \<and> R * w + C < R0 * w + C0 + n"
  define C' where "C' = R * w + C - R0 * w"
  have "C' < w" "R * w + C = R0 * w + C'" "C0 \<le> C'" "C' < C0 + n" unfolding C'_def using h assms by linarith+
  with grid_unique [OF assms(1) \<open>C' < w\<close>] show "R = R0 \<and> C0 \<le> C \<and> C < C0 + n" by blast
qed auto

lemma draw_rows_draws:
  "C0 + 8 \<le> w \<Longrightarrow> (R0 + k) * w \<le> length fb \<Longrightarrow> ptr + k \<le> 2048 \<Longrightarrow>
    \<exists>fb'. draw_rows k ptr (R0 * w + C0) w fb = Some fb' \<and> length fb' = length fb \<and>
      (\<forall>R C. C < w \<longrightarrow> fb' ! (R * w + C) =
        (if R0 \<le> R \<and> R < R0 + k \<and> C0 \<le> C \<and> C < C0 + 8 then shade (ascii_font ! (ptr + (R - R0))) (C - C0)
         else fb ! (R * w + C)))"
proof (induction k arbitrary: ptr R0 fb)
  case (Suc k)
  have "R0 * w + C0 + 8 \<le> length fb" using Suc.prems(1,2) by (simp add: algebra_simps)
  from draw_bits_draws [OF order_refl this, of "ascii_font ! ptr"] obtain fb1 where
    fb1: "draw_bits 8 (R0 * w + C0) (ascii_font ! ptr) fb = Some fb1" "length fb1 = length fb"
    "\<And>q. fb1 ! q = (if R0 * w + C0 \<le> q \<and> q < R0 * w + C0 + 8 then shade (ascii_font ! ptr) (q - (R0 * w + C0)) else fb ! q)"
    by blast
  have "(R0 + 1 + k) * w \<le> length fb1" "ptr + 1 + k \<le> 2048" using Suc.prems(2,3) fb1(2) by simp_all
  from Suc.IH [OF Suc.prems(1) this] obtain fb' where
    fb': "draw_rows k (ptr + 1) ((R0 + 1) * w + C0) w fb1 = Some fb'" "length fb' = length fb1"
    "\<And>R C. C < w \<Longrightarrow> fb' ! (R * w + C) =
      (if R0 + 1 \<le> R \<and> R < R0 + 1 + k \<and> C0 \<le> C \<and> C < C0 + 8 then shade (ascii_font ! (ptr + 1 + (R - (R0 + 1)))) (C - C0)
       else fb1 ! (R * w + C))" by blast
  have "draw_rows (Suc k) ptr (R0 * w + C0) w fb = Some fb'"
    using fb1(1) fb'(1) Suc.prems(3) by (simp add: length_ascii_font FONT_WIDTH_def algebra_simps)
  moreover have "fb' ! (R * w + C) =
      (if R0 \<le> R \<and> R < R0 + Suc k \<and> C0 \<le> C \<and> C < C0 + 8 then shade (ascii_font ! (ptr + (R - R0))) (C - C0)
       else fb ! (R * w + C))" if "C < w" for R C
  proof (cases "R0 + 1 \<le> R")
    case True
    then have "ptr + 1 + (R - (R0 + 1)) = ptr + (R - R0)" by linarith
    with True show ?thesis unfolding fb'(3) [OF that] fb1(3) grid_span [OF that Suc.prems(1)] by auto
  next
    case False
    then show ?thesis unfolding fb'(3) [OF that] fb1(3) grid_span [OF that Suc.prems(1)] by auto
  qed
  ultimately show ?case using fb1(2) fb'(2) by auto
qed auto

section \<open>The operations on the grid\<close>

lemma ucast_up: "unat (ucast (a :: u32) :: u64) = unat a"
  by (simp add: unsigned_ucast_eq take_bit_nat_eq_self unsigned_less [THEN order_less_le_trans])

lemma geometryD:
  assumes "geometry w cols rows st"
  shows "unat (Width st) = w" "unat (MaxX st) = cols" "unat (MaxY st) = rows" "0 < cols" "8 * cols \<le> w" "2 \<le> rows"
    "16 * rows * w < 2 ^ 32" "16 * rows * w \<le> length (Fb st)" "0 < w"
  using assms by (auto simp: geometry_def)

text \<open>Products of words that do not wrap around.\<close>

lemma unat_mult_small: "unat a * unat b < 2 ^ LENGTH('a) \<Longrightarrow> unat (a * b :: 'a::len word) = unat a * unat b"
  by (simp add: unat_word_ariths)

lemma rows_small:
  assumes "geometry w cols rows st" "n \<le> rows"
  shows "16 * n * w < 2 ^ 32" "16 * n < 2 ^ 32"
proof -
  note g = geometryD [OF assms(1)]
  have "16 * n * w \<le> 16 * rows * w" using assms(2) by simp
  then show *: "16 * n * w < 2 ^ 32" using g(7) by linarith
  have "16 * n * 1 \<le> 16 * n * w" using g(9) by (intro mult_le_mono2) simp
  then show "16 * n < 2 ^ 32" using * by linarith
qed

lemma scroll_counts:
  assumes "geometry w cols rows st"
  shows "unat (ucast (Width st * ((MaxY st - 1) * of_nat FONT_HEIGHT)) :: u64) = 16 * (rows - 1) * w"
    "unat (ucast (Width st * of_nat FONT_HEIGHT) :: u64) = 16 * w"
proof -
  note g = geometryD [OF assms]
  have m: "unat (MaxY st - 1) = rows - 1" using g(3,6) unat_minus_one [of "MaxY st"] by (cases "MaxY st = 0") auto
  have "unat ((MaxY st - 1) * of_nat FONT_HEIGHT) = 16 * (rows - 1)"
    using rows_small(2) [OF assms, of "rows - 1"] m by (subst unat_mult_small) (simp_all add: FONT_HEIGHT_def)
  then show "unat (ucast (Width st * ((MaxY st - 1) * of_nat FONT_HEIGHT)) :: u64) = 16 * (rows - 1) * w"
    using rows_small(1) [OF assms, of "rows - 1"] g(1)
    by (simp only: ucast_up) (subst unat_mult_small, simp_all add: mult.commute)
  show "unat (ucast (Width st * of_nat FONT_HEIGHT) :: u64) = 16 * w"
    using rows_small(1) [OF assms, of 1] g(1,6)
    by (simp only: ucast_up) (subst unat_mult_small, simp_all add: FONT_HEIGHT_def mult.commute)
qed

lemma scrollup_scrolls:
  assumes "geometry w cols rows st" "shows_cells w cols rows (Fb st) cell"
  shows "\<exists>fb. fb_scrollup st = Some (st\<lparr>Fb := fb\<rparr>) \<and> length fb = length (Fb st) \<and>
    shows_cells w cols rows fb (\<lambda>r c. if r + 1 < rows then cell (r + 1) c else CHR '' '')"
proof -
  note g = geometryD [OF assms(1)] and n = scroll_counts [OF assms(1)]
  let ?count = "ucast (Width st * ((MaxY st - 1) * of_nat FONT_HEIGHT)) :: u64"
  let ?row = "ucast (Width st * of_nat FONT_HEIGHT) :: u64"
  have split: "16 * (rows - 1) * w + 16 * w = 16 * rows * w" using g(6) by (cases rows) (simp_all add: algebra_simps)
  have nz: "?count \<noteq> 0" "?row \<noteq> 0" "0 < unat ?row" using n g(6,9) by (auto simp: word_unat_eq_iff)
  have "0 + unat ?row + unat ?count \<le> length (Fb st)" using split g(8) n by linarith
  from move_rows_moves [OF nz(1,3) this] obtain fb1 where
    fb1: "move_rows (unat ?row) ?count 0 (Fb st) = Some (unat ?count, fb1)" "length fb1 = length (Fb st)"
    "\<And>q. fb1 ! q = (if q < 16 * (rows - 1) * w then Fb st ! (q + 16 * w) else Fb st ! q)"
    unfolding n by auto
  have "unat ?count + unat ?row \<le> length fb1" using split g(8) n fb1(2) by linarith
  from clear_row_clears [OF nz(2) this] obtain fb2 where
    fb2: "clear_row ?row (unat ?count) fb1 = Some fb2" "length fb2 = length fb1"
    "\<And>q. fb2 ! q = (if 16 * (rows - 1) * w \<le> q \<and> q < 16 * rows * w then 0 else fb1 ! q)"
    unfolding n split by auto
  have "fb_scrollup st = Some (st\<lparr>Fb := fb2\<rparr>)"
    by (simp add: fb_scrollup_def Let_def fb1(1) fb2(1))
  moreover have "shows_cells w cols rows fb2 (\<lambda>r c. if r + 1 < rows then cell (r + 1) c else CHR '' '')"
    unfolding shows_cells_def
  proof (intro allI impI)
    fix r c j i assume b: "r < rows" "c < cols" "j < (16 :: nat)" "i < (8 :: nat)"
    have col: "8 * c + i < w" using b(2,4) g(5) by linarith
    let ?q = "(16 * r + j) * w + (8 * c + i)"
    show "fb2 ! ?q = pixel (if r + 1 < rows then cell (r + 1) c else CHR '' '') j i"
    proof (cases "r + 1 < rows")
      case True
      have "16 * r + j + 1 \<le> 16 * (rows - 1)" using True b(3) by linarith
      then have "(16 * r + j + 1) * w \<le> 16 * (rows - 1) * w" by (rule mult_le_mono1)
      then have lt: "?q < 16 * (rows - 1) * w" using col by (simp add: algebra_simps)
      have "?q + 16 * w = (16 * (r + 1) + j) * w + (8 * c + i)" by (simp add: algebra_simps)
      moreover have "Fb st ! ((16 * (r + 1) + j) * w + (8 * c + i)) = pixel (cell (r + 1) c) j i"
        using assms(2) True b unfolding shows_cells_def by blast
      moreover have "fb2 ! ?q = Fb st ! (?q + 16 * w)" using lt by (simp only: fb2(3) fb1(3) not_le if_True) simp
      ultimately show ?thesis using True by (simp only: if_True)
    next
      case False
      then have r: "16 * r = 16 * (rows - 1)" using b(1) by simp
      have "(16 * r + j + 1) * w \<le> 16 * rows * w" using b(1,3) by (intro mult_le_mono1) linarith
      moreover have "16 * (rows - 1) * w \<le> (16 * r + j) * w" unfolding r by (intro mult_le_mono1) simp
      ultimately have "16 * (rows - 1) * w \<le> ?q \<and> ?q < 16 * rows * w" using col by (simp add: algebra_simps)
      with False b(3) show ?thesis unfolding fb2(3) by (simp add: pixel_def glyph_space)
    qed
  qed
  ultimately show ?thesis using fb1(2) fb2(2) by auto
qed

lemma draw_pixels:
  assumes g: "geometry w cols rows st" and cells: "shows_cells w cols rows (Fb st) cell"
    and xy: "unat (PosX st) < cols" "unat (PosY st) < rows" and ch: "of_char ch < (128 :: nat)"
  shows "\<exists>fb. draw_rows FONT_HEIGHT (of_char ch * (FONT_WIDTH * FONT_HEIGHT div 8))
      (unat (ucast (PosX st) * of_nat FONT_WIDTH + ucast ((PosY st * of_nat FONT_HEIGHT) * Width st) :: u64))
      (unat (Width st)) (Fb st) = Some fb \<and> length fb = length (Fb st) \<and>
    shows_cells w cols rows fb (\<lambda>r c. if r = unat (PosY st) \<and> c = unat (PosX st) then ch else cell r c)"
proof -
  note g' = geometryD [OF g]
  let ?x = "unat (PosX st)" and ?y = "unat (PosY st)"
  have col: "8 * ?x + 8 \<le> w" using xy(1) g'(5) by linarith
  have y: "?y \<le> rows" using xy(2) by simp
  have "unat (PosY st * of_nat FONT_HEIGHT) = 16 * ?y"
    using rows_small(2) [OF g y] by (subst unat_mult_small) (simp_all add: FONT_HEIGHT_def)
  then have py: "unat (ucast ((PosY st * of_nat FONT_HEIGHT) * Width st) :: u64) = 16 * ?y * w"
    using rows_small(1) [OF g y] g'(1) by (simp only: ucast_up) (subst unat_mult_small, simp_all)
  have xs: "8 * ?x < 2 ^ 35" using unsigned_less [of "PosX st", where ?'a = nat] by simp
  then have px: "unat (ucast (PosX st) * of_nat FONT_WIDTH :: u64) = 8 * ?x"
    by (subst unat_mult_small) (simp_all add: FONT_WIDTH_def ucast_up)
  have pos: "unat (ucast (PosX st) * of_nat FONT_WIDTH + ucast ((PosY st * of_nat FONT_HEIGHT) * Width st) :: u64) =
      16 * ?y * w + 8 * ?x"
  proof -
    have "8 * ?x + 16 * ?y * w < 2 ^ 35 + 2 ^ 32" using rows_small(1) [OF g y] xs by (rule add_strict_mono [rotated])
    then have "8 * ?x + 16 * ?y * w < 2 ^ 64" by (rule less_trans) simp
    then have "8 * ?x + 16 * ?y * w < 2 ^ LENGTH(64)" by simp
    then show ?thesis by (subst unat_add_small) (simp_all only: px py add.commute)
  qed
  have ptr: "of_char ch * (FONT_WIDTH * FONT_HEIGHT div 8) = 16 * of_char ch" by (simp add: FONT_WIDTH_def FONT_HEIGHT_def)
  have "(16 * ?y + 16) * w \<le> 16 * rows * w" using xy(2) by (intro mult_le_mono1) linarith
  then have room: "(16 * ?y + 16) * w \<le> length (Fb st)" using g'(8) by linarith
  have "16 * of_char ch + 16 \<le> (2048 :: nat)" using ch by simp
  from draw_rows_draws [OF col room this] obtain fb where
    fb: "draw_rows 16 (16 * of_char ch) (16 * ?y * w + 8 * ?x) w (Fb st) = Some fb" "length fb = length (Fb st)"
    "\<And>R C. C < w \<Longrightarrow> fb ! (R * w + C) =
      (if 16 * ?y \<le> R \<and> R < 16 * ?y + 16 \<and> 8 * ?x \<le> C \<and> C < 8 * ?x + 8
       then shade (ascii_font ! (16 * of_char ch + (R - 16 * ?y))) (C - 8 * ?x) else Fb st ! (R * w + C))" by auto
  have "shows_cells w cols rows fb (\<lambda>r c. if r = ?y \<and> c = ?x then ch else cell r c)"
    unfolding shows_cells_def
  proof (intro allI impI)
    fix r c j i assume b: "r < rows" "c < cols" "j < (16 :: nat)" "i < (8 :: nat)"
    have C: "8 * c + i < w" using b(2,4) g'(5) by linarith
    have old: "Fb st ! ((16 * r + j) * w + (8 * c + i)) = pixel (cell r c) j i"
      using cells b unfolding shows_cells_def by blast
    have "16 * ?y \<le> 16 * r + j \<and> 16 * r + j < 16 * ?y + 16 \<longleftrightarrow> r = ?y" using b(3) by linarith
    moreover have "8 * ?x \<le> 8 * c + i \<and> 8 * c + i < 8 * ?x + 8 \<longleftrightarrow> c = ?x" using b(4) by linarith
    ultimately have "fb ! ((16 * r + j) * w + (8 * c + i)) = (if r = ?y \<and> c = ?x
        then shade (ascii_font ! (16 * of_char ch + j)) i else pixel (cell r c) j i)"
      using fb(3) [OF C, of "16 * r + j"] old by auto
    then show "fb ! ((16 * r + j) * w + (8 * c + i)) = pixel (if r = ?y \<and> c = ?x then ch else cell r c) j i"
      using nth_glyph [OF ch b(3)] by (simp add: pixel_def shade_def)
  qed
  with fb(1,2) show ?thesis
    unfolding pos ptr g'(1) by (auto simp: FONT_HEIGHT_def)
qed

lemma pos_back: "st\<lparr>PosX := 0, PosY := PosY st\<rparr> = st\<lparr>PosX := 0\<rparr>"
  by (cases st) simp

lemma newline_moves:
  assumes "shows_console w cols rows st con"
  shows "\<exists>st'. (if PosY st + 1 = MaxY st then fb_scrollup (st\<lparr>PosX := 0\<rparr>)
      else Some (st\<lparr>PosX := 0, PosY := PosY st + 1\<rparr>)) = Some st' \<and>
    shows_console w cols rows st' (con_newline rows con)"
proof -
  from assms have g: "geometry w cols rows st" and cells: "shows_cells w cols rows (Fb st) (con_cell con)"
    and y: "unat (PosY st) = con_y con" "con_y con < rows" by (auto simp: shows_console_def)
  have r32: "rows < 2 ^ 32" using rows_small(2) [OF g order_refl] by simp
  have inc: "unat (PosY st + 1) = con_y con + 1" using y r32 by (subst unat_add_small) simp_all
  have at_end: "PosY st + 1 = MaxY st \<longleftrightarrow> con_y con + 1 = rows"
    using inc geometryD(3) [OF g] by (simp add: word_unat_eq_iff)
  show ?thesis
  proof (cases "con_y con + 1 = rows")
    case True
    let ?st = "st\<lparr>PosX := 0\<rparr>"
    have "geometry w cols rows ?st" "shows_cells w cols rows (Fb ?st) (con_cell con)" using g cells by (simp_all add: geometry_def)
    from scrollup_scrolls [OF this] obtain fb where
      fb: "fb_scrollup ?st = Some (?st\<lparr>Fb := fb\<rparr>)" "length fb = length (Fb st)"
      "shows_cells w cols rows fb (\<lambda>r c. if r + 1 < rows then con_cell con (r + 1) c else CHR '' '')" by auto
    with True fb at_end g y show ?thesis by (simp add: shows_console_def con_newline_def geometry_def)
  next
    case False
    then have "con_y con + 1 < rows" using y(2) by linarith
    with False at_end g cells y inc show ?thesis
      by (simp add: shows_console_def con_newline_def geometry_def)
  qed
qed

lemma char_drawn:
  assumes "shows_console w cols rows st con" "con_x con < cols" "of_char ch < (128 :: nat)"
  shows "\<exists>st'. (do {
      fb \<leftarrow> draw_rows FONT_HEIGHT (of_char ch * (FONT_WIDTH * FONT_HEIGHT div 8))
        (unat (ucast (PosX st) * of_nat FONT_WIDTH + ucast ((PosY st * of_nat FONT_HEIGHT) * Width st) :: u64))
        (unat (Width st)) (Fb st);
      Some (st\<lparr>Fb := fb, PosX := PosX st + 1\<rparr>)
    }) = Some st' \<and> shows_console w cols rows st' (con_char ch con)"
proof -
  from assms(1) have g: "geometry w cols rows st" and cells: "shows_cells w cols rows (Fb st) (con_cell con)"
    and xy: "unat (PosX st) = con_x con" "unat (PosY st) = con_y con" "con_y con < rows" by (auto simp: shows_console_def)
  from draw_pixels [OF g cells _ _ assms(3)] xy assms(2) obtain fb where
    fb: "draw_rows FONT_HEIGHT (of_char ch * (FONT_WIDTH * FONT_HEIGHT div 8))
        (unat (ucast (PosX st) * of_nat FONT_WIDTH + ucast ((PosY st * of_nat FONT_HEIGHT) * Width st) :: u64))
        (unat (Width st)) (Fb st) = Some fb" "length fb = length (Fb st)"
    "shows_cells w cols rows fb (\<lambda>r c. if r = con_y con \<and> c = con_x con then ch else con_cell con r c)" by auto
  have "unat (PosX st + 1) = con_x con + 1"
    using xy(1) assms(2) geometryD(2) [OF g] unsigned_less [of "MaxX st", where ?'a = nat] by (subst unat_add_small) simp_all
  with fb g xy assms(2) show ?thesis
    by (simp add: shows_console_def con_char_def geometry_def)
qed

lemma pos_step:
  "st\<lparr>PosX := 0, PosY := PosY st + 1, PosY := PosY st + 1 - 1\<rparr> = st\<lparr>PosX := 0\<rparr>"
  "PosY (st\<lparr>PosX := 0, PosY := PosY st + 1\<rparr>) = PosY st + 1" "MaxY (st\<lparr>PosX := 0, PosY := PosY st + 1\<rparr>) = MaxY st"
  by (simp_all add: pos_back)

definition draw_char :: "char \<Rightarrow> fb_state \<Rightarrow> fb_state option" where
  "draw_char c st = do {
     fb \<leftarrow> draw_rows FONT_HEIGHT (of_char c * (FONT_WIDTH * FONT_HEIGHT div 8))
       (unat (ucast (PosX st) * of_nat FONT_WIDTH + ucast ((PosY st * of_nat FONT_HEIGHT) * Width st) :: u64))
       (unat (Width st)) (Fb st);
     Some (st\<lparr>Fb := fb, PosX := PosX st + 1\<rparr>)
   }"

lemma fb_output_cases:
  assumes "ch \<noteq> NUL" "c = (if of_char ch \<ge> (128 :: nat) then CHR ''?'' else ch)"
  shows "c = newline \<or> PosX st = MaxX st \<Longrightarrow> fb_output ch st =
      Option.bind (if PosY st + 1 = MaxY st then fb_scrollup (st\<lparr>PosX := 0\<rparr>) else Some (st\<lparr>PosX := 0, PosY := PosY st + 1\<rparr>))
        (\<lambda>st. if c = newline then Some st else draw_char c st)"
    and "c \<noteq> newline \<Longrightarrow> PosX st \<noteq> MaxX st \<Longrightarrow> PosY st \<noteq> MaxY st \<Longrightarrow> fb_output ch st = draw_char c st"
proof -
  note out = fb_output_def Let_def assms(2) [symmetric] draw_char_def
  assume "c = newline \<or> PosX st = MaxX st"
  then have t: "(c = newline \<or> PosX st = MaxX st) = True" by simp
  show "fb_output ch st =
      Option.bind (if PosY st + 1 = MaxY st then fb_scrollup (st\<lparr>PosX := 0\<rparr>) else Some (st\<lparr>PosX := 0, PosY := PosY st + 1\<rparr>))
        (\<lambda>st. if c = newline then Some st else draw_char c st)"
    unfolding out t if_True pos_step using assms(1) by (simp split del: if_split)
next
  note out = fb_output_def Let_def assms(2) [symmetric] draw_char_def
  assume "c \<noteq> newline" "PosX st \<noteq> MaxX st" "PosY st \<noteq> MaxY st"
  then show "fb_output ch st = draw_char c st"
    unfolding out using assms(1) by simp
qed

lemma fb_output_puts:
  assumes sh: "shows_console w cols rows st con"
  shows "\<exists>st'. fb_output ch st = Some st' \<and> shows_console w cols rows st' (con_put cols rows ch con)"
proof (cases "ch = NUL")
  case True
  with sh show ?thesis by (simp add: fb_output_def con_put_def)
next
  case nz: False
  define c where "c = (if of_char ch \<ge> (128 :: nat) then CHR ''?'' else ch)"
  have c: "of_char c < (128 :: nat)" "c = newline \<longleftrightarrow> ch = newline" by (auto simp: c_def newline_def)
  from sh have g: "geometry w cols rows st" and x: "unat (PosX st) = con_x con" and y: "unat (PosY st) = con_y con" "con_y con < rows"
    "con_x con \<le> cols" by (auto simp: shows_console_def)
  have full: "PosX st = MaxX st \<longleftrightarrow> con_x con = cols" using geometryD(2) [OF g] x by (simp add: word_unat_eq_iff)
  have room: "PosY st \<noteq> MaxY st" using geometryD(3) [OF g] y by auto
  from newline_moves [OF sh] obtain st1 where
    st1: "(if PosY st + 1 = MaxY st then fb_scrollup (st\<lparr>PosX := 0\<rparr>) else Some (st\<lparr>PosX := 0, PosY := PosY st + 1\<rparr>)) = Some st1"
    "shows_console w cols rows st1 (con_newline rows con)" by blast
  note outs = fb_output_cases [OF nz c_def, of st]
  have x0: "con_x (con_newline rows con) = 0" by (simp add: con_newline_def)
  show ?thesis
  proof (cases "ch = newline")
    case True
    with outs(1) st1 nz c(2) show ?thesis by (simp add: con_put_def newline_def)
  next
    case ch: False
    show ?thesis
    proof (cases "con_x con = cols")
      case True
      from char_drawn [OF st1(2) _ c(1)] x0 geometryD(4) [OF g] obtain st' where
        "draw_char c st1 = Some st'" "shows_console w cols rows st' (con_char c (con_newline rows con))"
        by (auto simp: draw_char_def)
      with True outs(1) st1(1) nz ch c(2) full show ?thesis
        by (simp add: con_put_def c_def [symmetric])
    next
      case False
      from char_drawn [OF sh _ c(1)] False y(3) obtain st' where
        "draw_char c st = Some st'" "shows_console w cols rows st' (con_char c con)"
        by (auto simp: draw_char_def)
      with False outs(2) nz ch c(2) full room show ?thesis
        by (simp add: con_put_def c_def [symmetric])
    qed
  qed
qed

interpretation fbo: char_output vprintf_output "\<lambda>t st. shows_console w cols rows st (fold (con_put cols rows) t con)"
  for w cols rows con
  by unfold_locales (simp add: vprintf_output_def fb_output_puts)

lemma print_chars_run: "print_chars t st = run vprintf_output t st"
  by (induction t arbitrary: st) (simp_all add: vprintf_output_def cong: Option.bind_cong)

lemma puts_run: "puts s st = map_option (Pair 0) (run vprintf_output (s @ [newline]) st)"
proof -
  have "puts_loop s st = run vprintf_output s st"
    by (induction s arbitrary: st) (simp_all add: vprintf_output_def cong: Option.bind_cong)
  then show ?thesis
    by (cases "run vprintf_output s st"; simp add: puts_def run_append vprintf_output_def;
        cases "fb_output newline (the (run vprintf_output s st))"; simp)
qed

lemma cleared:
  "i + n \<le> length fb \<Longrightarrow> \<exists>fb'. clear_pixels n i fb = Some fb' \<and> length fb' = length fb \<and>
    (\<forall>q. fb' ! q = (if i \<le> q \<and> q < i + n then 0 else fb ! q))"
proof (induction n arbitrary: i fb)
  case (Suc n)
  from Suc.IH [of "i + 1" "fb[i := 0]"] Suc.prems obtain fb' where
    fb': "clear_pixels n (i + 1) (fb[i := 0]) = Some fb'" "length fb' = length fb"
    "\<And>q. fb' ! q = (if i + 1 \<le> q \<and> q < i + 1 + n then 0 else fb[i := 0] ! q)" by auto
  have "fb' ! q = (if i \<le> q \<and> q < i + Suc n then 0 else fb ! q)" for q
    unfolding fb'(3) using Suc.prems by (auto simp: nth_list_update)
  with fb' Suc.prems show ?case by auto
qed auto

section \<open>A screen of one row\<close>

lemma move_rows_leaves: "length fb \<le> p + row + unat (count - 1) \<Longrightarrow> move_rows row count p fb = None"
proof (induction row count p fb rule: move_rows.induct)
  case (1 row count p fb)
  show ?case
  proof (cases "p + row < length fb")
    case True
    then have nz: "count - 1 \<noteq> 0" using "1.prems" by (cases "count - 1 = 0") auto
    let ?fb = "fb[p := fb ! (p + row)]"
    have ok: "array_get fb (p + row) = Some (fb ! (p + row))" "array_set fb p (fb ! (p + row)) = Some ?fb" using True by simp_all
    have "length ?fb \<le> p + 1 + row + unat (count - 1 - 1)"
      using "1.prems" nz unat_minus_one [OF nz] by simp
    from "1.IH" [OF ok refl refl nz this] ok nz show ?thesis by (subst move_rows.simps) (simp add: Let_def)
  next
    case False
    then show ?thesis by (subst move_rows.simps) simp
  qed
qed

lemma draw_bits_length: "draw_bits k p bitmap fb = Some fb' \<Longrightarrow> length fb' = length fb"
  by (induction k p bitmap fb rule: draw_bits.induct) (auto split: Option.bind_splits simp: array_set_def split: if_splits)

lemma draw_rows_length: "draw_rows k ptr p w fb = Some fb' \<Longrightarrow> length fb' = length fb"
  by (induction k ptr p w fb rule: draw_rows.induct) (auto split: Option.bind_splits dest: draw_bits_length)

definition one_row :: "fb_state \<Rightarrow> bool" where
  "one_row st \<longleftrightarrow> MaxY st = 1 \<and> PosY st = 0 \<and> length (Fb st) < 2 ^ 64"

lemma one_row_output:
  assumes "one_row st"
  shows "fb_output newline st = None" "fb_output ch st = Some st' \<Longrightarrow> one_row st'"
proof -
  have "unat (0 - 1 :: u64) = 2 ^ 64 - 1" by (simp add: unsigned_minus_1_eq_mask mask_eq_exp_minus_1)
  then have sc: "fb_scrollup (st\<lparr>PosX := 0\<rparr>) = None"
    using assms move_rows_leaves [of "Fb st" 0 _ 0] by (simp add: fb_scrollup_def one_row_def)
  have p: "PosY st + 1 = MaxY st" "PosY st \<noteq> MaxY st" using assms by (simp_all add: one_row_def)
  show "fb_output newline st = None"
    using fb_output_cases(1) [of newline newline st] sc p(1) by (simp add: newline_def)
  assume out: "fb_output ch st = Some st'"
  show "one_row st'"
  proof (cases "ch = NUL")
    case True
    then show ?thesis using out assms by (simp add: fb_output_def)
  next
    case nz: False
    define c where "c = (if of_char ch \<ge> (128 :: nat) then CHR ''?'' else ch)"
    have "\<not> (c = newline \<or> PosX st = MaxX st)"
      using fb_output_cases(1) [OF nz c_def, of st] sc p(1) out by auto
    then have "draw_char c st = Some st'" using fb_output_cases(2) [OF nz c_def, of st] p(2) out by auto
    then show ?thesis using assms by (auto simp: draw_char_def one_row_def dest: draw_rows_length split: Option.bind_splits)
  qed
qed

lemma one_row_print: "one_row st \<Longrightarrow> newline \<in> set t \<Longrightarrow> print_chars t st = None"
proof (induction t arbitrary: st)
  case (Cons c t)
  show ?case
  proof (cases "c = newline")
    case False
    then show ?thesis
      using Cons one_row_output(2) [OF Cons.prems(1), of c] by (cases "fb_output c st") auto
  qed (use one_row_output(1) [OF Cons.prems(1)] in simp)
qed simp

lemma clear_pixels_length: "clear_pixels n i fb = Some fb' \<Longrightarrow> length fb' = length fb"
  by (induction n i fb rule: clear_pixels.induct) (auto split: Option.bind_splits simp: array_set_def split: if_splits)

lemma blank_shows:
  assumes "8 \<le> unat width" "32 \<le> unat height" "unat width * unat height < 2 ^ 32"
    "unat width * unat height \<le> length fb" "\<And>q. q < unat width * unat height \<Longrightarrow> fb ! q = 0"
  shows "shows_console (unat width) (unat width div 8) (unat height div 16)
    \<lparr>Fb = fb, Width = width, PosX = 0, PosY = 0, MaxX = width div of_nat FONT_WIDTH, MaxY = height div of_nat FONT_HEIGHT\<rparr>
    con_start"
proof -
  let ?w = "unat width" and ?h = "unat height"
  let ?st = "\<lparr>Fb = fb, Width = width, PosX = 0, PosY = 0,
    MaxX = width div of_nat FONT_WIDTH, MaxY = height div of_nat FONT_HEIGHT\<rparr>"
  have mx: "unat (MaxX ?st) = ?w div 8" "unat (MaxY ?st) = ?h div 16"
    by (simp_all add: FONT_WIDTH_def FONT_HEIGHT_def unat_div)
  have rows: "16 * (?h div 16) * ?w \<le> ?w * ?h" by (simp add: mult.commute)
  have g: "geometry ?w (?w div 8) (?h div 16) ?st"
  proof -
    have "0 < ?w div 8" "2 \<le> ?h div 16" "8 * (?w div 8) \<le> ?w" using assms(1,2) by linarith+
    moreover note le_less_trans [OF rows assms(3)] le_trans [OF rows assms(4)]
    ultimately show ?thesis unfolding geometry_def mx by simp
  qed
  have "shows_cells ?w (?w div 8) (?h div 16) fb (\<lambda>r c. CHR '' '')"
    unfolding shows_cells_def
  proof (intro allI impI)
    fix r c j i assume b: "r < ?h div 16" "c < ?w div 8" "j < (16 :: nat)" "i < (8 :: nat)"
    have "8 * c + i < ?w" "16 * r + j + 1 \<le> ?h" using b by linarith+
    moreover from this(2) have "(16 * r + j + 1) * ?w \<le> ?h * ?w" by (rule mult_le_mono1)
    ultimately have "(16 * r + j) * ?w + (8 * c + i) < ?w * ?h" by (simp add: algebra_simps)
    then show "fb ! ((16 * r + j) * ?w + (8 * c + i)) = pixel CHR '' '' j i"
      using b(3) assms(5) by (simp add: pixel_def glyph_space)
  qed
  with g assms(2) show ?thesis
    by (simp add: shows_console_def con_start_def div_greater_zero_iff)
qed

text \<open>A blank screen of 8 by 3 characters, for the examples.\<close>

definition small_screen :: fb_state where
  "small_screen = \<lparr>Fb = replicate 3072 0, Width = 64, PosX = 0, PosY = 0, MaxX = 8, MaxY = 3\<rparr>"

lemma small_screen_shows: "shows_console 64 8 3 small_screen con_start"
  using blank_shows [of 64 48 "replicate 3072 0"] by (simp add: small_screen_def FONT_WIDTH_def FONT_HEIGHT_def)

lemma fb_init_greets:
  assumes "8 \<le> unat width" "32 \<le> unat height" "unat width * unat height < 2 ^ 32"
    "unat width * unat height \<le> length fb"
  shows "\<exists>st. fb_init fb width height = Some st \<and>
    shows_console (unat width) (unat width div 8) (unat height div 16) st
      (fold (con_put (unat width div 8) (unat height div 16)) HELLO_STATEMENT con_start)"
proof -
  let ?w = "unat width" and ?h = "unat height"
  have num: "unat (ucast width * ucast height :: u64) = ?w * ?h"
    using assms(3) by (subst unat_mult_small) (simp_all add: ucast_up)
  from cleared [of 0 "?w * ?h" fb] assms(4) obtain fb1 where
    fb1: "clear_pixels (?w * ?h) 0 fb = Some fb1" "length fb1 = length fb"
    "\<And>q. fb1 ! q = (if q < ?w * ?h then 0 else fb ! q)" by auto
  let ?st = "\<lparr>Fb = fb1, Width = width, PosX = 0, PosY = 0,
    MaxX = width div of_nat FONT_WIDTH, MaxY = height div of_nat FONT_HEIGHT\<rparr>"
  have "shows_console ?w (?w div 8) (?h div 16) ?st con_start"
    using assms fb1(2,3) by (intro blank_shows) simp_all
  with fbo.run_holds [where t = "[]" and u = HELLO_STATEMENT and s = ?st and w = ?w and cols = "?w div 8"
      and rows = "?h div 16" and con = con_start]
  show ?thesis by (simp add: fb_init_def num fb1(1) Let_def print_chars_run)
qed

section \<open>Properties\<close>

text \<open>C27: \<open>printf\<close> on the console: every format built from text and directives leaves the grid of
  characters one gets by typing its text, with line breaks at the right margin and scrolling at the
  bottom, and all writes stay inside the frame buffer.\<close>

theorem printf_shows:
  assumes "text_of ps args = Some t" "length t + 2 < 2 ^ 64" "shows_console w cols rows st con"
  shows "\<exists>st'. printf (format_of ps) args st = Some (of_nat (length t), st') \<and>
    shows_console w cols rows st' (fold (con_put cols rows) t con)"
  using fbo.vprintf_holds [OF assms(1,2), where u = "[]" and s = st and w = w and cols = cols and rows = rows and con = con] assms(3)
  by (auto simp: printf_def vprintf_def con_put_def)

theorem printf_shows_witness:
  "\<exists>st'. printf ''%d'' [VaInt 42] small_screen = Some (2, st') \<and>
     shows_console 64 8 3 st' (con_char CHR ''2'' (con_char CHR ''4'' con_start))"
proof -
  have t: "text_of [Directive False False 0 M_none C_d] [VaInt 42] = Some ''42''" by (simp add: text_eval)
  have f: "format_of [Directive False False 0 M_none C_d] = ''%d''" by (simp add: text_eval)
  show ?thesis using printf_shows [OF t _ small_screen_shows] unfolding f
    by (simp add: con_put_def newline_def con_start_def con_char_def)
qed

text \<open>\<open>puts\<close> types its text and a line break.\<close>

theorem puts_shows:
  assumes "shows_console w cols rows st con"
  shows "\<exists>st'. puts s st = Some (0, st') \<and>
    shows_console w cols rows st' (con_newline rows (fold (con_put cols rows) s con))"
  using fbo.run_holds [where t = "[]" and u = "s @ [newline]" and s = st and w = w and cols = cols and rows = rows and con = con] assms
  by (auto simp: puts_run con_put_def newline_def)

theorem puts_shows_witness:
  "\<exists>st'. puts ''A'' small_screen = Some (0, st') \<and>
     shows_console 64 8 3 st' (con_newline 3 (con_char CHR ''A'' con_start))"
  using puts_shows [OF small_screen_shows, of "''A''"] by (simp add: con_put_def newline_def con_start_def con_char_def)

text \<open>C28: \<open>fb_init\<close> on a screen of at least 8 by 32 pixels whose pixel count fits into 32 bits clears it and
  shows the greeting, whatever the frame buffer held before.\<close>

theorem fb_init_shows:
  assumes "8 \<le> unat width" "32 \<le> unat height" "unat width * unat height < 2 ^ 32"
    "unat width * unat height \<le> length fb"
  shows "\<exists>st. fb_init fb width height = Some st \<and>
    shows_console (unat width) (unat width div 8) (unat height div 16) st
      (fold (con_put (unat width div 8) (unat height div 16)) HELLO_STATEMENT con_start)"
  by (rule fb_init_greets [OF assms])

theorem fb_init_shows_witness:
  "\<exists>st. fb_init (replicate 3072 7) 64 48 = Some st \<and>
    shows_console 64 8 3 st (fold (con_put 8 3) HELLO_STATEMENT con_start)"
  using fb_init_shows [of 64 48 "replicate 3072 7"] by simp

text \<open>On a screen of a single text row (16 to 31 pixels high) \<open>fb_init\<close> itself is undefined: the first
  line break of the greeting calls \<open>fb_scrollup\<close>, whose row counter starts at 0 and wraps around.\<close>

theorem fb_init_one_row:
  assumes "16 \<le> unat height" "unat height < 32" "length fb < 2 ^ 64"
  shows "fb_init fb width height = None"
proof (cases "clear_pixels (unat (ucast width * ucast height :: u64)) 0 fb")
  case (Some fb1)
  have "unat (height div of_nat FONT_HEIGHT) = unat height div 16" by (simp add: FONT_HEIGHT_def unat_div)
  also have "\<dots> = 1" using assms(1,2) by linarith
  finally have "height div of_nat FONT_HEIGHT = 1" by (simp add: word_unat_eq_iff)
  then have "one_row \<lparr>Fb = fb1, Width = width, PosX = 0, PosY = 0,
      MaxX = width div of_nat FONT_WIDTH, MaxY = height div of_nat FONT_HEIGHT\<rparr>"
    using assms(3) clear_pixels_length [OF Some] by (simp add: one_row_def)
  from one_row_print [OF this, of HELLO_STATEMENT] Some show ?thesis
    by (simp add: fb_init_def HELLO_STATEMENT_def)
qed (simp add: fb_init_def)

theorem fb_init_one_row_witness: "fb_init (replicate 1024 0) 64 16 = None"
  using fb_init_one_row [of 16 "replicate 1024 0" 64] by simp

end
