(* ===== verification/Kernel_Boot.thy ===== *)
theory Kernel_Boot
  imports Page_Tables Kernel_Frame Framebuffer
begin

text \<open>
  \<open>kernel.c\<close>, \<open>kernel_init\<close> of \<open>kernel_code.c\<close>, and \<open>user.c\<close>: the startup of the kernel, from the
  greeting on the console over the page tables, the switch of the control register CR3 to them and the test of
  the allocator to the jump into the user program, and the user program, which prints through
  system calls. The machine registers are part of the state; \<open>load_page_table\<close> (an object file
  without source) is a parameter, the other assembly stubs (\<open>user_jump\<close>, the entry of a system call)
  are results or arguments.

  Once CR3 has been switched, the heap and the screen may only be accessed where the tables
  in memory map them to themselves, writable; the code and the stack of the kernel are not part of
  the model.
\<close>

definition endl :: string where "endl = [newline]"

section \<open>Startup\<close>

definition MSR_EFER :: u32 where "MSR_EFER = 0xC0000080"
definition MSR_STAR :: u32 where "MSR_STAR = 0xC0000081"
definition MSR_LSTAR :: u32 where "MSR_LSTAR = 0xC0000082"
definition MSR_SFMASK :: u32 where "MSR_SFMASK = 0xC0000084"
definition GDT_KERNEL_CODE :: u64 where "GDT_KERNEL_CODE = 0x08"
definition GDT_KERNEL_DATA :: u64 where "GDT_KERNEL_DATA = 0x10"
definition KERNEL_HEAP_SIZE :: u64 where "KERNEL_HEAP_SIZE = push_bit 20 1"

type_synonym msrs = "u32 \<Rightarrow> u64"

definition syscall_init :: "u64 \<Rightarrow> msrs \<Rightarrow> msrs" where
  "syscall_init syscall_entry_ptr msr =
     (let msr = msr(MSR_EFER := msr MSR_EFER OR 1);
          msr = msr(MSR_STAR := push_bit 48 GDT_KERNEL_DATA OR push_bit 32 GDT_KERNEL_CODE);
          msr = msr(MSR_LSTAR := syscall_entry_ptr)
      in msr(MSR_SFMASK := push_bit 9 1))"

text \<open>What the test of the allocator prints.\<close>

fun extra_message :: "extra_result \<Rightarrow> string" where
  "extra_message Points0 = ''Extra Credit: 0/40 points'' @ endl @ endl"
| "extra_message Points40 = ''Extra Credit: 40/40 points'' @ endl @ endl"
| "extra_message Stuck = ''ERROR: buggy memory allocator'' @ endl"

text \<open>The variables of the kernel, CR3 and the model specific registers. \<open>screen_at\<close> and \<open>screen_bytes\<close>: where the
  pixels lie, and how many bytes they take.\<close>

record machine =
  kheap_state :: heap_state
  page_table :: u64
  user_stack :: u64
  user_program :: u64
  cr3 :: u64
  msr :: msrs
  screen :: fb_state
  screen_at :: u64
  screen_bytes :: nat
  kernel_memory :: u64
  kernel_memory_end :: u64

text \<open>\<open>load_page_table\<close>: from the memory, the table and the old CR3 to its message, if any, and the new CR3.\<close>

type_synonym loader = "memory \<Rightarrow> u64 \<Rightarrow> u64 \<Rightarrow> string option \<times> u64"

text \<open>\<open>printf\<close> and the test of the allocator through the page tables that CR3 points to.\<close>

definition mapped_printf :: "string \<Rightarrow> va list \<Rightarrow> machine \<Rightarrow> machine option" where
  "mapped_printf fmt args mach = do {
     guard (mapped (hmem (kheap_state mach)) (cr3 mach) (screen_at mach) (screen_bytes mach));
     (rv, scr) \<leftarrow> printf fmt args (screen mach);
     Some (mach\<lparr>screen := scr\<rparr>)
   }"

definition mapped_extra_test :: "machine \<Rightarrow> (extra_result \<times> machine) option" where
  "mapped_extra_test mach = do {
     let h = kheap_state mach;
     guard (mapped (hmem h) (cr3 mach) (heap_start h) (unat (mem_max_addr h) - unat (heap_start h)));
     (r, h) \<leftarrow> mem_extra_test h;
     mach \<leftarrow> mapped_printf (extra_message r) [] (mach\<lparr>kheap_state := h\<rparr>);
     Some (r, mach)
   }"

text \<open>The writes to the tables must stay in the memory that is passed.\<close>

definition kernel_init :: "loader \<Rightarrow> u64 \<Rightarrow> u64 \<Rightarrow> u64 \<Rightarrow> u64 \<Rightarrow> machine \<Rightarrow> (extra_result \<times> machine) option" where
  "kernel_init load_page_table ustack uprogram memory memorySize mach = do {
     guard (8 * n_entries \<le> unat memorySize);
     let (pml, m) = build_tables ustack uprogram memory (hmem (kheap_state mach));
     let mach = mach\<lparr>kheap_state := (kheap_state mach)\<lparr>hmem := m\<rparr>, page_table := pml,
       user_stack := 0xFFFFFFFFFFFFFFFF, user_program := - 4096\<rparr>;
     let (err, new_cr3) = load_page_table m (page_table mach) (cr3 mach);
     let mach = mach\<lparr>cr3 := new_cr3\<rparr>;
     mach \<leftarrow> (case err of None \<Rightarrow> Some mach
       | Some e \<Rightarrow> mapped_printf (''ERROR: %s'' @ endl) [VaPtr 1 e] mach);
     mapped_extra_test mach
   }"

text \<open>The result is the address of the jump to user mode, or \<open>None\<close> when the test of the allocator ends in
  its endless loop. The parameter \<open>kstack\<close> of the code is not used by it.\<close>

definition kernel_start :: "loader \<Rightarrow> u64 \<Rightarrow> u64 \<Rightarrow> u64 \<Rightarrow> u32 list \<Rightarrow> u32 \<Rightarrow> u32 \<Rightarrow> u64 \<Rightarrow> u64 \<Rightarrow> u64 \<Rightarrow>
    machine \<Rightarrow> (u64 option \<times> machine) option" where
  "kernel_start load_page_table syscall_entry_ptr ustack fb_addr fb width height ucode memory memorySize mach = do {
     scr \<leftarrow> fb_init fb width height;
     let mach = mach\<lparr>screen := scr, screen_at := fb_addr, screen_bytes := 4 * (unat width * unat height)\<rparr>;
     let mach = mach\<lparr>msr := syscall_init syscall_entry_ptr (msr mach)\<rparr>;
     let mach = mach\<lparr>kernel_memory := memory + KERNEL_HEAP_SIZE, kernel_memory_end := memory + memorySize\<rparr>;
     let mach = mach\<lparr>kheap_state := kernel_mem_init memory KERNEL_HEAP_SIZE (kheap_state mach)\<rparr>;
     (r, mach) \<leftarrow> kernel_init load_page_table ustack ucode (memory + KERNEL_HEAP_SIZE) (memorySize - KERNEL_HEAP_SIZE) mach;
     Some (if r = Stuck then None else Some (user_program mach), mach)
   }"

section \<open>System calls\<close>

text \<open>A system call of the user: \<open>s\<close> is the string at the address \<open>a1\<close>.\<close>

definition syscall1 :: "u64 \<Rightarrow> u64 \<Rightarrow> string \<Rightarrow> fb_state \<Rightarrow> (u64 \<times> fb_state) option" where
  "syscall1 n a1 s scr = (case syscall_entry n a1 0 0 0 0 of
     (None, r) \<Rightarrow> Some (r, scr)
   | (Some p, r) \<Rightarrow> do { (rv, scr) \<leftarrow> printf ''%s'' [VaPtr p s] scr; Some (r, scr) })"

text \<open>
  \<open>user_start\<close> up to its endless loop: \<open>check\<close> is the result of system call 1024, which the assembly
  entry answers, \<open>var\<close> the address of \<open>check_var\<close>, and \<open>p1\<close> to \<open>p4\<close> are those of the strings.
\<close>

definition yes_yes :: string where
  "yes_yes = ''SYSCALLS (Q2): YES'' @ endl @ ''PAGE_TABLES (Q3): YES'' @ endl @ ''USER_SPACE (Q4): YES'' @ endl @ endl @
     ''Final: 130/130 points'' @ endl"

definition yes_no :: string where
  "yes_no = ''SYSCALLS (Q2): YES'' @ endl @ ''PAGE_TABLES (Q3): YES'' @ endl @ ''USER_SPACE (Q4): NO'' @ endl @ endl @
     ''Final: 100/130 points'' @ endl"

definition no_no :: string where
  "no_no = ''SYSCALLS (Q2): YES'' @ endl @ ''PAGE_TABLES (Q3): NO'' @ endl @ ''USER_SPACE (Q4): NO'' @ endl @ endl @
     ''Final: 40/130 points'' @ endl"

definition user_start :: "u64 \<Rightarrow> u64 \<Rightarrow> u64 \<Rightarrow> u64 \<Rightarrow> u64 \<Rightarrow> u64 \<Rightarrow> fb_state \<Rightarrow> fb_state option" where
  "user_start p1 p2 p3 p4 check var scr = do {
     (r, scr) \<leftarrow> syscall1 1 p1 (''This message is from user space!'' @ endl) scr;
     (r, scr) \<leftarrow> (if check = 2 \<and> sint var < 0 then syscall1 1 p2 yes_yes scr
       else if sint check > 0 then syscall1 1 p3 yes_no scr
       else syscall1 1 p4 no_no scr);
     Some scr
   }"

section \<open>Lemmas\<close>

lemma printf_text:
  assumes "CHR ''%'' \<notin> set t" "length t + 2 < 2 ^ 64" "shows_console w cols rows st con"
  shows "\<exists>st'. printf t [] st = Some (of_nat (length t), st') \<and> shows_console w cols rows st' (fold (con_put cols rows) t con)"
proof -
  have t: "text_of [Text t] [] = Some t" using assms(1) by simp
  have f: "format_of [Text t] = t" by (simp add: format_of_def)
  from fbo.vprintf_holds [OF t assms(2), where u = "[]" and s = st and w = w and cols = cols and rows = rows and con = con] assms(3)
  show ?thesis unfolding f by (auto simp: printf_def vprintf_def con_put_def)
qed

lemma printf_string:
  assumes "p \<noteq> 0" "length t + 2 < 2 ^ 64" "shows_console w cols rows st con"
  shows "\<exists>st'. printf ''%s'' [VaPtr p t] st = Some (of_nat (length t), st') \<and>
    shows_console w cols rows st' (fold (con_put cols rows) t con)"
proof -
  have t: "text_of [Directive False False 0 M_none C_s] [VaPtr p t] = Some t" using assms(1) by (simp add: padded_def)
  have f: "format_of [Directive False False 0 M_none C_s] = ''%s''" by (simp add: text_eval)
  from fbo.vprintf_holds [OF t assms(2), where u = "[]" and s = st and w = w and cols = cols and rows = rows and con = con] assms(3)
  show ?thesis unfolding f by (auto simp: printf_def vprintf_def con_put_def)
qed

lemma syscall1_prints:
  assumes "p \<noteq> 0" "length t + 2 < 2 ^ 64" "shows_console w cols rows st con"
  shows "\<exists>st'. syscall1 1 p t st = Some (0, st') \<and> shows_console w cols rows st' (fold (con_put cols rows) t con)"
  using printf_string [OF assms] by (auto simp: syscall1_def syscall_entry_def)

section \<open>Properties\<close>

text \<open>The tables survive the test of the allocator, which therefore can still print its points.\<close>

lemma mapped_test_passes:
  assumes base: "4096 dvd unat base" "unat base + 2 ^ 20 \<le> 2 ^ 32"
    and tables: "has_tables ustack uprogram (base + 2 ^ 20) (hmem h)" and h: "h = kernel_mem_init base (2 ^ 20) st"
  shows "\<exists>h'. mapped (hmem h) (elem (base + 2 ^ 20) at_pml) (heap_start h) (unat (mem_max_addr h) - unat (heap_start h)) \<and>
    mem_extra_test h = Some (Points40, h') \<and> allocator h' {} \<and> has_tables ustack uprogram (base + 2 ^ 20) (hmem h')"
proof -
  have top: "unat (base + 2 ^ 20) = unat base + 2 ^ 20" using base(2) by (simp add: unat_word_ariths)
  have ok: "base_ok (base + 2 ^ 20)" using base dvd_add [OF base(1), of "2 ^ 20"] top by (simp add: base_ok_def n_entries_def)
  have al: "16 dvd unat base" using base(1) by (rule dvd_trans [rotated]) simp
  have small: "unat base + 2 ^ 20 < 2 ^ 63" using base(2) by simp
  have r: "heap_start h = base" "mem_max_addr h = base + 2 ^ 20" "mem_brk h = base" by (simp_all add: h kernel_mem_init_def)
  from mem_extra_test_room [OF al small, of st] obtain h' where
    h': "mem_extra_test h = Some (Points40, h')" "allocator h' {}" unfolding h by blast
  have "within h h" using r top by (intro within_refl) (simp add: word_le_nat_alt)
  from mem_extra_test_within [OF h'(1) this] have same: "hmem h' a = hmem h a" if "\<not> heap_byte h a" for a
    using that by (simp add: within_def)
  have "has_tables ustack uprogram (base + 2 ^ 20) (hmem h')"
    by (rule has_tables_frame [OF tables ok], rule same) (simp add: heap_byte_def r word_less_nat_alt)
  moreover have "mapped (hmem h) (elem (base + 2 ^ 20) at_pml) (heap_start h) (unat (mem_max_addr h) - unat (heap_start h))"
    by (rule mapped_low [OF ok tables]) (use r top base(2) in simp)
  ultimately show ?thesis using h' by blast
qed

text \<open>C26: The kernel boots, from any memory of enough bytes whose first megabyte, like the screen, lies in the first 4
  GB, with a \<open>load_page_table\<close> that loads finished tables without an error: every access to the heap and to the screen
  after the switch of CR3 is mapped, and the kernel reaches the jump to the user program. The console shows the
  greeting and the full points of the allocator test, the four registers of the system calls have their
  values, CR3 points to the tables, and through them, as they are in memory after the test,
  the processor sees the address map of theorem \<open>page_tables_map\<close>.\<close>

theorem kernel_boots:
  assumes "8 \<le> unat width" "32 \<le> unat height" "unat width * unat height \<le> length fb"
      "unat fb_addr + 4 * (unat width * unat height) \<le> 2 ^ 32"
    and base: "4096 dvd unat base" "unat base + 2 ^ 20 \<le> 2 ^ 32" and size: "2 ^ 20 + 8 * n_entries \<le> unat memorySize"
    and loads: "\<forall>m c. has_tables ustack ucode (base + 2 ^ 20) m \<longrightarrow>
      load_page_table m (elem (base + 2 ^ 20) at_pml) c = (None, elem (base + 2 ^ 20) at_pml)"
  shows "\<exists>mach'. kernel_start load_page_table ptr ustack fb_addr fb width height ucode base memorySize mach = Some (Some (- 4096), mach') \<and>
    shows_console (unat width) (unat width div 8) (unat height div 16) (screen mach')
      (fold (con_put (unat width div 8) (unat height div 16))
        (HELLO_STATEMENT @ ''Extra Credit: 40/40 points'' @ [newline, newline]) con_start) \<and>
    msr mach' = (msr mach)(MSR_EFER := msr mach MSR_EFER OR 1, MSR_STAR := 0x0010000800000000, MSR_LSTAR := ptr, MSR_SFMASK := 0x200) \<and>
    cr3 mach' = page_table mach' \<and>
    (\<forall>va. translate (hmem (kheap_state mach')) (cr3 mach') va = address_map ucode ustack va) \<and>
    allocator (kheap_state mach') {} \<and> user_stack mach' = - 1 \<and>
    kernel_memory mach' = base + 2 ^ 20 \<and> kernel_memory_end mach' = base + memorySize"
proof -
  let ?w = "unat width" and ?c = "unat width div 8" and ?r = "unat height div 16"
  let ?t = "extra_message Points40"
  define top where "top = base + KERNEL_HEAP_SIZE"
  define cr where "cr = elem top at_pml"
  define h where "h = kernel_mem_init base KERNEL_HEAP_SIZE (kheap_state mach)"
  define m where "m = snd (build_tables ustack ucode top (hmem h))"
  have sz: "KERNEL_HEAP_SIZE = 2 ^ 20" by (simp add: KERNEL_HEAP_SIZE_def push_bit_eq_mult)
  note top = top_def [unfolded sz]
  have "?w * unat height < 2 ^ 32"
  proof -
    have "0 < ?w * unat height" using assms(1,2) by simp
    then show ?thesis using assms(4) by linarith
  qed
  from fb_init_greets [OF assms(1,2) this assms(3)] obtain scr where
    scr: "fb_init fb width height = Some scr" "shows_console ?w ?c ?r scr (fold (con_put ?c ?r) HELLO_STATEMENT con_start)" by blast
  have built: "build_tables ustack ucode top (hmem h) = (cr, m)" by (simp add: build_tables_kernel m_def cr_def)
  have has: "has_tables ustack ucode top m" unfolding m_def by (rule has_tables_built)
  have load: "load_page_table m cr c = (None, cr)" for c using loads has unfolding cr_def top by blast
  have "h\<lparr>hmem := m\<rparr> = kernel_mem_init base (2 ^ 20) ((kheap_state mach)\<lparr>hmem := m\<rparr>)"
    unfolding h_def sz by (simp add: kernel_mem_init_def)
  from mapped_test_passes [OF base _ this, of ustack ucode] has obtain h' where
    h': "mapped m cr (heap_start h) (unat (mem_max_addr h) - unat (heap_start h))"
      "mem_extra_test (h\<lparr>hmem := m\<rparr>) = Some (Points40, h')" "allocator h' {}" "has_tables ustack ucode top (hmem h')"
    unfolding top [symmetric] cr_def [symmetric] by auto
  have ok: "base_ok top" using base dvd_add [OF base(1), of "2 ^ 20"] by (simp add: top base_ok_def n_entries_def unat_word_ariths)
  note fb = mapped_low [OF ok h'(4) assms(4), folded cr_def]
  have t: "CHR ''%'' \<notin> set ?t" "length ?t + 2 < 2 ^ 64" by (simp_all add: endl_def newline_def)
  from printf_text [OF t scr(2)] obtain scr' where
    scr': "printf ?t [] scr = Some (of_nat (length ?t), scr')"
    "shows_console ?w ?c ?r scr' (fold (con_put ?c ?r) ?t (fold (con_put ?c ?r) HELLO_STATEMENT con_start))" by blast
  have fits: "8 * n_entries \<le> unat (memorySize - KERNEL_HEAP_SIZE)"
    unfolding sz using size by (subst unat_sub) (simp_all add: word_le_nat_alt)
  let ?mach = "mach\<lparr>kheap_state := h', page_table := cr, user_stack := 0xFFFFFFFFFFFFFFFF, user_program := - 4096, cr3 := cr,
      msr := syscall_init ptr (msr mach), screen := scr', screen_at := fb_addr, screen_bytes := 4 * (?w * unat height),
      kernel_memory := top, kernel_memory_end := base + memorySize\<rparr>"
  have "kernel_start load_page_table ptr ustack fb_addr fb width height ucode base memorySize mach = Some (Some (- 4096), ?mach)"
    using fits fb h'(1,2) scr'(1)
    by (simp add: kernel_start_def kernel_init_def mapped_extra_test_def mapped_printf_def Let_def scr(1) built load
        guard_simps top_def [symmetric] h_def [symmetric] del: extra_message.simps)
  moreover have "syscall_init ptr (msr mach) = (msr mach)(MSR_EFER := msr mach MSR_EFER OR 1, MSR_STAR := 0x0010000800000000,
      MSR_LSTAR := ptr, MSR_SFMASK := 0x200)"
    by (simp add: syscall_init_def Let_def GDT_KERNEL_DATA_def GDT_KERNEL_CODE_def push_bit_eq_mult)
  ultimately show ?thesis using scr'(2) h'(3) translate_tables [OF ok h'(4), folded cr_def] by (simp add: endl_def top)
qed

theorem kernel_boots_witness:
  "\<exists>mach'. kernel_start (\<lambda>m p c. (None, p)) 0xFFFF 0x900000 0xE0000000 (replicate 3072 7) 64 48 0x200000 0x400000 0x8000000
      \<lparr>kheap_state = start_state, page_table = 0, user_stack = 0, user_program = 0, cr3 = 0, msr = (\<lambda>_. 0), screen = small_screen,
        screen_at = 0, screen_bytes = 0, kernel_memory = 0, kernel_memory_end = 0\<rparr> = Some (Some (- 4096), mach') \<and>
    msr mach' MSR_EFER = 1 \<and> translate (hmem (kheap_state mach')) (cr3 mach') 0x400008 = Some (0x400008, True, False)"
proof -
  let ?mach = "\<lparr>kheap_state = start_state, page_table = 0, user_stack = 0, user_program = 0, cr3 = 0, msr = (\<lambda>_. 0), screen = small_screen,
        screen_at = 0, screen_bytes = 0, kernel_memory = 0, kernel_memory_end = 0\<rparr> :: machine"
  have m: "address_map 0x200000 0x900000 0x400008 = Some (0x400008, True, False)"
    by (simp add: address_map_def Let_def take_bit_eq_mod)
  have d: "MSR_EFER \<noteq> MSR_STAR" "MSR_EFER \<noteq> MSR_LSTAR" "MSR_EFER \<noteq> MSR_SFMASK"
    by (simp_all add: MSR_EFER_def MSR_STAR_def MSR_LSTAR_def MSR_SFMASK_def)
  from kernel_boots [where width = 64 and height = 48 and fb = "replicate 3072 7" and fb_addr = "0xE0000000" and base = "0x400000"
      and ptr = "0xFFFF" and ustack = "0x900000" and ucode = "0x200000" and memorySize = "0x8000000"
      and load_page_table = "\<lambda>m p c. (None, p)" and mach = ?mach]
  show ?thesis using m d by (auto simp: n_entries_def)
qed

text \<open>The initial stack pointer of the user lies in the wrong page: the 8 bytes a first push
  writes are in the page of the program, not in the page mapped for the stack.\<close>

theorem user_stack_in_program:
  "case kernel_init load_page_table ustack uprogram memory memorySize mach of None \<Rightarrow> True
   | Some (r, mach') \<Rightarrow> address_map uprogram ustack (user_stack mach' - 8) =
       Some (in_page uprogram (user_stack mach' - 8), True, True)"
proof -
  have n: "unat (0xFFFFFFFFFFFFFFF7 :: u64) = 0xFFFFFFFFFFFFFFF7" by simp
  have "address_map uprogram ustack 0xFFFFFFFFFFFFFFF7 = Some (in_page uprogram 0xFFFFFFFFFFFFFFF7, True, True)"
    unfolding address_map_def Let_def n by simp
  then show ?thesis
    by (auto simp: kernel_init_def mapped_extra_test_def mapped_printf_def Let_def
      split: prod.splits option.splits Option.bind_splits)
qed

text \<open>C29: The user program shows its message and then the points its checks amount to, all through
  system calls.\<close>

theorem user_start_prints:
  assumes "shows_console w cols rows scr con" "p1 \<noteq> 0" "p2 \<noteq> 0" "p3 \<noteq> 0" "p4 \<noteq> 0"
  shows "\<exists>scr'. user_start p1 p2 p3 p4 check var scr = Some scr' \<and>
    shows_console w cols rows scr' (fold (con_put cols rows)
      (''This message is from user space!'' @ [newline] @
       (if check = 2 \<and> sint var < 0 then yes_yes else if sint check > 0 then yes_no else no_no)) con)"
proof -
  let ?t1 = "''This message is from user space!'' @ endl"
  have len: "length ?t1 + 2 < 2 ^ 64" "length yes_yes + 2 < 2 ^ 64" "length yes_no + 2 < 2 ^ 64" "length no_no + 2 < 2 ^ 64"
    by (simp_all add: yes_yes_def yes_no_def no_no_def endl_def)
  from syscall1_prints [OF assms(2) len(1) assms(1)] obtain s1 where
    s1: "syscall1 1 p1 ?t1 scr = Some (0, s1)" "shows_console w cols rows s1 (fold (con_put cols rows) ?t1 con)" by blast
  note next_ = syscall1_prints [OF _ _ s1(2)]
  show ?thesis
    using next_ [OF assms(3) len(2)] next_ [OF assms(4) len(3)] next_ [OF assms(5) len(4)] s1(1)
    by (auto simp: user_start_def endl_def)
qed

theorem user_start_prints_witness:
  "\<exists>scr'. user_start 0x1000 0x1100 0x1200 0x1300 2 (- 8) small_screen = Some scr' \<and>
    shows_console 64 8 3 scr' (fold (con_put 8 3) (''This message is from user space!'' @ [newline] @ yes_yes) con_start)"
proof -
  have "sint (- 8 :: u64) < 0" by (simp add: sint_uint)
  then show ?thesis
    using user_start_prints [OF small_screen_shows, where check = 2 and var = "- 8" and ?p1.0 = "0x1000" and ?p2.0 = "0x1100"
      and ?p3.0 = "0x1200" and ?p4.0 = "0x1300"] by simp
qed

end
