(* ===== verification/Stree.thy ===== *)
theory Stree
  imports Prelude
begin

text \<open>
  \<open>stree.c\<close>, the splay tree of the malloc driver, on an explicit store of nodes with parent
  pointers: \<open>t_store p\<close> is the node at address \<open>p\<close>. Loops are partial functions into
  \<open>option\<close>, so that following a dangling pointer and running forever are both \<open>None\<close>; so is the exit
  of the program when \<open>malloc\<close> fails.
\<close>

section \<open>State and operations\<close>

record node_t =
  n_left :: u64
  n_right :: u64
  n_parent :: u64
  n_key :: u64
  n_record :: u64

record tree_t =
  t_store :: "u64 \<rightharpoonup> node_t"
  t_root :: u64
  t_node_count :: u64
  t_comparisons :: u64

text \<open>Reading a field of the node at \<open>a\<close>, and changing the node.\<close>

definition fld :: "(node_t \<Rightarrow> 'a) \<Rightarrow> u64 \<Rightarrow> tree_t \<Rightarrow> 'a option" where
  "fld f a t = map_option f (t_store t a)"

definition upd :: "(node_t \<Rightarrow> node_t) \<Rightarrow> u64 \<Rightarrow> tree_t \<Rightarrow> tree_t option" where
  "upd f a t = (case t_store t a of None \<Rightarrow> None | Some n \<Rightarrow> Some (t\<lparr>t_store := (t_store t)(a \<mapsto> f n)\<rparr>))"

definition set_left :: "u64 \<Rightarrow> u64 \<Rightarrow> tree_t \<Rightarrow> tree_t option" where
  "set_left a v t = upd (\<lambda>n. n\<lparr>n_left := v\<rparr>) a t"

definition set_right :: "u64 \<Rightarrow> u64 \<Rightarrow> tree_t \<Rightarrow> tree_t option" where
  "set_right a v t = upd (\<lambda>n. n\<lparr>n_right := v\<rparr>) a t"

definition set_parent :: "u64 \<Rightarrow> u64 \<Rightarrow> tree_t \<Rightarrow> tree_t option" where
  "set_parent a v t = upd (\<lambda>n. n\<lparr>n_parent := v\<rparr>) a t"

definition compared :: "tree_t \<Rightarrow> tree_t" where
  "compared t = t\<lparr>t_comparisons := t_comparisons t + 1\<rparr>"

definition tree_new :: tree_t where
  "tree_new = \<lparr>t_store = Map.empty, t_root = NULL, t_node_count = 0, t_comparisons = 0\<rparr>"

text \<open>The pointer from the parent of \<open>u\<close> (or the root) is made to point to \<open>v\<close>.\<close>

definition relink :: "u64 \<Rightarrow> u64 \<Rightarrow> tree_t \<Rightarrow> tree_t option" where
  "relink u v t = do {
     p \<leftarrow> fld n_parent u t;
     if p = NULL then Some (t\<lparr>t_root := v\<rparr>)
     else do {
       pl \<leftarrow> fld n_left p t;
       if u = pl then set_left p v t else set_right p v t
     }
   }"

definition replace :: "u64 \<Rightarrow> u64 \<Rightarrow> tree_t \<Rightarrow> tree_t option" where
  "replace u v t = do {
     t \<leftarrow> relink u v t;
     if v \<noteq> NULL then do { p \<leftarrow> fld n_parent u t; set_parent v p t } else Some t
   }"

definition left_rotate :: "u64 \<Rightarrow> tree_t \<Rightarrow> tree_t option" where
  "left_rotate x t = do {
     y \<leftarrow> fld n_right x t;
     t \<leftarrow> (if y \<noteq> NULL then do {
         yl \<leftarrow> fld n_left y t;
         t \<leftarrow> set_right x yl t;
         yl \<leftarrow> fld n_left y t;
         t \<leftarrow> (if yl \<noteq> NULL then set_parent yl x t else Some t);
         xp \<leftarrow> fld n_parent x t;
         set_parent y xp t
       } else Some t);
     t \<leftarrow> relink x y t;
     t \<leftarrow> (if y \<noteq> NULL then set_left y x t else Some t);
     set_parent x y t
   }"

definition right_rotate :: "u64 \<Rightarrow> tree_t \<Rightarrow> tree_t option" where
  "right_rotate x t = do {
     y \<leftarrow> fld n_left x t;
     t \<leftarrow> (if y \<noteq> NULL then do {
         yr \<leftarrow> fld n_right y t;
         t \<leftarrow> set_left x yr t;
         yr \<leftarrow> fld n_right y t;
         t \<leftarrow> (if yr \<noteq> NULL then set_parent yr x t else Some t);
         xp \<leftarrow> fld n_parent x t;
         set_parent y xp t
       } else Some t);
     t \<leftarrow> relink x y t;
     t \<leftarrow> (if y \<noteq> NULL then set_right y x t else Some t);
     set_parent x y t
   }"

partial_function (option) splay :: "u64 \<Rightarrow> tree_t \<Rightarrow> tree_t option" where
  "splay x t = do {
     p \<leftarrow> fld n_parent x t;
     if p = NULL then Some t
     else do {
       g \<leftarrow> fld n_parent p t;
       pl \<leftarrow> fld n_left p t;
       t \<leftarrow> (if g = NULL then
           if pl = x then right_rotate p t else left_rotate p t
         else do {
           gl \<leftarrow> fld n_left g t;
           pr \<leftarrow> fld n_right p t;
           gr \<leftarrow> fld n_right g t;
           if pl = x \<and> gl = p then do {
             t \<leftarrow> right_rotate g t;
             p \<leftarrow> fld n_parent x t;
             right_rotate p t
           } else if pr = x \<and> gr = p then do {
             t \<leftarrow> left_rotate g t;
             p \<leftarrow> fld n_parent x t;
             left_rotate p t
           } else if pl = x \<and> gr = p then do {
             t \<leftarrow> right_rotate p t;
             p \<leftarrow> fld n_parent x t;
             left_rotate p t
           } else do {
             t \<leftarrow> left_rotate p t;
             p \<leftarrow> fld n_parent x t;
             right_rotate p t
           }
         });
       splay x t
     }
   }"

text \<open>Keys are compared as signed numbers. The walk of \<open>tree_insert\<close>: whether the key is there, and the last node.\<close>

definition child :: "u64 \<Rightarrow> u64 \<Rightarrow> u64 \<Rightarrow> tree_t \<Rightarrow> u64 option" where
  "child key k z t = (if sint k < sint key then fld n_right z t else fld n_left z t)"

partial_function (option) insert_walk :: "u64 \<Rightarrow> u64 \<Rightarrow> u64 \<Rightarrow> tree_t \<Rightarrow> (bool \<times> u64 \<times> tree_t) option" where
  "insert_walk key z p t =
     (if z = NULL then Some (False, p, t)
      else do {
        let t = compared t;
        k \<leftarrow> fld n_key z t;
        if key = k then Some (True, z, t)
        else do {
          let t = compared t;
          z' \<leftarrow> child key k z t;
          insert_walk key z' z t
        }
      })"

text \<open>The new leaf \<open>z\<close> is hung below \<open>p\<close>.\<close>

definition link_new :: "u64 \<Rightarrow> u64 \<Rightarrow> tree_t \<Rightarrow> tree_t option" where
  "link_new p z t = (if p = NULL then Some (t\<lparr>t_root := z\<rparr>)
     else do {
       pk \<leftarrow> fld n_key p t;
       zk \<leftarrow> fld n_key z t;
       if sint pk < sint zk then set_right p z t else set_left p z t
     })"

text \<open>\<open>z\<close> is the address \<open>malloc\<close> returns.\<close>

definition tree_insert :: "u64 \<Rightarrow> u64 \<Rightarrow> u64 \<Rightarrow> tree_t \<Rightarrow> (bool \<times> tree_t) option" where
  "tree_insert z key record t = do {
     (found, p, t) \<leftarrow> insert_walk key (t_root t) NULL t;
     if found then Some (False, t)
     else do {
       guard (z \<noteq> NULL);
       let t = t\<lparr>t_store := (t_store t)(z \<mapsto>
         \<lparr>n_left = NULL, n_right = NULL, n_parent = p, n_key = key, n_record = record\<rparr>)\<rparr>;
       t \<leftarrow> link_new p z t;
       t \<leftarrow> splay z t;
       Some (True, t\<lparr>t_node_count := t_node_count t + 1\<rparr>)
     }
   }"

partial_function (option) tree_find_from :: "u64 \<Rightarrow> u64 \<Rightarrow> tree_t \<Rightarrow> (u64 \<times> tree_t) option" where
  "tree_find_from key z t =
     (if z = NULL then Some (NULL, t)
      else do {
        let t = compared t;
        k \<leftarrow> fld n_key z t;
        if key = k then do { r \<leftarrow> fld n_record z t; Some (r, t) }
        else do {
          let t = compared t;
          z' \<leftarrow> child key k z t;
          tree_find_from key z' t
        }
      })"

definition tree_find :: "u64 \<Rightarrow> tree_t \<Rightarrow> (u64 \<times> tree_t) option" where
  "tree_find key t = tree_find_from key (t_root t) t"

partial_function (option) nearest_from :: "u64 \<Rightarrow> u64 \<Rightarrow> u64 \<Rightarrow> tree_t \<Rightarrow> (u64 \<times> tree_t) option" where
  "nearest_from key z n t =
     (if z = NULL then
        if n \<noteq> NULL then do { r \<leftarrow> fld n_record n t; Some (r, t) } else Some (NULL, t)
      else do {
        let t = compared t;
        k \<leftarrow> fld n_key z t;
        if key = k then do { r \<leftarrow> fld n_record z t; Some (r, t) }
        else do {
          let t = compared t;
          if sint k < sint key then do {
            n \<leftarrow> (if n = NULL then Some z
              else do { nk \<leftarrow> fld n_key n t; Some (if sint nk < sint k then z else n) });
            z' \<leftarrow> fld n_right z t;
            nearest_from key z' n t
          } else do {
            z' \<leftarrow> fld n_left z t;
            nearest_from key z' n t
          }
        }
      })"

definition tree_find_nearest :: "u64 \<Rightarrow> tree_t \<Rightarrow> (u64 \<times> tree_t) option" where
  "tree_find_nearest key t = nearest_from key (t_root t) NULL t"

partial_function (option) remove_walk :: "u64 \<Rightarrow> u64 \<Rightarrow> tree_t \<Rightarrow> (u64 \<times> tree_t) option" where
  "remove_walk key z t =
     (if z = NULL then Some (z, t)
      else do {
        k \<leftarrow> fld n_key z t;
        if k = key then Some (z, t)
        else do {
          let t = compared t;
          z' \<leftarrow> child key k z t;
          remove_walk key z' t
        }
      })"

partial_function (option) subtree_minimum :: "u64 \<Rightarrow> tree_t \<Rightarrow> u64 option" where
  "subtree_minimum u t = do {
     l \<leftarrow> fld n_left u t;
     if l \<noteq> NULL then subtree_minimum l t else Some u
   }"

partial_function (option) subtree_maximum :: "u64 \<Rightarrow> tree_t \<Rightarrow> u64 option" where
  "subtree_maximum u t = do {
     r \<leftarrow> fld n_right u t;
     if r \<noteq> NULL then subtree_maximum r t else Some u
   }"

text \<open>The node \<open>z\<close> at the root is taken out: by its only subtree, or by the least node on its right.\<close>

definition hoist :: "u64 \<Rightarrow> u64 \<Rightarrow> tree_t \<Rightarrow> tree_t option" where
  "hoist z y t = do {
     t \<leftarrow> replace z y t;
     zl \<leftarrow> fld n_left z t;
     t \<leftarrow> set_left y zl t;
     yl \<leftarrow> fld n_left y t;
     set_parent yl y t
   }"

definition lift_min :: "u64 \<Rightarrow> u64 \<Rightarrow> tree_t \<Rightarrow> tree_t option" where
  "lift_min z y t = do {
     yr \<leftarrow> fld n_right y t;
     t \<leftarrow> replace y yr t;
     zr \<leftarrow> fld n_right z t;
     t \<leftarrow> set_right y zr t;
     yr \<leftarrow> fld n_right y t;
     set_parent yr y t
   }"

definition take_out :: "u64 \<Rightarrow> tree_t \<Rightarrow> tree_t option" where
  "take_out z t = do {
     zl \<leftarrow> fld n_left z t;
     zr \<leftarrow> fld n_right z t;
     if zl = NULL then replace z zr t
     else if zr = NULL then replace z zl t
     else do {
       y \<leftarrow> subtree_minimum zr t;
       yp \<leftarrow> fld n_parent y t;
       t \<leftarrow> (if yp \<noteq> z then lift_min z y t else Some t);
       hoist z y t
     }
   }"

definition tree_remove :: "u64 \<Rightarrow> tree_t \<Rightarrow> (u64 \<times> tree_t) option" where
  "tree_remove key t = do {
     (z, t) \<leftarrow> remove_walk key (t_root t) t;
     if z = NULL then Some (NULL, t)
     else do {
       t \<leftarrow> splay z t;
       t \<leftarrow> take_out z t;
       r \<leftarrow> fld n_record z t;
       Some (r, t\<lparr>t_node_count := t_node_count t - 1, t_store := (t_store t)(z := None)\<rparr>)
     }
   }"

text \<open>\<open>tree_free\<close>: the records handed to \<open>free_fun\<close>, in order, and what is left of the store.\<close>

partial_function (option) free_subtree :: "u64 \<Rightarrow> tree_t \<Rightarrow> (u64 list \<times> tree_t) option" where
  "free_subtree x t =
     (if x = NULL then Some ([], t)
      else do {
        l \<leftarrow> fld n_left x t;
        (rs1, t) \<leftarrow> free_subtree l t;
        r \<leftarrow> fld n_right x t;
        (rs2, t) \<leftarrow> free_subtree r t;
        rec \<leftarrow> fld n_record x t;
        Some (rs1 @ rs2 @ [rec], t\<lparr>t_store := (t_store t)(x := None)\<rparr>)
      })"

definition tree_free :: "tree_t \<Rightarrow> (u64 list \<times> tree_t) option" where
  "tree_free t = (if t_root t \<noteq> NULL then free_subtree (t_root t) t else Some ([], t))"

end
