(* ===== verification/Stree_Splay.thy ===== *)
theory Stree_Splay
  imports Stree "HOL-Library.Tree" "HOL-Library.Multiset"
begin

text \<open>
  The tree that the store of \<open>stree.c\<close> represents, positions in it, and what the rotations and
  \<open>splay\<close> do to it: the node that is splayed comes to the root, and the order of the nodes, their keys
  and their records stay as they are.
\<close>

section \<open>The tree a store represents\<close>

text \<open>Trees of addresses, and positions in them: the way up from a subtree.\<close>

fun addr :: "u64 tree \<Rightarrow> u64" where
  "addr Leaf = NULL" | "addr (Node l a r) = a"

datatype up = LeftOf u64 "u64 tree" | RightOf "u64 tree" u64

fun plug :: "up list \<Rightarrow> u64 tree \<Rightarrow> u64 tree" where
  "plug [] s = s"
| "plug (LeftOf a r # c) s = plug c (Node s a r)"
| "plug (RightOf l a # c) s = plug c (Node l a s)"

fun above :: "up list \<Rightarrow> u64" where
  "above [] = NULL" | "above (LeftOf a r # c) = a" | "above (RightOf l a # c) = a"

fun before :: "up list \<Rightarrow> u64 list" where
  "before [] = []" | "before (LeftOf a r # c) = before c" | "before (RightOf l a # c) = before c @ inorder l @ [a]"

fun after :: "up list \<Rightarrow> u64 list" where
  "after [] = []" | "after (LeftOf a r # c) = a # inorder r @ after c" | "after (RightOf l a # c) = after c"

text \<open>The nodes of a subtree below the parent \<open>p\<close>, and those around a hole that is filled with \<open>h\<close>.\<close>

type_synonym store = "u64 \<rightharpoonup> node_t"

definition linked :: "store \<Rightarrow> u64 \<Rightarrow> u64 \<Rightarrow> u64 \<Rightarrow> u64 \<Rightarrow> bool" where
  "linked m a l r p \<longleftrightarrow> (case m a of None \<Rightarrow> False | Some n \<Rightarrow> n_left n = l \<and> n_right n = r \<and> n_parent n = p)"

fun below :: "store \<Rightarrow> u64 \<Rightarrow> u64 tree \<Rightarrow> bool" where
  "below m p Leaf \<longleftrightarrow> True"
| "below m p (Node l a r) \<longleftrightarrow> linked m a (addr l) (addr r) p \<and> below m a l \<and> below m a r"

fun around :: "store \<Rightarrow> u64 \<Rightarrow> up list \<Rightarrow> u64 \<Rightarrow> bool" where
  "around m rt [] h \<longleftrightarrow> rt = h"
| "around m rt (LeftOf a r # c) h \<longleftrightarrow> linked m a h (addr r) (above c) \<and> below m a r \<and> around m rt c a"
| "around m rt (RightOf l a # c) h \<longleftrightarrow> linked m a (addr l) h (above c) \<and> below m a l \<and> around m rt c a"

definition trep :: "tree_t \<Rightarrow> u64 tree \<Rightarrow> bool" where
  "trep t W \<longleftrightarrow> below (t_store t) NULL W \<and> t_root t = addr W \<and> distinct (inorder W) \<and> NULL \<notin> set (inorder W) \<and>
     dom (t_store t) = set (inorder W)"

lemma inorder_plug: "inorder (plug c s) = before c @ inorder s @ after c"
  by (induction c s rule: plug.induct) simp_all

lemma plug_not_Leaf: "s \<noteq> Leaf \<Longrightarrow> plug c s \<noteq> Leaf"
  by (induction c s rule: plug.induct) simp_all

lemma plug_append: "plug (c @ d) s = plug d (plug c s)"
  by (induction c s rule: plug.induct) simp_all

lemma before_append: "before (c @ d) = before d @ before c"
  by (induction c rule: before.induct) simp_all

lemma after_append: "after (c @ d) = after c @ after d"
  by (induction c rule: after.induct) simp_all

lemma set_plug [simp]: "set_tree (plug c s) = set (before c) \<union> set_tree s \<union> set (after c)"
  using inorder_plug [of c s] set_inorder [of "plug c s"] by auto

lemma below_plug:
  "below m NULL (plug c s) \<and> rt = addr (plug c s) \<longleftrightarrow> below m (above c) s \<and> around m rt c (addr s)"
  by (induction c s rule: plug.induct) auto

lemma trep_plug:
  "trep t (plug c s) \<longleftrightarrow> below (t_store t) (above c) s \<and> around (t_store t) (t_root t) c (addr s) \<and>
     distinct (before c @ inorder s @ after c) \<and> NULL \<notin> set (before c @ inorder s @ after c) \<and>
     dom (t_store t) = set (before c @ inorder s @ after c)"
  using below_plug [of "t_store t" c s "t_root t"] by (auto simp: trep_def inorder_plug)

lemma linked_cong: "m' a = m a \<Longrightarrow> linked m' a = linked m a"
  by (simp add: linked_def fun_eq_iff)

lemma linked_upd [simp]:
  "linked (m(a \<mapsto> n)) b l r p = (if b = a then n_left n = l \<and> n_right n = r \<and> n_parent n = p else linked m b l r p)"
  by (simp add: linked_def)

lemma linked_dom: "linked m a l r p \<Longrightarrow> a \<in> dom m"
  by (auto simp: linked_def split: option.splits)

lemma linkedE:
  assumes "linked m a l r p"
  obtains n where "m a = Some n" "n_left n = l" "n_right n = r" "n_parent n = p"
  using assms by (auto simp: linked_def split: option.splits)

lemma below_cong: "(\<And>b. b \<in> set (inorder s) \<Longrightarrow> m' b = m b) \<Longrightarrow> below m' p s = below m p s"
proof (induction m p s rule: below.induct)
  case (2 m p l a r)
  then show ?case
    by (simp add: linked_cong [where m = m and m' = m'])
qed simp

lemma around_cong:
  "(\<And>b. b \<in> set (before c) \<union> set (after c) \<Longrightarrow> m' b = m b) \<Longrightarrow> around m' rt c h = around m rt c h"
proof (induction m rt c h rule: around.induct)
  case (2 m rt a r c h)
  then have "below m' a r = below m a r"
    by (intro below_cong) simp
  moreover have "around m' rt c a = around m rt c a"
    using 2 by (intro 2(1)) auto
  ultimately show ?case
    using 2 by (simp add: linked_cong [where m = m and m' = m'])
next
  case (3 m rt l a c h)
  then have "below m' a l = below m a l"
    by (intro below_cong) simp
  moreover have "around m' rt c a = around m rt c a"
    using 3 by (intro 3(1)) auto
  ultimately show ?case
    using 3 by (simp add: linked_cong [where m = m and m' = m'])
qed simp

lemma below_upd [simp]: "b \<notin> set (inorder s) \<Longrightarrow> below (m(b \<mapsto> n)) p s = below m p s"
  by (rule below_cong) auto

lemma around_upd [simp]:
  "b \<notin> set (before c) \<Longrightarrow> b \<notin> set (after c) \<Longrightarrow> around (m(b \<mapsto> n)) rt c h = around m rt c h"
  by (rule around_cong) auto

lemma addr_in: "s \<noteq> Leaf \<Longrightarrow> addr s \<in> set (inorder s)"
  by (cases s) auto

lemma above_in: "c \<noteq> [] \<Longrightarrow> above c \<in> set (before c) \<union> set (after c)"
  by (cases c rule: above.cases) auto

lemma addr_NULL: "NULL \<notin> set (inorder s) \<Longrightarrow> addr s = NULL \<longleftrightarrow> s = Leaf"
  by (cases s) auto

lemma above_NULL: "NULL \<notin> set (before c) \<union> set (after c) \<Longrightarrow> above c = NULL \<longleftrightarrow> c = []"
  by (cases c rule: above.cases) auto

text \<open>What the pointer surgery leaves alone: keys, records and the counters.\<close>

definition kr :: "store \<Rightarrow> u64 \<rightharpoonup> u64 \<times> u64" where
  "kr m b = map_option (\<lambda>n. (n_key n, n_record n)) (m b)"

definition same_data :: "tree_t \<Rightarrow> tree_t \<Rightarrow> bool" where
  "same_data t t' \<longleftrightarrow> kr (t_store t') = kr (t_store t) \<and> t_node_count t' = t_node_count t \<and>
     t_comparisons t' = t_comparisons t"

lemma same_data_refl [simp]: "same_data t t"
  by (simp add: same_data_def)

lemma same_data_trans: "same_data t t' \<Longrightarrow> same_data t' t'' \<Longrightarrow> same_data t t''"
  by (simp add: same_data_def)

lemma dom_kr [simp]: "dom (kr m) = dom m"
  by (auto simp: kr_def)

lemma same_data_upd:
  "t_store t a = Some n \<Longrightarrow> n_key n' = n_key n \<Longrightarrow> n_record n' = n_record n \<Longrightarrow>
    same_data t (t\<lparr>t_store := (t_store t)(a \<mapsto> n')\<rparr>)"
  by (auto simp: same_data_def kr_def fun_eq_iff)

lemma same_data_dom: "same_data t t' \<Longrightarrow> dom (t_store t') = dom (t_store t)"
  using dom_kr [of "t_store t"] dom_kr [of "t_store t'"] by (simp add: same_data_def)

lemma kr_upd [simp]: "kr (m(a \<mapsto> n)) = (kr m)(a \<mapsto> (n_key n, n_record n))"
  by (simp add: kr_def fun_eq_iff)

text \<open>The change of one link.\<close>

lemma relink_to:
  assumes "around (t_store t) (t_root t) c u" "u \<noteq> NULL" "u \<notin> set (before c) \<union> set (after c)"
    and "NULL \<notin> set (before c) \<union> set (after c)" "distinct (before c @ after c)"
    and "t_store t u = Some nu" "n_parent nu = above c"
  obtains t' where "relink u v t = Some t'" "around (t_store t') (t_root t') c v" "same_data t t'"
    "\<And>b. b \<notin> set (before c) \<union> set (after c) \<Longrightarrow> t_store t' b = t_store t b"
proof (cases c rule: above.cases)
  case 1
  then show ?thesis
    using assms that [of "t\<lparr>t_root := v\<rparr>"] by (auto simp: relink_def fld_def same_data_def)
next
  case (2 a r c')
  then have l: "linked (t_store t) a u (addr r) (above c')"
    using assms(1) by simp
  then obtain n where n: "t_store t a = Some n" "n_left n = u" "n_right n = addr r" "n_parent n = above c'"
    by (rule linkedE)
  show ?thesis
  proof (rule that)
    show "relink u v t = Some (t\<lparr>t_store := (t_store t)(a \<mapsto> n\<lparr>n_left := v\<rparr>)\<rparr>)"
      using assms 2 n by (simp add: relink_def fld_def set_left_def upd_def)
  qed (use assms 2 n in \<open>auto simp: same_data_def kr_def fun_eq_iff\<close>)
next
  case (3 l a c')
  then have l: "linked (t_store t) a (addr l) u (above c')"
    using assms(1) by simp
  then obtain n where n: "t_store t a = Some n" "n_left n = addr l" "n_right n = u" "n_parent n = above c'"
    by (rule linkedE)
  have u: "u \<noteq> addr l"
    using assms(2,3) 3 addr_in [of l] by (cases "l = Leaf") auto
  show ?thesis
  proof (rule that)
    show "relink u v t = Some (t\<lparr>t_store := (t_store t)(a \<mapsto> n\<lparr>n_right := v\<rparr>)\<rparr>)"
      using assms 3 n u by (simp add: relink_def fld_def set_right_def upd_def)
  qed (use assms 3 n in \<open>auto simp: same_data_def kr_def fun_eq_iff\<close>)
qed

text \<open>The subtree at \<open>s\<close> gets a new parent.\<close>

lemma below_parent:
  assumes "below m p s" "distinct (inorder s)" "s \<noteq> Leaf" "m (addr s) = Some n"
  shows "below (m(addr s \<mapsto> n\<lparr>n_parent := q\<rparr>)) q s"
  using assms by (cases s) (auto simp: linked_def)

section \<open>Rotations and splaying\<close>

lemma upd_Some: "t_store t a = Some n \<Longrightarrow> upd f a t = Some (t\<lparr>t_store := (t_store t)(a \<mapsto> f n)\<rparr>)"
  by (simp add: upd_def)

lemma fld_Some: "t_store t a = Some n \<Longrightarrow> fld f a t = Some (f n)"
  by (simp add: fld_def)

lemmas set_defs = set_left_def set_right_def set_parent_def

text \<open>A subtree moves below another parent: the pointer of its root, if it has one.\<close>

lemma move_below:
  assumes "below (t_store t) p s" "distinct (inorder s)" "NULL \<notin> set (inorder s)"
  obtains t' where "(if addr s \<noteq> NULL then set_parent (addr s) q t else Some t) = Some t'"
    "below (t_store t') q s" "same_data t t'" "t_root t' = t_root t"
    "\<And>b. b \<notin> set (inorder s) \<Longrightarrow> t_store t' b = t_store t b"
proof (cases s)
  case Leaf
  then show ?thesis
    using that [of t] by simp
next
  case (Node l a r)
  then have "linked (t_store t) a (addr l) (addr r) p"
    using assms by simp
  then obtain n where n: "t_store t a = Some n"
    by (rule linkedE)
  show ?thesis
  proof (rule that)
    show "(if addr s \<noteq> NULL then set_parent (addr s) q t else Some t) =
        Some (t\<lparr>t_store := (t_store t)(a \<mapsto> n\<lparr>n_parent := q\<rparr>)\<rparr>)"
      using assms Node n by (auto simp: set_parent_def upd_Some)
    show "below (t_store (t\<lparr>t_store := (t_store t)(a \<mapsto> n\<lparr>n_parent := q\<rparr>)\<rparr>)) q s"
      using below_parent [of "t_store t" p s n q] assms Node n by simp
  qed (use Node n in \<open>auto simp: same_data_def kr_def fun_eq_iff\<close>)
qed

lemma left_rotate_at:
  assumes t: "trep t (plug c (Node l x (Node yl y yr)))"
  obtains t' where "left_rotate x t = Some t'" "trep t' (plug c (Node (Node l x yl) y yr))" "same_data t t'"
proof -
  note D = t [unfolded trep_plug]
  obtain nx where nx: "t_store t x = Some nx" "n_left nx = addr l" "n_right nx = y" "n_parent nx = above c"
    using D by (auto simp: linked_def split: option.splits)
  obtain ny where ny: "t_store t y = Some ny" "n_left ny = addr yl" "n_right ny = addr yr" "n_parent ny = x"
    using D by (auto simp: linked_def split: option.splits)
  let ?t1 = "t\<lparr>t_store := (t_store t)(x \<mapsto> nx\<lparr>n_right := addr yl\<rparr>)\<rparr>"
  have "below (t_store ?t1) y yl"
    using D by simp
  from move_below [OF this, of x] D obtain t2 where
    t2: "(if addr yl \<noteq> NULL then set_parent (addr yl) x ?t1 else Some ?t1) = Some t2"
      "below (t_store t2) x yl" "same_data ?t1 t2" "t_root t2 = t_root t"
      "\<And>b. b \<notin> set (inorder yl) \<Longrightarrow> t_store t2 b = t_store ?t1 b"
    by auto
  let ?t3 = "t2\<lparr>t_store := (t_store t2)(y \<mapsto> ny\<lparr>n_parent := above c\<rparr>)\<rparr>"
  have at: "t_store t2 x = Some (nx\<lparr>n_right := addr yl\<rparr>)" "t_store t2 y = Some ny"
    using D t2(5) nx ny by auto
  have xy: "y \<noteq> NULL" "x \<noteq> NULL" "x \<noteq> y"
    using D by auto
  have eq: "left_rotate x t = relink x y ?t3 \<bind> (\<lambda>t. set_left y x t \<bind> set_parent x y)"
    using xy nx ny t2(1) at by (simp add: left_rotate_def set_right_def set_parent_def [of y] fld_Some upd_Some)
  have off: "b \<notin> set_tree yl \<and> b \<noteq> x \<and> b \<noteq> y" if "b \<in> set (before c) \<union> set (after c) \<union> set_tree l \<union> set_tree yr" for b
    using D that by auto
  have yl: "b \<noteq> x \<and> b \<noteq> y \<and> b \<notin> set (before c) \<union> set (after c)" if "b \<in> set_tree yl" for b
    using D that by auto
  have out: "b \<notin> set (before c) \<and> b \<notin> set (after c)" if "b \<in> set_tree l \<union> set_tree yr" for b
    using D that by auto
  have "around (t_store ?t3) (t_root t) c x = around (t_store t) (t_root t) c x"
    by (rule around_cong) (simp add: off t2(5))
  then have "around (t_store ?t3) (t_root ?t3) c x"
    using D t2(4) by simp
  then obtain t4 where t4: "relink x y ?t3 = Some t4" "around (t_store t4) (t_root t4) c y" "same_data ?t3 t4"
      "\<And>b. b \<notin> set (before c) \<union> set (after c) \<Longrightarrow> t_store t4 b = t_store ?t3 b"
    by (rule relink_to [where nu = "nx\<lparr>n_right := addr yl\<rparr>" and v = y]) (use D xy nx(4) at(1) in auto)
  define t' where "t' = t4\<lparr>t_store := (t_store t4)(y \<mapsto> ny\<lparr>n_parent := above c, n_left := x\<rparr>,
    x \<mapsto> nx\<lparr>n_right := addr yl, n_parent := y\<rparr>)\<rparr>"
  have at4: "t_store t4 y = Some (ny\<lparr>n_parent := above c\<rparr>)" "t_store t4 x = Some (nx\<lparr>n_right := addr yl\<rparr>)"
    using D t4(4) xy at by auto
  have l: "left_rotate x t = Some t'"
    using xy by (simp add: eq t4(1) set_defs upd_Some at4 t'_def)
  have s: "same_data t t'"
    using t2(3) t4(3) nx(1) ny(1) at xy by (auto simp: same_data_def t'_def fun_eq_iff kr_def)
  have "below (t_store t') x l = below (t_store t) x l" "below (t_store t') y yr = below (t_store t) y yr"
    by (rule below_cong; simp add: t'_def off out t2(5) t4(4))+
  moreover have "below (t_store t') x yl = below (t_store t2) x yl"
    by (rule below_cong) (use yl t4(4) in \<open>auto simp: t'_def\<close>)
  ultimately have "below (t_store t') x l" "below (t_store t') x yl" "below (t_store t') y yr"
    using D t2(2) by auto
  then have "trep t' (plug c (Node (Node l x yl) y yr))"
    using D t4(2) nx ny xy same_data_dom [OF s] unfolding trep_plug by (auto simp: t'_def)
  with l s show ?thesis
    using that by blast
qed
lemma right_rotate_at:
  assumes t: "trep t (plug c (Node (Node yl y yr) x r))"
  obtains t' where "right_rotate x t = Some t'" "trep t' (plug c (Node yl y (Node yr x r)))" "same_data t t'"
proof -
  note D = t [unfolded trep_plug]
  obtain nx where nx: "t_store t x = Some nx" "n_right nx = addr r" "n_left nx = y" "n_parent nx = above c"
    using D by (auto simp: linked_def split: option.splits)
  obtain ny where ny: "t_store t y = Some ny" "n_right ny = addr yr" "n_left ny = addr yl" "n_parent ny = x"
    using D by (auto simp: linked_def split: option.splits)
  let ?t1 = "t\<lparr>t_store := (t_store t)(x \<mapsto> nx\<lparr>n_left := addr yr\<rparr>)\<rparr>"
  have "below (t_store ?t1) y yr"
    using D by simp
  from move_below [OF this, of x] D obtain t2 where
    t2: "(if addr yr \<noteq> NULL then set_parent (addr yr) x ?t1 else Some ?t1) = Some t2"
      "below (t_store t2) x yr" "same_data ?t1 t2" "t_root t2 = t_root t"
      "\<And>b. b \<notin> set (inorder yr) \<Longrightarrow> t_store t2 b = t_store ?t1 b"
    by auto
  let ?t3 = "t2\<lparr>t_store := (t_store t2)(y \<mapsto> ny\<lparr>n_parent := above c\<rparr>)\<rparr>"
  have at: "t_store t2 x = Some (nx\<lparr>n_left := addr yr\<rparr>)" "t_store t2 y = Some ny"
    using D t2(5) nx ny by auto
  have xy: "y \<noteq> NULL" "x \<noteq> NULL" "x \<noteq> y"
    using D by auto
  have eq: "right_rotate x t = relink x y ?t3 \<bind> (\<lambda>t. set_right y x t \<bind> set_parent x y)"
    using xy nx ny t2(1) at by (simp add: right_rotate_def set_left_def set_parent_def [of y] fld_Some upd_Some)
  have off: "b \<notin> set_tree yr \<and> b \<noteq> x \<and> b \<noteq> y" if "b \<in> set (before c) \<union> set (after c) \<union> set_tree r \<union> set_tree yl" for b
    using D that by auto
  have yr: "b \<noteq> x \<and> b \<noteq> y \<and> b \<notin> set (before c) \<union> set (after c)" if "b \<in> set_tree yr" for b
    using D that by auto
  have out: "b \<notin> set (before c) \<and> b \<notin> set (after c)" if "b \<in> set_tree r \<union> set_tree yl" for b
    using D that by auto
  have "around (t_store ?t3) (t_root t) c x = around (t_store t) (t_root t) c x"
    by (rule around_cong) (simp add: off t2(5))
  then have "around (t_store ?t3) (t_root ?t3) c x"
    using D t2(4) by simp
  then obtain t4 where t4: "relink x y ?t3 = Some t4" "around (t_store t4) (t_root t4) c y" "same_data ?t3 t4"
      "\<And>b. b \<notin> set (before c) \<union> set (after c) \<Longrightarrow> t_store t4 b = t_store ?t3 b"
    by (rule relink_to [where nu = "nx\<lparr>n_left := addr yr\<rparr>" and v = y]) (use D xy nx(4) at(1) in auto)
  define t' where "t' = t4\<lparr>t_store := (t_store t4)(y \<mapsto> ny\<lparr>n_parent := above c, n_right := x\<rparr>,
    x \<mapsto> nx\<lparr>n_left := addr yr, n_parent := y\<rparr>)\<rparr>"
  have at4: "t_store t4 y = Some (ny\<lparr>n_parent := above c\<rparr>)" "t_store t4 x = Some (nx\<lparr>n_left := addr yr\<rparr>)"
    using D t4(4) xy at by auto
  have r: "right_rotate x t = Some t'"
    using xy by (simp add: eq t4(1) set_defs upd_Some at4 t'_def)
  have s: "same_data t t'"
    using t2(3) t4(3) nx(1) ny(1) at xy by (auto simp: same_data_def t'_def fun_eq_iff kr_def)
  have "below (t_store t') x r = below (t_store t) x r" "below (t_store t') y yl = below (t_store t) y yl"
    by (rule below_cong; simp add: t'_def off out t2(5) t4(4))+
  moreover have "below (t_store t') x yr = below (t_store t2) x yr"
    by (rule below_cong) (use yr t4(4) in \<open>auto simp: t'_def\<close>)
  ultimately have "below (t_store t') x r" "below (t_store t') x yr" "below (t_store t') y yl"
    using D t2(2) by auto
  then have "trep t' (plug c (Node yl y (Node yr x r)))"
    using D t4(2) nx ny xy same_data_dom [OF s] unfolding trep_plug by (auto simp: t'_def)
  with r s show ?thesis
    using that by blast
qed

text \<open>What a walk reads at the node in focus.\<close>

lemma focus:
  assumes "trep t (plug c (Node l x r))"
  shows "fld n_left x t = Some (addr l)" "fld n_right x t = Some (addr r)" "fld n_parent x t = Some (above c)"
    "x \<noteq> NULL" "addr l = addr r \<Longrightarrow> addr l = NULL" "c \<noteq> [] \<Longrightarrow> above c \<noteq> NULL"
    "addr l = NULL \<longleftrightarrow> l = Leaf" "addr r = NULL \<longleftrightarrow> r = Leaf"
proof -
  note D = assms [unfolded trep_plug]
  then obtain n where "t_store t x = Some n" "n_left n = addr l" "n_right n = addr r" "n_parent n = above c"
    by (auto simp: linked_def split: option.splits)
  then show "fld n_left x t = Some (addr l)" "fld n_right x t = Some (addr r)" "fld n_parent x t = Some (above c)"
    by (simp_all add: fld_def)
  show "x \<noteq> NULL"
    using D by auto
  show "addr l = NULL \<longleftrightarrow> l = Leaf" "addr r = NULL \<longleftrightarrow> r = Leaf"
    using D by (auto simp: addr_NULL)
  show "c \<noteq> [] \<Longrightarrow> above c \<noteq> NULL"
    using D above_NULL [of c] by auto
  show "addr l = NULL" if "addr l = addr r"
  proof (cases "l = Leaf \<or> r = Leaf")
    case True
    then show ?thesis
      using that by auto
  next
    case False
    then show ?thesis
      using D that addr_in [of l] addr_in [of r] by auto
  qed
qed

lemma splay_top: "trep t (Node l x r) \<Longrightarrow> splay x t = Some t"
  using focus(3) [of t "[]"] by (simp add: splay.simps [of x t])

lemma splay_zig:
  assumes "trep t (plug [LeftOf p rp] (Node l x r))"
  obtains t' where "splay x t = splay x t'" "trep t' (plug [] (Node l x (Node r p rp)))" "same_data t t'"
proof -
  obtain t' where t': "right_rotate p t = Some t'" "trep t' (plug [] (Node l x (Node r p rp)))" "same_data t t'"
    by (rule right_rotate_at [of t "[]" l x r p rp]) (use assms in auto)
  have "splay x t = splay x t'"
    using focus [OF assms] focus [of t "[]" "Node l x r" p rp] assms
    by (simp add: splay.simps [of x t] t')
  with t' show ?thesis
    using that by blast
qed

lemma splay_zag:
  assumes "trep t (plug [RightOf lp p] (Node l x r))"
  obtains t' where "splay x t = splay x t'" "trep t' (plug [] (Node (Node lp p l) x r))" "same_data t t'"
proof -
  obtain t' where t': "left_rotate p t = Some t'" "trep t' (plug [] (Node (Node lp p l) x r))" "same_data t t'"
    by (rule left_rotate_at [of t "[]" lp p l x r]) (use assms in auto)
  have "splay x t = splay x t'"
    using focus [OF assms] focus [of t "[]" lp p "Node l x r"] assms
    by (auto simp add: splay.simps [of x t] t')
  with t' show ?thesis
    using that by blast
qed

lemma splay_zig_zig:
  assumes "trep t (plug (LeftOf p rp # LeftOf g rg # c) (Node l x r))"
  obtains t' where "splay x t = splay x t'" "trep t' (plug c (Node l x (Node r p (Node rp g rg))))" "same_data t t'"
proof -
  obtain t1 where t1: "right_rotate g t = Some t1" "trep t1 (plug c (Node (Node l x r) p (Node rp g rg)))" "same_data t t1"
    by (rule right_rotate_at [of t c "Node l x r" p rp g rg]) (use assms in auto)
  obtain t2 where t2: "right_rotate p t1 = Some t2" "trep t2 (plug c (Node l x (Node r p (Node rp g rg))))" "same_data t1 t2"
    by (rule right_rotate_at [of t1 c l x r p "Node rp g rg"]) (use t1 in auto)
  have "splay x t = splay x t2"
    using focus [OF assms] focus [of t "LeftOf g rg # c" "Node l x r" p rp] focus [of t c "Node (Node l x r) p rp" g rg]
      focus(3) [of t1 "LeftOf p (Node rp g rg) # c" l x r] assms t1
    by (simp add: splay.simps [of x t] t2)
  with t1 t2 show ?thesis
    using that same_data_trans by blast
qed

lemma splay_zag_zag:
  assumes "trep t (plug (RightOf lp p # RightOf lg g # c) (Node l x r))"
  obtains t' where "splay x t = splay x t'" "trep t' (plug c (Node (Node (Node lg g lp) p l) x r))" "same_data t t'"
proof -
  obtain t1 where t1: "left_rotate g t = Some t1" "trep t1 (plug c (Node (Node lg g lp) p (Node l x r)))" "same_data t t1"
    by (rule left_rotate_at [of t c lg g lp p "Node l x r"]) (use assms in auto)
  obtain t2 where t2: "left_rotate p t1 = Some t2" "trep t2 (plug c (Node (Node (Node lg g lp) p l) x r))" "same_data t1 t2"
    by (rule left_rotate_at [of t1 c "Node lg g lp" p l x r]) (use t1 in auto)
  have "splay x t = splay x t2"
    using focus [OF assms] focus [of t "RightOf lg g # c" lp p "Node l x r"] focus [of t c lg g "Node lp p (Node l x r)"]
      focus(3) [of t1 "RightOf (Node lg g lp) p # c" l x r] assms t1
    by (auto simp add: splay.simps [of x t] t2)
  with t1 t2 show ?thesis
    using that same_data_trans by blast
qed

lemma splay_zig_zag:
  assumes "trep t (plug (LeftOf p rp # RightOf lg g # c) (Node l x r))"
  obtains t' where "splay x t = splay x t'" "trep t' (plug c (Node (Node lg g l) x (Node r p rp)))" "same_data t t'"
proof -
  obtain t1 where t1: "right_rotate p t = Some t1" "trep t1 (plug (RightOf lg g # c) (Node l x (Node r p rp)))" "same_data t t1"
    by (rule right_rotate_at [of t "RightOf lg g # c" l x r p rp]) (use assms in auto)
  obtain t2 where t2: "left_rotate g t1 = Some t2" "trep t2 (plug c (Node (Node lg g l) x (Node r p rp)))" "same_data t1 t2"
    by (rule left_rotate_at [of t1 c lg g l x "Node r p rp"]) (use t1 in auto)
  have "splay x t = splay x t2"
    using focus [OF assms] focus [of t "RightOf lg g # c" "Node l x r" p rp] focus [of t c lg g "Node (Node l x r) p rp"]
      focus(3) [of t1 "RightOf lg g # c" l x "Node r p rp"] assms t1
    by (auto simp add: splay.simps [of x t] t2)
  with t1 t2 show ?thesis
    using that same_data_trans by blast
qed

lemma splay_zag_zig:
  assumes "trep t (plug (RightOf lp p # LeftOf g rg # c) (Node l x r))"
  obtains t' where "splay x t = splay x t'" "trep t' (plug c (Node (Node lp p l) x (Node r g rg)))" "same_data t t'"
proof -
  obtain t1 where t1: "left_rotate p t = Some t1" "trep t1 (plug (LeftOf g rg # c) (Node (Node lp p l) x r))" "same_data t t1"
    by (rule left_rotate_at [of t "LeftOf g rg # c" lp p l x r]) (use assms in auto)
  obtain t2 where t2: "right_rotate g t1 = Some t2" "trep t2 (plug c (Node (Node lp p l) x (Node r g rg)))" "same_data t1 t2"
    by (rule right_rotate_at [of t1 c "Node lp p l" x r g rg]) (use t1 in auto)
  have "splay x t = splay x t2"
    using focus [OF assms] focus [of t "LeftOf g rg # c" lp p "Node l x r"] focus [of t c "Node lp p (Node l x r)" g rg]
      focus(3) [of t1 "LeftOf g rg # c" "Node lp p l" x r] assms t1
    by (auto simp add: splay.simps [of x t] t2)
  with t1 t2 show ?thesis
    using that same_data_trans by blast
qed

lemma up_cases:
  obtains (top) "c = []"
  | (zig) p rp where "c = [LeftOf p rp]"
  | (zag) lp p where "c = [RightOf lp p]"
  | (zig_zig) p rp g rg c' where "c = LeftOf p rp # LeftOf g rg # c'"
  | (zag_zag) lp p lg g c' where "c = RightOf lp p # RightOf lg g # c'"
  | (zig_zag) p rp lg g c' where "c = LeftOf p rp # RightOf lg g # c'"
  | (zag_zig) lp p g rg c' where "c = RightOf lp p # LeftOf g rg # c'"
  by (metis list.exhaust up.exhaust)

lemma splay_to_top:
  assumes "trep t (plug c (Node l x r))"
  shows "\<exists>t' l' r'. splay x t = Some t' \<and> trep t' (Node l' x r') \<and>
    inorder (Node l' x r') = inorder (plug c (Node l x r)) \<and> same_data t t'"
  using assms
proof (induction "length c" arbitrary: c l r t rule: less_induct)
  case less
  have "\<exists>t' l' r'. splay x t = Some t' \<and> trep t' (Node l' x r') \<and>
      inorder (Node l' x r') = inorder (plug c (Node l x r)) \<and> same_data t t'"
    if "splay x t = splay x t1" "trep t1 (plug c1 (Node l1 x r1))" "same_data t t1" "length c1 < length c"
      "inorder (plug c1 (Node l1 x r1)) = inorder (plug c (Node l x r))" for t1 c1 l1 r1
    using less(1) [OF that(4,2)] that same_data_trans by metis
  note step = this
  show ?case
  proof (cases c rule: up_cases)
    case top
    then show ?thesis
      using less(2) splay_top by fastforce
  next
    case (zig p rp)
    show ?thesis
      by (rule splay_zig [OF less(2) [unfolded zig]], rule step, assumption, assumption, assumption)
        (simp_all add: zig inorder_plug)
  next
    case (zag lp p)
    show ?thesis
      by (rule splay_zag [OF less(2) [unfolded zag]], rule step, assumption, assumption, assumption)
        (simp_all add: zag inorder_plug)
  next
    case (zig_zig p rp g rg c')
    show ?thesis
      by (rule splay_zig_zig [OF less(2) [unfolded zig_zig]], rule step, assumption, assumption, assumption)
        (simp_all add: zig_zig inorder_plug)
  next
    case (zag_zag lp p lg g c')
    show ?thesis
      by (rule splay_zag_zag [OF less(2) [unfolded zag_zag]], rule step, assumption, assumption, assumption)
        (simp_all add: zag_zag inorder_plug)
  next
    case (zig_zag p rp lg g c')
    show ?thesis
      by (rule splay_zig_zag [OF less(2) [unfolded zig_zag]], rule step, assumption, assumption, assumption)
        (simp_all add: zig_zag inorder_plug)
  next
    case (zag_zig lp p g rg c')
    show ?thesis
      by (rule splay_zag_zig [OF less(2) [unfolded zag_zig]], rule step, assumption, assumption, assumption)
        (simp_all add: zag_zig inorder_plug)
  qed
qed

lemma position:
  assumes "x \<in> set_tree W"
  shows "\<exists>c l r. W = plug c (Node l x r)"
  using assms
proof (induction W)
  case (Node l a r)
  then consider "x = a" | c l' r' where "l = plug c (Node l' x r')" | c l' r' where "r = plug c (Node l' x r')"
    by auto
  then show ?case
  proof cases
    case 1
    then show ?thesis
      by (metis plug.simps(1))
  next
    case (2 c l' r')
    then have "Node l a r = plug (c @ [LeftOf a r]) (Node l' x r')"
      by (simp add: plug_append)
    then show ?thesis
      by blast
  next
    case (3 c l' r')
    then have "Node l a r = plug (c @ [RightOf l a]) (Node l' x r')"
      by (simp add: plug_append)
    then show ?thesis
      by blast
  qed
qed simp

text \<open>C31: splay ends. Called on any node of a well linked tree it never follows a pointer out of the
  tree and brings that node to the root; the order of the nodes, their keys and records and the counters stay.\<close>
theorem splay_ends:
  "trep t W \<Longrightarrow> x \<in> set_tree W \<Longrightarrow>
    \<exists>t' l r. splay x t = Some t' \<and> trep t' (Node l x r) \<and> inorder (Node l x r) = inorder W \<and> same_data t t'"
  using position [of x W] splay_to_top [of t] by metis

text \<open>A chain of three nodes, from its lowest one.\<close>

definition chain3 :: tree_t where
  "chain3 = \<lparr>t_store = [16 \<mapsto> \<lparr>n_left = 32, n_right = NULL, n_parent = NULL, n_key = 9, n_record = 1\<rparr>,
     32 \<mapsto> \<lparr>n_left = 48, n_right = NULL, n_parent = 16, n_key = 5, n_record = 2\<rparr>,
     48 \<mapsto> \<lparr>n_left = NULL, n_right = NULL, n_parent = 32, n_key = 1, n_record = 3\<rparr>],
     t_root = 16, t_node_count = 3, t_comparisons = 0\<rparr>"

lemma splay_ends_witness:
  "\<exists>t' l r. splay 48 chain3 = Some t' \<and> trep t' (Node l 48 r) \<and> inorder (Node l 48 r) = [48, 32, 16] \<and> same_data chain3 t'"
  using splay_ends [of chain3 "Node (Node (Node Leaf 48 Leaf) 32 Leaf) 16 Leaf" 48]
  by (auto simp add: trep_def chain3_def linked_def)

end
