(* ===== verification/Stree_Map.thy ===== *)
theory Stree_Map
  imports Stree_Splay
begin

text \<open>
  The splay tree of \<open>stree.c\<close> as a dictionary: the map from keys to records it stands for, and what
  each call does to that map. An interface (a locale) states what a client relies on.
\<close>

section \<open>Walking down\<close>

definition skey :: "store \<Rightarrow> u64 \<Rightarrow> int" where
  "skey m a = (case kr m a of None \<Rightarrow> 0 | Some (k, r) \<Rightarrow> sint k)"

definition ascending :: "store \<Rightarrow> u64 list \<Rightarrow> bool" where
  "ascending m as \<longleftrightarrow> sorted_wrt (\<lambda>a b. skey m a < skey m b) as"

text \<open>The way a key is looked for: the position where the walk ends, an empty one or the key's node.\<close>

fun seek :: "int \<Rightarrow> store \<Rightarrow> up list \<Rightarrow> u64 tree \<Rightarrow> up list \<times> u64 tree" where
  "seek k m c Leaf = (c, Leaf)"
| "seek k m c (Node l a r) =
     (if skey m a = k then (c, Node l a r)
      else if skey m a < k then seek k m (RightOf l a # c) r
      else seek k m (LeftOf a r # c) l)"

definition narrowed :: "int \<Rightarrow> store \<Rightarrow> up list \<Rightarrow> bool" where
  "narrowed k m c \<longleftrightarrow> (\<forall>a\<in>set (before c). skey m a < k) \<and> (\<forall>a\<in>set (after c). k < skey m a)"

lemma seek_position:
  assumes "seek k m c s = (c', s')" "ascending m (before c @ inorder s @ after c)" "narrowed k m c"
  shows "plug c' s' = plug c s \<and> narrowed k m c' \<and> (case s' of Leaf \<Rightarrow> True | Node l a r \<Rightarrow> skey m a = k)"
  using assms
proof (induction k m c s rule: seek.induct)
  case (2 k m c l a r)
  have lr: "\<forall>b\<in>set (inorder l). skey m b < skey m a" "\<forall>b\<in>set (inorder r). skey m a < skey m b"
    using 2(4) by (auto simp: ascending_def sorted_wrt_append)
  show ?case
  proof (cases "skey m a" k rule: linorder_cases)
    case less
    then have "narrowed k m (RightOf l a # c)"
      using 2(5) lr(1) order.strict_trans by (auto simp: narrowed_def simp del: set_inorder)
    then show ?thesis
      using 2(1,3,4) less by simp
  next
    case equal
    then show ?thesis
      using 2(3,5) by auto
  next
    case greater
    then have "narrowed k m (LeftOf a r # c)"
      using 2(5) lr(2) order.strict_trans by (auto simp: narrowed_def simp del: set_inorder)
    then show ?thesis
      using 2(2,3,4) greater by simp
  qed
qed simp

lemma seek_from_root:
  assumes "seek k m [] W = (c, s)" "ascending m (inorder W)"
  shows "plug c s = W" "narrowed k m c" "case s of Leaf \<Rightarrow> True | Node l a r \<Rightarrow> skey m a = k"
  using seek_position [OF assms(1)] assms(2) by (simp_all add: narrowed_def)

lemma trep_same_nodes: "t_store t' = t_store t \<Longrightarrow> t_root t' = t_root t \<Longrightarrow> trep t' W = trep t W"
  by (simp add: trep_def)

lemma focus_key:
  assumes "trep t (plug c (Node l a r))"
  obtains k v where "fld n_key a t = Some k" "fld n_record a t = Some v" "kr (t_store t) a = Some (k, v)"
    "skey (t_store t) a = sint k"
proof -
  have "a \<in> dom (t_store t)"
    using assms by (auto simp: trep_plug)
  then show ?thesis
    using that by (auto simp: fld_def kr_def skey_def)
qed

lemma sint_less_or: "sint (k::u64) < sint j \<Longrightarrow> k \<noteq> j" "sint (k::u64) = sint j \<Longrightarrow> k = j"
  by (auto simp: signed_word_eqI)

lemma compared_simps [simp]:
  "fld f b (compared t) = fld f b t" "t_store (compared t) = t_store t" "t_root (compared t) = t_root t"
  "trep (compared t) W = trep t W" "(compared t)\<lparr>t_comparisons := n\<rparr> = t\<lparr>t_comparisons := n\<rparr>"
  "t_node_count (compared t) = t_node_count t"
  by (simp_all add: compared_def fld_def trep_def)

definition rec_at :: "u64 \<Rightarrow> tree_t \<Rightarrow> u64" where
  "rec_at a t = (if a = NULL then NULL else the (fld n_record a t))"

lemma rec_at_simps [simp]: "rec_at NULL t = NULL" "rec_at a (compared t) = rec_at a t"
  by (simp_all add: rec_at_def)

lemma ex_comparisons [simp]: "\<exists>n. t = t\<lparr>t_comparisons := n\<rparr>" "\<exists>n. compared t = t\<lparr>t_comparisons := n\<rparr>"
  by (rule exI [where x = "t_comparisons t"], simp) (rule exI [where x = "t_comparisons t + 1"], simp add: compared_def)

text \<open>One step of a walk at the node in focus: what is read and compared there, and where it goes on.\<close>

lemma seek_step:
  assumes t: "trep t (plug c (Node l a r))" and s: "seek (sint key) (t_store t) c (Node l a r) = (c', s')"
  obtains (found) k v where "a \<noteq> NULL" "fld n_key a t = Some k" "fld n_record a t = Some v" "key = k" "c' = c" "s' = Node l a r"
  | (right) k where "a \<noteq> NULL" "fld n_key a t = Some k" "key \<noteq> k" "sint k < sint key" "skey (t_store t) a = sint k"
      "fld n_right a t = Some (addr r)" "trep t (plug (RightOf l a # c) r)"
      "seek (sint key) (t_store t) (RightOf l a # c) r = (c', s')"
  | (left) k where "a \<noteq> NULL" "fld n_key a t = Some k" "key \<noteq> k" "sint key < sint k" "skey (t_store t) a = sint k"
      "fld n_left a t = Some (addr l)" "trep t (plug (LeftOf a r # c) l)"
      "seek (sint key) (t_store t) (LeftOf a r # c) l = (c', s')"
proof -
  obtain k v where k: "fld n_key a t = Some k" "fld n_record a t = Some v" "skey (t_store t) a = sint k"
    using t by (rule focus_key)
  note F = focus [OF t]
  show ?thesis
  proof (cases "sint k" "sint key" rule: linorder_cases)
    case less
    then show ?thesis
      by (intro that(2) [of k]) (use t s k F(1,2,4) in auto)
  next
    case equal
    then show ?thesis
      by (intro that(1) [of k v]) (use t s k F(1,2,4) sint_less_or(2) in auto)
  next
    case greater
    then show ?thesis
      by (intro that(3) [of k]) (use t s k F(1,2,4) in auto)
  qed
qed

lemma insert_walk_seek:
  assumes "trep t (plug c s)" "seek (sint key) (t_store t) c s = (c', s')"
  shows "\<exists>n. insert_walk key (addr s) (above c) t =
    Some (s' \<noteq> Leaf, if s' = Leaf then above c' else addr s', t\<lparr>t_comparisons := n\<rparr>)"
  using assms
proof (induction s arbitrary: c t)
  case Leaf
  then show ?case
    by (auto simp: insert_walk.simps [of key NULL])
next
  case (Node l a r)
  from Node.prems show ?case
  proof (cases rule: seek_step)
    case (found k v)
    then show ?thesis
      by (auto simp: insert_walk.simps [of _ a])
  next
    case (right k)
    then show ?thesis
      using Node.IH(2) [of "compared (compared t)" "RightOf l a # c"]
      by (simp add: insert_walk.simps [of _ a] child_def)
  next
    case (left k)
    then show ?thesis
      using Node.IH(1) [of "compared (compared t)" "LeftOf a r # c"]
      by (simp add: insert_walk.simps [of _ a] child_def)
  qed
qed

lemma find_from_seek:
  assumes "trep t (plug c s)" "seek (sint key) (t_store t) c s = (c', s')"
  shows "\<exists>n. tree_find_from key (addr s) t =
    Some (rec_at (addr s') t, t\<lparr>t_comparisons := n\<rparr>)"
  using assms
proof (induction s arbitrary: c t)
  case Leaf
  then show ?case
    by (auto simp: tree_find_from.simps [of key NULL])
next
  case (Node l a r)
  from Node.prems show ?case
  proof (cases rule: seek_step)
    case (found k v)
    then show ?thesis
      by (auto simp: tree_find_from.simps [of _ a] rec_at_def)
  next
    case (right k)
    then show ?thesis
      using Node.IH(2) [of "compared (compared t)" "RightOf l a # c"]
      by (simp add: tree_find_from.simps [of _ a] child_def)
  next
    case (left k)
    then show ?thesis
      using Node.IH(1) [of "compared (compared t)" "LeftOf a r # c"]
      by (simp add: tree_find_from.simps [of _ a] child_def)
  qed
qed

lemma remove_walk_seek:
  assumes "trep t (plug c s)" "seek (sint key) (t_store t) c s = (c', s')"
  shows "\<exists>n. remove_walk key (addr s) t = Some (addr s', t\<lparr>t_comparisons := n\<rparr>)"
  using assms
proof (induction s arbitrary: c t)
  case Leaf
  then show ?case
    by (auto simp: remove_walk.simps [of key NULL])
next
  case (Node l a r)
  from Node.prems show ?case
  proof (cases rule: seek_step)
    case (found k v)
    then show ?thesis
      by (auto simp: remove_walk.simps [of _ a])
  next
    case (right k)
    then show ?thesis
      using Node.IH(2) [of "compared t" "RightOf l a # c"]
      by (simp add: remove_walk.simps [of _ a] child_def)
  next
    case (left k)
    then show ?thesis
      using Node.IH(1) [of "compared t" "LeftOf a r # c"]
      by (simp add: remove_walk.simps [of _ a] child_def)
  qed
qed

text \<open>The candidate \<open>n\<close> of \<open>tree_find_nearest\<close> is the last node before the position.\<close>

definition pred_of :: "up list \<Rightarrow> u64" where
  "pred_of c = (if before c = [] then NULL else last (before c))"

lemma nearest_from_seek:
  assumes "trep t (plug c s)" "seek (sint key) (t_store t) c s = (c', s')" "ascending (t_store t) (inorder (plug c s))"
  shows "\<exists>n. nearest_from key (addr s) (pred_of c) t =
    Some (rec_at (if s' = Leaf then pred_of c' else addr s') t, t\<lparr>t_comparisons := n\<rparr>)"
  using assms
proof (induction s arbitrary: c t)
  case Leaf
  then have "pred_of c \<noteq> NULL \<Longrightarrow> pred_of c \<in> dom (t_store t)"
    by (auto simp: trep_plug pred_of_def split: if_splits)
  with Leaf show ?case
    by (auto simp: nearest_from.simps [of key NULL] fld_def rec_at_def)
next
  case (Node l a r)
  from Node.prems(1,2) show ?case
  proof (cases rule: seek_step)
    case (found k v)
    then show ?thesis
      by (auto simp: nearest_from.simps [of _ a] rec_at_def)
  next
    case (right k)
    have p: "\<exists>nk. fld n_key (pred_of c) t = Some nk \<and> sint nk < sint k" if "pred_of c \<noteq> NULL"
    proof -
      have p: "pred_of c \<in> set (before c)"
        using that by (auto simp: pred_of_def split: if_splits)
      then have "pred_of c \<in> dom (t_store t)"
        using Node.prems(1) by (auto simp: trep_plug)
      moreover have "skey (t_store t) (pred_of c) < sint k"
        using p right(5) Node.prems(3) by (auto simp: inorder_plug ascending_def sorted_wrt_append)
      ultimately show ?thesis
        by (auto simp: fld_def skey_def kr_def)
    qed
    have "pred_of (RightOf l a # c) = a"
      by (simp add: pred_of_def)
    then show ?thesis
      using right p Node.IH(2) [of "compared (compared t)" "RightOf l a # c"] Node.prems(3)
      by (cases "pred_of c = NULL") (auto simp: nearest_from.simps [of _ a] Let_def)
  next
    case (left k)
    have "pred_of (LeftOf a r # c) = pred_of c"
      by (simp add: pred_of_def)
    with left show ?thesis
      using Node.IH(1) [of "compared (compared t)" "LeftOf a r # c"] Node.prems(3)
      by (simp add: nearest_from.simps [of _ a])
  qed
qed

section \<open>The map a tree stands for\<close>

text \<open>The tree is sorted by its keys as signed numbers, and it counts its nodes.\<close>

definition holds :: "tree_t \<Rightarrow> (u64 \<rightharpoonup> u64) \<Rightarrow> bool" where
  "holds t M \<longleftrightarrow> (\<exists>W. trep t W \<and> ascending (t_store t) (inorder W)) \<and> finite (dom M) \<and>
     (\<forall>k v. M k = Some v \<longleftrightarrow> (\<exists>a. kr (t_store t) a = Some (k, v))) \<and> t_node_count t = of_nat (card (dom M))"

lemma holdsI:
  assumes "trep t W" "ascending (t_store t) (inorder W)" "finite (dom M)"
    "\<And>k v. M k = Some v \<longleftrightarrow> (\<exists>a. kr (t_store t) a = Some (k, v))" "t_node_count t = of_nat (card (dom M))"
  shows "holds t M"
  using assms by (auto simp: holds_def)

lemma trep_count [simp]: "trep (t\<lparr>t_node_count := n\<rparr>) W = trep t W"
  by (simp add: trep_def)

lemma holds_new: "holds tree_new Map.empty"
  by (auto simp: holds_def tree_new_def trep_def ascending_def kr_def intro: exI [where x = Leaf])

lemma holds_comparisons [simp]: "holds (t\<lparr>t_comparisons := n\<rparr>) M = holds t M"
  by (simp add: holds_def trep_def)

lemma ascending_cong: "kr m' = kr m \<Longrightarrow> ascending m' as = ascending m as"
  by (simp add: ascending_def skey_def)

text \<open>The outcome of a search: a node of the tree with that key, or none.\<close>

lemma kr_in_tree: "trep t W \<Longrightarrow> kr (t_store t) a = Some kv \<Longrightarrow> a \<in> set_tree W"
  using domI [of "kr (t_store t)" a kv] by (simp add: trep_def)

lemma search:
  assumes "holds t M"
  obtains W c s where "trep t W" "t_root t = addr W" "seek (sint key) (t_store t) [] W = (c, s)" "plug c s = W"
    "trep t (plug c s)" "narrowed (sint key) (t_store t) c" "ascending (t_store t) (inorder (plug c s))"
    "s = Leaf \<and> M key = None \<or> (\<exists>l a r v. s = Node l a r \<and> kr (t_store t) a = Some (key, v) \<and> M key = Some v)"
proof -
  obtain W where W: "trep t W" "ascending (t_store t) (inorder W)"
    using assms by (auto simp: holds_def)
  obtain c s where cs: "seek (sint key) (t_store t) [] W = (c, s)"
    by fastforce
  note P = seek_from_root [OF cs W(2)]
  have M: "M k = Some v \<longleftrightarrow> (\<exists>a. kr (t_store t) a = Some (k, v))" for k v
    using assms by (simp add: holds_def)
  have "s = Leaf \<and> M key = None \<or> (\<exists>l a r v. s = Node l a r \<and> kr (t_store t) a = Some (key, v) \<and> M key = Some v)"
  proof (cases s)
    case Leaf
    have "kr (t_store t) a \<noteq> Some (key, v)" for a v
    proof
      assume a: "kr (t_store t) a = Some (key, v)"
      then have "a \<in> set (before c) \<union> set (after c)"
        using kr_in_tree [OF W(1)] P(1) Leaf by fastforce
      then show False
        using P(2) a by (auto simp: narrowed_def skey_def)
    qed
    with Leaf M show ?thesis
      by (cases "M key") auto
  next
    case (Node l a r)
    with W(1) P(1) have "trep t (plug c (Node l a r))"
      by simp
    then obtain k v where k: "kr (t_store t) a = Some (k, v)" "skey (t_store t) a = sint k"
      by (rule focus_key)
    with P(3) Node have "k = key"
      by (simp add: sint_less_or(2))
    with k M Node show ?thesis
      by auto
  qed
  moreover have "t_root t = addr W"
    using W(1) by (simp add: trep_def)
  ultimately show ?thesis
    using that [of W c s] W cs P by simp
qed

lemma rec_at_kr: "kr (t_store t) a = Some (k, v) \<Longrightarrow> a \<noteq> NULL \<Longrightarrow> rec_at a t = v"
  by (auto simp: rec_at_def fld_def kr_def)

lemma rec_at_trep: "trep t W \<Longrightarrow> kr (t_store t) a = Some (k, v) \<Longrightarrow> rec_at a t = v"
  by (rule rec_at_kr) (auto simp: trep_def kr_def)

lemma trep_NULL: "trep t W \<Longrightarrow> kr (t_store t) NULL = None"
  by (auto simp: trep_def kr_def)

theorem tree_find_holds:
  assumes "holds t M"
  shows "\<exists>n. tree_find key t = Some (case M key of None \<Rightarrow> NULL | Some v \<Rightarrow> v, t\<lparr>t_comparisons := n\<rparr>)"
  using assms
proof (rule search)
  fix W c s
  assume s: "trep t W" "t_root t = addr W" "seek (sint key) (t_store t) [] W = (c, s)"
    "s = Leaf \<and> M key = None \<or> (\<exists>l a r v. s = Node l a r \<and> kr (t_store t) a = Some (key, v) \<and> M key = Some v)"
  then have "rec_at (addr s) t = (case M key of None \<Rightarrow> NULL | Some v \<Rightarrow> v)"
    by (auto simp: rec_at_trep)
  then show ?thesis
    using find_from_seek [of t "[]" W key c s] s by (simp add: tree_find_def)
qed

text \<open>The nearest entry: the one with the greatest key that is not above \<open>key\<close>.\<close>

definition nearest_entry :: "(u64 \<rightharpoonup> u64) \<Rightarrow> u64 \<Rightarrow> u64 \<Rightarrow> bool" where
  "nearest_entry M key v \<longleftrightarrow>
     (if \<exists>k \<in> dom M. sint k \<le> sint key
      then \<exists>k. M k = Some v \<and> sint k \<le> sint key \<and> (\<forall>k' \<in> dom M. sint k' \<le> sint key \<longrightarrow> sint k' \<le> sint k)
      else v = NULL)"

lemma nearest_entryI:
  assumes "M k = Some v" "sint k \<le> sint key" "\<And>k'. k' \<in> dom M \<Longrightarrow> sint k' \<le> sint key \<Longrightarrow> sint k' \<le> sint k"
  shows "nearest_entry M key v"
proof -
  have "k \<in> dom M"
    using assms(1) by auto
  then show ?thesis
    using assms unfolding nearest_entry_def by (subst if_P) blast+
qed

lemma nearest_at_hole:
  assumes "trep t (plug c Leaf)" "narrowed (sint key) (t_store t) c" "ascending (t_store t) (inorder (plug c Leaf))"
    and M: "\<And>k v. M k = Some v \<longleftrightarrow> (\<exists>a. kr (t_store t) a = Some (k, v))"
  shows "nearest_entry M key (rec_at (pred_of c) t)"
proof -
  have node: "a \<in> set (before c) \<union> set (after c)" if "kr (t_store t) a = Some kv" for a kv
    using kr_in_tree [OF assms(1)] that by fastforce
  have key: "skey (t_store t) a = sint k" if "kr (t_store t) a = Some (k, v)" for a k v
    using that by (simp add: skey_def)
  have low: "\<exists>a v. a \<in> set (before c) \<and> kr (t_store t) a = Some (k, v)" if k: "k \<in> dom M" "sint k \<le> sint key" for k
  proof -
    from k(1) M obtain a v where "kr (t_store t) a = Some (k, v)"
      by blast
    then show ?thesis
      using node key k(2) assms(2) by (fastforce simp: narrowed_def)
  qed
  show ?thesis
  proof (cases "before c = []")
    case True
    then show ?thesis
      using low by (auto simp: nearest_entry_def pred_of_def)
  next
    case False
    define p where "p = last (before c)"
    have p: "p \<in> set (before c)" "before c = butlast (before c) @ [p]"
      using False by (simp_all add: p_def)
    then have "p \<in> dom (t_store t)"
      using assms(1) by (auto simp: trep_def)
    then obtain k v where k: "kr (t_store t) p = Some (k, v)"
      by (auto simp: kr_def)
    have below_p: "skey (t_store t) a \<le> skey (t_store t) p" if "a \<in> set (before c)" for a
    proof -
      have "ascending (t_store t) (butlast (before c) @ [p])"
        using assms(3) p(2) by (simp add: inorder_plug ascending_def sorted_wrt_append)
      moreover have "a \<in> set (butlast (before c)) \<or> a = p"
        using that p(2) by (metis Un_iff empty_iff insert_iff list.set set_append)
      ultimately show ?thesis
        by (auto simp: ascending_def sorted_wrt_append)
    qed
    have "sint k < sint key"
      using p(1) assms(2) key [OF k] by (auto simp: narrowed_def)
    moreover have "rec_at p t = v" "M k = Some v"
      using k M assms(1) rec_at_trep by blast+
    moreover have "sint k' \<le> sint k" if "k' \<in> dom M" "sint k' \<le> sint key" for k'
    proof -
      from low [OF that] obtain a v' where "a \<in> set (before c)" "kr (t_store t) a = Some (k', v')"
        by blast
      with below_p key [OF k] key show ?thesis
        by fastforce
    qed
    moreover have "pred_of c = p"
      using False by (simp add: pred_of_def p_def)
    ultimately show ?thesis
      by (intro nearest_entryI [of M k]) auto
  qed
qed

theorem tree_find_nearest_holds:
  assumes "holds t M"
  shows "\<exists>n v. tree_find_nearest key t = Some (v, t\<lparr>t_comparisons := n\<rparr>) \<and> nearest_entry M key v"
  using assms
proof (rule search)
  fix W c s
  assume s: "trep t W" "t_root t = addr W" "seek (sint key) (t_store t) [] W = (c, s)" "plug c s = W"
    "narrowed (sint key) (t_store t) c" "ascending (t_store t) (inorder (plug c s))"
    "s = Leaf \<and> M key = None \<or> (\<exists>l a r v. s = Node l a r \<and> kr (t_store t) a = Some (key, v) \<and> M key = Some v)"
  have "nearest_entry M key (rec_at (if s = Leaf then pred_of c else addr s) t)"
  proof (cases s)
    case Leaf
    then show ?thesis
      using nearest_at_hole [of t c key M] s assms by (simp add: holds_def)
  next
    case (Node l a r)
    then have "rec_at a t = the (M key)" "M key \<noteq> None"
      using s(1,7) rec_at_trep by auto
    with Node show ?thesis
      by (intro nearest_entryI [of M key]) auto
  qed
  then show ?thesis
    using nearest_from_seek [of t "[]" W key c s] s by (auto simp add: tree_find_nearest_def pred_of_def)
qed

section \<open>Insertion\<close>

abbreviation new_node :: "u64 \<Rightarrow> u64 \<Rightarrow> u64 \<Rightarrow> node_t" where
  "new_node p key v \<equiv> \<lparr>n_left = NULL, n_right = NULL, n_parent = p, n_key = key, n_record = v\<rparr>"

lemma link_new_at:
  assumes t: "trep t (plug c Leaf)" and n: "narrowed (sint key) (t_store t) c" and z: "z \<noteq> NULL" "t_store t z = None"
  obtains t' where "link_new (above c) z (t\<lparr>t_store := (t_store t)(z \<mapsto> new_node (above c) key v)\<rparr>) = Some t'"
    "trep t' (plug c (Node Leaf z Leaf))" "kr (t_store t') = (kr (t_store t))(z \<mapsto> (key, v))"
    "t_node_count t' = t_node_count t"
proof -
  note D = t [unfolded trep_plug]
  have zn: "z \<notin> set (before c) \<union> set (after c)"
    using D z by auto
  let ?t = "t\<lparr>t_store := (t_store t)(z \<mapsto> new_node (above c) key v)\<rparr>"
  show ?thesis
  proof (cases c rule: above.cases)
    case 1
    then show ?thesis
      using D z by (intro that [of "?t\<lparr>t_root := z\<rparr>"]) (auto simp: link_new_def trep_def)
  next
    case (2 a r d)
    then have "linked (t_store t) a NULL (addr r) (above d)"
      using D by simp
    then obtain n where n: "t_store t a = Some n" "n_left n = NULL" "n_right n = addr r" "n_parent n = above d"
      by (rule linkedE)
    have k: "\<not> sint (n_key n) < sint key"
      using assms(2) 2 n(1) by (auto simp: narrowed_def skey_def kr_def)
    show ?thesis
    proof (rule that [of "?t\<lparr>t_store := (t_store ?t)(a \<mapsto> n\<lparr>n_left := z\<rparr>)\<rparr>"])
      show "link_new (above c) z ?t = Some (?t\<lparr>t_store := (t_store ?t)(a \<mapsto> n\<lparr>n_left := z\<rparr>)\<rparr>)"
        using D 2 n k zn by (auto simp: link_new_def fld_def set_left_def upd_def)
      show "trep (?t\<lparr>t_store := (t_store ?t)(a \<mapsto> n\<lparr>n_left := z\<rparr>)\<rparr>) (plug c (Node Leaf z Leaf))"
        using D 2 n z zn unfolding trep_plug by auto
    qed (use 2 n zn in \<open>auto simp: fun_eq_iff kr_def\<close>)
  next
    case (3 l a d)
    then have "linked (t_store t) a (addr l) NULL (above d)"
      using D by simp
    then obtain n where n: "t_store t a = Some n" "n_left n = addr l" "n_right n = NULL" "n_parent n = above d"
      by (rule linkedE)
    have k: "sint (n_key n) < sint key"
      using assms(2) 3 n(1) by (auto simp: narrowed_def skey_def kr_def)
    show ?thesis
    proof (rule that [of "?t\<lparr>t_store := (t_store ?t)(a \<mapsto> n\<lparr>n_right := z\<rparr>)\<rparr>"])
      show "link_new (above c) z ?t = Some (?t\<lparr>t_store := (t_store ?t)(a \<mapsto> n\<lparr>n_right := z\<rparr>)\<rparr>)"
        using D 3 n k zn by (auto simp: link_new_def fld_def set_right_def upd_def)
      show "trep (?t\<lparr>t_store := (t_store ?t)(a \<mapsto> n\<lparr>n_right := z\<rparr>)\<rparr>) (plug c (Node Leaf z Leaf))"
        using D 3 n z zn unfolding trep_plug by auto
    qed (use 3 n zn in \<open>auto simp: fun_eq_iff kr_def\<close>)
  qed
qed

lemma tree_insert_new:
  assumes "insert_walk key (t_root t) NULL t = Some (False, p, t\<lparr>t_comparisons := n\<rparr>)" "z \<noteq> NULL"
  shows "tree_insert z key v t =
    link_new p z (t\<lparr>t_comparisons := n, t_store := (t_store t)(z \<mapsto> new_node p key v)\<rparr>) \<bind>
    (\<lambda>t. splay z t \<bind> (\<lambda>t. Some (True, t\<lparr>t_node_count := t_node_count t + 1\<rparr>)))"
  using assms by (simp add: tree_insert_def Let_def)

text \<open>The order and the map after a new node.\<close>

lemma ascending_insert:
  assumes "ascending m (as @ bs)" "\<forall>a \<in> set as \<union> set bs. skey m' a = skey m a"
    and "\<forall>a \<in> set as. skey m a < skey m' z" "\<forall>a \<in> set bs. skey m' z < skey m a"
  shows "ascending m' (as @ [z] @ bs)"
proof -
  have "sorted_wrt (\<lambda>a b. skey m' a < skey m' b) as" "sorted_wrt (\<lambda>a b. skey m' a < skey m' b) bs"
    using assms(1,2) by (auto simp: ascending_def sorted_wrt_append elim!: sorted_wrt_mono_rel [rotated])
  then show ?thesis
    using assms by (auto simp: ascending_def sorted_wrt_append)
qed

lemma map_insert:
  assumes "\<And>k w. M k = Some w \<longleftrightarrow> (\<exists>a. f a = Some (k, w))" "M key = None" "f z = None"
  shows "(M(key \<mapsto> v)) k = Some w \<longleftrightarrow> (\<exists>a. (f(z \<mapsto> (key, v))) a = Some (k, w))"
proof (cases "k = key")
  case True
  have "f a \<noteq> Some (key, w')" for a w'
    using assms(1) [of key w'] assms(2) by auto
  with True show ?thesis
    by auto
next
  case False
  have "a \<noteq> z" if "f a = Some (k, w)" for a
    using that assms(3) by auto
  with False assms(1) show ?thesis
    by auto
qed

lemma tree_insert_holds:
  assumes h: "holds t M" and z: "z \<noteq> NULL" "t_store t z = None"
  shows "\<exists>t'. tree_insert z key v t = Some (M key = None, t') \<and> holds t' (if M key = None then M(key \<mapsto> v) else M)"
  using h
proof (rule search)
  fix W c s
  assume s: "trep t W" "t_root t = addr W" "seek (sint key) (t_store t) [] W = (c, s)" "plug c s = W"
    "trep t (plug c s)" "narrowed (sint key) (t_store t) c" "ascending (t_store t) (inorder (plug c s))"
    "s = Leaf \<and> M key = None \<or> (\<exists>l a r v. s = Node l a r \<and> kr (t_store t) a = Some (key, v) \<and> M key = Some v)"
  obtain n where walk: "insert_walk key (t_root t) NULL t =
      Some (s \<noteq> Leaf, if s = Leaf then above c else addr s, t\<lparr>t_comparisons := n\<rparr>)"
    using insert_walk_seek [of t "[]" W key c s] s by auto
  show ?thesis
  proof (cases s)
    case (Node l a r)
    then show ?thesis
      using walk s(8) h by (auto simp: tree_insert_def)
  next
    case Leaf
    let ?t = "t\<lparr>t_comparisons := n\<rparr>"
    obtain t1 where t1: "link_new (above c) z (?t\<lparr>t_store := (t_store ?t)(z \<mapsto> new_node (above c) key v)\<rparr>) = Some t1"
      "trep t1 (plug c (Node Leaf z Leaf))" "kr (t_store t1) = (kr (t_store ?t))(z \<mapsto> (key, v))"
      "t_node_count t1 = t_node_count ?t"
      by (rule link_new_at [of ?t c key z v]) (use s(5,6) Leaf z in \<open>simp_all add: trep_def\<close>)
    from splay_to_top [OF t1(2)] obtain t2 l r where t2: "splay z t1 = Some t2" "trep t2 (Node l z r)"
      "inorder (Node l z r) = before c @ [z] @ after c" "same_data t1 t2"
      by (auto simp: inorder_plug)
    have M: "M key = None"
      using s(8) Leaf by simp
    have kr2: "kr (t_store t2) = (kr (t_store t))(z \<mapsto> (key, v))"
      using t1(3) t2(4) by (simp add: same_data_def)
    have "z \<notin> set (before c) \<union> set (after c)"
      using s(5) Leaf z by (auto simp: trep_plug)
    then have "\<forall>a \<in> set (before c) \<union> set (after c). skey (t_store t2) a = skey (t_store t) a"
        "skey (t_store t2) z = sint key"
      by (auto simp: skey_def kr2)
    then have "ascending (t_store t2) (before c @ [z] @ after c)"
      using s(6,7) Leaf by (intro ascending_insert [of "t_store t"]) (auto simp: narrowed_def inorder_plug)
    moreover have "(M(key \<mapsto> v)) k = Some w \<longleftrightarrow> (\<exists>a. kr (t_store t2) a = Some (k, w))" for k w
      unfolding kr2 by (rule map_insert) (use h M z(2) in \<open>simp_all add: holds_def kr_def [of _ z]\<close>)
    ultimately have "holds (t2\<lparr>t_node_count := t_node_count t2 + 1\<rparr>) (M(key \<mapsto> v))"
      using h t1(4) t2(2,3,4) M by (intro holdsI [of _ "Node l z r"]) (auto simp: holds_def same_data_def domIff)
    then show ?thesis
      using tree_insert_new [of key t "above c" n z v] walk t1(1) t2(1) M Leaf z by simp
  qed
qed

section \<open>Removal\<close>

lemma replace_at:
  assumes "below (t_store t) p s" "around (t_store t) (t_root t) c u" "linked (t_store t) u lu ru (above c)"
    and "u \<noteq> NULL" "u \<notin> set (before c) \<union> set (after c) \<union> set_tree s"
    and "distinct (before c @ inorder s @ after c)" "NULL \<notin> set (before c @ inorder s @ after c)"
  obtains t' where "replace u (addr s) t = Some t'" "below (t_store t') (above c) s"
    "around (t_store t') (t_root t') c (addr s)" "same_data t t'"
    "\<And>b. b \<notin> set (before c) \<Longrightarrow> b \<notin> set (after c) \<Longrightarrow> b \<notin> set_tree s \<Longrightarrow> t_store t' b = t_store t b"
proof -
  obtain nu where nu: "t_store t u = Some nu" "n_left nu = lu" "n_right nu = ru" "n_parent nu = above c"
    using assms(3) by (rule linkedE)
  obtain t1 where t1: "relink u (addr s) t = Some t1" "around (t_store t1) (t_root t1) c (addr s)" "same_data t t1"
    "\<And>b. b \<notin> set (before c) \<union> set (after c) \<Longrightarrow> t_store t1 b = t_store t b"
    by (rule relink_to [of t c u nu "addr s"]) (use assms nu in auto)
  have b: "below (t_store t1) p s = below (t_store t) p s"
    by (rule below_cong) (use assms(6) t1(4) in auto)
  obtain t2 where t2: "(if addr s \<noteq> NULL then set_parent (addr s) (above c) t1 else Some t1) = Some t2"
    "below (t_store t2) (above c) s" "same_data t1 t2" "t_root t2 = t_root t1"
    "\<And>b. b \<notin> set (inorder s) \<Longrightarrow> t_store t2 b = t_store t1 b"
    by (rule move_below [of t1 p s "above c"]) (use assms b in auto)
  have "around (t_store t2) (t_root t2) c (addr s) = around (t_store t1) (t_root t2) c (addr s)"
    by (rule around_cong) (use assms(6) t2(5) in auto)
  then show ?thesis
  proof (intro that [of t2])
    have "t_store t1 u = Some nu"
      using t1(4) assms(5) nu(1) by auto
    then show "replace u (addr s) t = Some t2"
      using t1(1) t2(1) nu by (auto simp: replace_def fld_def split: if_splits)
  qed (use t1 t2 same_data_trans in auto)
qed

lemma hoist_at:
  assumes "t_root t = z" "linked (t_store t) z (addr l) zr NULL" "below (t_store t) z l" "l \<noteq> Leaf"
    and "below (t_store t) p (Node Leaf y r)" "distinct (z # inorder l @ [y] @ inorder r)"
    and "NULL \<notin> set (z # inorder l @ [y] @ inorder r)"
  obtains t' where "hoist z y t = Some t'" "below (t_store t') NULL (Node l y r)" "t_root t' = y" "same_data t t'"
proof -
  obtain t1 where t1: "replace z (addr (Node Leaf y r)) t = Some t1" "below (t_store t1) (above []) (Node Leaf y r)"
    "around (t_store t1) (t_root t1) [] (addr (Node Leaf y r))" "same_data t t1"
    "\<And>b. b \<notin> set (before []) \<Longrightarrow> b \<notin> set (after []) \<Longrightarrow> b \<notin> set_tree (Node Leaf y r) \<Longrightarrow> t_store t1 b = t_store t b"
    by (rule replace_at [of t p "Node Leaf y r" "[]" z "addr l" zr]) (use assms in auto)
  obtain ny where ny: "t_store t1 y = Some ny" "n_left ny = NULL" "n_right ny = addr r" "n_parent ny = NULL"
    by (rule linkedE [of "t_store t1" y NULL "addr r" NULL]) (use t1(2) in auto)
  let ?t2 = "t1\<lparr>t_store := (t_store t1)(y \<mapsto> ny\<lparr>n_left := addr l\<rparr>)\<rparr>"
  have b: "below (t_store ?t2) z l = below (t_store t) z l"
    by (rule below_cong) (use t1(5) assms(6) in auto)
  obtain t3 where t3: "(if addr l \<noteq> NULL then set_parent (addr l) y ?t2 else Some ?t2) = Some t3"
    "below (t_store t3) y l" "same_data ?t2 t3" "t_root t3 = t_root ?t2"
    "\<And>b. b \<notin> set (inorder l) \<Longrightarrow> t_store t3 b = t_store ?t2 b"
    by (rule move_below [of ?t2 z l y]) (use assms b in auto)
  show ?thesis
  proof (rule that)
    have "linked (t_store t1) z (addr l) zr NULL"
      using assms(2,6) t1(5) [of z] linked_cong [of "t_store t1" z "t_store t"] by auto
    then have "fld n_left z t1 = Some (addr l)"
      by (auto simp: fld_def linked_def split: option.splits)
    moreover have "addr l \<noteq> NULL"
      using assms(4,7) addr_NULL [of l] by auto
    ultimately show "hoist z y t = Some t3"
      using t1(1) t3(1) ny(1) by (simp add: hoist_def set_left_def upd_Some fld_Some)
    have "below (t_store t3) y r = below (t_store t1) y r"
    proof (rule below_cong)
      fix b
      assume "b \<in> set (inorder r)"
      then have "b \<notin> set (inorder l)" "b \<noteq> y"
        using assms(6) by auto
      then show "t_store t3 b = t_store t1 b"
        using t3(5) by simp
    qed
    then show "below (t_store t3) NULL (Node l y r)"
      using t1(2) t3(2) t3(5) [of y] ny assms(6) by (auto simp: linked_def)
    show "t_root t3 = y"
      using t1(3) t3(4) by simp
    show "same_data t t3"
      using same_data_trans [OF same_data_trans [OF t1(4) same_data_upd [OF ny(1)]] t3(3)] by simp
  qed
qed

lemma subtree_minimum_at:
  assumes "below (t_store t) p s" "s \<noteq> Leaf" "NULL \<notin> set_tree s"
  shows "\<exists>c y r. subtree_minimum (addr s) t = Some y \<and> s = plug c (Node Leaf y r) \<and> before c = []"
  using assms
proof (induction s arbitrary: p)
  case (Node l a r)
  then have a: "fld n_left a t = Some (addr l)"
    by (auto simp: fld_def linked_def split: option.splits)
  show ?case
  proof (cases "l = Leaf")
    case True
    have "Node l a r = plug [] (Node Leaf a r) \<and> before [] = []"
      using True by simp
    with True a show ?thesis
      by (auto simp: subtree_minimum.simps [of a] intro!: exI [where x = "[]"])
  next
    case False
    obtain c y r' where "subtree_minimum (addr l) t = Some y" "l = plug c (Node Leaf y r')" "before c = []"
      using Node.IH(1) [of a] Node.prems False by auto
    moreover have "addr l \<noteq> NULL"
      using Node.prems(3) False addr_NULL [of l] by simp
    ultimately show ?thesis
      using a by (auto simp: subtree_minimum.simps [of a] plug_append before_append intro!: exI [where x = "c @ [LeftOf a r]"])
  qed
qed simp

lemma lift_min_at:
  assumes t: "trep t (plug (c @ [RightOf l z]) (Node Leaf y yr))" and c: "before c = []" "c \<noteq> []"
  obtains t' p where "lift_min z y t = Some t'" "linked (t_store t') z (addr l) (addr (plug c yr)) NULL"
    "below (t_store t') z l" "t_root t' = z" "below (t_store t') p (Node Leaf y (plug c yr))" "same_data t t'"
proof -
  let ?c = "c @ [RightOf l z]"
  note D = t [unfolded trep_plug]
  obtain ny where ny: "t_store t y = Some ny" "n_left ny = NULL" "n_right ny = addr yr" "n_parent ny = above ?c"
    by (rule linkedE [of "t_store t" y NULL "addr yr" "above ?c"]) (use D in auto)
  obtain t1 where t1: "replace y (addr yr) t = Some t1" "below (t_store t1) (above ?c) yr"
    "around (t_store t1) (t_root t1) ?c (addr yr)" "same_data t t1"
    "\<And>b. b \<notin> set (before ?c) \<Longrightarrow> b \<notin> set (after ?c) \<Longrightarrow> b \<notin> set_tree yr \<Longrightarrow> t_store t1 b = t_store t b"
    by (rule replace_at [of t y yr ?c y NULL "addr yr"]) (use D in auto)
  have W1: "below (t_store t1) NULL (Node l z (plug c yr))" "t_root t1 = z"
    using below_plug [of "t_store t1" ?c yr "t_root t1"] t1(2,3) by (auto simp: plug_append)
  have y1: "t_store t1 y = Some ny"
    using t1(5) [of y] D ny by auto
  let ?t2 = "t1\<lparr>t_store := (t_store t1)(y \<mapsto> ny\<lparr>n_right := addr (plug c yr)\<rparr>)\<rparr>"
  have nd: "distinct (z # inorder l @ [y] @ inorder (plug c yr))" "NULL \<notin> set (z # inorder l @ [y] @ inorder (plug c yr))"
    using D c(1) by (auto simp: before_append after_append inorder_plug)
  have "plug c yr \<noteq> Leaf"
    using c(2) by (cases c rule: above.cases) (auto simp: plug_not_Leaf)
  obtain t3 where t3: "(if addr (plug c yr) \<noteq> NULL then set_parent (addr (plug c yr)) y ?t2 else Some ?t2) = Some t3"
    "below (t_store t3) y (plug c yr)" "same_data ?t2 t3" "t_root t3 = t_root ?t2"
    "\<And>b. b \<notin> set (inorder (plug c yr)) \<Longrightarrow> t_store t3 b = t_store ?t2 b"
    by (rule move_below [of ?t2 z "plug c yr" y]) (use W1 nd in auto)
  have off: "t_store t3 b = t_store t1 b" if "b = z \<or> b \<in> set_tree l" for b
  proof -
    have "b \<notin> set (inorder (plug c yr))" "b \<noteq> y"
      using that nd(1) by (auto simp del: set_plug)
    then show ?thesis
      using t3(5) by simp
  qed
  show ?thesis
  proof (rule that)
    have "fld n_right z t1 = Some (addr (plug c yr))"
      using W1(1) by (auto simp: fld_def linked_def split: option.splits)
    moreover have "addr (plug c yr) \<noteq> NULL"
      using \<open>plug c yr \<noteq> Leaf\<close> nd(2) addr_NULL [of "plug c yr"] by auto
    ultimately show "lift_min z y t = Some t3"
      using t1(1) t3(1) y1 ny(1,3) by (simp add: lift_min_def set_right_def upd_Some fld_Some)
    show "linked (t_store t3) z (addr l) (addr (plug c yr)) NULL"
      using W1(1) linked_cong [of "t_store t3" z "t_store t1"] off [of z] by simp
    show "below (t_store t3) z l"
      using W1(1) below_cong [of l "t_store t3" "t_store t1"] off by simp
    show "below (t_store t3) (n_parent ny) (Node Leaf y (plug c yr))"
      using t3(2) t3(5) [of y] nd(1) ny by (simp add: linked_def)
    show "t_root t3 = z"
      using W1(2) t3(4) by simp
    show "same_data t t3"
      using same_data_trans [OF same_data_trans [OF t1(4) same_data_upd [OF y1]] t3(3)] by simp
  qed
qed

text \<open>The node that is taken out stays in the store, for its record; the others form the tree.\<close>

lemma take_out_at:
  assumes t: "trep t (Node l z r)"
  shows "\<exists>t' W. take_out z t = Some t' \<and> below (t_store t') NULL W \<and> t_root t' = addr W \<and>
    inorder W = inorder l @ inorder r \<and> same_data t t'"
proof -
  have D: "linked (t_store t) z (addr l) (addr r) NULL" "below (t_store t) z l" "below (t_store t) z r" "t_root t = z"
    "distinct (z # inorder l @ inorder r)" "NULL \<notin> set (z # inorder l @ inorder r)"
    using t by (auto simp: trep_def)
  have f: "fld n_left z t = Some (addr l)" "fld n_right z t = Some (addr r)" "addr l = NULL \<longleftrightarrow> l = Leaf" "addr r = NULL \<longleftrightarrow> r = Leaf"
    using focus [of t "[]" l z r] t by auto
  consider "l = Leaf" | "l \<noteq> Leaf" "r = Leaf" | "l \<noteq> Leaf" "r \<noteq> Leaf"
    by blast
  then show ?thesis
  proof cases
    case 1
    obtain t' where "replace z (addr r) t = Some t'" "below (t_store t') (above []) r"
      "around (t_store t') (t_root t') [] (addr r)" "same_data t t'"
      by (rule replace_at [of t z r "[]" z "addr l" "addr r"]) (use D in auto)
    with 1 f show ?thesis
      by (auto simp: take_out_def intro!: exI [where x = r])
  next
    case 2
    obtain t' where "replace z (addr l) t = Some t'" "below (t_store t') (above []) l"
      "around (t_store t') (t_root t') [] (addr l)" "same_data t t'"
      by (rule replace_at [of t z l "[]" z "addr l" "addr r"]) (use D in auto)
    with 2 f show ?thesis
      by (auto simp: take_out_def intro!: exI [where x = l])
  next
    case 3
    obtain c y yr where y: "subtree_minimum (addr r) t = Some y" "r = plug c (Node Leaf y yr)" "before c = []"
      using subtree_minimum_at [OF D(3) 3(2)] D(6) by auto
    have t': "trep t (plug (c @ [RightOf l z]) (Node Leaf y yr))"
      using t y(2) by (simp add: plug_append)
    have in': "inorder r = y # inorder (plug c yr)"
      using y(2,3) by (simp add: inorder_plug)
    have yp: "fld n_parent y t = Some (above (c @ [RightOf l z]))"
      using focus(3) [OF t'] .
    obtain t1 p where t1: "(if above (c @ [RightOf l z]) \<noteq> z then lift_min z y t else Some t) = Some t1"
      "linked (t_store t1) z (addr l) (addr (plug c yr)) NULL \<or> c = [] \<and> linked (t_store t1) z (addr l) y NULL"
      "below (t_store t1) z l" "t_root t1 = z" "below (t_store t1) p (Node Leaf y (plug c yr))" "same_data t t1"
    proof (cases "c = []")
      case True
      then show ?thesis
        using that [of t z] D y(2) by simp
    next
      case False
      have "above (c @ [RightOf l z]) \<in> set_tree r"
        using False y(2,3) above_in [OF False] by (cases c rule: above.cases) auto
      then have "above (c @ [RightOf l z]) \<noteq> z"
        using D(5) by auto
      then show ?thesis
        using lift_min_at [OF t' y(3) False] that by auto
    qed
    obtain zr where zr: "linked (t_store t1) z (addr l) zr NULL"
      using t1(2) by blast
    obtain t2 where t2: "hoist z y t1 = Some t2" "below (t_store t2) NULL (Node l y (plug c yr))" "t_root t2 = y"
      "same_data t1 t2"
      by (rule hoist_at [OF t1(4) zr t1(3) 3(1) t1(5)]) (use D(5,6) in' in auto)
    have "take_out z t = Some t2"
      using f 3 y(1) yp t1(1) t2(1) by (simp add: take_out_def)
    then show ?thesis
      using t2 t1(6) in' same_data_trans by (intro exI [where x = t2] exI [where x = "Node l y (plug c yr)"]) auto
  qed
qed

lemma ascending_inj:
  assumes "ascending m as" "a \<in> set as" "b \<in> set as" "skey m a = skey m b"
  shows "a = b"
  using assms by (induction as) (auto simp: ascending_def)

lemma kr_inj:
  assumes "trep t W" "ascending (t_store t) (inorder W)" "kr (t_store t) a = Some (k, v)" "kr (t_store t) b = Some (k, w)"
  shows "a = b"
  using ascending_inj [OF assms(2), of a b] kr_in_tree [OF assms(1)] assms(3,4) by (simp add: skey_def)

lemma below_delete: "z \<notin> set_tree s \<Longrightarrow> below (m(z := None)) p s = below m p s"
  by (rule below_cong) auto

lemma filter_inorder: "z \<notin> set_tree s \<Longrightarrow> filter (\<lambda>a. a \<noteq> z) (inorder s) = inorder s"
  by (induction s) auto

lemma ascending_same_keys:
  assumes "ascending m as" "\<And>a. a \<in> set as \<Longrightarrow> skey m' a = skey m a"
  shows "ascending m' as"
  using assms by (induction as) (simp_all add: ascending_def)

lemma remove_at:
  assumes t: "trep t (plug c (Node l z r))"
  obtains t1 t2 W where "splay z t = Some t1" "take_out z t1 = Some t2" "kr (t_store t2) = kr (t_store t)"
    "t_node_count t2 = t_node_count t" "trep (t2\<lparr>t_store := (t_store t2)(z := None)\<rparr>) W"
    "inorder W = filter (\<lambda>a. a \<noteq> z) (inorder (plug c (Node l z r)))"
proof -
  from splay_to_top [OF t] obtain t1 l' r' where t1: "splay z t = Some t1" "trep t1 (Node l' z r')"
    "inorder (Node l' z r') = inorder (plug c (Node l z r))" "same_data t t1"
    by blast
  from take_out_at [OF t1(2)] obtain t2 W where t2: "take_out z t1 = Some t2" "below (t_store t2) NULL W"
    "t_root t2 = addr W" "inorder W = inorder l' @ inorder r'" "same_data t1 t2"
    by blast
  have W: "inorder W = filter (\<lambda>a. a \<noteq> z) (inorder (Node l' z r'))"
    using t1(2) t2(4) by (simp add: trep_def filter_inorder)
  then have set: "set_tree W = set_tree (Node l' z r') - {z}" and d: "distinct (inorder W)"
    using t1(2) by (auto simp: trep_def simp flip: set_inorder)
  have same: "same_data t t2"
    using same_data_trans [OF t1(4) t2(5)] .
  have "dom (t_store t2) = set_tree (Node l' z r')"
    using t1(2) same_data_dom [OF t2(5)] by (simp add: trep_def)
  then have "trep (t2\<lparr>t_store := (t_store t2)(z := None)\<rparr>) W"
    using t2(2,3) set d t1(2) by (auto simp: trep_def below_delete)
  then show ?thesis
    using that [OF t1(1) t2(1)] same W [unfolded t1(3)] by (simp add: same_data_def)
qed

lemma map_delete:
  assumes "\<And>k w. M k = Some w \<longleftrightarrow> (\<exists>a. f a = Some (k, w))" "f z = Some (key, v)" "\<And>a w. f a = Some (key, w) \<Longrightarrow> a = z"
  shows "(M(key := None)) k = Some w \<longleftrightarrow> (\<exists>a. (f(z := None)) a = Some (k, w))"
proof (cases "k = key")
  case True
  then show ?thesis
    using assms(3) by auto
next
  case False
  then have "a \<noteq> z" if "f a = Some (k, w)" for a
    using that assms(2) by auto
  with False assms(1) show ?thesis
    by auto
qed

lemma tree_remove_holds:
  assumes h: "holds t M"
  shows "\<exists>t'. tree_remove key t = Some (case M key of None \<Rightarrow> NULL | Some v \<Rightarrow> v, t') \<and> holds t' (M(key := None))"
  using h
proof (rule search)
  fix W c s
  assume s: "trep t W" "t_root t = addr W" "seek (sint key) (t_store t) [] W = (c, s)" "plug c s = W"
    "trep t (plug c s)" "ascending (t_store t) (inorder (plug c s))"
    "s = Leaf \<and> M key = None \<or> (\<exists>l a r v. s = Node l a r \<and> kr (t_store t) a = Some (key, v) \<and> M key = Some v)"
  obtain n where walk: "remove_walk key (t_root t) t = Some (addr s, t\<lparr>t_comparisons := n\<rparr>)"
    using remove_walk_seek [of t "[]" W key c s] s by auto
  have hM: "finite (dom M)" "\<And>k w. M k = Some w \<longleftrightarrow> (\<exists>a. kr (t_store t) a = Some (k, w))"
    "t_node_count t = of_nat (card (dom M))"
    using h by (simp_all add: holds_def)
  show ?thesis
  proof (cases s)
    case Leaf
    then have "M(key := None) = M"
      using s(7) by auto
    with Leaf show ?thesis
      using walk s(7) h by (auto simp: tree_remove_def)
  next
    case (Node l z r)
    then obtain v where v: "kr (t_store t) z = Some (key, v)" "M key = Some v"
      using s(7) by auto
    have "trep (t\<lparr>t_comparisons := n\<rparr>) (plug c (Node l z r))"
      using s(5) Node by (simp add: trep_def)
    then obtain t1 t2 W2 where t2: "splay z (t\<lparr>t_comparisons := n\<rparr>) = Some t1" "take_out z t1 = Some t2"
      "kr (t_store t2) = kr (t_store t)" "t_node_count t2 = t_node_count t"
      "trep (t2\<lparr>t_store := (t_store t2)(z := None)\<rparr>) W2" "inorder W2 = filter (\<lambda>a. a \<noteq> z) (inorder W)"
      by (rule remove_at) (use s(4) Node in auto)
    define t3 where "t3 = t2\<lparr>t_node_count := t_node_count t2 - 1, t_store := (t_store t2)(z := None)\<rparr>"
    have kr3: "kr (t_store t3) = (kr (t_store t))(z := None)"
      using t2(3) by (auto simp: t3_def kr_def fun_eq_iff)
    have "holds t3 (M(key := None))"
    proof (rule holdsI)
      show "trep t3 W2"
        using t2(5) by (simp add: t3_def trep_def)
      have "ascending (t_store t) (inorder W2)"
        using s(4,6) t2(6) by (simp add: ascending_def sorted_wrt_filter)
      then show "ascending (t_store t3) (inorder W2)"
        by (rule ascending_same_keys) (auto simp: skey_def kr3 t2(6))
      show "(M(key := None)) k = Some w \<longleftrightarrow> (\<exists>a. kr (t_store t3) a = Some (k, w))" for k w
        unfolding kr3 by (rule map_delete [OF hM(2) v(1)]) (use kr_inj [OF s(1), of _ key _ z v] s(4,6) v(1) in auto)
      have "key \<in> dom M"
        using v(2) by auto
      then have "card (dom M) = Suc (card (dom (M(key := None))))"
        using card.remove [OF hM(1)] by simp
      then show "t_node_count t3 = of_nat (card (dom (M(key := None))))"
        using hM(3) t2(4) by (simp add: t3_def)
    qed (use hM(1) in simp)
    moreover have "fld n_record z t2 = Some v" "z \<noteq> NULL"
      using v(1) fun_cong [OF t2(3), of z] focus(4) s(5) Node by (auto simp: fld_def kr_def)
    ultimately show ?thesis
      using walk t2(1,2) Node v(2) by (simp add: tree_remove_def t3_def)
  qed
qed

section \<open>Freeing the tree\<close>

lemma free_subtree_at:
  assumes "below (t_store t) p s" "distinct (inorder s)" "NULL \<notin> set_tree s"
  shows "free_subtree (addr s) t =
    Some (map (\<lambda>a. rec_at a t) (postorder s), t\<lparr>t_store := (t_store t) |` (- set_tree s)\<rparr>)"
  using assms
proof (induction s arbitrary: p t)
  case Leaf
  then show ?case
    by (simp add: free_subtree.simps [of NULL])
next
  case (Node l a r)
  then obtain n where n: "t_store t a = Some n" "n_left n = addr l" "n_right n = addr r"
    by (auto elim: linkedE)
  let ?t1 = "t\<lparr>t_store := (t_store t) |` (- set_tree l)\<rparr>"
  let ?t2 = "?t1\<lparr>t_store := (t_store ?t1) |` (- set_tree r)\<rparr>"
  have r: "below (t_store ?t1) a r = below (t_store t) a r"
    by (rule below_cong) (use Node.prems(2) in \<open>auto simp: restrict_map_def\<close>)
  have l1: "free_subtree (addr l) t = Some (map (\<lambda>a. rec_at a t) (postorder l), ?t1)"
    using Node by auto
  have r1: "free_subtree (addr r) ?t1 = Some (map (\<lambda>a. rec_at a ?t1) (postorder r), ?t2)"
    using Node.IH(2) [of ?t1 a] Node.prems r by auto
  have a: "t_store ?t1 a = Some n" "t_store ?t2 a = Some n"
    using n(1) Node.prems(2) by auto
  have "rec_at b ?t1 = rec_at b t" if "b \<in> set (postorder r)" for b
    using that Node.prems(2) by (auto simp: rec_at_def fld_def restrict_map_def)
  moreover have "rec_at a t = n_record n"
    using n(1) Node.prems(3) by (auto simp: rec_at_def fld_def)
  moreover have "(t_store ?t2)(a := None) = (t_store t) |` (- set_tree (Node l a r))"
    by (auto simp: restrict_map_def fun_eq_iff)
  ultimately show ?case
    using l1 r1 a n Node.prems(3) by (simp add: free_subtree.simps [of a] fld_Some)
qed

lemma mset_postorder: "mset (map f (postorder W)) = mset (map f (inorder W))"
  by (induction W) simp_all

text \<open>The nodes of the tree correspond to the keys of the map.\<close>

definition key_of :: "store \<Rightarrow> u64 \<Rightarrow> u64" where
  "key_of m a = fst (the (kr m a))"

lemma node_keys:
  assumes W: "trep t W" "ascending (t_store t) (inorder W)"
    and M: "\<And>k v. M k = Some v \<longleftrightarrow> (\<exists>a. kr (t_store t) a = Some (k, v))"
  shows "inj_on (key_of (t_store t)) (set (inorder W))" "key_of (t_store t) ` set (inorder W) = dom M"
proof -
  let ?f = "key_of (t_store t)"
  have node: "\<exists>k v. kr (t_store t) a = Some (k, v)" if "a \<in> set (inorder W)" for a
    using W(1) that by (auto simp: trep_def kr_def)
  show "inj_on ?f (set (inorder W))"
  proof (rule inj_onI)
    fix a b
    assume "a \<in> set (inorder W)" "b \<in> set (inorder W)" "?f a = ?f b"
    then obtain k v w where "kr (t_store t) a = Some (k, v)" "kr (t_store t) b = Some (k, w)"
      using node by (fastforce simp: key_of_def)
    then show "a = b"
      by (rule kr_inj [OF W])
  qed
  show "?f ` set (inorder W) = dom M"
  proof
    show "?f ` set (inorder W) \<subseteq> dom M"
      using node M by (fastforce simp: key_of_def)
    show "dom M \<subseteq> ?f ` set (inorder W)"
    proof
      fix k
      assume "k \<in> dom M"
      then obtain a v where a: "kr (t_store t) a = Some (k, v)"
        using M by auto
      then have "a \<in> set (inorder W)" "?f a = k"
        using kr_in_tree [OF W(1)] by (simp_all add: key_of_def)
      then show "k \<in> ?f ` set (inorder W)"
        by blast
    qed
  qed
qed

lemma holds_nodes:
  assumes "holds t M"
  shows "finite (dom (t_store t))" "card (dom (t_store t)) = card (dom M)"
proof -
  obtain W where W: "trep t W" "ascending (t_store t) (inorder W)"
    using assms by (auto simp: holds_def)
  have M: "M k = Some v \<longleftrightarrow> (\<exists>a. kr (t_store t) a = Some (k, v))" for k v
    using assms by (simp add: holds_def)
  have d: "dom (t_store t) = set (inorder W)"
    using W(1) by (simp add: trep_def)
  then show "finite (dom (t_store t))"
    by (simp only: finite_set)
  show "card (dom (t_store t)) = card (dom M)"
    using card_image [OF node_keys(1) [OF W M]] node_keys(2) [OF W M] by (simp only: d)
qed

lemma tree_free_all:
  assumes "holds t M"
  shows "\<exists>rs t'. tree_free t = Some (rs, t') \<and> mset rs = image_mset (\<lambda>k. the (M k)) (mset_set (dom M)) \<and>
    t_store t' = Map.empty"
proof -
  obtain W where W: "trep t W" "ascending (t_store t) (inorder W)"
    using assms by (auto simp: holds_def)
  have M: "M k = Some v \<longleftrightarrow> (\<exists>a. kr (t_store t) a = Some (k, v))" for k v
    using assms by (simp add: holds_def)
  let ?f = "key_of (t_store t)"
  have rec: "rec_at a t = the (M (?f a))" if a: "a \<in> set (inorder W)" for a
  proof -
    have "a \<in> dom (t_store t)"
      using W(1) a by (simp add: trep_def)
    then obtain k v where k: "kr (t_store t) a = Some (k, v)"
      by (auto simp: kr_def)
    then have "M k = Some v"
      using M by blast
    then show ?thesis
      using rec_at_trep [OF W(1) k] k by (simp add: key_of_def)
  qed
  note inj = node_keys(1) [OF W M] and image = node_keys(2) [OF W M]
  have "mset (map (\<lambda>a. rec_at a t) (postorder W)) = image_mset (\<lambda>a. the (M (?f a))) (mset (inorder W))"
    unfolding mset_postorder mset_map [symmetric] using rec by (intro arg_cong [of _ _ mset] map_cong) simp_all
  also have "mset (inorder W) = mset_set (set (inorder W))"
    using W(1) mset_set_set [of "inorder W"] by (simp add: trep_def)
  also have "image_mset (\<lambda>a. the (M (?f a))) (mset_set (set (inorder W))) = image_mset (\<lambda>k. the (M k)) (mset_set (dom M))"
    using image_mset_mset_set [OF inj] image
      multiset.map_comp [of "\<lambda>k. the (M k)" ?f "mset_set (set (inorder W))"] by (simp add: comp_def)
  finally have m: "mset (map (\<lambda>a. rec_at a t) (postorder W)) = image_mset (\<lambda>k. the (M k)) (mset_set (dom M))" .
  have f: "free_subtree (t_root t) t =
      Some (map (\<lambda>a. rec_at a t) (postorder W), t\<lparr>t_store := (t_store t) |` (- set_tree W)\<rparr>)"
    using free_subtree_at [of t NULL W] W(1) by (simp add: trep_def)
  moreover have "(t_store t) |` (- set_tree W) = Map.empty"
    using W(1) by (auto simp: trep_def restrict_map_def fun_eq_iff)
  moreover have "t_root t = NULL \<longleftrightarrow> W = Leaf" "W = Leaf \<Longrightarrow> t_store t = Map.empty"
    using W(1) addr_NULL [of W] by (auto simp: trep_def)
  ultimately show ?thesis
    using m by (cases "W = Leaf") (auto simp: tree_free_def)
qed

section \<open>The interface and its client\<close>

datatype dict_call = Insert u64 u64 u64 | Find u64 | Find_nearest u64 | Remove u64

datatype dict_ret = Inserted bool | Record u64

text \<open>Runs of calls; \<open>Insert z key record\<close> is given the address that \<open>malloc\<close> returns to it.\<close>

definition tree_call :: "dict_call \<Rightarrow> tree_t \<Rightarrow> (dict_ret \<times> tree_t) option" where
  "tree_call c t = (case c of
     Insert z key r \<Rightarrow> map_option (apfst Inserted) (tree_insert z key r t)
   | Find key \<Rightarrow> map_option (apfst Record) (tree_find key t)
   | Find_nearest key \<Rightarrow> map_option (apfst Record) (tree_find_nearest key t)
   | Remove key \<Rightarrow> map_option (apfst Record) (tree_remove key t))"

fun run_steps :: "('c \<Rightarrow> 's \<Rightarrow> ('r \<times> 's) option) \<Rightarrow> 'c list \<Rightarrow> 's \<Rightarrow> ('r list \<times> 's) option" where
  "run_steps step [] s = Some ([], s)"
| "run_steps step (c # cs) s = do { (r, s) \<leftarrow> step c s; (rs, s) \<leftarrow> run_steps step cs s; Some (r # rs, s) }"

fun run_admits :: "('c \<Rightarrow> 's \<Rightarrow> ('r \<times> 's) option) \<Rightarrow> ('c \<Rightarrow> 's \<Rightarrow> bool) \<Rightarrow> 'c list \<Rightarrow> 's \<Rightarrow> bool" where
  "run_admits step ok [] s \<longleftrightarrow> True"
| "run_admits step ok (c # cs) s \<longleftrightarrow> ok c s \<and>
     (case step c s of None \<Rightarrow> True | Some (r, s) \<Rightarrow> run_admits step ok cs s)"

fun run_spec :: "('c \<Rightarrow> 'a \<Rightarrow> 'r \<Rightarrow> 'a \<Rightarrow> bool) \<Rightarrow> 'c list \<Rightarrow> 'a \<Rightarrow> 'r list \<Rightarrow> 'a \<Rightarrow> bool" where
  "run_spec spec [] a rs b \<longleftrightarrow> rs = [] \<and> b = a"
| "run_spec spec (c # cs) a [] b \<longleftrightarrow> False"
| "run_spec spec (c # cs) a (r # rs) b \<longleftrightarrow> (\<exists>a'. spec c a r a' \<and> run_spec spec cs a' rs b)"

locale simulation =
  fixes step :: "'c \<Rightarrow> 's \<Rightarrow> ('r \<times> 's) option" and ok :: "'c \<Rightarrow> 's \<Rightarrow> bool"
    and spec :: "'c \<Rightarrow> 'a \<Rightarrow> 'r \<Rightarrow> 'a \<Rightarrow> bool" and rel :: "'s \<Rightarrow> 'a \<Rightarrow> bool"
  assumes step_spec: "rel s a \<Longrightarrow> ok c s \<Longrightarrow> \<exists>r s' a'. step c s = Some (r, s') \<and> spec c a r a' \<and> rel s' a'"
begin

lemma run:
  "rel s a \<Longrightarrow> run_admits step ok cs s \<Longrightarrow>
    \<exists>rs s' b. run_steps step cs s = Some (rs, s') \<and> run_spec spec cs a rs b \<and> rel s' b"
proof (induction cs arbitrary: s a)
  case (Cons c cs)
  then obtain r s' a' where 1: "step c s = Some (r, s')" "spec c a r a'" "rel s' a'"
    using step_spec [of s a c] by auto
  with Cons obtain rs s'' b where "run_steps step cs s' = Some (rs, s'')" "run_spec spec cs a' rs b" "rel s'' b"
    by fastforce
  with 1 show ?case
    by (intro exI [where x = "r # rs"]) auto
qed simp

end

text \<open>What a call means for the map; an address from \<open>malloc\<close> is not \<open>NULL\<close> and not that of a live node.\<close>

definition map_call :: "dict_call \<Rightarrow> (u64 \<rightharpoonup> u64) \<Rightarrow> dict_ret \<Rightarrow> (u64 \<rightharpoonup> u64) \<Rightarrow> bool" where
  "map_call c M r M' \<longleftrightarrow> (case c of
     Insert z key v \<Rightarrow> r = Inserted (M key = None) \<and> M' = (if M key = None then M(key \<mapsto> v) else M)
   | Find key \<Rightarrow> r = Record (case M key of None \<Rightarrow> NULL | Some v \<Rightarrow> v) \<and> M' = M
   | Find_nearest key \<Rightarrow> (\<exists>v. r = Record v \<and> nearest_entry M key v) \<and> M' = M
   | Remove key \<Rightarrow> r = Record (case M key of None \<Rightarrow> NULL | Some v \<Rightarrow> v) \<and> M' = M(key := None))"

definition malloc_fresh :: "dict_call \<Rightarrow> tree_t \<Rightarrow> bool" where
  "malloc_fresh c t = (case c of Insert z key v \<Rightarrow> z \<noteq> NULL \<and> t_store t z = None | _ \<Rightarrow> True)"

interpretation dict: simulation tree_call malloc_fresh map_call holds
proof (unfold_locales, goal_cases)
  case (1 t M c)
  then show ?case
  proof (cases c)
    case (Insert z key v)
    then show ?thesis
      using 1 tree_insert_holds [of t M z key v] by (fastforce simp: tree_call_def malloc_fresh_def map_call_def)
  next
    case (Find key)
    then show ?thesis
      using 1 tree_find_holds [of t M key] by (fastforce simp: tree_call_def map_call_def)
  next
    case (Find_nearest key)
    then show ?thesis
      using 1 tree_find_nearest_holds [of t M key] by (fastforce simp: tree_call_def map_call_def)
  next
    case (Remove key)
    then show ?thesis
      using 1 tree_remove_holds [of t M key] by (fastforce simp: tree_call_def map_call_def)
  qed
qed

text \<open>C30: a splay tree is a sorted map. Every sequence of calls to tree_insert, tree_find,
  tree_find_nearest and tree_remove on a new tree returns, with no dangling pointer and no endless walk, what the
  map from keys to records returns, if malloc returns addresses of no live node; and the tree still stands for that map.\<close>
theorem tree_calls_refine_map:
  "run_admits tree_call malloc_fresh cs tree_new \<Longrightarrow>
    \<exists>rs t M. run_steps tree_call cs tree_new = Some (rs, t) \<and> run_spec map_call cs Map.empty rs M \<and> holds t M"
  by (rule dict.run [OF holds_new])

lemmas tree_eval = tree_call_def tree_insert_def insert_walk.simps tree_find_def tree_find_from.simps
  tree_find_nearest_def nearest_from.simps tree_remove_def remove_walk.simps splay.simps take_out_def hoist_def
  lift_min_def replace_def relink_def link_new_def left_rotate_def right_rotate_def subtree_minimum.simps
  set_defs upd_def fld_def child_def compared_def tree_new_def

lemma bind_weak_cong: "x = y \<Longrightarrow> Option.bind x f = Option.bind y f"
  by simp

lemma tree_calls_refine_map_witness:
  "\<exists>rs t M. run_steps tree_call [Insert 16 5 100, Insert 32 3 101, Insert 48 9 102, Find_nearest 4, Remove 5, Find 5, Find 9] tree_new =
      Some (rs, t) \<and> run_spec map_call [Insert 16 5 100, Insert 32 3 101, Insert 48 9 102, Find_nearest 4, Remove 5, Find 5, Find 9]
        Map.empty rs M \<and> holds t M"
  by (rule tree_calls_refine_map) (simp add: malloc_fresh_def tree_eval cong: bind_weak_cong if_weak_cong option.case_cong_weak)

text \<open>tree_free hands every record of the tree to free_fun, each as often as the map has it, and leaves no node.\<close>
theorem tree_free_frees:
  "holds t M \<Longrightarrow> \<exists>rs t'. tree_free t = Some (rs, t') \<and> mset rs = image_mset (\<lambda>k. the (M k)) (mset_set (dom M)) \<and>
    t_store t' = Map.empty"
  by (rule tree_free_all)

lemma tree_free_frees_witness:
  "\<exists>t. holds t [5 \<mapsto> 100] \<and> (\<exists>rs t'. tree_free t = Some (rs, t') \<and> mset rs = {#100#} \<and> t_store t' = Map.empty)"
proof -
  from tree_insert_holds [OF holds_new, of 16 5 100] obtain t where "holds t [5 \<mapsto> 100]"
    by (auto simp: tree_new_def)
  with tree_free_frees [of t "[5 \<mapsto> 100]"] show ?thesis
    by auto
qed

end
