(* ===== verification/Range_Set.thy ===== *)
theory Range_Set
  imports Memlib Stree_Map
begin

text \<open>
  The range sets of \<open>mdriver.c\<close>: the payloads of the live blocks, in a doubly linked list and in a
  splay tree keyed by their first address. The driver enters a block with \<open>add_range\<close>, which checks it
  against the blocks that are live, and takes it out with \<open>remove_range\<close>.
\<close>

section \<open>State and operations\<close>

datatype debug_mode = DBG_NONE | DBG_CHEAP | DBG_EXPENSIVE

record range_t =
  r_lo :: u64
  r_hi :: u64
  r_index :: int
  r_next :: u64
  r_prev :: u64

text \<open>The records of a range set, its list and its tree, and the global count of errors.\<close>

record driver =
  d_ranges :: "u64 \<rightharpoonup> range_t"
  d_list :: u64
  d_tree :: tree_t
  d_errors :: u32

definition ALIGNMENT :: u64 where
  "ALIGNMENT = 16"

definition IS_ALIGNED :: "u64 \<Rightarrow> bool" where
  "IS_ALIGNED p \<longleftrightarrow> p mod ALIGNMENT = 0"

definition malloc_error :: "driver \<Rightarrow> driver" where
  "malloc_error d = d\<lparr>d_errors := d_errors d + 1\<rparr>"

definition rfld :: "(range_t \<Rightarrow> 'a) \<Rightarrow> u64 \<Rightarrow> driver \<Rightarrow> 'a option" where
  "rfld f p d = map_option f (d_ranges d p)"

definition rset :: "(range_t \<Rightarrow> range_t) \<Rightarrow> u64 \<Rightarrow> driver \<Rightarrow> driver option" where
  "rset f p d = (case d_ranges d p of None \<Rightarrow> None | Some r \<Rightarrow> Some (d\<lparr>d_ranges := (d_ranges d)(p \<mapsto> f r)\<rparr>))"

definition new_range_set :: "driver \<Rightarrow> driver" where
  "new_range_set d = d\<lparr>d_ranges := Map.empty, d_list := NULL, d_tree := tree_new\<rparr>"

text \<open>\<open>malloc\<close> of the C library is a function of the addresses in use.\<close>

type_synonym libc_malloc = "u64 set \<Rightarrow> u64"

text \<open>The record \<open>p\<close> is linked behind \<open>prev\<close>, and entered into the tree.\<close>

definition link_range :: "libc_malloc \<Rightarrow> u64 \<Rightarrow> u64 \<Rightarrow> u64 \<Rightarrow> u64 \<Rightarrow> int \<Rightarrow> driver \<Rightarrow> driver option" where
  "link_range mal prev next lo hi index d = do {
     let p = mal (dom (d_ranges d));
     guard (p \<noteq> NULL);
     let d = d\<lparr>d_ranges := (d_ranges d)(p \<mapsto>
       \<lparr>r_lo = lo, r_hi = hi, r_index = index, r_next = next, r_prev = prev\<rparr>)\<rparr>;
     d \<leftarrow> (if prev \<noteq> NULL then rset (\<lambda>r. r\<lparr>r_next := p\<rparr>) prev d else Some (d\<lparr>d_list := p\<rparr>));
     d \<leftarrow> (if next \<noteq> NULL then rset (\<lambda>r. r\<lparr>r_prev := p\<rparr>) next d else Some d);
     (inserted, t) \<leftarrow> tree_insert (mal (dom (t_store (d_tree d)))) lo p (d_tree d);
     Some (d\<lparr>d_tree := t\<rparr>)
   }"

definition outside_heap :: "heap_state \<Rightarrow> u64 \<Rightarrow> u64 \<Rightarrow> bool" where
  "outside_heap st lo hi \<longleftrightarrow> lo < mem_heap_lo st \<or> lo > mem_heap_hi st \<or> hi < mem_heap_lo st \<or> hi > mem_heap_hi st"

definition add_range :: "debug_mode \<Rightarrow> libc_malloc \<Rightarrow> heap_state \<Rightarrow> u64 \<Rightarrow> u64 \<Rightarrow> int \<Rightarrow> driver \<Rightarrow> (bool \<times> driver) option" where
  "add_range dbg mal st lo n index d = do {
     let hi = lo + n - 1;
     guard (n > 0);
     if \<not> IS_ALIGNED lo then Some (False, malloc_error d)
     else if outside_heap st lo hi then Some (False, malloc_error d)
     else if dbg = DBG_NONE then Some (True, d)
     else do {
       (prev, t) \<leftarrow> tree_find_nearest lo (d_tree d);
       let d = d\<lparr>d_tree := t\<rparr>;
       next \<leftarrow> (if prev \<noteq> NULL then rfld r_next prev d else Some NULL);
       bad \<leftarrow> (if prev \<noteq> NULL then do { h \<leftarrow> rfld r_hi prev d; Some (lo \<le> h) } else Some False);
       if bad then Some (False, malloc_error d)
       else do {
         bad \<leftarrow> (if next \<noteq> NULL then do { l \<leftarrow> rfld r_lo next d; Some (hi \<ge> l) } else Some False);
         if bad then Some (False, malloc_error d)
         else do {
           d \<leftarrow> link_range mal prev next lo hi index d;
           Some (True, d)
         }
       }
     }
   }"

definition remove_range :: "u64 \<Rightarrow> driver \<Rightarrow> driver option" where
  "remove_range lo d = do {
     (p, t) \<leftarrow> tree_remove lo (d_tree d);
     let d = d\<lparr>d_tree := t\<rparr>;
     if p = NULL then Some d
     else do {
       prev \<leftarrow> rfld r_prev p d;
       next \<leftarrow> rfld r_next p d;
       d \<leftarrow> (if prev \<noteq> NULL then rset (\<lambda>r. r\<lparr>r_next := next\<rparr>) prev d else Some (d\<lparr>d_list := next\<rparr>));
       d \<leftarrow> (if next \<noteq> NULL then rset (\<lambda>r. r\<lparr>r_prev := prev\<rparr>) next d else Some d);
       Some (d\<lparr>d_ranges := (d_ranges d)(p := None)\<rparr>)
     }
   }"

text \<open>\<open>free_fun\<close> is \<open>free\<close>: freeing an address that is not that of a record is undefined.\<close>

fun free_ranges :: "u64 list \<Rightarrow> driver \<Rightarrow> driver option" where
  "free_ranges [] d = Some d"
| "free_ranges (p # ps) d = do {
     guard (p \<in> dom (d_ranges d));
     free_ranges ps (d\<lparr>d_ranges := (d_ranges d)(p := None)\<rparr>)
   }"

definition free_range_set :: "driver \<Rightarrow> driver option" where
  "free_range_set d = do {
     (ps, t) \<leftarrow> tree_free (d_tree d);
     free_ranges ps (d\<lparr>d_tree := t\<rparr>)
   }"

section \<open>Well formed range sets\<close>

text \<open>The spans of different records are disjoint, the tree maps the first address of each to it, and a
  link that is not \<open>NULL\<close> leads to the neighbour and back. A link may be missing: see \<open>add_range_misses\<close>.\<close>

definition linked_next :: "(u64 \<rightharpoonup> range_t) \<Rightarrow> u64 \<Rightarrow> range_t \<Rightarrow> bool" where
  "linked_next R p r \<longleftrightarrow> r_next r = NULL \<or>
     (\<exists>r'. R (r_next r) = Some r' \<and> r_prev r' = p \<and> r_lo r < r_lo r' \<and>
       (\<forall>q s. R q = Some s \<longrightarrow> \<not> (r_lo r < r_lo s \<and> r_lo s < r_lo r')))"

definition linked_prev :: "(u64 \<rightharpoonup> range_t) \<Rightarrow> u64 \<Rightarrow> range_t \<Rightarrow> bool" where
  "linked_prev R p r \<longleftrightarrow> r_prev r = NULL \<or> (\<exists>r'. R (r_prev r) = Some r' \<and> r_next r' = p)"

definition records_ok :: "(u64 \<rightharpoonup> range_t) \<Rightarrow> bool" where
  "records_ok R \<longleftrightarrow> R NULL = None \<and> finite (dom R) \<and>
     (\<forall>p r. R p = Some r \<longrightarrow> r_lo r \<le> r_hi r \<and> unat (r_hi r) < 2 ^ 63) \<and>
     (\<forall>p q r s. R p = Some r \<longrightarrow> R q = Some s \<longrightarrow> p \<noteq> q \<longrightarrow> r_hi r < r_lo s \<or> r_hi s < r_lo r)"

definition links_ok :: "(u64 \<rightharpoonup> range_t) \<Rightarrow> u64 \<Rightarrow> bool" where
  "links_ok R l \<longleftrightarrow> (\<forall>p r. R p = Some r \<longrightarrow> linked_next R p r \<and> linked_prev R p r) \<and>
     (l = NULL \<or> (\<exists>r. R l = Some r \<and> r_prev r = NULL))"

definition keyed :: "(u64 \<rightharpoonup> range_t) \<Rightarrow> (u64 \<rightharpoonup> u64) \<Rightarrow> bool" where
  "keyed R M \<longleftrightarrow> (\<forall>k p. M k = Some p \<longleftrightarrow> (\<exists>r. R p = Some r \<and> r_lo r = k))"

definition ranges_ok :: "driver \<Rightarrow> bool" where
  "ranges_ok d \<longleftrightarrow> records_ok (d_ranges d) \<and> links_ok (d_ranges d) (d_list d) \<and>
     (\<exists>M. holds (d_tree d) M \<and> keyed (d_ranges d) M)"

definition spans :: "driver \<Rightarrow> (u64 \<times> u64) set" where
  "spans d = {(r_lo r, r_hi r) | p r. d_ranges d p = Some r}"

definition block_clear :: "driver \<Rightarrow> u64 \<Rightarrow> u64 \<Rightarrow> bool" where
  "block_clear d lo hi \<longleftrightarrow> (\<forall>p r. d_ranges d p = Some r \<longrightarrow> r_hi r < lo \<or> hi < r_lo r)"

lemma new_range_set_ok: "ranges_ok (new_range_set d)" "spans (new_range_set d) = {}"
  by (auto simp: ranges_ok_def new_range_set_def records_ok_def links_ok_def keyed_def spans_def intro: holds_new)

lemma malloc_error_simps [simp]:
  "d_ranges (malloc_error d) = d_ranges d" "d_list (malloc_error d) = d_list d" "d_tree (malloc_error d) = d_tree d"
  "ranges_ok (malloc_error d) = ranges_ok d" "spans (malloc_error d) = spans d"
  by (simp_all add: malloc_error_def ranges_ok_def spans_def)

lemma sint_small: "unat (k :: u64) < 2 ^ 63 \<Longrightarrow> sint k = int (unat k)"
proof -
  assume "unat k < 2 ^ 63"
  then have "int (unat k) < int (2 ^ 63)"
    by (simp only: of_nat_less_iff)
  then have "uint k < 2 ^ 63"
    by simp
  then have "sint k = uint k"
    unfolding sint_uint by (intro signed_take_bit_int_eq_self) (simp_all add: order.trans [OF _ uint_ge_0])
  then show ?thesis
    by simp
qed

text \<open>The predecessor \<open>tree_find_nearest\<close> returns.\<close>

lemma nearest_record:
  assumes R: "records_ok R" and M: "keyed R M" and lo: "unat lo < 2 ^ 63" and n: "nearest_entry M lo v"
  shows "v = NULL \<and> (\<forall>p r. R p = Some r \<longrightarrow> lo < r_lo r) \<or>
    v \<noteq> NULL \<and> (\<exists>r. R v = Some r \<and> r_lo r \<le> lo \<and> (\<forall>q s. R q = Some s \<longrightarrow> r_lo s \<le> lo \<longrightarrow> r_lo s \<le> r_lo r))"
proof -
  have sm: "sint (r_lo r) = int (unat (r_lo r))" if "R p = Some r" for p r
  proof -
    have "r_lo r \<le> r_hi r" "unat (r_hi r) < 2 ^ 63"
      using R that by (auto simp: records_ok_def)
    then show ?thesis
      by (intro sint_small) (simp add: word_le_nat_alt)
  qed
  have le: "sint (r_lo r) \<le> sint lo \<longleftrightarrow> r_lo r \<le> lo" if "R p = Some r" for p r
    using sm [OF that] sint_small [OF lo] by (simp add: word_le_def)
  have le2: "sint (r_lo r) \<le> sint (r_lo s) \<longleftrightarrow> r_lo r \<le> r_lo s" if "R p = Some r" "R q = Some s" for p r q s
    using sm [OF that(1)] sm [OF that(2)] by (simp add: word_le_def)
  have dom: "r_lo r \<in> dom M" if "R p = Some r" for p r
    using M that by (auto simp: keyed_def)
  show ?thesis
  proof (cases "\<exists>k \<in> dom M. sint k \<le> sint lo")
    case True
    with n obtain k where k: "M k = Some v" "sint k \<le> sint lo"
      "\<And>k'. k' \<in> dom M \<Longrightarrow> sint k' \<le> sint lo \<Longrightarrow> sint k' \<le> sint k"
      unfolding nearest_entry_def by (subst (asm) if_P) blast+
    then obtain r where r: "R v = Some r" "r_lo r = k"
      using M by (auto simp: keyed_def)
    have "r_lo s \<le> r_lo r" if s: "R q = Some s" "r_lo s \<le> lo" for q s
      using k(3) [OF dom [OF s(1)]] le [OF s(1)] s(2) le2 [OF s(1) r(1)] r(2) by simp
    moreover have "r_lo r \<le> lo"
      using le [OF r(1)] k(2) r(2) by simp
    moreover have "v \<noteq> NULL"
      using R r(1) by (auto simp: records_ok_def)
    ultimately show ?thesis
      using r(1) by blast
  next
    case False
    with n have "v = NULL"
      unfolding nearest_entry_def by (subst (asm) if_not_P) blast+
    moreover have "lo < r_lo r" if "R p = Some r" for p r
      using False dom [OF that] le [OF that] by auto
    ultimately show ?thesis
      by blast
  qed
qed

text \<open>Linking a record, as one change of the store.\<close>

definition linked_in :: "u64 \<Rightarrow> range_t \<Rightarrow> (u64 \<rightharpoonup> range_t) \<Rightarrow> u64 \<rightharpoonup> range_t" where
  "linked_in p new R q = (if q = p then Some new
     else case R q of None \<Rightarrow> None
       | Some r \<Rightarrow> Some (r\<lparr>r_next := (if q = r_prev new then p else r_next r), r_prev := (if q = r_next new then p else r_prev r)\<rparr>))"

lemma link_range_eq:
  assumes R: "R = d_ranges d" "R NULL = None" and p: "p = mal (dom R)" "p \<noteq> NULL" "R p = None"
    and prev: "prev \<noteq> NULL \<Longrightarrow> prev \<in> dom R" and nx: "next \<noteq> NULL \<Longrightarrow> next \<in> dom R"
    and t: "holds (d_tree d) M" "M lo = None"
    and z: "mal (dom (t_store (d_tree d))) \<noteq> NULL" "t_store (d_tree d) (mal (dom (t_store (d_tree d)))) = None"
  shows "\<exists>t. link_range mal prev next lo hi index d =
      Some (d\<lparr>d_ranges := linked_in p \<lparr>r_lo = lo, r_hi = hi, r_index = index, r_next = next, r_prev = prev\<rparr> R,
        d_list := (if prev = NULL then p else d_list d), d_tree := t\<rparr>) \<and> holds t (M(lo \<mapsto> p))"
proof -
  obtain t' where t': "tree_insert (mal (dom (t_store (d_tree d)))) lo p (d_tree d) = Some (True, t')" "holds t' (M(lo \<mapsto> p))"
    using tree_insert_holds [OF t(1) z, of lo p] t(2) by auto
  have "prev \<noteq> p" "next \<noteq> p"
    using p prev nx by auto
  then show ?thesis
    using t' p R prev nx unfolding R(1)
    by (cases "prev = NULL"; cases "next = NULL")
      (auto simp: link_range_def rset_def Let_def linked_in_def guard_def split: option.split
        intro!: exI [where x = t'] driver.equality ext)
qed

text \<open>A new record: its links are those of the place below which no known record starts up to \<open>lo\<close>.\<close>

definition place_of :: "(u64 \<rightharpoonup> range_t) \<Rightarrow> u64 \<Rightarrow> u64 \<Rightarrow> u64 \<Rightarrow> bool" where
  "place_of R lo prev nx \<longleftrightarrow>
     prev = NULL \<and> nx = NULL \<and> (\<forall>q s. R q = Some s \<longrightarrow> lo < r_lo s) \<or>
     prev \<noteq> NULL \<and> (\<exists>r. R prev = Some r \<and> nx = r_next r \<and> r_lo r \<le> lo \<and>
       (\<forall>q s. R q = Some s \<longrightarrow> r_lo s \<le> lo \<longrightarrow> r_lo s \<le> r_lo r))"

definition fits :: "(u64 \<rightharpoonup> range_t) \<Rightarrow> u64 \<Rightarrow> u64 \<Rightarrow> range_t \<Rightarrow> bool" where
  "fits R l p new \<longleftrightarrow> records_ok R \<and> links_ok R l \<and> R p = None \<and> p \<noteq> NULL \<and>
     r_lo new \<le> r_hi new \<and> unat (r_hi new) < 2 ^ 63 \<and>
     (\<forall>q s. R q = Some s \<longrightarrow> r_hi s < r_lo new \<or> r_hi new < r_lo s) \<and> place_of R (r_lo new) (r_prev new) (r_next new)"

lemma unique_lo: "records_ok R \<Longrightarrow> R a = Some r \<Longrightarrow> R b = Some s \<Longrightarrow> r_lo r = r_lo s \<Longrightarrow> a = b"
  unfolding records_ok_def by (metis leD order.strict_trans2)

lemma linked_in_simps:
  "linked_in p new R p = Some new"
  "q \<noteq> p \<Longrightarrow> R q = None \<Longrightarrow> linked_in p new R q = None"
  "q \<noteq> p \<Longrightarrow> R q = Some r \<Longrightarrow> linked_in p new R q =
     Some (r\<lparr>r_next := (if q = r_prev new then p else r_next r), r_prev := (if q = r_next new then p else r_prev r)\<rparr>)"
  by (simp_all add: linked_in_def)

lemma linked_in_cases:
  assumes "linked_in p new R q = Some s"
  obtains (new) "q = p" "s = new"
  | (old) r where "q \<noteq> p" "R q = Some r"
      "s = r\<lparr>r_next := (if q = r_prev new then p else r_next r), r_prev := (if q = r_next new then p else r_prev r)\<rparr>"
  using assms by (auto simp: linked_in_def split: if_splits option.splits)

lemma fits_links:
  assumes "fits R l p new"
  shows "R q = Some s \<Longrightarrow> linked_next R q s" "R q = Some s \<Longrightarrow> linked_prev R q s"
    "l = NULL \<or> (\<exists>r. R l = Some r \<and> r_prev r = NULL)"
  using assms by (auto simp: fits_def links_ok_def)

lemma fits_clear: "fits R l p new \<Longrightarrow> R q = Some s \<Longrightarrow> r_hi s < r_lo new \<or> r_hi new < r_lo s"
  by (simp add: fits_def)

lemma fits_order:
  assumes "fits R l p new" "R q = Some s"
  shows "r_lo s \<noteq> r_lo new"
proof -
  have "r_lo s \<le> r_hi s" "r_lo new \<le> r_hi new"
    using assms by (auto simp: fits_def records_ok_def)
  then show ?thesis
    using fits_clear [OF assms] by auto
qed

lemma prev_before:
  assumes "fits R l p new" "r_prev new \<noteq> NULL"
  obtains r where "R (r_prev new) = Some r" "r_next new = r_next r" "r_lo r < r_lo new"
    "\<And>q s. R q = Some s \<Longrightarrow> r_lo s < r_lo new \<Longrightarrow> r_lo s \<le> r_lo r"
proof -
  obtain r where "R (r_prev new) = Some r" "r_next new = r_next r" "r_lo r \<le> r_lo new"
    "\<forall>q s. R q = Some s \<longrightarrow> r_lo s \<le> r_lo new \<longrightarrow> r_lo s \<le> r_lo r"
    using assms by (auto simp: fits_def place_of_def)
  then show ?thesis
    using that [of r] fits_order [OF assms(1)] by (auto simp: order.strict_iff_order)
qed

lemma next_after:
  assumes F: "fits R l p new" and n: "r_next new \<noteq> NULL"
  obtains s where "R (r_next new) = Some s" "r_prev s = r_prev new" "r_lo new < r_lo s" "r_prev new \<noteq> NULL"
    "\<And>q u. R q = Some u \<Longrightarrow> \<not> (r_lo new < r_lo u \<and> r_lo u < r_lo s)"
proof -
  have pr: "r_prev new \<noteq> NULL"
    using F n by (auto simp: fits_def place_of_def)
  obtain r where r: "R (r_prev new) = Some r" "r_next new = r_next r" "r_lo r < r_lo new"
    "\<And>q s. R q = Some s \<Longrightarrow> r_lo s < r_lo new \<Longrightarrow> r_lo s \<le> r_lo r"
    by (rule prev_before [OF F pr]) blast
  obtain s where s: "R (r_next new) = Some s" "r_prev s = r_prev new" "r_lo r < r_lo s"
    "\<forall>q u. R q = Some u \<longrightarrow> \<not> (r_lo r < r_lo u \<and> r_lo u < r_lo s)"
    using fits_links(1) [OF F r(1)] r(2) n by (auto simp: linked_next_def)
  have "r_lo new < r_lo s"
    using r(4) [OF s(1)] s(3) fits_order [OF F s(1)] by (meson leD linorder_neqE)
  moreover have "\<not> (r_lo new < r_lo u \<and> r_lo u < r_lo s)" if "R q = Some u" for q u
    using s(4) that r(3) order.strict_trans by blast
  ultimately show ?thesis
    using that s(1,2) pr by blast
qed

lemma records_linked_in:
  assumes F: "fits R l p new"
  shows "records_ok (linked_in p new R)"
proof -
  let ?R = "linked_in p new R"
  have R: "records_ok R" "p \<noteq> NULL"
    using F by (simp_all add: fits_def)
  have old: "\<exists>r. R q = Some r \<and> r_lo s = r_lo r \<and> r_hi s = r_hi r" if "?R q = Some s" "q \<noteq> p" for q s
    using that by (auto elim: linked_in_cases)
  have "dom ?R \<subseteq> insert p (dom R)"
    by (auto simp: linked_in_def split: if_splits option.splits)
  then have "finite (dom ?R)"
    using R by (auto simp: records_ok_def intro: finite_subset)
  moreover have "?R NULL = None"
    using R by (simp add: records_ok_def linked_in_simps)
  moreover have "r_lo s \<le> r_hi s \<and> unat (r_hi s) < 2 ^ 63" if s: "?R q = Some s" for q s
    using s
  proof (cases rule: linked_in_cases)
    case new
    then show ?thesis
      using F by (simp add: fits_def)
  next
    case (old r)
    then show ?thesis
      using R by (auto simp: records_ok_def)
  qed
  moreover have "r_hi s < r_lo u \<or> r_hi u < r_lo s" if s: "?R a = Some s" "?R b = Some u" "a \<noteq> b" for a b s u
  proof -
    consider "a = p" "b \<noteq> p" | "a \<noteq> p" "b = p" | "a \<noteq> p" "b \<noteq> p"
      using s(3) by blast
    then show ?thesis
    proof cases
      case 1
      with old [OF s(2)] s(1) fits_clear [OF F] show ?thesis
        by (fastforce simp: linked_in_simps)
    next
      case 2
      with old [OF s(1)] s(2) fits_clear [OF F] show ?thesis
        by (fastforce simp: linked_in_simps)
    next
      case 3
      with old [OF s(1)] old [OF s(2)] s(3) R(1) show ?thesis
        unfolding records_ok_def by metis
    qed
  qed
  ultimately show ?thesis
    unfolding records_ok_def by blast
qed

lemma next_linked_in:
  assumes F: "fits R l p new" and q: "linked_in p new R q = Some u"
  shows "linked_next (linked_in p new R) q u"
proof -
  let ?R = "linked_in p new R"
  have p: "R p = None" "p \<noteq> NULL" and R: "records_ok R"
    using F by (simp_all add: fits_def)
  have gap: "\<forall>q s. ?R q = Some s \<longrightarrow> \<not> (a < r_lo s \<and> r_lo s < b)"
    if "\<And>q s. R q = Some s \<Longrightarrow> \<not> (a < r_lo s \<and> r_lo s < b)" "\<not> (a < r_lo new \<and> r_lo new < b)" for a b
    using that by (auto elim!: linked_in_cases)
  from q show ?thesis
  proof (cases rule: linked_in_cases)
    case new
    show ?thesis
    proof (cases "r_next new = NULL")
      case False
      obtain s where s: "R (r_next new) = Some s" "r_lo new < r_lo s"
        "\<And>q u. R q = Some u \<Longrightarrow> \<not> (r_lo new < r_lo u \<and> r_lo u < r_lo s)"
        by (rule next_after [OF F False]) blast
      have "r_next new \<noteq> p"
        using s(1) p(1) by auto
      then show ?thesis
        using new s gap [of "r_lo new" "r_lo s"] by (auto simp: linked_next_def linked_in_simps)
    qed (simp add: new linked_next_def)
  next
    case (old r)
    show ?thesis
    proof (cases "q = r_prev new")
      case True
      then have "r_prev new \<noteq> NULL"
        using old R by (auto simp: records_ok_def)
      then obtain r' where r': "R (r_prev new) = Some r'" "r_lo r' < r_lo new"
        "\<And>q s. R q = Some s \<Longrightarrow> r_lo s < r_lo new \<Longrightarrow> r_lo s \<le> r_lo r'"
        by (rule prev_before [OF F]) blast
      then have "\<forall>q s. ?R q = Some s \<longrightarrow> \<not> (r_lo r < r_lo s \<and> r_lo s < r_lo new)"
        using True old by (intro gap) (auto dest: leD)
      then show ?thesis
        using True old r' by (auto simp: linked_next_def linked_in_simps)
    next
      case False
      show ?thesis
      proof (cases "r_next r = NULL")
        case True
        then show ?thesis
          using old False by (simp add: linked_next_def)
      next
        case n: False
        then obtain s where s: "R (r_next r) = Some s" "r_prev s = q" "r_lo r < r_lo s"
          "\<And>q u. R q = Some u \<Longrightarrow> \<not> (r_lo r < r_lo u \<and> r_lo u < r_lo s)"
          using fits_links(1) [OF F old(2)] by (auto simp: linked_next_def)
        have a: "r_next r \<noteq> p"
          using s(1) p(1) by auto
        have b: "r_next r \<noteq> r_next new"
        proof
          assume e: "r_next r = r_next new"
          with n have "r_next new \<noteq> NULL"
            by simp
          then obtain s' where "R (r_next new) = Some s'" "r_prev s' = r_prev new"
            by (rule next_after [OF F]) blast
          with e s(1,2) False show False
            by simp
        qed
        have "\<not> (r_lo r < r_lo new \<and> r_lo new < r_lo s)"
        proof
          assume btw: "r_lo r < r_lo new \<and> r_lo new < r_lo s"
          have "r_prev new \<noteq> NULL"
            using F btw old(2) less_asym [of "r_lo r" "r_lo new"] by (auto simp: fits_def place_of_def)
          then obtain r' where r': "R (r_prev new) = Some r'" "r_lo r' < r_lo new"
            "\<And>q s. R q = Some s \<Longrightarrow> r_lo s < r_lo new \<Longrightarrow> r_lo s \<le> r_lo r'"
            by (rule prev_before [OF F]) blast
          have "r_lo r \<noteq> r_lo r'"
            using unique_lo [OF R old(2) r'(1)] False by auto
          with r'(3) [OF old(2)] btw have "r_lo r < r_lo r'"
            by (simp add: order.strict_iff_order)
          with s(4) [OF r'(1)] r'(2) btw show False
            by auto
        qed
        then have "\<forall>q u. ?R q = Some u \<longrightarrow> \<not> (r_lo r < r_lo u \<and> r_lo u < r_lo s)"
          using s(4) by (intro gap) auto
        then show ?thesis
          using old False s(1-3) a b by (auto simp: linked_next_def linked_in_simps)
      qed
    qed
  qed
qed

lemma prev_linked_in:
  assumes F: "fits R l p new" and q: "linked_in p new R q = Some u"
  shows "linked_prev (linked_in p new R) q u"
proof -
  have p: "R p = None" "p \<noteq> NULL" and R: "records_ok R"
    using F by (simp_all add: fits_def)
  from q show ?thesis
  proof (cases rule: linked_in_cases)
    case new
    show ?thesis
    proof (cases "r_prev new = NULL")
      case False
      obtain r where "R (r_prev new) = Some r"
        by (rule prev_before [OF F False]) blast
      moreover have "r_prev new \<noteq> p"
        using calculation p(1) by auto
      ultimately show ?thesis
        using new by (simp add: linked_prev_def linked_in_simps)
    qed (simp add: new linked_prev_def)
  next
    case (old r)
    show ?thesis
    proof (cases "q = r_next new")
      case True
      then show ?thesis
        using old by (simp add: linked_prev_def linked_in_simps)
    next
      case False
      show ?thesis
      proof (cases "r_prev r = NULL")
        case True
        then show ?thesis
          using old False by (simp add: linked_prev_def)
      next
        case n: False
        then obtain s where s: "R (r_prev r) = Some s" "r_next s = q"
          using fits_links(2) [OF F old(2)] by (auto simp: linked_prev_def)
        have a: "r_prev r \<noteq> p"
          using s(1) p(1) by auto
        have "r_prev r \<noteq> r_prev new"
        proof
          assume e: "r_prev r = r_prev new"
          with n have "r_prev new \<noteq> NULL"
            by simp
          then obtain r' where "R (r_prev new) = Some r'" "r_next new = r_next r'"
            by (rule prev_before [OF F]) blast
          with e s False show False
            by simp
        qed
        then show ?thesis
          using old False s a by (auto simp: linked_prev_def linked_in_simps)
      qed
    qed
  qed
qed

lemma links_linked_in:
  assumes F: "fits R l p new"
  shows "links_ok (linked_in p new R) (if r_prev new = NULL then p else l)"
proof -
  have "l = NULL \<or> (\<exists>r. linked_in p new R l = Some r \<and> r_prev r = NULL)" if "r_prev new \<noteq> NULL"
  proof (cases "l = NULL")
    case False
    then obtain r where r: "R l = Some r" "r_prev r = NULL"
      using fits_links(3) [OF F] by auto
    have "l \<noteq> p"
      using F r by (auto simp: fits_def)
    moreover have "l \<noteq> r_next new"
    proof
      assume e: "l = r_next new"
      with False have "r_next new \<noteq> NULL"
        by simp
      then obtain s where "R (r_next new) = Some s" "r_prev s = r_prev new"
        by (rule next_after [OF F]) blast
      with e r that show False
        by simp
    qed
    ultimately show ?thesis
      using r by (simp add: linked_in_simps)
  qed simp
  then show ?thesis
    using next_linked_in [OF F] prev_linked_in [OF F] by (auto simp: links_ok_def linked_in_simps)
qed

section \<open>Adding a block\<close>

text \<open>What the code relies on of \<open>malloc\<close>: an address that is in use is not returned (and \<open>NULL\<close> not, when
  the driver does not run out of memory).\<close>

definition mallocs :: "libc_malloc \<Rightarrow> driver \<Rightarrow> bool" where
  "mallocs mal d \<longleftrightarrow> (\<forall>S \<in> {dom (d_ranges d), dom (t_store (d_tree d))}. mal S \<noteq> NULL \<and> mal S \<notin> S)"

lemma keyed_update:
  assumes "keyed R M" "fits R l p new"
  shows "keyed (linked_in p new R) (M(r_lo new \<mapsto> p))"
proof -
  have p: "R p = None"
    using assms(2) by (simp add: fits_def)
  have "(\<exists>s. linked_in p new R q = Some s \<and> r_lo s = k) \<longleftrightarrow> q = p \<and> k = r_lo new \<or> q \<noteq> p \<and> (\<exists>s. R q = Some s \<and> r_lo s = k)"
    for q k
    by (cases "q = p"; cases "R q") (auto simp: linked_in_simps)
  moreover have "r_lo s \<noteq> r_lo new" if "R q = Some s" for q s
    using fits_order [OF assms(2) that] .
  ultimately show ?thesis
    using assms(1) p by (auto simp: keyed_def)
qed

lemma spans_update:
  assumes "d_ranges d' = linked_in p new (d_ranges d)" "d_ranges d p = None"
  shows "spans d' = insert (r_lo new, r_hi new) (spans d)"
proof
  show "spans d' \<subseteq> insert (r_lo new, r_hi new) (spans d)"
    using assms(1) by (fastforce simp: spans_def elim!: linked_in_cases)
  have "(r_lo new, r_hi new) \<in> spans d'"
    using assms(1) linked_in_simps(1) [of p new "d_ranges d"] by (auto simp: spans_def intro!: exI [where x = p] exI [where x = new])
  moreover have "(r_lo r, r_hi r) \<in> spans d'" if r: "d_ranges d q = Some r" for q r
  proof -
    have "q \<noteq> p"
      using assms(2) r by auto
    then have "(r_lo r, r_hi r) = (r_lo s, r_hi s) \<and> d_ranges d' q = Some s"
      if "s = r\<lparr>r_next := (if q = r_prev new then p else r_next r), r_prev := (if q = r_next new then p else r_prev r)\<rparr>" for s
      using that assms(1) linked_in_simps(3) [of q p "d_ranges d" r new] r by simp
    then show ?thesis
      unfolding spans_def by blast
  qed
  ultimately show "insert (r_lo new, r_hi new) (spans d) \<subseteq> spans d'"
    by (auto simp: spans_def)
qed

lemma place_nearest:
  assumes "ranges_ok d" "unat lo < 2 ^ 63"
  obtains prev t nx M where "tree_find_nearest lo (d_tree d) = Some (prev, t)" "holds t M" "keyed (d_ranges d) M"
    "t_store t = t_store (d_tree d)"
    "(if prev \<noteq> NULL then rfld r_next prev d else Some NULL) = Some nx" "place_of (d_ranges d) lo prev nx"
proof -
  obtain M where M: "holds (d_tree d) M" "keyed (d_ranges d) M" and R: "records_ok (d_ranges d)"
    using assms(1) by (auto simp: ranges_ok_def)
  obtain n v where v: "tree_find_nearest lo (d_tree d) = Some (v, (d_tree d)\<lparr>t_comparisons := n\<rparr>)" "nearest_entry M lo v"
    using tree_find_nearest_holds [OF M(1)] by blast
  have h: "holds ((d_tree d)\<lparr>t_comparisons := n\<rparr>) M"
    using M(1) by simp
  from nearest_record [OF R M(2) assms(2) v(2)] show ?thesis
  proof (elim disjE conjE exE)
    assume "v = NULL" "\<forall>p r. d_ranges d p = Some r \<longrightarrow> lo < r_lo r"
    then show ?thesis
      by (intro that [OF v(1) h M(2)]) (simp_all add: place_of_def)
  next
    fix r
    assume "v \<noteq> NULL" "d_ranges d v = Some r" "r_lo r \<le> lo" "\<forall>q s. d_ranges d q = Some s \<longrightarrow> r_lo s \<le> lo \<longrightarrow> r_lo s \<le> r_lo r"
    then show ?thesis
      by (intro that [OF v(1) h M(2), of "r_next r"]) (simp_all add: place_of_def rfld_def)
  qed
qed

lemma last_byte:
  assumes "0 < n" "unat lo + unat (n :: u64) \<le> 2 ^ 63"
  shows "unat (lo + n - 1) = unat lo + unat n - 1" "lo \<le> lo + n - 1" "unat (lo + n - 1) < 2 ^ 63" "unat lo < 2 ^ 63"
proof -
  have n: "unat n \<noteq> 0"
    using assms(1) by (simp add: unat_eq_0)
  have "unat (lo + n) = unat lo + unat n"
    using assms(2) by (simp add: unat_word_ariths)
  moreover have "lo + n \<noteq> 0"
    using calculation n by (metis add_eq_0_iff_both_eq_0 unat_0)
  ultimately show e: "unat (lo + n - 1) = unat lo + unat n - 1"
    by (simp add: unat_minus_one)
  then show "lo \<le> lo + n - 1" "unat (lo + n - 1) < 2 ^ 63" "unat lo < 2 ^ 63"
    using assms(2) n by (simp_all add: word_le_nat_alt)
qed

text \<open>How \<open>add_range\<close> decides about a block that is aligned and lies in the heap.\<close>

definition overlap_prev :: "driver \<Rightarrow> u64 \<Rightarrow> u64 \<Rightarrow> bool" where
  "overlap_prev d prev lo \<longleftrightarrow> (\<exists>r. prev \<noteq> NULL \<and> d_ranges d prev = Some r \<and> lo \<le> r_hi r)"

definition overlap_next :: "driver \<Rightarrow> u64 \<Rightarrow> u64 \<Rightarrow> bool" where
  "overlap_next d nx hi \<longleftrightarrow> (\<exists>r. nx \<noteq> NULL \<and> d_ranges d nx = Some r \<and> r_lo r \<le> hi)"

lemma next_known:
  assumes "ranges_ok d" "place_of (d_ranges d) lo prev nx" "nx \<noteq> NULL"
  obtains s where "d_ranges d nx = Some s" "lo < r_lo s"
proof -
  obtain r where r: "d_ranges d prev = Some r" "nx = r_next r" "r_lo r \<le> lo"
    "\<forall>q s. d_ranges d q = Some s \<longrightarrow> r_lo s \<le> lo \<longrightarrow> r_lo s \<le> r_lo r"
    using assms(2,3) by (auto simp: place_of_def)
  have "linked_next (d_ranges d) prev r"
    using assms(1) r(1) by (auto simp: ranges_ok_def links_ok_def)
  then obtain s where s: "d_ranges d nx = Some s" "r_lo r < r_lo s"
    using assms(3) r(2) by (auto simp: linked_next_def)
  moreover have "lo < r_lo s"
    using r(4) s by (meson leD linorder_not_le)
  ultimately show ?thesis
    using that by blast
qed

lemma prev_known:
  assumes "place_of (d_ranges d) lo prev nx" "prev \<noteq> NULL"
  obtains r where "d_ranges d prev = Some r" "r_lo r \<le> lo"
  using assms by (auto simp: place_of_def)

lemma add_range_decides:
  assumes ok: "ranges_ok d" and dbg: "dbg \<noteq> DBG_NONE" and n: "0 < n" "unat lo + unat n \<le> 2 ^ 63"
    and a: "IS_ALIGNED lo" "\<not> outside_heap st lo (lo + n - 1)"
  obtains prev t nx M where "holds t M" "keyed (d_ranges d) M" "t_store t = t_store (d_tree d)"
    "place_of (d_ranges d) lo prev nx"
    "add_range dbg mal st lo n index d =
      (if overlap_prev d prev lo \<or> overlap_next d nx (lo + n - 1) then Some (False, malloc_error (d\<lparr>d_tree := t\<rparr>))
       else map_option (Pair True) (link_range mal prev nx lo (lo + n - 1) index (d\<lparr>d_tree := t\<rparr>)))"
proof -
  obtain prev t nx M where P: "tree_find_nearest lo (d_tree d) = Some (prev, t)" "holds t M" "keyed (d_ranges d) M"
    "t_store t = t_store (d_tree d)"
    "(if prev \<noteq> NULL then rfld r_next prev d else Some NULL) = Some nx" "place_of (d_ranges d) lo prev nx"
    by (rule place_nearest [OF ok last_byte(4) [OF n]])
  have pr: "(if prev \<noteq> NULL then do { h \<leftarrow> rfld r_hi prev (d\<lparr>d_tree := t\<rparr>); Some (lo \<le> h) } else Some False) =
      Some (overlap_prev d prev lo)"
    using P(6) by (auto simp: overlap_prev_def rfld_def elim: prev_known)
  have nx: "(if nx \<noteq> NULL then do { l \<leftarrow> rfld r_lo nx (d\<lparr>d_tree := t\<rparr>); Some (lo + n - 1 \<ge> l) } else Some False) =
      Some (overlap_next d nx (lo + n - 1))"
    using ok P(6) by (auto simp: overlap_next_def rfld_def elim: next_known)
  have rn: "(if prev \<noteq> NULL then rfld r_next prev (d\<lparr>d_tree := t\<rparr>) else Some NULL) = Some nx"
    using P(5) by (simp add: rfld_def split: if_splits)
  have "add_range dbg mal st lo n index d =
      (if overlap_prev d prev lo \<or> overlap_next d nx (lo + n - 1) then Some (False, malloc_error (d\<lparr>d_tree := t\<rparr>))
       else map_option (Pair True) (link_range mal prev nx lo (lo + n - 1) index (d\<lparr>d_tree := t\<rparr>)))"
    using dbg n(1) a P(1)
    by (simp only: add_range_def Let_def guard_simps if_False if_True not_True_eq_False not_False_eq_True simp_thms
        Option.bind_lunit split_conv rn pr nx)
      (simp split: Option.bind_split option.split)
  then show ?thesis
    using that P(2-4,6) by blast
qed

lemma tree_update [simp]:
  "block_clear (d\<lparr>d_tree := t\<rparr>) lo hi = block_clear d lo hi" "spans (d\<lparr>d_tree := t\<rparr>) = spans d"
  by (simp_all add: block_clear_def spans_def)

lemma ranges_okI:
  "records_ok (d_ranges d) \<Longrightarrow> links_ok (d_ranges d) (d_list d) \<Longrightarrow> holds (d_tree d) M \<Longrightarrow> keyed (d_ranges d) M \<Longrightarrow> ranges_ok d"
  by (auto simp: ranges_ok_def)

lemma overlap_not_clear:
  assumes ok: "ranges_ok d" and pl: "place_of (d_ranges d) lo prev nx" and h: "lo \<le> hi"
    and o: "overlap_prev d prev lo \<or> overlap_next d nx hi"
  shows "\<not> block_clear d lo hi"
  using o
proof
  assume "overlap_prev d prev lo"
  then obtain r where "d_ranges d prev = Some r" "lo \<le> r_hi r" "prev \<noteq> NULL"
    by (auto simp: overlap_prev_def)
  moreover from prev_known [OF pl this(3)] obtain r' where "d_ranges d prev = Some r'" "r_lo r' \<le> lo" .
  ultimately show ?thesis
    using h by (fastforce simp: block_clear_def)
next
  assume "overlap_next d nx hi"
  then obtain r where r: "d_ranges d nx = Some r" "r_lo r \<le> hi" "nx \<noteq> NULL"
    by (auto simp: overlap_next_def)
  moreover from next_known [OF ok pl this(3)] obtain r' where "d_ranges d nx = Some r'" "lo < r_lo r'" .
  moreover have "r_lo r \<le> r_hi r"
    using ok r(1) by (auto simp: ranges_ok_def records_ok_def)
  ultimately show ?thesis
    by (fastforce simp: block_clear_def)
qed

lemma no_overlap_below:
  assumes ok: "ranges_ok d" and pl: "place_of (d_ranges d) lo prev nx" and o: "\<not> overlap_prev d prev lo"
    and s: "d_ranges d q = Some s" "r_lo s \<le> lo"
  shows "r_hi s < lo"
proof -
  have R: "records_ok (d_ranges d)"
    using ok by (simp add: ranges_ok_def)
  obtain r where r: "d_ranges d prev = Some r" "r_lo r \<le> lo" "r_lo s \<le> r_lo r" "prev \<noteq> NULL"
    using pl s by (auto simp: place_of_def dest: leD)
  have hi: "r_hi r < lo"
    using o r by (auto simp: overlap_prev_def)
  show ?thesis
  proof (cases "q = prev")
    case True
    then show ?thesis
      using hi r s by simp
  next
    case False
    have "r_lo r \<le> r_hi r" "r_hi s < r_lo r \<or> r_hi r < r_lo s"
      using R r(1) s(1) False by (auto simp: records_ok_def)
    then show ?thesis
      using hi r(3) by auto
  qed
qed

lemma add_range_correct:
  assumes ok: "ranges_ok d" and mal: "mallocs mal d" and dbg: "dbg \<noteq> DBG_NONE" and n: "0 < n" "unat lo + unat n \<le> 2 ^ 63"
  shows "\<exists>b d'. add_range dbg mal st lo n index d = Some (b, d') \<and>
    (if IS_ALIGNED lo \<and> \<not> outside_heap st lo (lo + n - 1) \<and> block_clear d lo (lo + n - 1)
     then b \<and> ranges_ok d' \<and> spans d' = insert (lo, lo + n - 1) (spans d)
     else (b \<longrightarrow> IS_ALIGNED lo \<and> \<not> outside_heap st lo (lo + n - 1) \<and> (\<forall>(l, h) \<in> spans d. l \<le> lo \<longrightarrow> h < lo)) \<and>
       (\<not> b \<longrightarrow> ranges_ok d' \<and> spans d' = spans d))"
proof (cases "IS_ALIGNED lo \<and> \<not> outside_heap st lo (lo + n - 1)")
  case False
  then have "add_range dbg mal st lo n index d = Some (False, malloc_error d)"
    using n(1) by (auto simp: add_range_def Let_def)
  with False ok show ?thesis
    by auto
next
  case True
  then obtain prev t nx M where P: "holds t M" "keyed (d_ranges d) M" "t_store t = t_store (d_tree d)"
    "place_of (d_ranges d) lo prev nx"
    "add_range dbg mal st lo n index d =
      (if overlap_prev d prev lo \<or> overlap_next d nx (lo + n - 1) then Some (False, malloc_error (d\<lparr>d_tree := t\<rparr>))
       else map_option (Pair True) (link_range mal prev nx lo (lo + n - 1) index (d\<lparr>d_tree := t\<rparr>)))"
    using add_range_decides [OF ok dbg n] by metis
  note B = last_byte [OF n]
  have R: "records_ok (d_ranges d)" "links_ok (d_ranges d) (d_list d)"
    using ok by (auto simp: ranges_ok_def)
  show ?thesis
  proof (cases "overlap_prev d prev lo \<or> overlap_next d nx (lo + n - 1)")
    case o: True
    have "ranges_ok (d\<lparr>d_tree := t\<rparr>)"
      by (rule ranges_okI [of _ M]) (use R P in simp_all)
    with o P(5) overlap_not_clear [OF ok P(4) B(2) o] show ?thesis
      by auto
  next
    case o: False
    let ?p = "mal (dom (d_ranges d))" and ?d = "d\<lparr>d_tree := t\<rparr>"
    let ?new = "\<lparr>r_lo = lo, r_hi = lo + n - 1, r_index = index, r_next = nx, r_prev = prev\<rparr>"
    have p: "?p \<noteq> NULL" "d_ranges d ?p = None" "mal (dom (t_store t)) \<noteq> NULL" "t_store t (mal (dom (t_store t))) = None"
      using mal P(3) by (auto simp: mallocs_def)
    have below: "r_hi s < lo" if "d_ranges d q = Some s" "r_lo s \<le> lo" for q s
      using no_overlap_below [OF ok P(4) _ that] o by blast
    have "d_ranges d q \<noteq> Some s" if "r_lo s = lo" for q s
      using below [of q s] R(1) that by (auto simp: records_ok_def dest: leD)
    then have "M lo = None"
      using P(2) by (cases "M lo") (auto simp: keyed_def)
    moreover have "prev \<noteq> NULL \<Longrightarrow> prev \<in> dom (d_ranges d)" "nx \<noteq> NULL \<Longrightarrow> nx \<in> dom (d_ranges d)"
      using prev_known [OF P(4)] next_known [OF ok P(4)] by blast+
    ultimately obtain t' where t': "link_range mal prev nx lo (lo + n - 1) index ?d =
        Some (d\<lparr>d_ranges := linked_in ?p ?new (d_ranges d), d_list := (if prev = NULL then ?p else d_list d), d_tree := t'\<rparr>)"
        (is "_ = Some ?d'") "holds t' (M(lo \<mapsto> ?p))"
      using link_range_eq [of "d_ranges d" ?d ?p mal prev nx M lo "lo + n - 1" index] p P(1) R(1)
      by (auto simp: records_ok_def cong: if_cong)
    have step: "add_range dbg mal st lo n index d = Some (True, ?d')"
      using P(5) o t'(1) by simp
    have "ranges_ok ?d' \<and> spans ?d' = insert (lo, lo + n - 1) (spans d)" if c: "block_clear d lo (lo + n - 1)"
    proof -
      have F: "fits (d_ranges d) (d_list d) ?p ?new"
        using R p B c P(4) by (simp add: fits_def block_clear_def)
      show ?thesis
      proof
        show "ranges_ok ?d'"
          by (rule ranges_okI [of _ "M(lo \<mapsto> ?p)"])
            (use records_linked_in [OF F] links_linked_in [OF F] keyed_update [OF P(2) F] t'(2) in simp_all)
        show "spans ?d' = insert (lo, lo + n - 1) (spans d)"
          using spans_update [of ?d' ?p ?new d] p(2) by simp
      qed
    qed
    moreover have "\<forall>(l, h) \<in> spans d. l \<le> lo \<longrightarrow> h < lo"
      using below by (auto simp: spans_def)
    ultimately show ?thesis
      using step True by auto
  qed
qed

section \<open>Removing a block\<close>

definition linked_out :: "u64 \<Rightarrow> range_t \<Rightarrow> (u64 \<rightharpoonup> range_t) \<Rightarrow> u64 \<rightharpoonup> range_t" where
  "linked_out p r R q = (if q = p then None
     else case R q of None \<Rightarrow> None
       | Some s \<Rightarrow> Some (s\<lparr>r_next := (if q = r_prev r then r_next r else r_next s),
           r_prev := (if q = r_next r then r_prev r else r_prev s)\<rparr>))"

lemma linked_out_simps:
  "linked_out p r R p = None"
  "R q = None \<Longrightarrow> linked_out p r R q = None"
  "q \<noteq> p \<Longrightarrow> R q = Some s \<Longrightarrow> linked_out p r R q =
     Some (s\<lparr>r_next := (if q = r_prev r then r_next r else r_next s), r_prev := (if q = r_next r then r_prev r else r_prev s)\<rparr>)"
  by (simp_all add: linked_out_def)

lemma linked_out_cases:
  assumes "linked_out p r R q = Some u"
  obtains s where "q \<noteq> p" "R q = Some s"
    "u = s\<lparr>r_next := (if q = r_prev r then r_next r else r_next s), r_prev := (if q = r_next r then r_prev r else r_prev s)\<rparr>"
  using assms by (auto simp: linked_out_def split: if_splits option.splits)

lemma linked_out_span:
  assumes "linked_out p r R q = Some u"
  obtains s where "q \<noteq> p" "R q = Some s" "r_lo u = r_lo s" "r_hi u = r_hi s"
  using assms by (auto elim: linked_out_cases)

text \<open>The neighbours of a record.\<close>

lemma neighbours:
  assumes L: "links_ok R l" and R: "records_ok R" and r: "R p = Some r"
  shows "r_next r \<noteq> NULL \<Longrightarrow> \<exists>u. R (r_next r) = Some u \<and> r_prev u = p \<and> r_lo r < r_lo u \<and> r_next r \<noteq> p \<and>
      (\<forall>q s. R q = Some s \<longrightarrow> \<not> (r_lo r < r_lo s \<and> r_lo s < r_lo u))"
    and "r_prev r \<noteq> NULL \<Longrightarrow> \<exists>v. R (r_prev r) = Some v \<and> r_next v = p \<and> r_lo v < r_lo r \<and> r_prev r \<noteq> p \<and>
      (\<forall>q s. R q = Some s \<longrightarrow> \<not> (r_lo v < r_lo s \<and> r_lo s < r_lo r))"
proof -
  have n: "linked_next R q s" "linked_prev R q s" if "R q = Some s" for q s
    using L that by (auto simp: links_ok_def)
  show "\<exists>u. R (r_next r) = Some u \<and> r_prev u = p \<and> r_lo r < r_lo u \<and> r_next r \<noteq> p \<and>
      (\<forall>q s. R q = Some s \<longrightarrow> \<not> (r_lo r < r_lo s \<and> r_lo s < r_lo u))" if "r_next r \<noteq> NULL"
    using n(1) [OF r] that r by (auto simp: linked_next_def)
  assume "r_prev r \<noteq> NULL"
  then obtain v where v: "R (r_prev r) = Some v" "r_next v = p"
    using n(2) [OF r] by (auto simp: linked_prev_def)
  have "p \<noteq> NULL"
    using R r by (auto simp: records_ok_def)
  then show "\<exists>v. R (r_prev r) = Some v \<and> r_next v = p \<and> r_lo v < r_lo r \<and> r_prev r \<noteq> p \<and>
      (\<forall>q s. R q = Some s \<longrightarrow> \<not> (r_lo v < r_lo s \<and> r_lo s < r_lo r))"
    using n(1) [OF v(1)] v r by (auto simp: linked_next_def)
qed

lemma records_linked_out:
  assumes "records_ok R"
  shows "records_ok (linked_out p r R)"
proof -
  have "dom (linked_out p r R) \<subseteq> dom R"
    by (auto simp: linked_out_def split: if_splits option.splits)
  then have "finite (dom (linked_out p r R))"
    using assms by (auto simp: records_ok_def intro: finite_subset)
  moreover have "linked_out p r R NULL = None"
    using assms by (simp add: records_ok_def linked_out_simps)
  moreover have "r_lo u \<le> r_hi u \<and> unat (r_hi u) < 2 ^ 63" if "linked_out p r R q = Some u" for q u
    using that assms by (auto elim!: linked_out_cases simp: records_ok_def)
  moreover have "r_hi s < r_lo u \<or> r_hi u < r_lo s" if "linked_out p r R a = Some s" "linked_out p r R b = Some u" "a \<noteq> b" for a b s u
    using that(1,2)
  proof (elim linked_out_span)
    fix s' u'
    assume "R a = Some s'" "R b = Some u'" "r_lo s = r_lo s'" "r_hi s = r_hi s'" "r_lo u = r_lo u'" "r_hi u = r_hi u'"
    then show ?thesis
      using assms that(3) unfolding records_ok_def by metis
  qed
  ultimately show ?thesis
    unfolding records_ok_def by blast
qed

lemma links_linked_out:
  assumes L: "links_ok R l" and R: "records_ok R" and r: "R p = Some r"
  shows "links_ok (linked_out p r R) (if r_prev r = NULL then r_next r else l)"
proof -
  let ?R = "linked_out p r R"
  note nb = neighbours [OF L R]
  have p: "p \<noteq> NULL"
    using R r by (auto simp: records_ok_def)
  have "linked_next ?R q u \<and> linked_prev ?R q u" if "?R q = Some u" for q u
    using that
  proof (cases rule: linked_out_cases)
    case (1 s)
    have q: "q \<noteq> NULL"
      using R 1(2) by (auto simp: records_ok_def)
    have gap: "\<forall>q s. ?R q = Some s \<longrightarrow> \<not> (a < r_lo s \<and> r_lo s < b)"
      if "\<And>q s. R q = Some s \<Longrightarrow> q \<noteq> p \<Longrightarrow> \<not> (a < r_lo s \<and> r_lo s < b)" for a b
      using that by (auto elim!: linked_out_span)
    have "linked_next ?R q u"
    proof (cases "q = r_prev r")
      case True
      with q obtain v where v: "R q = Some v" "r_next v = p" "r_lo v < r_lo r"
        "\<And>q s. R q = Some s \<Longrightarrow> \<not> (r_lo v < r_lo s \<and> r_lo s < r_lo r)"
        using nb(2) [OF r] by auto
      show ?thesis
      proof (cases "r_next r = NULL")
        case True
        then show ?thesis
          using 1 \<open>q = r_prev r\<close> by (simp add: linked_next_def)
      next
        case False
        then obtain w where w: "R (r_next r) = Some w" "r_lo r < r_lo w" "r_next r \<noteq> p"
          "\<And>q s. R q = Some s \<Longrightarrow> \<not> (r_lo r < r_lo s \<and> r_lo s < r_lo w)"
          using nb(1) [OF r] by auto
        have "\<not> (r_lo v < r_lo s' \<and> r_lo s' < r_lo w)" if "R q' = Some s'" "q' \<noteq> p" for q' s'
          using v(4) [OF that(1)] w(4) [OF that(1)] unique_lo [OF R that(1) r] that(2) by auto
        then have "\<forall>q s. ?R q = Some s \<longrightarrow> \<not> (r_lo v < r_lo s \<and> r_lo s < r_lo w)"
          by (rule gap)
        then show ?thesis
          using 1 v w True by (auto simp: linked_next_def linked_out_simps)
      qed
    next
      case False
      show ?thesis
      proof (cases "r_next s = NULL")
        case True
        then show ?thesis
          using 1 False by (simp add: linked_next_def)
      next
        case n: False
        then obtain w where w: "R (r_next s) = Some w" "r_prev w = q" "r_lo s < r_lo w"
          "\<And>q u. R q = Some u \<Longrightarrow> \<not> (r_lo s < r_lo u \<and> r_lo u < r_lo w)"
          using nb(1) [OF 1(2)] by auto
        have "r_next s \<noteq> p"
          using w(1,2) r False by auto
        moreover have "r_next s \<noteq> r_next r"
          using nb(1) [OF r] n w(1,2) 1(1) by auto
        moreover have "\<forall>q u. ?R q = Some u \<longrightarrow> \<not> (r_lo s < r_lo u \<and> r_lo u < r_lo w)"
          using w(4) by (intro gap)
        ultimately show ?thesis
          using 1 w(1-3) False by (auto simp: linked_next_def linked_out_simps)
      qed
    qed
    moreover have "linked_prev ?R q u"
    proof (cases "q = r_next r")
      case True
      show ?thesis
      proof (cases "r_prev r = NULL")
        case False
        then obtain v where "R (r_prev r) = Some v" "r_prev r \<noteq> p"
          using nb(2) [OF r] by auto
        then show ?thesis
          using 1 True by (simp add: linked_prev_def linked_out_simps)
      qed (use 1 True in \<open>simp add: linked_prev_def\<close>)
    next
      case False
      show ?thesis
      proof (cases "r_prev s = NULL")
        case n: False
        then obtain v where v: "R (r_prev s) = Some v" "r_next v = q"
          using nb(2) [OF 1(2)] by auto
        have "r_prev s \<noteq> p"
          using v r False by auto
        moreover have "r_prev s \<noteq> r_prev r"
          using nb(2) [OF r] n v 1(1) by auto
        ultimately show ?thesis
          using 1 v False by (auto simp: linked_prev_def linked_out_simps)
      qed (use 1 False in \<open>simp add: linked_prev_def\<close>)
    qed
    ultimately show ?thesis ..
  qed
  moreover have "r_next r = NULL \<or> (\<exists>s. ?R (r_next r) = Some s \<and> r_prev s = NULL)" if "r_prev r = NULL"
  proof (cases "r_next r = NULL")
    case False
    then obtain w where "R (r_next r) = Some w" "r_next r \<noteq> p"
      using nb(1) [OF r] by auto
    with that show ?thesis
      by (simp add: linked_out_simps)
  qed simp
  moreover have "l = NULL \<or> (\<exists>s. ?R l = Some s \<and> r_prev s = NULL)" if n: "r_prev r \<noteq> NULL"
  proof (cases "l = NULL")
    case False
    then obtain w where w: "R l = Some w" "r_prev w = NULL"
      using L by (auto simp: links_ok_def)
    have "l \<noteq> p"
      using w r n by auto
    moreover have "l \<noteq> r_next r"
      using nb(1) [OF r] False w p by auto
    ultimately show ?thesis
      using w by (simp add: linked_out_simps)
  qed simp
  ultimately show ?thesis
    by (auto simp: links_ok_def)
qed

lemma keyed_remove:
  assumes K: "keyed R M" and R: "records_ok R" and r: "R p = Some r"
  shows "keyed (linked_out p r R) (M(r_lo r := None))"
proof -
  have "(\<exists>s. linked_out p r R q = Some s \<and> r_lo s = k) \<longleftrightarrow> q \<noteq> p \<and> (\<exists>s. R q = Some s \<and> r_lo s = k)" for q k
    by (cases "q = p"; cases "R q") (auto simp: linked_out_simps)
  then have o: "(\<exists>s. linked_out p r R q = Some s \<and> r_lo s = k) \<longleftrightarrow> q \<noteq> p \<and> M k = Some q" for q k
    using K by (simp add: keyed_def)
  have k: "M (r_lo r) = Some p"
    using K r by (auto simp: keyed_def)
  have "M k \<noteq> Some p" if "k \<noteq> r_lo r" for k
    using K r that by (auto simp: keyed_def)
  then show ?thesis
    using k unfolding keyed_def o by auto
qed

lemma spansI: "d_ranges d p = Some r \<Longrightarrow> (r_lo r, r_hi r) \<in> spans d"
  by (auto simp: spans_def)

lemma spans_remove:
  assumes R: "records_ok (d_ranges d)" and r: "d_ranges d p = Some r" and d': "d_ranges d' = linked_out p r (d_ranges d)"
  shows "spans d' = {s \<in> spans d. fst s \<noteq> r_lo r}"
proof
  show "spans d' \<subseteq> {s \<in> spans d. fst s \<noteq> r_lo r}"
  proof
    fix x
    assume "x \<in> spans d'"
    then obtain q u where u: "linked_out p r (d_ranges d) q = Some u" "x = (r_lo u, r_hi u)"
      using d' by (auto simp: spans_def)
    from u(1) obtain s where s: "q \<noteq> p" "d_ranges d q = Some s" "r_lo u = r_lo s" "r_hi u = r_hi s"
      by (rule linked_out_span)
    then have "r_lo s \<noteq> r_lo r"
      using unique_lo [OF R s(2) r] by auto
    with s u(2) show "x \<in> {s \<in> spans d. fst s \<noteq> r_lo r}"
      by (auto simp: spans_def)
  qed
  show "{s \<in> spans d. fst s \<noteq> r_lo r} \<subseteq> spans d'"
  proof
    fix x
    assume "x \<in> {s \<in> spans d. fst s \<noteq> r_lo r}"
    then obtain q s where s: "d_ranges d q = Some s" "x = (r_lo s, r_hi s)" "r_lo s \<noteq> r_lo r"
      by (auto simp: spans_def)
    then have "q \<noteq> p"
      using r by auto
    from linked_out_simps(3) [OF this, of "d_ranges d" s r] s(1) obtain u where
      "linked_out p r (d_ranges d) q = Some u" "r_lo u = r_lo s" "r_hi u = r_hi s"
      by auto
    with spansI [of d' q u] show "x \<in> spans d'"
      using d' s(2) by simp
  qed
qed

lemma remove_range_correct:
  assumes ok: "ranges_ok d"
  shows "\<exists>d'. remove_range lo d = Some d' \<and> ranges_ok d' \<and> spans d' = {s \<in> spans d. fst s \<noteq> lo}"
proof -
  obtain M where M: "holds (d_tree d) M" "keyed (d_ranges d) M" and R: "records_ok (d_ranges d)"
    and L: "links_ok (d_ranges d) (d_list d)"
    using ok by (auto simp: ranges_ok_def)
  obtain t where t: "tree_remove lo (d_tree d) = Some (case M lo of None \<Rightarrow> NULL | Some v \<Rightarrow> v, t)" "holds t (M(lo := None))"
    using tree_remove_holds [OF M(1)] by blast
  show ?thesis
  proof (cases "M lo")
    case None
    then have "M(lo := None) = M"
      by auto
    then have "ranges_ok (d\<lparr>d_tree := t\<rparr>)"
      using t(2) M(2) R L by (intro ranges_okI [of _ M]) simp_all
    moreover have "d_ranges d q \<noteq> Some s" if "r_lo s = lo" for q s
    proof
      assume "d_ranges d q = Some s"
      then have "M lo = Some q"
        using M(2) that by (auto simp: keyed_def)
      with None show False
        by simp
    qed
    then have "spans d = {s \<in> spans d. fst s \<noteq> lo}"
      by (auto simp: spans_def)
    ultimately show ?thesis
      using t(1) None by (simp add: remove_range_def)
  next
    case (Some p)
    then obtain r where r: "d_ranges d p = Some r" "r_lo r = lo"
      using M(2) by (auto simp: keyed_def)
    have p: "p \<noteq> NULL"
      using R r by (auto simp: records_ok_def)
    note nb = neighbours [OF L R r(1)]
    let ?d' = "d\<lparr>d_ranges := linked_out p r (d_ranges d), d_list := (if r_prev r = NULL then r_next r else d_list d), d_tree := t\<rparr>"
    have nu: "d_ranges d NULL = None"
      using R by (simp add: records_ok_def)
    have "remove_range lo d = Some ?d'"
      using t(1) Some r(1) p nb nu
      by (cases "r_prev r = NULL"; cases "r_next r = NULL")
        (auto simp: remove_range_def rfld_def rset_def linked_out_def Let_def split: option.split intro!: driver.equality ext)
    moreover have "ranges_ok ?d'"
      by (rule ranges_okI [of _ "M(lo := None)"])
        (use records_linked_out [OF R] links_linked_out [OF L R r(1)] keyed_remove [OF M(2) R r(1)] t(2) r(2) in simp_all)
    moreover have "spans ?d' = {s \<in> spans d. fst s \<noteq> lo}"
      using spans_remove [OF R r(1), of ?d'] r(2) by simp
    ultimately show ?thesis
      by blast
  qed
qed

section \<open>Freeing a range set\<close>

lemma mset_of_set: "mset xs = mset_set A \<Longrightarrow> finite A \<Longrightarrow> distinct xs \<and> set xs = A"
  by (metis count_mset_set(1,3) distinct_count_atmost_1 finite_set_mset_mset_set set_mset_mset)

lemma free_ranges_all:
  "distinct ps \<Longrightarrow> set ps \<subseteq> dom (d_ranges d) \<Longrightarrow>
    free_ranges ps d = Some (d\<lparr>d_ranges := (d_ranges d) |` (- set ps)\<rparr>)"
proof (induction ps arbitrary: d)
  case (Cons p ps)
  have "free_ranges ps (d\<lparr>d_ranges := (d_ranges d)(p := None)\<rparr>) =
      Some (d\<lparr>d_ranges := (d_ranges d)(p := None) |` (- set ps)\<rparr>)"
    using Cons.IH [of "d\<lparr>d_ranges := (d_ranges d)(p := None)\<rparr>"] Cons.prems by (auto simp del: fun_upd_apply)
  moreover have "(d_ranges d)(p := None) |` (- set ps) = (d_ranges d) |` (- set (p # ps))"
    by (auto simp: restrict_map_def fun_eq_iff)
  ultimately show ?case
    using Cons.prems by auto
qed (simp add: restrict_map_def)

lemma free_range_set_all:
  assumes "ranges_ok d"
  shows "\<exists>d'. free_range_set d = Some d' \<and> d_ranges d' = Map.empty \<and> t_store (d_tree d') = Map.empty"
proof -
  obtain M where M: "holds (d_tree d) M" "keyed (d_ranges d) M" and R: "records_ok (d_ranges d)"
    using assms by (auto simp: ranges_ok_def)
  obtain ps t where t: "tree_free (d_tree d) = Some (ps, t)" "mset ps = image_mset (\<lambda>k. the (M k)) (mset_set (dom M))"
    "t_store t = Map.empty"
    using tree_free_all [OF M(1)] by blast
  have fin: "finite (dom M)"
    using M(1) by (simp add: holds_def)
  have "inj_on (\<lambda>k. the (M k)) (dom M)"
    using M(2) by (force intro!: inj_onI simp: keyed_def)
  then have "mset ps = mset_set ((\<lambda>k. the (M k)) ` dom M)"
    using t(2) by (simp add: image_mset_mset_set)
  then have ps: "distinct ps" "set ps = (\<lambda>k. the (M k)) ` dom M"
    using mset_of_set fin by blast+
  have "set ps = dom (d_ranges d)"
  proof
    show "set ps \<subseteq> dom (d_ranges d)"
      using M(2) unfolding ps(2) by (force simp: keyed_def)
    show "dom (d_ranges d) \<subseteq> set ps"
    proof
      fix p
      assume "p \<in> dom (d_ranges d)"
      then obtain r where "d_ranges d p = Some r"
        by auto
      then have "M (r_lo r) = Some p"
        using M(2) by (auto simp: keyed_def)
      then show "p \<in> set ps"
        unfolding ps(2) by force
    qed
  qed
  moreover have "(d_ranges d) |` (- dom (d_ranges d)) = Map.empty"
    by (auto simp: restrict_map_def fun_eq_iff)
  ultimately have "free_ranges ps (d\<lparr>d_tree := t\<rparr>) = Some (d\<lparr>d_tree := t, d_ranges := Map.empty\<rparr>)"
    using free_ranges_all [OF ps(1), of "d\<lparr>d_tree := t\<rparr>"] by simp
  then show ?thesis
    using t(1,3) by (simp add: free_range_set_def)
qed

section \<open>What the driver notices\<close>

text \<open>C34: add_range enters every aligned block inside the heap that is disjoint from all blocks of the set, and the set
  stays well formed; a block it rejects fails one of these checks and leaves the set as it is; and a block it
  accepts is aligned, lies in the heap and overlaps no block that starts at or below its first byte. \<open>lo + n\<close> does not
  pass \<open>2^63\<close>, and \<open>malloc\<close> returns unused addresses.\<close>
theorem add_range_checks:
  "ranges_ok d \<Longrightarrow> mallocs mal d \<Longrightarrow> dbg \<noteq> DBG_NONE \<Longrightarrow> 0 < n \<Longrightarrow> unat lo + unat n \<le> 2 ^ 63 \<Longrightarrow>
   \<exists>b d'. add_range dbg mal st lo n index d = Some (b, d') \<and>
    (if IS_ALIGNED lo \<and> \<not> outside_heap st lo (lo + n - 1) \<and> block_clear d lo (lo + n - 1)
     then b \<and> ranges_ok d' \<and> spans d' = insert (lo, lo + n - 1) (spans d)
     else (b \<longrightarrow> IS_ALIGNED lo \<and> \<not> outside_heap st lo (lo + n - 1) \<and> (\<forall>(l, h) \<in> spans d. l \<le> lo \<longrightarrow> h < lo)) \<and>
       (\<not> b \<longrightarrow> ranges_ok d' \<and> spans d' = spans d))"
  by (rule add_range_correct)

definition some_driver :: driver where
  "some_driver = \<lparr>d_ranges = Map.empty, d_list = NULL, d_tree = tree_new, d_errors = 0\<rparr>"

definition two_addresses :: libc_malloc where
  "two_addresses S = (if 4096 \<notin> S then 4096 else 8192)"

definition some_heap :: heap_state where
  "some_heap = \<lparr>hmem = (\<lambda>_. 0), heap_start = 16, mem_brk = 160, mem_max_addr = 160, heap_listp = 0, seg_list = []\<rparr>"

lemma some_driver_ok:
  "ranges_ok some_driver" "mallocs two_addresses some_driver" "spans some_driver = {}" "block_clear some_driver lo hi"
  using new_range_set_ok [of some_driver]
  by (simp_all add: new_range_set_def some_driver_def mallocs_def two_addresses_def tree_new_def block_clear_def)

lemma some_heap_simps [simp]: "mem_heap_lo some_heap = 16" "mem_heap_hi some_heap = 159"
  by (simp_all add: some_heap_def mem_heap_lo_def mem_heap_hi_def)

lemma add_range_checks_witness:
  "\<exists>d'. add_range DBG_CHEAP two_addresses some_heap 64 32 0 some_driver = Some (True, d') \<and> ranges_ok d' \<and> spans d' = {(64, 95)}"
  using add_range_checks [OF some_driver_ok(1,2), of DBG_CHEAP 32 64 some_heap 0]
  by (auto simp: IS_ALIGNED_def ALIGNMENT_def outside_heap_def some_driver_ok(3,4))

text \<open>C35: add_range takes a block that starts below all blocks of the set to have no block above it either: it
  accepts it whatever it overlaps, and the list that is left holds this block alone.\<close>
theorem add_range_misses:
  assumes "ranges_ok d" "mallocs mal d" "dbg \<noteq> DBG_NONE" "0 < n" "unat lo + unat n \<le> 2 ^ 63"
    and "IS_ALIGNED lo" "\<not> outside_heap st lo (lo + n - 1)" "\<And>s. s \<in> spans d \<Longrightarrow> lo < fst s"
  shows "\<exists>d' r. add_range dbg mal st lo n index d = Some (True, d') \<and> spans d' = insert (lo, lo + n - 1) (spans d) \<and>
    d_ranges d' (d_list d') = Some r \<and> r_lo r = lo \<and> r_next r = NULL"
proof -
  obtain prev t nx M where P: "holds t M" "keyed (d_ranges d) M" "t_store t = t_store (d_tree d)"
    "place_of (d_ranges d) lo prev nx"
    "add_range dbg mal st lo n index d =
      (if overlap_prev d prev lo \<or> overlap_next d nx (lo + n - 1) then Some (False, malloc_error (d\<lparr>d_tree := t\<rparr>))
       else map_option (Pair True) (link_range mal prev nx lo (lo + n - 1) index (d\<lparr>d_tree := t\<rparr>)))"
    using add_range_decides [OF assms(1,3-7)] by metis
  have above: "lo < r_lo s" if "d_ranges d q = Some s" for q s
    using assms(8) spansI [of d q s] that by fastforce
  then have pn: "prev = NULL" "nx = NULL"
    using P(4) by (auto simp: place_of_def dest: leD)
  have R: "records_ok (d_ranges d)"
    using assms(1) by (simp add: ranges_ok_def)
  let ?p = "mal (dom (d_ranges d))" and ?d = "d\<lparr>d_tree := t\<rparr>"
  let ?new = "\<lparr>r_lo = lo, r_hi = lo + n - 1, r_index = index, r_next = NULL, r_prev = NULL\<rparr>"
  have p: "?p \<noteq> NULL" "d_ranges d ?p = None" "mal (dom (t_store t)) \<noteq> NULL" "t_store t (mal (dom (t_store t))) = None"
    using assms(2) P(3) by (auto simp: mallocs_def)
  have "M lo = None"
    using P(2) above by (cases "M lo") (auto simp: keyed_def)
  then obtain t' where t': "link_range mal NULL NULL lo (lo + n - 1) index ?d =
      Some (d\<lparr>d_ranges := linked_in ?p ?new (d_ranges d), d_list := ?p, d_tree := t'\<rparr>)"
    using link_range_eq [of "d_ranges d" ?d ?p mal NULL NULL M lo "lo + n - 1" index] p P(1) R
    by (auto simp: records_ok_def)
  have "add_range dbg mal st lo n index d = Some (True, d\<lparr>d_ranges := linked_in ?p ?new (d_ranges d), d_list := ?p, d_tree := t'\<rparr>)"
    using P(5) pn t' by (simp add: overlap_prev_def overlap_next_def)
  then show ?thesis
    using spans_update [of "d\<lparr>d_ranges := linked_in ?p ?new (d_ranges d), d_list := ?p, d_tree := t'\<rparr>" ?p ?new d] p(2)
    by (simp add: linked_in_simps)
qed

definition one_block :: driver where
  "one_block = snd (the (add_range DBG_CHEAP two_addresses some_heap 64 32 0 some_driver))"

lemma one_block_eq:
  "add_range DBG_CHEAP two_addresses some_heap 64 32 0 some_driver = Some (True, one_block)"
  "mallocs two_addresses one_block" "ranges_ok one_block" "spans one_block = {(64, 95)}"
proof -
  obtain d where d: "add_range DBG_CHEAP two_addresses some_heap 64 32 0 some_driver = Some (True, d)"
    "ranges_ok d" "spans d = {(64, 95)}"
    using add_range_correct [OF some_driver_ok(1,2), of DBG_CHEAP 32 64 some_heap 0]
    by (auto simp: IS_ALIGNED_def ALIGNMENT_def outside_heap_def some_driver_ok(3,4))
  then have "d = one_block"
    by (simp add: one_block_def)
  with d show "add_range DBG_CHEAP two_addresses some_heap 64 32 0 some_driver = Some (True, one_block)"
    "ranges_ok one_block" "spans one_block = {(64, 95)}"
    by simp_all
  show "mallocs two_addresses one_block"
    by (simp add: one_block_def add_range_def link_range_def some_driver_def IS_ALIGNED_def ALIGNMENT_def outside_heap_def
        two_addresses_def mallocs_def tree_eval cong: bind_weak_cong if_weak_cong option.case_cong_weak)
qed

lemma add_range_misses_witness:
  "\<exists>d1 d2. add_range DBG_CHEAP two_addresses some_heap 64 32 0 some_driver = Some (True, d1) \<and>
    add_range DBG_CHEAP two_addresses some_heap 48 32 1 d1 = Some (True, d2) \<and> spans d2 = {(48, 79), (64, 95)}"
  using one_block_eq(1) add_range_misses [OF one_block_eq(3,2), of DBG_CHEAP 32 48 some_heap 1]
  by (auto simp: IS_ALIGNED_def ALIGNMENT_def outside_heap_def one_block_eq(4))

end
