(* ===== verification/Driver.thy ===== *)
theory Driver
  imports Range_Set Mm
begin

text \<open>
  \<open>mdriver.c\<close>: a trace of requests, and the functions that replay it on the malloc package: \<open>eval_mm_valid\<close>,
  which checks every block and its contents, \<open>eval_mm_util\<close>, which measures the use of the heap, and
  \<open>eval_mm_speed\<close>, which is timed. \<open>None\<close> is undefined behaviour or the exit of the program (\<open>app_error\<close>).
\<close>

section \<open>Traces\<close>

datatype op_type = ALLOC | FREE | REALLOC

record traceop_t =
  op_type :: op_type
  op_index :: int
  op_size :: u64

text \<open>\<open>num_ops\<close> is the length of \<open>tr_ops\<close>.\<close>

record trace_t =
  tr_filename :: string
  tr_data_bytes :: u64
  tr_num_ids :: nat
  tr_weight :: int
  tr_ops :: "traceop_t list"
  tr_blocks :: "u64 list"
  tr_block_sizes :: "u64 list"
  tr_rand_base :: "int list"

text \<open>Arrays are indexed by signed numbers.\<close>

definition idx_get :: "'a list \<Rightarrow> int \<Rightarrow> 'a option" where
  "idx_get xs i = (if 0 \<le> i then array_get xs (nat i) else None)"

definition idx_set :: "'a list \<Rightarrow> int \<Rightarrow> 'a \<Rightarrow> 'a list option" where
  "idx_set xs i v = (if 0 \<le> i then array_set xs (nat i) v else None)"

definition set_block :: "int \<Rightarrow> u64 \<Rightarrow> trace_t \<Rightarrow> trace_t option" where
  "set_block i v tr = do { xs \<leftarrow> idx_set (tr_blocks tr) i v; Some (tr\<lparr>tr_blocks := xs\<rparr>) }"

definition set_size :: "int \<Rightarrow> u64 \<Rightarrow> trace_t \<Rightarrow> trace_t option" where
  "set_size i v tr = do { xs \<leftarrow> idx_set (tr_block_sizes tr) i v; Some (tr\<lparr>tr_block_sizes := xs\<rparr>) }"

definition set_base :: "int \<Rightarrow> int \<Rightarrow> trace_t \<Rightarrow> trace_t option" where
  "set_base i v tr = do { xs \<leftarrow> idx_set (tr_rand_base tr) i v; Some (tr\<lparr>tr_rand_base := xs\<rparr>) }"

definition reinit_trace :: "trace_t \<Rightarrow> trace_t" where
  "reinit_trace tr = tr\<lparr>tr_blocks := replicate (tr_num_ids tr) NULL, tr_block_sizes := replicate (tr_num_ids tr) 0\<rparr>"

text \<open>
  What the driver takes from outside: the debug mode, \<open>malloc\<close> of the C library, what \<open>random\<close> returns in the
  \<open>i\<close>-th operation, the random data, and \<open>mm_checkheap\<close> (which checks only when it is compiled with \<open>DEBUG\<close>).
\<close>

record env =
  env_dbg :: debug_mode
  env_malloc :: libc_malloc
  env_random :: "nat \<Rightarrow> int"
  env_data :: "nat \<Rightarrow> u8"
  env_checkheap :: "heap_state \<Rightarrow> bool option"

record eval_state =
  e_heap :: heap_state
  e_trace :: trace_t
  e_driver :: driver

definition eval_error :: "eval_state \<Rightarrow> eval_state" where
  "eval_error s = s\<lparr>e_driver := malloc_error (e_driver s)\<rparr>"

section \<open>Random contents\<close>

definition maxfill :: u64 where
  "maxfill = 1024"

definition RANDOM_DATA_LEN :: nat where
  "RANDOM_DATA_LEN = 2 ^ 16"

text \<open>The byte that belongs at offset \<open>i\<close> of a region; the sum is that of two \<open>size_t\<close>.\<close>

definition random_byte :: "env \<Rightarrow> int \<Rightarrow> u64 \<Rightarrow> u8" where
  "random_byte env base i = env_data env (unat (of_int base + i) mod RANDOM_DATA_LEN)"

text \<open>The lengths of the two filled regions, and the offset of the second one.\<close>

definition fill_regions :: "u64 \<Rightarrow> u64 \<times> u64 \<times> u64" where
  "fill_regions n = (let fsize = n in
     if fsize > maxfill then
       let fsize = maxfill in
       if n > 2 * fsize then (fsize, fsize, n - fsize) else (fsize, n - fsize, fsize)
     else (fsize, 0, 0))"

fun fill_loop :: "env \<Rightarrow> int \<Rightarrow> u64 \<Rightarrow> nat \<Rightarrow> nat \<Rightarrow> memory \<Rightarrow> memory" where
  "fill_loop env base block i 0 m = m"
| "fill_loop env base block i (Suc k) m =
     fill_loop env base block (Suc i) k
       (mem_write m (block + of_nat i) (ucast (random_byte env base (of_nat i))) 1)"

definition randomize_block :: "env \<Rightarrow> nat \<Rightarrow> int \<Rightarrow> eval_state \<Rightarrow> eval_state option" where
  "randomize_block env op index s =
     (if env_dbg env = DBG_NONE then Some s
      else do {
        tr \<leftarrow> set_base index (env_random env op) (e_trace s);
        let s = s\<lparr>e_trace := tr\<rparr>;
        block \<leftarrow> idx_get (tr_blocks tr) index;
        n \<leftarrow> idx_get (tr_block_sizes tr) index;
        if n = 0 then Some s
        else do {
          let (fsize, fsize_end, off) = fill_regions n;
          base \<leftarrow> idx_get (tr_rand_base tr) index;
          let st = e_heap s;
          guard (in_heap_range st block fsize \<and> in_heap_range st (block + off) fsize_end);
          let m = fill_loop env base block 0 (unat fsize) (hmem st);
          let m = fill_loop env base (block + off) 0 (unat fsize_end) m;
          Some (s\<lparr>e_heap := st\<lparr>hmem := m\<rparr>\<rparr>)
        }
      })"

fun garbled :: "env \<Rightarrow> int \<Rightarrow> u64 \<Rightarrow> nat \<Rightarrow> nat \<Rightarrow> memory \<Rightarrow> nat" where
  "garbled env base block i 0 m = 0"
| "garbled env base block i (Suc k) m =
     (if mem_read m (block + of_nat i) 1 \<noteq> ucast (random_byte env base (of_nat i)) then 1 else 0) +
     garbled env base block (Suc i) k m"

definition check_index :: "env \<Rightarrow> int \<Rightarrow> bool \<Rightarrow> eval_state \<Rightarrow> (bool \<times> eval_state) option" where
  "check_index env index realloc s =
     (if index < 0 then Some (True, s)
      else if env_dbg env = DBG_NONE then Some (True, s)
      else do {
        block \<leftarrow> idx_get (tr_blocks (e_trace s)) index;
        n \<leftarrow> idx_get (tr_block_sizes (e_trace s)) index;
        if n = 0 then Some (True, s)
        else do {
          let (fsize, fsize_end, off) = fill_regions n;
          let fsize_end = (if realloc then 0 else fsize_end);
          base \<leftarrow> idx_get (tr_rand_base (e_trace s)) index;
          let st = e_heap s;
          guard (in_heap_range st block fsize \<and> in_heap_range st (block + off) fsize_end);
          let ngarbled = garbled env base block 0 (unat fsize) (hmem st) +
            garbled env base (block + off) 0 (unat fsize_end) (hmem st);
          if ngarbled \<noteq> 0 then Some (False, eval_error s) else Some (True, s)
        }
      })"

section \<open>Checking a trace\<close>

text \<open>With \<open>DBG_EXPENSIVE\<close>, before each operation: the checker of the package, and the contents of all blocks.\<close>

partial_function (option) check_ranges :: "env \<Rightarrow> u64 \<Rightarrow> eval_state \<Rightarrow> (bool \<times> eval_state) option" where
  "check_ranges env r s =
     (if r = NULL then Some (True, s)
      else do {
        index \<leftarrow> rfld r_index r (e_driver s);
        (ok, s) \<leftarrow> check_index env index False s;
        if \<not> ok then Some (False, s)
        else do {
          r' \<leftarrow> rfld r_next r (e_driver s);
          check_ranges env r' s
        }
      })"

definition check_all :: "env \<Rightarrow> eval_state \<Rightarrow> (bool \<times> eval_state) option" where
  "check_all env s =
     (if env_dbg env = DBG_EXPENSIVE then do {
        ok \<leftarrow> env_checkheap env (e_heap s);
        if \<not> ok then Some (False, eval_error s)
        else check_ranges env (d_list (e_driver s)) s
      } else Some (True, s))"

definition eval_alloc :: "env \<Rightarrow> nat \<Rightarrow> int \<Rightarrow> u64 \<Rightarrow> eval_state \<Rightarrow> (bool \<times> eval_state) option" where
  "eval_alloc env i index n s = do {
     (p, st) \<leftarrow> mm_malloc n (e_heap s);
     let s = s\<lparr>e_heap := st\<rparr>;
     if p = NULL then Some (False, eval_error s)
     else do {
       (ok, d) \<leftarrow> add_range (env_dbg env) (env_malloc env) (e_heap s) p n index (e_driver s);
       let s = s\<lparr>e_driver := d\<rparr>;
       if \<not> ok then Some (False, s)
       else do {
         tr \<leftarrow> set_block index p (e_trace s);
         tr \<leftarrow> set_size index n tr;
         s \<leftarrow> randomize_block env i index (s\<lparr>e_trace := tr\<rparr>);
         Some (True, s)
       }
     }
   }"

definition eval_realloc :: "env \<Rightarrow> nat \<Rightarrow> int \<Rightarrow> u64 \<Rightarrow> eval_state \<Rightarrow> (bool \<times> eval_state) option" where
  "eval_realloc env i index n s = do {
     (ok, s) \<leftarrow> check_index env index False s;
     if \<not> ok then Some (False, s)
     else do {
       oldp \<leftarrow> idx_get (tr_blocks (e_trace s)) index;
       (newp, st) \<leftarrow> mm_realloc oldp n (e_heap s);
       let s = s\<lparr>e_heap := st\<rparr>;
       if newp = NULL \<and> n \<noteq> 0 then Some (False, eval_error s)
       else if newp \<noteq> NULL \<and> n = 0 then Some (False, eval_error s)
       else do {
         d \<leftarrow> remove_range oldp (e_driver s);
         let s = s\<lparr>e_driver := d\<rparr>;
         (ok, d) \<leftarrow> (if n > 0 then add_range (env_dbg env) (env_malloc env) (e_heap s) newp n index (e_driver s)
           else Some (True, e_driver s));
         let s = s\<lparr>e_driver := d\<rparr>;
         if \<not> ok then Some (False, s)
         else do {
           tr \<leftarrow> set_block index newp (e_trace s);
           old \<leftarrow> idx_get (tr_block_sizes tr) index;
           tr \<leftarrow> (if n < old then set_size index n tr else Some tr);
           (ok, s) \<leftarrow> check_index env index True (s\<lparr>e_trace := tr\<rparr>);
           if \<not> ok then Some (False, s)
           else do {
             tr \<leftarrow> set_size index n (e_trace s);
             s \<leftarrow> randomize_block env i index (s\<lparr>e_trace := tr\<rparr>);
             Some (True, s)
           }
         }
       }
     }
   }"

definition eval_free :: "env \<Rightarrow> int \<Rightarrow> eval_state \<Rightarrow> (bool \<times> eval_state) option" where
  "eval_free env index s = do {
     (ok, s) \<leftarrow> check_index env index False s;
     if \<not> ok then Some (False, s)
     else do {
       (p, s) \<leftarrow> (if index = - 1 then Some (NULL, s)
         else do {
           p \<leftarrow> idx_get (tr_blocks (e_trace s)) index;
           d \<leftarrow> remove_range p (e_driver s);
           Some (p, s\<lparr>e_driver := d\<rparr>)
         });
       st \<leftarrow> mm_free p (e_heap s);
       Some (True, s\<lparr>e_heap := st\<rparr>)
     }
   }"

definition eval_op :: "env \<Rightarrow> nat \<Rightarrow> traceop_t \<Rightarrow> eval_state \<Rightarrow> (bool \<times> eval_state) option" where
  "eval_op env i r s = (case op_type r of
     ALLOC \<Rightarrow> eval_alloc env i (op_index r) (op_size r) s
   | REALLOC \<Rightarrow> eval_realloc env i (op_index r) (op_size r) s
   | FREE \<Rightarrow> eval_free env (op_index r) s)"

fun eval_ops :: "env \<Rightarrow> nat \<Rightarrow> traceop_t list \<Rightarrow> eval_state \<Rightarrow> (bool \<times> eval_state) option" where
  "eval_ops env i [] s = Some (True, s)"
| "eval_ops env i (r # rs) s = do {
     (ok, s) \<leftarrow> check_all env s;
     if \<not> ok then Some (False, s)
     else do {
       (ok, s) \<leftarrow> eval_op env i r s;
       if \<not> ok then Some (False, s) else eval_ops env (Suc i) rs s
     }
   }"

definition eval_mm_valid :: "env \<Rightarrow> eval_state \<Rightarrow> (bool \<times> eval_state) option" where
  "eval_mm_valid env s = do {
     let s = s\<lparr>e_heap := mem_reset_brk (e_heap s), e_trace := reinit_trace (e_trace s)\<rparr>;
     (ok, st) \<leftarrow> mm_init (e_heap s);
     let s = s\<lparr>e_heap := st\<rparr>;
     if \<not> ok then Some (False, eval_error s) else eval_ops env 0 (tr_ops (e_trace s)) s
   }"

text \<open>\<open>run_tests\<close> validates each trace twice, with one range set.\<close>

definition validate :: "env \<Rightarrow> eval_state \<Rightarrow> (bool \<times> eval_state) option" where
  "validate env s = do {
     (ok, s) \<leftarrow> eval_mm_valid env s;
     if ok then eval_mm_valid env s else Some (False, s)
   }"

section \<open>Measuring\<close>

text \<open>The loop of \<open>eval_mm_util\<close>: the bytes in use, and the high water marks of them and of the heap.\<close>

record util_state =
  u_heap :: heap_state
  u_trace :: trace_t
  u_total :: u64
  u_max_total :: u64
  u_max_heap :: u64

definition util_op :: "traceop_t \<Rightarrow> util_state \<Rightarrow> util_state option" where
  "util_op r u = (let index = op_index r; n = op_size r in
     case op_type r of
       ALLOC \<Rightarrow> do {
         (p, st) \<leftarrow> mm_malloc n (u_heap u);
         guard (p \<noteq> NULL);
         tr \<leftarrow> set_block index p (u_trace u);
         tr \<leftarrow> set_size index n tr;
         Some (u\<lparr>u_heap := st, u_trace := tr, u_total := u_total u + n\<rparr>)
       }
     | REALLOC \<Rightarrow> do {
         old \<leftarrow> idx_get (tr_block_sizes (u_trace u)) index;
         oldp \<leftarrow> idx_get (tr_blocks (u_trace u)) index;
         (newp, st) \<leftarrow> mm_realloc oldp n (u_heap u);
         guard (\<not> (newp = NULL \<and> n \<noteq> 0));
         tr \<leftarrow> set_block index newp (u_trace u);
         tr \<leftarrow> set_size index n tr;
         Some (u\<lparr>u_heap := st, u_trace := tr, u_total := u_total u + (n - old)\<rparr>)
       }
     | FREE \<Rightarrow> do {
         (n, p) \<leftarrow> (if index < 0 then Some (0, NULL)
           else do {
             n \<leftarrow> idx_get (tr_block_sizes (u_trace u)) index;
             p \<leftarrow> idx_get (tr_blocks (u_trace u)) index;
             Some (n, p)
           });
         st \<leftarrow> mm_free p (u_heap u);
         Some (u\<lparr>u_heap := st, u_total := u_total u - n\<rparr>)
       })"

definition high_water :: "util_state \<Rightarrow> util_state" where
  "high_water u = u\<lparr>u_max_total := (if u_total u > u_max_total u then u_total u else u_max_total u),
     u_max_heap := (if mem_heapsize (u_heap u) > u_max_heap u then mem_heapsize (u_heap u) else u_max_heap u)\<rparr>"

fun util_ops :: "traceop_t list \<Rightarrow> util_state \<Rightarrow> util_state option" where
  "util_ops [] u = Some u"
| "util_ops (r # rs) u = do { u \<leftarrow> util_op r u; util_ops rs (high_water u) }"

text \<open>The utilization is the quotient of the two results.\<close>

definition eval_mm_util :: "heap_state \<Rightarrow> trace_t \<Rightarrow> (u64 \<times> u64 \<times> util_state) option" where
  "eval_mm_util st tr = do {
     let tr = reinit_trace tr;
     (ok, st) \<leftarrow> mm_init (mem_reset_brk st);
     guard ok;
     u \<leftarrow> util_ops (tr_ops tr) \<lparr>u_heap = st, u_trace = tr, u_total = 0, u_max_total = 0, u_max_heap = 0\<rparr>;
     Some (u_max_total u, u_max_heap u, u)
   }"

definition speed_op :: "traceop_t \<Rightarrow> heap_state \<times> trace_t \<Rightarrow> (heap_state \<times> trace_t) option" where
  "speed_op r = (\<lambda>(st, tr). let index = op_index r; n = op_size r in
     case op_type r of
       ALLOC \<Rightarrow> do {
         (p, st) \<leftarrow> mm_malloc n st;
         guard (p \<noteq> NULL);
         tr \<leftarrow> set_block index p tr;
         Some (st, tr)
       }
     | REALLOC \<Rightarrow> do {
         oldp \<leftarrow> idx_get (tr_blocks tr) index;
         (newp, st) \<leftarrow> mm_realloc oldp n st;
         guard (\<not> (newp = NULL \<and> n \<noteq> 0));
         tr \<leftarrow> set_block index newp tr;
         Some (st, tr)
       }
     | FREE \<Rightarrow> do {
         block \<leftarrow> (if index < 0 then Some NULL else idx_get (tr_blocks tr) index);
         st \<leftarrow> mm_free block st;
         Some (st, tr)
       })"

fun speed_ops :: "traceop_t list \<Rightarrow> heap_state \<times> trace_t \<Rightarrow> (heap_state \<times> trace_t) option" where
  "speed_ops [] s = Some s"
| "speed_ops (r # rs) s = do { s \<leftarrow> speed_op r s; speed_ops rs s }"

definition eval_mm_speed :: "heap_state \<Rightarrow> trace_t \<Rightarrow> (heap_state \<times> trace_t) option" where
  "eval_mm_speed st tr = do {
     let tr = reinit_trace tr;
     (ok, st) \<leftarrow> mm_init (mem_reset_brk st);
     guard ok;
     speed_ops (tr_ops tr) (st, tr)
   }"

section \<open>The library's allocator\<close>

text \<open>The same traces on the C library: \<open>malloc\<close>, \<open>realloc\<close> and \<open>free\<close> are parameters, over a heap of any type.\<close>

record 'h libc =
  lib_malloc :: "u64 \<Rightarrow> 'h \<Rightarrow> u64 \<times> 'h"
  lib_realloc :: "u64 \<Rightarrow> u64 \<Rightarrow> 'h \<Rightarrow> u64 \<times> 'h"
  lib_free :: "u64 \<Rightarrow> 'h \<Rightarrow> 'h option"

text \<open>When the library has no memory the program reports the failure and exits.\<close>

definition libc_valid_op :: "'h libc \<Rightarrow> traceop_t \<Rightarrow> 'h \<times> trace_t \<Rightarrow> ('h \<times> trace_t) option" where
  "libc_valid_op L r = (\<lambda>(h, tr). case op_type r of
       ALLOC \<Rightarrow> do {
         let (p, h) = lib_malloc L (op_size r) h;
         guard (p \<noteq> NULL);
         tr \<leftarrow> set_block (op_index r) p tr;
         Some (h, tr)
       }
     | REALLOC \<Rightarrow> do {
         let newsize = op_size r;
         oldp \<leftarrow> idx_get (tr_blocks tr) (op_index r);
         let (newp, h) = lib_realloc L oldp newsize h;
         guard (\<not> (newp = NULL \<and> newsize \<noteq> 0));
         tr \<leftarrow> set_block (op_index r) newp tr;
         Some (h, tr)
       }
     | FREE \<Rightarrow>
         if op_index r \<ge> 0 then do {
           p \<leftarrow> idx_get (tr_blocks tr) (op_index r);
           h \<leftarrow> lib_free L p h;
           Some (h, tr)
         } else do { h \<leftarrow> lib_free L NULL h; Some (h, tr) })"

fun libc_valid_ops :: "'h libc \<Rightarrow> traceop_t list \<Rightarrow> 'h \<times> trace_t \<Rightarrow> ('h \<times> trace_t) option" where
  "libc_valid_ops L [] s = Some s"
| "libc_valid_ops L (r # rs) s = do { s \<leftarrow> libc_valid_op L r s; libc_valid_ops L rs s }"

definition eval_libc_valid :: "'h libc \<Rightarrow> 'h \<Rightarrow> trace_t \<Rightarrow> (bool \<times> 'h \<times> trace_t) option" where
  "eval_libc_valid L h tr = do {
     let tr = reinit_trace tr;
     (h, tr) \<leftarrow> libc_valid_ops L (tr_ops tr) (h, tr);
     Some (True, h, tr)
   }"

definition libc_speed_op :: "'h libc \<Rightarrow> traceop_t \<Rightarrow> 'h \<times> trace_t \<Rightarrow> ('h \<times> trace_t) option" where
  "libc_speed_op L r = (\<lambda>(h, tr). let index = op_index r; n = op_size r in
     case op_type r of
       ALLOC \<Rightarrow> do {
         let (p, h) = lib_malloc L n h;
         guard (p \<noteq> NULL);
         tr \<leftarrow> set_block index p tr;
         Some (h, tr)
       }
     | REALLOC \<Rightarrow> do {
         oldp \<leftarrow> idx_get (tr_blocks tr) index;
         let (newp, h) = lib_realloc L oldp n h;
         guard (\<not> (newp = NULL \<and> n \<noteq> 0));
         tr \<leftarrow> set_block index newp tr;
         Some (h, tr)
       }
     | FREE \<Rightarrow>
         if index \<ge> 0 then do {
           block \<leftarrow> idx_get (tr_blocks tr) index;
           h \<leftarrow> lib_free L block h;
           Some (h, tr)
         } else do { h \<leftarrow> lib_free L NULL h; Some (h, tr) })"

fun libc_speed_ops :: "'h libc \<Rightarrow> traceop_t list \<Rightarrow> 'h \<times> trace_t \<Rightarrow> ('h \<times> trace_t) option" where
  "libc_speed_ops L [] s = Some s"
| "libc_speed_ops L (r # rs) s = do { s \<leftarrow> libc_speed_op L r s; libc_speed_ops L rs s }"

definition eval_libc_speed :: "'h libc \<Rightarrow> 'h \<Rightarrow> trace_t \<Rightarrow> ('h \<times> trace_t) option" where
  "eval_libc_speed L h tr = do { let tr = reinit_trace tr; libc_speed_ops L (tr_ops tr) (h, tr) }"

end
