(* ===== verification/Driver_Valid.thy ===== *)
theory Driver_Valid
  imports Driver Mm_Calls
begin

text \<open>
  The malloc package passes the checks of its driver: \<open>eval_mm_valid\<close> of \<open>mdriver.c\<close> accepts every well
  formed trace that fits into the heap. First what the loops that fill and check a block do.
\<close>

section \<open>Contents of blocks\<close>

lemma ucast8 [simp]: "ucast (ucast (v :: u8) :: u64) = v"
  by (rule bit_word_eqI) (auto simp: bit_ucast_iff)

lemma ucast8_eq: "(ucast (x :: u8) :: u64) = ucast y \<longleftrightarrow> x = y"
  using ucast8 by metis

lemma mem_write_byte: "mem_write m a (ucast (v :: u8)) 1 = m(a := v)"
proof -
  have "unat (b - a) < 1 \<longleftrightarrow> b = a" for b
    using unat_eq_0 [of "b - a"] by auto
  then show ?thesis
    by (auto simp: mem_write_def store_bytes_def fun_eq_iff)
qed

lemma mem_read_byte: "mem_read m a 1 = ucast (m a)"
proof -
  have m: "unat (8 * 1 :: u64) = 8" "push_bit 8 1 - 1 = (mask 8 :: u64)"
    by (simp_all add: mask_eq_exp_minus_1)
  have "load64 m a AND mask 8 = ucast (ucast (load64 m a) :: u8)"
    by (rule bit_word_eqI) (auto simp: bit_and_iff bit_mask_iff bit_ucast_iff)
  moreover have "ucast (load64 m a) = m a"
    using byte_of_load [of 0 m a] by simp
  ultimately show ?thesis
    by (simp only: mem_read_def Let_def m) simp
qed

lemma fill_loop_bytes:
  assumes "i + k < 2 ^ 64"
  shows "fill_loop env base block i k m a =
    (if i \<le> unat (a - block) \<and> unat (a - block) < i + k then random_byte env base (a - block) else m a)"
  using assms
proof (induction k arbitrary: i m)
  case (Suc k)
  have i: "unat (of_nat i :: u64) = i"
    using Suc.prems by (simp add: unsigned_of_nat take_bit_nat_eq_self)
  have e: "a = block + of_nat i \<longleftrightarrow> unat (a - block) = i"
  proof
    assume "unat (a - block) = i"
    then have "a - block = of_nat i"
      by auto
    then show "a = block + of_nat i"
      by (simp add: algebra_simps)
  qed (simp add: i)
  show ?case
    using Suc.IH [of "Suc i"] Suc.prems e i by (auto simp: mem_write_byte)
qed auto

lemma garbled_zero:
  "garbled env base block i k m = 0 \<longleftrightarrow>
    (\<forall>j. i \<le> j \<longrightarrow> j < i + k \<longrightarrow> m (block + of_nat j) = random_byte env base (of_nat j))"
proof (induction k arbitrary: i)
  case (Suc k)
  have "(\<forall>j. i \<le> j \<longrightarrow> j < i + Suc k \<longrightarrow> P j) \<longleftrightarrow> P i \<and> (\<forall>j. Suc i \<le> j \<longrightarrow> j < Suc i + k \<longrightarrow> P j)" for P
    by (auto simp: le_less_Suc_eq) (metis Suc_leI le_neq_implies_less)
  then show ?case
    using Suc.IH [of "Suc i"] by (auto simp: mem_read_byte ucast8_eq)
qed simp

text \<open>The regions of a block that are filled and checked.\<close>

lemma fill_regions_bounds:
  assumes "fill_regions n = (f, e, off)"
  shows "unat f \<le> unat n" "unat off + unat e \<le> unat n" "e = 0 \<or> f \<le> off" "unat f = min (unat n) 1024"
proof -
  have m: "unat maxfill = 1024" "unat (2 * maxfill) = 2048"
    by (simp_all add: maxfill_def)
  consider "n \<le> maxfill" | "maxfill < n" "n \<le> 2 * maxfill" | "2 * maxfill < n"
    by fastforce
  then show "unat f \<le> unat n" "unat off + unat e \<le> unat n" "e = 0 \<or> f \<le> off" "unat f = min (unat n) 1024"
    by (cases; use assms m in \<open>auto simp: fill_regions_def Let_def word_less_nat_alt word_le_nat_alt unat_sub_if' split: if_splits\<close>)+
qed

definition contents :: "env \<Rightarrow> int \<Rightarrow> memory \<Rightarrow> u64 \<Rightarrow> u64 \<Rightarrow> bool" where
  "contents env base m block n \<longleftrightarrow> (let (f, e, off) = fill_regions n in
     (\<forall>j < unat f. m (block + of_nat j) = random_byte env base (of_nat j)) \<and>
     (\<forall>j < unat e. m (block + off + of_nat j) = random_byte env base (of_nat j)))"

lemma small_nat: "j < unat (n :: u64) \<Longrightarrow> unat (of_nat j :: u64) = j"
  using unat_lt64 [of n] by (simp add: unsigned_of_nat take_bit_nat_eq_self)

lemma unat_diff_wrap: "unat (a :: u64) < unat b \<Longrightarrow> unat (a - b) = 2 ^ 64 - (unat b - unat a)"
  by (simp add: unat_sub_if')

lemma fill_contents:
  assumes r: "fill_regions n = (f, e, off)"
    and m': "m' = fill_loop env base (block + off) 0 (unat e) (fill_loop env base block 0 (unat f) m)"
  shows "contents env base m' block n" "\<And>a. \<not> unat (a - block) < unat n \<Longrightarrow> m' a = m a"
proof -
  note B = fill_regions_bounds [OF r]
  have n64: "unat n < 2 ^ 64" "unat f < 2 ^ 64" "unat e < 2 ^ 64"
    using unat_lt64 [of n] unat_lt64 [of f] unat_lt64 [of e] by simp_all
  have at: "m' a = (if unat (a - (block + off)) < unat e then random_byte env base (a - (block + off))
      else if unat (a - block) < unat f then random_byte env base (a - block) else m a)" for a
    unfolding m' using n64 by (simp add: fill_loop_bytes)
  have "m' (block + of_nat j) = random_byte env base (of_nat j)" if j: "j < unat f" for j
  proof -
    have u: "unat (of_nat j :: u64) = j"
      using small_nat [OF j] .
    have "\<not> unat (of_nat j - off) < unat e"
    proof (cases "e = 0")
      case False
      with B(3) j u have "unat (of_nat j :: u64) < unat off"
        by (simp add: word_le_nat_alt)
      then have "unat (of_nat j - off) = 2 ^ 64 - (unat off - j)"
        using unat_diff_wrap u by metis
      then show ?thesis
        using B(2) n64(1) by simp
    qed simp
    moreover have "block + of_nat j - (block + off) = of_nat j - off"
      by simp
    ultimately show ?thesis
      using at [of "block + of_nat j"] u j by simp
  qed
  moreover have "m' (block + off + of_nat j) = random_byte env base (of_nat j)" if j: "j < unat e" for j
    using at [of "block + off + of_nat j"] small_nat [OF j] j by simp
  ultimately show "contents env base m' block n"
    by (simp add: contents_def r)
  fix a
  assume a: "\<not> unat (a - block) < unat n"
  have "unat (a - block - off) = unat (a - block) - unat off"
    using a B(2) by (intro unat_sub_le) (simp add: word_le_nat_alt)
  then have "\<not> unat (a - (block + off)) < unat e"
    using a B(2) by (simp add: diff_diff_add)
  with a B(1) show "m' a = m a"
    using at [of a] by simp
qed

lemma contents_cong:
  assumes "\<And>j. j < unat n \<Longrightarrow> m' (block + of_nat j) = m (block + of_nat j)"
  shows "contents env base m' block n = contents env base m block n"
proof -
  obtain f e off where r: "fill_regions n = (f, e, off)"
    by (cases "fill_regions n")
  note B = fill_regions_bounds [OF r]
  have "m' (block + of_nat j) = m (block + of_nat j)" if "j < unat f" for j
    using that B(1) by (intro assms) simp
  moreover have "m' (block + off + of_nat j) = m (block + off + of_nat j)" if "j < unat e" for j
    using assms [of "unat off + j"] that B(2) by (simp add: algebra_simps)
  ultimately show ?thesis
    by (simp add: contents_def r)
qed

text \<open>The first bytes survive when a block gets another size.\<close>

lemma contents_prefix:
  assumes "contents env base m block n" "j < min (unat n) 1024"
  shows "m (block + of_nat j) = random_byte env base (of_nat j)"
proof -
  obtain f e off where r: "fill_regions n = (f, e, off)"
    by (cases "fill_regions n")
  show ?thesis
    using assms fill_regions_bounds(4) [OF r] by (simp add: contents_def r)
qed

section \<open>Filling and checking\<close>

text \<open>\<open>block_at s x block n\<close>: the trace has the block \<open>block\<close> of \<open>n\<close> bytes at the index \<open>x\<close>, and it lies in the heap.\<close>

definition block_at :: "eval_state \<Rightarrow> nat \<Rightarrow> u64 \<Rightarrow> u64 \<Rightarrow> bool" where
  "block_at s x block n \<longleftrightarrow> x < length (tr_blocks (e_trace s)) \<and> x < length (tr_block_sizes (e_trace s)) \<and>
     x < length (tr_rand_base (e_trace s)) \<and> tr_blocks (e_trace s) ! x = block \<and> tr_block_sizes (e_trace s) ! x = n \<and>
     (n = 0 \<or> unat (heap_start (e_heap s)) \<le> unat block \<and> unat block + unat n \<le> unat (mem_brk (e_heap s)))"

lemma regions_in_heap:
  assumes "fill_regions n = (f, e, off)" "unat (heap_start st) \<le> unat block" "unat block + unat n \<le> unat (mem_brk st)"
  shows "in_heap_range st block f" "in_heap_range st (block + off) e" "in_heap_range st (block + off) 0"
proof -
  note B = fill_regions_bounds [OF assms(1)]
  have "unat block + unat off < 2 ^ 64"
    using B(2) assms(3) unat_lt64 [of "mem_brk st"] by simp
  then have "unat (block + off) = unat block + unat off"
    by (simp add: unat_word_ariths)
  with B(1,2) assms(2,3) show "in_heap_range st block f" "in_heap_range st (block + off) e" "in_heap_range st (block + off) 0"
    by (simp_all add: in_heap_range_def)
qed

lemma randomize_block_ok:
  assumes "env_dbg env \<noteq> DBG_NONE" "block_at s x block n"
  obtains m' where "randomize_block env op (int x) s =
      Some (s\<lparr>e_trace := (e_trace s)\<lparr>tr_rand_base := (tr_rand_base (e_trace s))[x := env_random env op]\<rparr>,
        e_heap := (e_heap s)\<lparr>hmem := m'\<rparr>\<rparr>)"
    "n \<noteq> 0 \<longrightarrow> contents env (env_random env op) m' block n"
    "\<forall>a. \<not> unat (a - block) < unat n \<longrightarrow> m' a = hmem (e_heap s) a"
proof (cases "n = 0")
  case True
  then show ?thesis
    using assms that [of "hmem (e_heap s)"]
    by (simp add: randomize_block_def block_at_def set_base_def idx_set_def idx_get_def)
next
  case False
  obtain f e off where r: "fill_regions n = (f, e, off)"
    by (cases "fill_regions n")
  let ?m = "fill_loop env (env_random env op) (block + off) 0 (unat e)
    (fill_loop env (env_random env op) block 0 (unat f) (hmem (e_heap s)))"
  have "randomize_block env op (int x) s =
      Some (s\<lparr>e_trace := (e_trace s)\<lparr>tr_rand_base := (tr_rand_base (e_trace s))[x := env_random env op]\<rparr>,
        e_heap := (e_heap s)\<lparr>hmem := ?m\<rparr>\<rparr>)"
    using assms False regions_in_heap [OF r, of "e_heap s" block]
    by (simp add: randomize_block_def block_at_def set_base_def idx_set_def idx_get_def r Let_def)
  with fill_contents [OF r refl] show ?thesis
    using that by blast
qed

lemma check_index_ok:
  assumes "block_at s x block n" "n \<noteq> 0 \<Longrightarrow> contents env (tr_rand_base (e_trace s) ! x) (hmem (e_heap s)) block n"
  shows "check_index env (int x) False s = Some (True, s)"
proof (cases "n = 0")
  case True
  then show ?thesis
    using assms by (simp add: check_index_def block_at_def idx_get_def)
next
  case False
  obtain f e off where r: "fill_regions n = (f, e, off)"
    by (cases "fill_regions n")
  have "garbled env (tr_rand_base (e_trace s) ! x) block 0 (unat f) (hmem (e_heap s)) = 0"
    "garbled env (tr_rand_base (e_trace s) ! x) (block + off) 0 (unat e) (hmem (e_heap s)) = 0"
    using assms(2) False by (simp_all add: garbled_zero contents_def r)
  then show ?thesis
    using assms(1) False regions_in_heap [OF r, of "e_heap s" block]
    by (simp add: check_index_def block_at_def idx_get_def r Let_def)
qed

lemma check_index_prefix:
  assumes "block_at s x block n"
    "\<And>j. j < min (unat n) 1024 \<Longrightarrow> hmem (e_heap s) (block + of_nat j) = random_byte env (tr_rand_base (e_trace s) ! x) (of_nat j)"
  shows "check_index env (int x) True s = Some (True, s)"
proof (cases "n = 0")
  case True
  then show ?thesis
    using assms by (simp add: check_index_def block_at_def idx_get_def)
next
  case False
  obtain f e off where r: "fill_regions n = (f, e, off)"
    by (cases "fill_regions n")
  have "garbled env (tr_rand_base (e_trace s) ! x) block 0 (unat f) (hmem (e_heap s)) = 0"
    using assms(2) fill_regions_bounds(4) [OF r] by (simp add: garbled_zero)
  then show ?thesis
    using assms(1) False regions_in_heap [OF r, of "e_heap s" block]
    by (simp add: check_index_def block_at_def idx_get_def r Let_def)
qed

text \<open>The offsets the driver checks: all of a block of up to 2048 bytes, and the first and the last 1024 bytes of a larger one.\<close>

definition checked :: "u64 \<Rightarrow> nat \<Rightarrow> bool" where
  "checked n j \<longleftrightarrow> j < unat n \<and> (j < 1024 \<or> unat n \<le> j + 1024)"

lemma checked_regions:
  assumes "fill_regions n = (f, e, off)"
  shows "checked n j \<longleftrightarrow> j < unat f \<or> (\<exists>k < unat e. j = unat off + k)"
proof -
  have m: "unat maxfill = 1024" "unat (2 * maxfill) = 2048"
    by (simp_all add: maxfill_def)
  have ex: "(\<exists>k < b. j = a + k) \<longleftrightarrow> a \<le> j \<and> j < a + b" for a b :: nat
    by (auto intro: exI [of _ "j - a"])
  consider "n \<le> maxfill" | "maxfill < n" "n \<le> 2 * maxfill" | "2 * maxfill < n"
    by fastforce
  then show ?thesis
    unfolding ex checked_def
    by (cases; use assms m in \<open>auto simp: fill_regions_def Let_def word_less_nat_alt word_le_nat_alt unat_sub_if' split: if_splits\<close>)
qed

lemma contents_changed:
  assumes "contents env base m block n"
  shows "contents env base m' block n \<longleftrightarrow> (\<forall>j. checked n j \<longrightarrow> m' (block + of_nat j) = m (block + of_nat j))"
proof -
  obtain f e off where r: "fill_regions n = (f, e, off)"
    by (cases "fill_regions n")
  have "(\<forall>j. checked n j \<longrightarrow> P j) \<longleftrightarrow> (\<forall>j < unat f. P j) \<and> (\<forall>k < unat e. P (unat off + k))" for P
    unfolding checked_regions [OF r] by blast
  then show ?thesis
    using assms by (simp add: contents_def r add.assoc)
qed

lemma check_index_decides:
  assumes "env_dbg env \<noteq> DBG_NONE" "block_at s x block n" "n \<noteq> 0"
  shows "check_index env (int x) False s = Some (if contents env (tr_rand_base (e_trace s) ! x) (hmem (e_heap s)) block n
    then (True, s) else (False, eval_error s))"
proof -
  obtain f e off where r: "fill_regions n = (f, e, off)"
    by (cases "fill_regions n")
  let ?g = "\<lambda>b k. garbled env (tr_rand_base (e_trace s) ! x) b 0 k (hmem (e_heap s))"
  have "contents env (tr_rand_base (e_trace s) ! x) (hmem (e_heap s)) block n \<longleftrightarrow> ?g block (unat f) + ?g (block + off) (unat e) = 0"
    by (simp add: garbled_zero contents_def r)
  then show ?thesis
    using assms regions_in_heap [OF r, of "e_heap s" block]
    by (simp add: check_index_def block_at_def idx_get_def r Let_def)
qed

text \<open>C33: What \<open>randomize_block\<close> writes is what \<open>check_index\<close> expects, and the check is exact: however the memory has
  changed since the block was filled, the block is accepted if all bytes the driver checks (the first and the
  last 1024) are as they were, and otherwise an error is counted.\<close>

theorem randomize_check:
  assumes "env_dbg env \<noteq> DBG_NONE" "block_at s x block n" "n \<noteq> 0" "randomize_block env op (int x) s = Some s'"
    and "s'' = s'\<lparr>e_heap := (e_heap s')\<lparr>hmem := m\<rparr>\<rparr>"
  shows "check_index env (int x) False s'' =
    Some (if \<forall>j. checked n j \<longrightarrow> m (block + of_nat j) = hmem (e_heap s') (block + of_nat j) then (True, s'') else (False, eval_error s''))"
proof -
  obtain m' where s': "s' = s\<lparr>e_trace := (e_trace s)\<lparr>tr_rand_base := (tr_rand_base (e_trace s))[x := env_random env op]\<rparr>,
      e_heap := (e_heap s)\<lparr>hmem := m'\<rparr>\<rparr>" "contents env (env_random env op) m' block n"
    using randomize_block_ok [OF assms(1,2), of op] assms(3,4) by auto
  then have "block_at s'' x block n" "tr_rand_base (e_trace s'') ! x = env_random env op"
    using assms(2,5) by (auto simp: block_at_def)
  then show ?thesis
    using check_index_decides [OF assms(1), of s'' x block n] contents_changed [OF s'(2), of m] assms(3,5) s'(1) by simp
qed

definition some_env :: env where
  "some_env = \<lparr>env_dbg = DBG_CHEAP, env_malloc = (\<lambda>S. if 16 \<notin> S then 16 else if 32 \<notin> S then 32 else 48), env_random = int,
     env_data = of_nat, env_checkheap = (\<lambda>st. Some True)\<rparr>"

definition some_block :: eval_state where
  "some_block = \<lparr>e_heap = start_state\<lparr>mem_brk := 4096\<rparr>,
     e_trace = \<lparr>tr_filename = ''block'', tr_data_bytes = 100, tr_num_ids = 1, tr_weight = 1, tr_ops = [], tr_blocks = [64], tr_block_sizes = [100], tr_rand_base = [0]\<rparr>,
     e_driver = new_range_set some_driver\<rparr>"

theorem randomize_check_witness:
  "\<exists>s'. randomize_block some_env 7 0 some_block = Some s' \<and> (let st = e_heap s' in
     check_index some_env 0 False (s'\<lparr>e_heap := st\<lparr>hmem := (hmem st)(63 := 0)\<rparr>\<rparr>) = Some (True, s'\<lparr>e_heap := st\<lparr>hmem := (hmem st)(63 := 0)\<rparr>\<rparr>) \<and>
     fst (the (check_index some_env 0 False (s'\<lparr>e_heap := st\<lparr>hmem := (hmem st)(163 := hmem st 163 + 1)\<rparr>\<rparr>))) = False)"
proof -
  have dbg: "env_dbg some_env \<noteq> DBG_NONE" and b: "block_at some_block 0 64 100" "100 \<noteq> (0 :: u64)"
    by (simp_all add: some_env_def block_at_def some_block_def start_state_def)
  obtain s' where s': "randomize_block some_env 7 (int 0) some_block = Some s'"
    by (rule randomize_block_ok [OF dbg b(1), of 7])
  have "64 + of_nat j \<noteq> (63 :: u64)" if "checked 100 j" for j
  proof -
    have "j < 100"
      using that by (simp add: checked_def)
    then have "unat (64 + of_nat j :: u64) = 64 + j"
      by (simp add: unat_word_ariths unsigned_of_nat take_bit_nat_eq_self)
    moreover have "64 + j \<noteq> unat (63 :: u64)"
      by simp
    ultimately show ?thesis
      by metis
  qed
  moreover have "checked 100 99" "(64 :: u64) + of_nat 99 = 163"
    by (simp_all add: checked_def)
  ultimately show ?thesis
    using randomize_check [OF dbg b s' refl, of "(hmem (e_heap s'))(63 := 0)"]
      randomize_check [OF dbg b s' refl, of "(hmem (e_heap s'))(163 := hmem (e_heap s') 163 + 1)"] s'
    by (auto simp: Let_def)
qed

section \<open>The state between two operations\<close>

lemma at_bytes: "at lo i + of_nat b = at lo (i + b div 8) + of_nat (b mod 8)"
proof -
  have e: "8 * i + b = 8 * (i + b div 8) + b mod 8"
    by simp
  have "at lo i + of_nat b = lo + of_nat (8 * i + b)"
    by (simp only: at_def of_nat_add add.assoc)
  also have "\<dots> = lo + of_nat (8 * (i + b div 8) + b mod 8)"
    by (subst e) (rule refl)
  also have "\<dots> = at lo (i + b div 8) + of_nat (b mod 8)"
    by (simp only: at_def of_nat_add add.assoc)
  finally show ?thesis .
qed

lemma word_bytes:
  assumes "words st' j' = words st j" "j < nwords st" "j' < nwords st'" "heap_start st' = heap_start st" "c < 8"
  shows "hmem st' (at (heap_start st) j' + of_nat c) = hmem st (at (heap_start st) j + of_nat c)"
  using byte_of_load [OF assms(5), of "hmem st'" "at (heap_start st) j'"] byte_of_load [OF assms(5), of "hmem st" "at (heap_start st) j"]
    assms(1-4) by (simp add: words_def)

lemma keeps_contents:
  assumes "allocator st A" "(i, k) \<in> A" "allocator st' A'" "(i, k) \<in> A'" "heap_start st' = heap_start st"
    and "keeps B st st'" "(i, k) \<in> B" "unat n + 16 \<le> 8 * k"
  shows "contents env base (hmem st') (at (heap_start st) i) n = contents env base (hmem st) (at (heap_start st) i) n"
proof (rule contents_cong)
  fix b
  assume b: "b < unat n"
  let ?j = "i + b div 8"
  note a = allocated_block(5) [OF assms(1,2)] allocated_block(5) [OF assms(3,4)]
  have j: "?j < i + k - 1"
    using b assms(8) by linarith
  have "words st' ?j = words st ?j"
    using keepsD [OF assms(6,7), of ?j] j by simp
  then have "hmem st' (at (heap_start st) ?j + of_nat (b mod 8)) = hmem st (at (heap_start st) ?j + of_nat (b mod 8))"
    by (rule word_bytes) (use a j assms(5) in auto)
  then show "hmem st' (at (heap_start st) i + of_nat b) = hmem st (at (heap_start st) i + of_nat b)"
    unfolding at_bytes [of "heap_start st" i b] .
qed

definition span_of :: "eval_state \<Rightarrow> nat \<Rightarrow> u64 \<times> u64" where
  "span_of s x = (tr_blocks (e_trace s) ! x, tr_blocks (e_trace s) ! x + tr_block_sizes (e_trace s) ! x - 1)"

text \<open>\<open>L\<close> maps the index of each live block to its words, the blocks \<open>A\<close> are allocated, and those whose index is in
  \<open>C\<close> still hold what was written to them.\<close>

definition slot_ok :: "env \<Rightarrow> nat set \<Rightarrow> eval_state \<Rightarrow> nat \<Rightarrow> nat \<times> nat \<Rightarrow> bool" where
  "slot_ok env C s x b \<longleftrightarrow> x < tr_num_ids (e_trace s) \<and> tr_blocks (e_trace s) ! x = at (heap_start (e_heap s)) (fst b) \<and>
     0 < unat (tr_block_sizes (e_trace s) ! x) \<and> unat (tr_block_sizes (e_trace s) ! x) + 16 \<le> 8 * snd b \<and>
     (x \<in> C \<longrightarrow> contents env (tr_rand_base (e_trace s) ! x) (hmem (e_heap s)) (tr_blocks (e_trace s) ! x)
       (tr_block_sizes (e_trace s) ! x))"

definition arrays_ok :: "trace_t \<Rightarrow> bool" where
  "arrays_ok tr \<longleftrightarrow> length (tr_blocks tr) = tr_num_ids tr \<and> length (tr_block_sizes tr) = tr_num_ids tr \<and>
     length (tr_rand_base tr) = tr_num_ids tr"

definition replay_inv :: "env \<Rightarrow> (nat \<rightharpoonup> nat \<times> nat) \<Rightarrow> (nat \<times> nat) set \<Rightarrow> nat set \<Rightarrow> eval_state \<Rightarrow> bool" where
  "replay_inv env L A C s \<longleftrightarrow> allocator (e_heap s) A \<and> ran L \<subseteq> A \<and> inj_on L (dom L) \<and>
     mem_brk (e_heap s) \<le> mem_max_addr (e_heap s) \<and> unat (mem_max_addr (e_heap s)) < 2 ^ 63 \<and>
     arrays_ok (e_trace s) \<and> (\<forall>x b. L x = Some b \<longrightarrow> slot_ok env C s x b) \<and>
     ranges_ok (e_driver s) \<and> spans (e_driver s) = span_of s ` dom L"

lemma driver_upd_simps [simp]:
  "slot_ok env C (s\<lparr>e_driver := d\<rparr>) = slot_ok env C s" "span_of (s\<lparr>e_driver := d\<rparr>) = span_of s"
  by (simp_all add: fun_eq_iff slot_ok_def span_of_def)

lemma slot_place:
  assumes "replay_inv env L A C s" "L x = Some (i, k)"
  shows "block_at s x (at (heap_start (e_heap s)) i) (tr_block_sizes (e_trace s) ! x)"
proof -
  have al: "allocator (e_heap s) A" "(i, k) \<in> A" and sl: "slot_ok env C s x (i, k)" and ar: "arrays_ok (e_trace s)"
    using assms by (auto simp: replay_inv_def dest: ranI)
  note B = allocated_block [OF al]
  have "unat (at (heap_start (e_heap s)) i) = unat (heap_start (e_heap s)) + 8 * i"
    using B(1,5) by (intro unat_at_wf) (simp_all, linarith)
  moreover have "unat (mem_brk (e_heap s)) = unat (heap_start (e_heap s)) + 8 * nwords (e_heap s)"
    using B(1) by (simp add: heap_wf_def)
  ultimately show ?thesis
    using sl ar B(5) by (simp add: block_at_def slot_ok_def arrays_ok_def)
qed

lemma randomize_inv:
  assumes inv: "replay_inv env L A C s" and x: "L x = Some b" and dbg: "env_dbg env \<noteq> DBG_NONE"
  obtains s' where "randomize_block env op (int x) s = Some s'" "replay_inv env L A (insert x C) s'"
    "mem_brk (e_heap s') = mem_brk (e_heap s)" "mem_max_addr (e_heap s') = mem_max_addr (e_heap s)"
    "heap_start (e_heap s') = heap_start (e_heap s)" "tr_num_ids (e_trace s') = tr_num_ids (e_trace s) \<and> tr_ops (e_trace s') = tr_ops (e_trace s)"
proof -
  obtain i k where b: "b = (i, k)"
    by (cases b)
  let ?st = "e_heap s" and ?tr = "e_trace s"
  let ?p = "at (heap_start ?st) i" and ?n = "tr_block_sizes ?tr ! x"
  have al: "allocator ?st A" "(i, k) \<in> A" and LA: "ran L \<subseteq> A" and inj: "inj_on L (dom L)" and ar: "arrays_ok ?tr"
    and sl: "\<And>y c. L y = Some c \<Longrightarrow> slot_ok env C s y c"
    using inv x b by (auto simp: replay_inv_def dest: ranI)
  have n: "0 < unat ?n" "unat ?n + 16 \<le> 8 * k" "tr_blocks ?tr ! x = ?p" "x < tr_num_ids ?tr"
    using sl [OF x] b by (simp_all add: slot_ok_def)
  obtain m' where m': "randomize_block env op (int x) s =
      Some (s\<lparr>e_trace := ?tr\<lparr>tr_rand_base := (tr_rand_base ?tr)[x := env_random env op]\<rparr>, e_heap := ?st\<lparr>hmem := m'\<rparr>\<rparr>)"
      (is "_ = Some ?s'") "?n \<noteq> 0 \<longrightarrow> contents env (env_random env op) m' ?p ?n"
    "\<forall>a. \<not> unat (a - ?p) < unat ?n \<longrightarrow> m' a = hmem ?st a"
    by (rule randomize_block_ok [where op = op, OF dbg slot_place [OF inv x [unfolded b]]])
  have "m' a = hmem ?st a" if "\<not> unat (a - ?p) < 8 * (k - 2)" for a
    using that n(2) m'(3) by auto
  from payload_bytes [OF al this]
  have al': "allocator (?st\<lparr>hmem := m'\<rparr>) A" "keeps (A - {(i, k)}) ?st (?st\<lparr>hmem := m'\<rparr>)"
    by simp_all
  have "slot_ok env (insert x C) ?s' y c" if y: "L y = Some c" for y c
  proof (cases "y = x")
    case True
    then show ?thesis
      using n m'(2) y x b ar by (auto simp: slot_ok_def arrays_ok_def)
  next
    case False
    obtain u w where c: "c = (u, w)"
      by (cases c)
    have ne: "(u, w) \<noteq> (i, k)"
      using inj_onD [OF inj, of y x] False y x b c by auto
    have ran: "(u, w) \<in> A"
      using LA y c by (auto dest: ranI)
    have "contents env (tr_rand_base ?tr ! y) m' (at (heap_start ?st) u) (tr_block_sizes ?tr ! y) =
        contents env (tr_rand_base ?tr ! y) (hmem ?st) (at (heap_start ?st) u) (tr_block_sizes ?tr ! y)"
      using keeps_contents [OF al(1) ran al'(1) ran _ al'(2)] ran ne sl [OF y] c by (simp add: slot_ok_def)
    then show ?thesis
      using sl [OF y] False c by (auto simp: slot_ok_def)
  qed
  then have "replay_inv env L A (insert x C) ?s'"
    using inv al' by (simp add: replay_inv_def arrays_ok_def span_of_def)
  with m'(1) show ?thesis
    using that by simp
qed

lemma check_inv:
  assumes "replay_inv env L A C s" "L x = Some b" "x \<in> C"
  shows "check_index env (int x) False s = Some (True, s)"
proof -
  obtain i k where b: "b = (i, k)"
    by (cases b)
  have "slot_ok env C s x (i, k)"
    using assms b by (simp add: replay_inv_def)
  then show ?thesis
    using assms(3) by (intro check_index_ok [OF slot_place [OF assms(1) assms(2) [unfolded b]]]) (auto simp: slot_ok_def)
qed

text \<open>What the C library's \<open>malloc\<close> must do: with at most \<open>n\<close> addresses in use it returns a new one.\<close>

definition fresh_malloc :: "nat \<Rightarrow> libc_malloc \<Rightarrow> bool" where
  "fresh_malloc n mal \<longleftrightarrow> (\<forall>S. finite S \<longrightarrow> card S \<le> n \<longrightarrow> mal S \<noteq> NULL \<and> mal S \<notin> S)"

lemma image_the_dom: "(\<lambda>p. f (the (m p))) ` dom m = {f v | p v. m p = Some v}"
  by (auto simp: image_iff dom_def) (metis option.sel)+

lemma ranges_card:
  assumes "ranges_ok d"
  shows "finite (dom (d_ranges d))" "card (dom (d_ranges d)) = card (spans d)"
    "finite (dom (t_store (d_tree d)))" "card (dom (t_store (d_tree d))) = card (spans d)"
proof -
  obtain M where M: "holds (d_tree d) M" "keyed (d_ranges d) M" and R: "records_ok (d_ranges d)"
    using assms by (auto simp: ranges_ok_def)
  let ?R = "d_ranges d"
  let ?lo = "\<lambda>p. r_lo (the (?R p))" and ?sp = "\<lambda>p. (r_lo (the (?R p)), r_hi (the (?R p)))"
  show fin: "finite (dom ?R)"
    using R by (simp add: records_ok_def)
  have inj: "inj_on ?lo (dom ?R)"
    using unique_lo [OF R] by (auto intro!: inj_onI)
  then have "inj_on ?sp (dom ?R)"
    by (auto simp: inj_on_def)
  moreover have "?sp ` dom ?R = spans d"
    by (simp add: image_the_dom [of "\<lambda>r. (r_lo r, r_hi r)"] spans_def)
  ultimately show c: "card (dom ?R) = card (spans d)"
    by (simp flip: card_image)
  have "?lo ` dom ?R = dom M"
    using M(2) by (auto simp: image_the_dom keyed_def) blast
  then have "card (dom M) = card (dom ?R)"
    using card_image [OF inj] by (simp only:)
  then show "finite (dom (t_store (d_tree d)))" "card (dom (t_store (d_tree d))) = card (spans d)"
    using holds_nodes [OF M(1)] c by simp_all
qed

lemma fresh_mallocs: "fresh_malloc n mal \<Longrightarrow> ranges_ok d \<Longrightarrow> card (spans d) \<le> n \<Longrightarrow> mallocs mal d"
  using ranges_card [of d] by (simp add: mallocs_def fresh_malloc_def)

section \<open>Steps between the invariants\<close>

lemma replay_heap:
  assumes inv: "replay_inv env L A C s" and al: "allocator st' A'" "ran L \<subseteq> A'" "keeps (ran L) (e_heap s) st'"
    and fr: "heap_start st' = heap_start (e_heap s)" "mem_max_addr st' = mem_max_addr (e_heap s)" "mem_brk st' \<le> mem_max_addr st'"
  shows "replay_inv env L A' C (s\<lparr>e_heap := st'\<rparr>)"
proof -
  have "slot_ok env C (s\<lparr>e_heap := st'\<rparr>) x b" if x: "L x = Some b" for x b
  proof -
    obtain i k where b: "b = (i, k)"
      by (cases b)
    have sl: "slot_ok env C s x (i, k)" and A: "allocator (e_heap s) A" "(i, k) \<in> A"
      using inv x b by (auto simp: replay_inv_def dest: ranI)
    moreover have "(i, k) \<in> ran L"
      using x b by (auto intro: ranI)
    ultimately have "contents env (tr_rand_base (e_trace s) ! x) (hmem st') (at (heap_start (e_heap s)) i) (tr_block_sizes (e_trace s) ! x) =
        contents env (tr_rand_base (e_trace s) ! x) (hmem (e_heap s)) (at (heap_start (e_heap s)) i) (tr_block_sizes (e_trace s) ! x)"
      using al(2) by (intro keeps_contents [OF A al(1) _ fr(1) al(3)]) (auto simp: slot_ok_def)
    with sl b fr(1) show ?thesis
      by (auto simp: slot_ok_def)
  qed
  with inv al(1,2) fr(2,3) show ?thesis
    by (simp add: replay_inv_def span_of_def)
qed

lemma replay_trace:
  assumes inv: "replay_inv env L A C s" and tr: "arrays_ok tr'" "tr_num_ids tr' = tr_num_ids (e_trace s)"
    and same: "\<forall>y \<in> dom L. tr_blocks tr' ! y = tr_blocks (e_trace s) ! y \<and>
      tr_block_sizes tr' ! y = tr_block_sizes (e_trace s) ! y \<and> tr_rand_base tr' ! y = tr_rand_base (e_trace s) ! y"
  shows "replay_inv env L A C (s\<lparr>e_trace := tr'\<rparr>)"
proof -
  have "span_of (s\<lparr>e_trace := tr'\<rparr>) ` dom L = span_of s ` dom L"
    using same by (intro image_cong) (auto simp: span_of_def)
  moreover have "slot_ok env C (s\<lparr>e_trace := tr'\<rparr>) y b = slot_ok env C s y b" if "L y = Some b" for y b
    using same that tr(2) by (auto simp: slot_ok_def domI)
  ultimately show ?thesis
    using inv tr by (simp add: replay_inv_def)
qed

lemma block_address:
  assumes "allocator st A" "b \<in> A"
  shows "unat (at (heap_start st) (fst b)) = unat (heap_start st) + 8 * fst b"
    "unat (heap_start st) + 8 * fst b + 8 * snd b \<le> unat (mem_brk st)"
proof -
  have b: "heap_wf st" "fst b + snd b \<le> nwords st"
    using allocated_block(1,5) [of st A "fst b" "snd b"] assms by simp_all
  then show "unat (at (heap_start st) (fst b)) = unat (heap_start st) + 8 * fst b"
    using unat_at_wf [of st "heap_start st" "fst b"] by simp
  show "unat (heap_start st) + 8 * fst b + 8 * snd b \<le> unat (mem_brk st)"
    using b by (simp add: heap_wf_def)
qed

lemma same_address:
  assumes "allocator st A" "b \<in> A" "c \<in> A" "at (heap_start st) (fst c) = at (heap_start st) (fst b)"
  shows "c = b"
proof (rule ccontr)
  assume "c \<noteq> b"
  then have "clear c b"
    by (rule allocator_blocks(6) [OF assms(1,3,2)])
  moreover have "fst c = fst b"
    using block_address(1) [OF assms(1,2)] block_address(1) [OF assms(1,3)] assms(4) by simp
  ultimately show False
    using allocator_blocks(2) [OF assms(1,2)] allocator_blocks(2) [OF assms(1,3)] by (auto simp: clear_def)
qed

lemma replay_forget:
  assumes inv: "replay_inv env L A C s" and x: "L x = Some b"
  obtains d' where "remove_range (tr_blocks (e_trace s) ! x) (e_driver s) = Some d'"
    "replay_inv env (L(x := None)) A C (s\<lparr>e_driver := d'\<rparr>)"
proof -
  let ?p = "tr_blocks (e_trace s) ! x"
  have al: "allocator (e_heap s) A" and LA: "ran L \<subseteq> A" and inj: "inj_on L (dom L)"
    and sl: "\<And>y c. L y = Some c \<Longrightarrow> slot_ok env C s y c" and d: "ranges_ok (e_driver s)" "spans (e_driver s) = span_of s ` dom L"
    using inv by (simp_all add: replay_inv_def del: split_paired_All)
  obtain d' where d': "remove_range ?p (e_driver s) = Some d'" "ranges_ok d'" "spans d' = {u \<in> spans (e_driver s). fst u \<noteq> ?p}"
    using remove_range_correct [OF d(1)] by blast
  have "tr_blocks (e_trace s) ! y \<noteq> ?p" if y: "L y = Some c" "y \<noteq> x" for y c
  proof
    assume eq: "tr_blocks (e_trace s) ! y = ?p"
    have A: "b \<in> A" "c \<in> A"
      using LA x y(1) by (auto dest: ranI)
    moreover have "at (heap_start (e_heap s)) (fst c) = at (heap_start (e_heap s)) (fst b)"
      using eq sl [OF x] sl [OF y(1)] by (simp add: slot_ok_def)
    ultimately have "c = b"
      using same_address [OF al] by blast
    then show False
      using inj_onD [OF inj, of y x] x y by auto
  qed
  then have "{u \<in> span_of s ` dom L. fst u \<noteq> ?p} = span_of s ` dom (L(x := None))"
    by (auto simp: span_of_def simp del: dom_fun_upd) (auto simp: dom_def split: if_splits)
  moreover have "ran (L(x := None)) \<subseteq> A"
    using LA by (auto simp: ran_def split: if_splits)
  moreover have "inj_on (L(x := None)) (dom (L(x := None)))"
    using inj by (auto simp: inj_on_def)
  ultimately have "replay_inv env (L(x := None)) A C (s\<lparr>e_driver := d'\<rparr>)"
    using inv d' d(2) by (simp add: replay_inv_def)
  with d'(1) show ?thesis
    by (rule that)
qed

lemma replay_range:
  assumes inv: "replay_inv env L A C s" and b: "(i, m) \<in> A" "(i, m) \<notin> ran L" and n: "0 < unat n" "unat n + 16 \<le> 8 * m"
    and lib: "env_dbg env \<noteq> DBG_NONE" "fresh_malloc N (env_malloc env)" "card (dom L) \<le> N"
  obtains d' where "add_range (env_dbg env) (env_malloc env) (e_heap s) (at (heap_start (e_heap s)) i) n index (e_driver s) = Some (True, d')"
    "ranges_ok d'" "spans d' = insert (at (heap_start (e_heap s)) i, at (heap_start (e_heap s)) i + n - 1) (span_of s ` dom L)"
proof -
  let ?st = "e_heap s"
  let ?lo = "at (heap_start ?st) i"
  have al: "allocator ?st A" and LA: "ran L \<subseteq> A" and brk: "mem_brk ?st \<le> mem_max_addr ?st" "unat (mem_max_addr ?st) < 2 ^ 63"
    and sl: "\<And>y c. L y = Some c \<Longrightarrow> slot_ok env C s y c" and d: "ranges_ok (e_driver s)" "spans (e_driver s) = span_of s ` dom L"
    and ar: "arrays_ok (e_trace s)"
    using inv by (simp_all add: replay_inv_def del: split_paired_All)
  note A = block_address [OF al b(1), unfolded fst_conv snd_conv] and B = allocator_blocks(1,3) [OF al b(1), unfolded fst_conv]
  have top: "unat (mem_brk ?st) < 2 ^ 63"
    using brk by (simp add: word_le_nat_alt)
  have fit: "unat ?lo + unat n \<le> 2 ^ 63" "unat ?lo + unat n + 16 \<le> unat (mem_brk ?st)"
    using A n top by linarith+
  have n0: "0 < n"
    using n(1) by (simp add: word_less_nat_alt)
  note last = last_byte [OF n0 fit(1)]
  have "16 dvd unat (heap_start ?st)"
    using allocated_block(1) [OF al b(1)] by (simp add: heap_wf_def)
  then have "16 dvd unat ?lo"
    using A(1) B(2) by auto
  then have aligned: "IS_ALIGNED ?lo"
    by (simp add: IS_ALIGNED_def ALIGNMENT_def word_unat_eq_iff unat_mod mod_eq_0_iff_dvd)
  have "unat (mem_brk ?st - 1) = unat (mem_brk ?st) - 1"
    using fit(2) by (intro unat_minus_one) auto
  then have inside: "\<not> outside_heap ?st ?lo (?lo + n - 1)"
    using A last(1) fit(2) n(1) by (simp add: outside_heap_def mem_heap_lo_def mem_heap_hi_def word_less_nat_alt) linarith
  have clr: "r_hi r < ?lo \<or> ?lo + n - 1 < r_lo r" if r: "d_ranges (e_driver s) p = Some r" for p r
  proof -
    have "(r_lo r, r_hi r) \<in> span_of s ` dom L"
      using r unfolding d(2) [symmetric] spans_def by blast
    then obtain y c where y: "L y = Some c" "(r_lo r, r_hi r) = span_of s y"
      by auto
    let ?n = "tr_block_sizes (e_trace s) ! y"
    have c: "c \<in> A" "c \<noteq> (i, m)"
      using y(1) b(2) LA by (auto dest: ranI)
    note C = block_address [OF al c(1)]
    have s: "0 < unat ?n" "unat ?n + 16 \<le> 8 * snd c" "r_lo r = at (heap_start ?st) (fst c)" "r_hi r = r_lo r + ?n - 1"
      using sl [OF y(1)] y(2) by (simp_all add: slot_ok_def span_of_def)
    have f: "unat (r_lo r) + unat ?n \<le> 2 ^ 63" "0 < ?n"
      using C s(1,2) top unfolding s(3) by (linarith, simp add: word_less_nat_alt)
    have "unat (r_hi r) = unat (r_lo r) + unat ?n - 1"
      using last_byte(1) [OF f(2,1)] s(4) by simp
    moreover have "fst c + snd c \<le> i \<or> i + m \<le> fst c"
      using allocator_blocks(6) [OF al c(1) b(1) c(2)] by (simp add: clear_def)
    ultimately have "unat (r_hi r) < unat ?lo \<or> unat (?lo + n - 1) < unat (r_lo r)"
      using A(1) C(1) s(1-3) last(1) n by (simp only: s(3)) linarith
    then show ?thesis
      by (simp add: word_less_nat_alt)
  qed
  have "finite (dom L)"
    using sl by (intro finite_subset [of "dom L" "{..< tr_num_ids (e_trace s)}"]) (auto simp: slot_ok_def)
  then have "card (spans (e_driver s)) \<le> N"
    using lib(3) card_image_le [of "dom L" "span_of s"] d(2) by simp
  from add_range_correct [OF d(1) fresh_mallocs [OF lib(2) d(1) this] lib(1) n0 fit(1), of ?st index]
  show ?thesis
    using aligned inside clr d(2) that by (auto simp: block_clear_def)
qed


lemma replay_slot: "replay_inv env L A C s \<Longrightarrow> L x = Some b \<Longrightarrow> slot_ok env C s x b"
  by (cases b) (simp add: replay_inv_def)

lemma replay_fewer: "replay_inv env L A C s \<Longrightarrow> C' \<subseteq> C \<Longrightarrow> replay_inv env L A C' s"
  by (fastforce simp: replay_inv_def slot_ok_def)

lemma replay_insert:
  assumes inv: "replay_inv env L A C s" and d': "ranges_ok d'" "spans d' = insert (at (heap_start (e_heap s)) i, at (heap_start (e_heap s)) i + n - 1) (span_of s ` dom L)"
    and b: "(i, m) \<in> A" "(i, m) \<notin> ran L" and n: "0 < unat n" "unat n + 16 \<le> 8 * m"
    and x: "x \<notin> dom L" "x < tr_num_ids (e_trace s)" "x \<notin> C"
    and tr': "arrays_ok tr'" "tr_num_ids tr' = tr_num_ids (e_trace s)" "tr_blocks tr' ! x = at (heap_start (e_heap s)) i" "tr_block_sizes tr' ! x = n"
    and same: "\<forall>y \<in> dom L. tr_blocks tr' ! y = tr_blocks (e_trace s) ! y \<and>
      tr_block_sizes tr' ! y = tr_block_sizes (e_trace s) ! y \<and> tr_rand_base tr' ! y = tr_rand_base (e_trace s) ! y"
  shows "replay_inv env (L(x \<mapsto> (i, m))) A C (s\<lparr>e_driver := d', e_trace := tr'\<rparr>)"
proof -
  let ?s' = "s\<lparr>e_driver := d', e_trace := tr'\<rparr>" and ?L' = "L(x \<mapsto> (i, m))"
  have "span_of ?s' ` dom L = span_of s ` dom L"
    using same by (intro image_cong) (auto simp: span_of_def)
  moreover have "span_of ?s' x = (at (heap_start (e_heap s)) i, at (heap_start (e_heap s)) i + n - 1)"
    using tr'(3,4) by (simp add: span_of_def)
  ultimately have "spans d' = span_of ?s' ` dom ?L'"
    using d'(2) by simp
  moreover have "slot_ok env C ?s' y c" if y: "?L' y = Some c" for y c
  proof (cases "y = x")
    case True
    then show ?thesis
      using y n x tr' by (auto simp: slot_ok_def)
  next
    case False
    then have "slot_ok env C s y c" "y \<in> dom L"
      using replay_slot [OF inv] y by auto
    then show ?thesis
      using same tr'(2) by (auto simp: slot_ok_def)
  qed
  moreover have "ran ?L' \<subseteq> A"
    using inv b(1) x(1) by (auto simp: replay_inv_def ran_def split: if_splits)
  moreover have "inj_on ?L' (dom ?L')"
    using inv b(2) x(1) by (auto simp: replay_inv_def inj_on_def ran_def)
  ultimately show ?thesis
    using inv d'(1) tr'(1) by (simp add: replay_inv_def)
qed


section \<open>The operations\<close>

text \<open>A well formed operation: it allocates at an index that has no block, or reallocates or frees the block of an
  index; its demand is what it can move the break by.\<close>

definition op_ok :: "nat \<Rightarrow> nat set \<Rightarrow> traceop_t \<Rightarrow> bool" where
  "op_ok n live r \<longleftrightarrow> 0 \<le> op_index r \<and> nat (op_index r) < n \<and> unat (op_size r) < 2 ^ 62 \<and>
     (case op_type r of
       ALLOC \<Rightarrow> nat (op_index r) \<notin> live \<and> op_size r \<noteq> 0
     | REALLOC \<Rightarrow> nat (op_index r) \<in> live
     | FREE \<Rightarrow> nat (op_index r) \<in> live)"

definition live_op :: "nat set \<Rightarrow> traceop_t \<Rightarrow> nat set" where
  "live_op live r = (case op_type r of
     ALLOC \<Rightarrow> insert (nat (op_index r)) live
   | REALLOC \<Rightarrow> (if op_size r = 0 then live - {nat (op_index r)} else live)
   | FREE \<Rightarrow> live - {nat (op_index r)})"

definition op_demand :: "traceop_t \<Rightarrow> nat" where
  "op_demand r = (if op_type r = FREE then 0 else 8 * max (awords (unat (op_size r))) 2048)"

text \<open>One operation done: the block map and the state after it.\<close>

definition replayed :: "env \<Rightarrow> nat \<Rightarrow> eval_state \<Rightarrow> (nat \<rightharpoonup> nat \<times> nat) \<Rightarrow> eval_state \<Rightarrow> bool" where
  "replayed env k s L' s' \<longleftrightarrow> replay_inv env L' (ran L') (dom L') s' \<and>
     unat (mem_brk (e_heap s')) \<le> unat (mem_brk (e_heap s)) + k \<and>
     mem_max_addr (e_heap s') = mem_max_addr (e_heap s) \<and> heap_start (e_heap s') = heap_start (e_heap s) \<and>
     tr_num_ids (e_trace s') = tr_num_ids (e_trace s) \<and> tr_ops (e_trace s') = tr_ops (e_trace s)"

definition driver_env :: "env \<Rightarrow> nat \<Rightarrow> bool" where
  "driver_env env n \<longleftrightarrow> env_dbg env = DBG_CHEAP \<and> fresh_malloc n (env_malloc env)"

lemma live_bound:
  assumes "replay_inv env L A C s"
  shows "dom L \<subseteq> {..< tr_num_ids (e_trace s)}" "finite (dom L)" "card (dom L) \<le> tr_num_ids (e_trace s)"
proof -
  show "dom L \<subseteq> {..< tr_num_ids (e_trace s)}"
    using replay_slot [OF assms] by (auto simp: slot_ok_def)
  then show "finite (dom L)" "card (dom L) \<le> tr_num_ids (e_trace s)"
    using finite_subset card_mono [of "{..< tr_num_ids (e_trace s)}"] by fastforce+
qed

lemma set_arrays:
  assumes "arrays_ok tr" "x < tr_num_ids tr"
  shows "set_block (int x) p tr = Some (tr\<lparr>tr_blocks := (tr_blocks tr)[x := p]\<rparr>)"
    "set_size (int x) n tr = Some (tr\<lparr>tr_block_sizes := (tr_block_sizes tr)[x := n]\<rparr>)"
    "idx_get (tr_blocks tr) (int x) = Some (tr_blocks tr ! x)"
    "idx_get (tr_block_sizes tr) (int x) = Some (tr_block_sizes tr ! x)"
  using assms by (simp_all add: set_block_def set_size_def idx_set_def idx_get_def arrays_ok_def)

lemma arrays_upd [simp]:
  "arrays_ok (tr\<lparr>tr_blocks := (tr_blocks tr)[x := p]\<rparr>) = arrays_ok tr"
  "arrays_ok (tr\<lparr>tr_block_sizes := (tr_block_sizes tr)[x := n]\<rparr>) = arrays_ok tr"
  by (simp_all add: arrays_ok_def)

lemma update_dead: "x \<notin> X \<Longrightarrow> y \<in> X \<Longrightarrow> xs[x := v] ! y = xs ! y"
  by (metis nth_list_update_neq)

lemma malloc_fits:
  assumes "allocator st A" "w \<noteq> 0" "unat w < 2 ^ 62" "unat (mem_brk st) < 2 ^ 63"
    and room: "unat (mem_brk st) + 8 * max (awords (unat w)) 2048 \<le> unat (mem_max_addr st)"
  obtains i m st' where "mm_malloc w st = Some (at (heap_start st) i, st')" "at (heap_start st) i \<noteq> NULL"
    "heap_start st' = heap_start st" "mem_max_addr st' = mem_max_addr st" "keeps A st st'"
    "unat (mem_brk st') \<le> unat (mem_brk st) + 8 * max (awords (unat w)) 2048" "mem_brk st' \<le> mem_max_addr st"
    "(i, m) \<notin> A" "allocator st' (insert (i, m) A)" "awords (unat w) \<le> m"
proof -
  have "mem_brk st \<le> mem_max_addr st"
    using room by (simp add: word_le_nat_alt)
  with malloc_step [OF assms(1-4)] room show ?thesis
    by (auto split: if_splits intro: that)
qed

lemma eval_alloc_ok:
  assumes env: "driver_env env (tr_num_ids (e_trace s))" and inv: "replay_inv env L (ran L) (dom L) s"
    and x: "x < tr_num_ids (e_trace s)" "x \<notin> dom L" and w: "w \<noteq> 0" "unat w < 2 ^ 62"
    and room: "unat (mem_brk (e_heap s)) + 8 * max (awords (unat w)) 2048 \<le> unat (mem_max_addr (e_heap s))"
  shows "\<exists>b s'. eval_alloc env op (int x) w s = Some (True, s') \<and> replayed env (8 * max (awords (unat w)) 2048) s (L(x \<mapsto> b)) s'"
proof -
  have dbg: "env_dbg env \<noteq> DBG_NONE" and mal: "fresh_malloc (tr_num_ids (e_trace s)) (env_malloc env)"
    using env by (simp_all add: driver_env_def)
  have al: "allocator (e_heap s) (ran L)" and brk: "mem_brk (e_heap s) \<le> mem_max_addr (e_heap s)" "unat (mem_max_addr (e_heap s)) < 2 ^ 63"
    and ar: "arrays_ok (e_trace s)"
    using inv by (simp_all add: replay_inv_def)
  then have "unat (mem_brk (e_heap s)) < 2 ^ 63"
    by (simp add: word_le_nat_alt)
  then obtain i m st' where m: "mm_malloc w (e_heap s) = Some (at (heap_start (e_heap s)) i, st')" "at (heap_start (e_heap s)) i \<noteq> NULL"
    "heap_start st' = heap_start (e_heap s)" "mem_max_addr st' = mem_max_addr (e_heap s)" "keeps (ran L) (e_heap s) st'"
    "unat (mem_brk st') \<le> unat (mem_brk (e_heap s)) + 8 * max (awords (unat w)) 2048" "mem_brk st' \<le> mem_max_addr (e_heap s)"
    "(i, m) \<notin> ran L" "allocator st' (insert (i, m) (ran L))" "awords (unat w) \<le> m"
    by (rule malloc_fits [OF al w _ room])
  let ?s1 = "s\<lparr>e_heap := st'\<rparr>" and ?A = "insert (i, m) (ran L)"
  have inv1: "replay_inv env L ?A (dom L) ?s1"
    by (rule replay_heap [OF inv m(9) _ m(5,3,4)]) (use m(4,7) in auto)
  have n: "0 < unat w" "unat w + 16 \<le> 8 * m"
    using w(1) awords_props(3) [of "unat w"] m(10) by (simp add: unat_gt_0, linarith)
  have b: "(i, m) \<in> ?A"
    by simp
  obtain d' where d': "add_range (env_dbg env) (env_malloc env) (e_heap ?s1) (at (heap_start (e_heap ?s1)) i) w (int x) (e_driver ?s1) = Some (True, d')"
    "ranges_ok d'" "spans d' = insert (at (heap_start (e_heap ?s1)) i, at (heap_start (e_heap ?s1)) i + w - 1) (span_of ?s1 ` dom L)"
    by (rule replay_range [OF inv1 b m(8) n dbg mal]) (use live_bound(3) [OF inv] in auto)
  let ?tr = "(e_trace s)\<lparr>tr_blocks := (tr_blocks (e_trace s))[x := at (heap_start (e_heap s)) i],
    tr_block_sizes := (tr_block_sizes (e_trace s))[x := w]\<rparr>"
  let ?s2 = "?s1\<lparr>e_driver := d', e_trace := ?tr\<rparr>"
  have inv2: "replay_inv env (L(x \<mapsto> (i, m))) ?A (dom L) ?s2"
    by (rule replay_insert [OF inv1 d'(2,3) b m(8) n x(2)]) (use x ar m(3) in \<open>simp_all add: arrays_ok_def update_dead\<close>)
  have "(L(x \<mapsto> (i, m))) x = Some (i, m)"
    by simp
  then obtain s' where s': "randomize_block env op (int x) ?s2 = Some s'" "replay_inv env (L(x \<mapsto> (i, m))) ?A (insert x (dom L)) s'"
    "mem_brk (e_heap s') = mem_brk (e_heap ?s2)" "mem_max_addr (e_heap s') = mem_max_addr (e_heap ?s2)"
    "heap_start (e_heap s') = heap_start (e_heap ?s2)" "tr_num_ids (e_trace s') = tr_num_ids (e_trace ?s2) \<and> tr_ops (e_trace s') = tr_ops (e_trace ?s2)"
    using randomize_inv [OF inv2 _ dbg] by blast
  have "eval_alloc env op (int x) w s = Some (True, s')"
    using m(1,2,3) d'(1) s'(1) x(1) ar by (simp add: eval_alloc_def set_arrays)
  moreover have "replayed env (8 * max (awords (unat w)) 2048) s (L(x \<mapsto> (i, m))) s'"
    using s'(2-) m(3,4,6) ran_map_upd [of L x "(i, m)"] x(2) by (simp add: replayed_def domIff del: not_None_eq)
  ultimately show ?thesis
    by blast
qed


lemma drop_block:
  assumes "inj_on L (dom L)" "L x = Some b"
  shows "ran (L(x := None)) = ran L - {b}"
proof
  show "ran (L(x := None)) \<subseteq> ran L - {b}"
    using assms(2) inj_onD [OF assms(1), of _ x] by (fastforce simp: ran_def split: if_splits)
  show "ran L - {b} \<subseteq> ran (L(x := None))"
    using assms(2) by (auto simp: ran_def) (metis option.inject)
qed

text \<open>\<open>mm_free\<close> of a block whose range is already forgotten.\<close>

lemma replay_release:
  assumes inv: "replay_inv env (L(x := None)) (ran L) C s" and inj: "inj_on L (dom L)" and x: "L x = Some b"
  obtains st' where "mm_free (at (heap_start (e_heap s)) (fst b)) (e_heap s) = Some st'"
    "replay_inv env (L(x := None)) (ran (L(x := None))) C (s\<lparr>e_heap := st'\<rparr>)" "same_frame (e_heap s) st'"
proof -
  note ran = drop_block [OF inj x]
  have al: "allocator (e_heap s) (ran L)" "mem_brk (e_heap s) \<le> mem_max_addr (e_heap s)"
    using inv by (simp_all add: replay_inv_def)
  from free_step [OF al(1), of "fst b" "snd b"] x obtain st' where st': "mm_free (at (heap_start (e_heap s)) (fst b)) (e_heap s) = Some st'"
    "allocator st' (ran L - {b})" "keeps (ran L - {b}) (e_heap s) st'" "same_frame (e_heap s) st'"
    by (auto intro: ranI)
  have "replay_inv env (L(x := None)) (ran (L(x := None))) C (s\<lparr>e_heap := st'\<rparr>)"
    by (rule replay_heap [OF inv]) (use st' al(2) ran in \<open>simp_all add: same_frame_def\<close>)
  with st'(1,4) show ?thesis
    by (intro that)
qed

lemma eval_free_ok:
  assumes inv: "replay_inv env L (ran L) (dom L) s" and x: "L x = Some b"
  shows "\<exists>s'. eval_free env (int x) s = Some (True, s') \<and> replayed env 0 s (L(x := None)) s'"
proof -
  have sl: "slot_ok env (dom L) s x b" and xd: "x \<in> dom L" and ar: "arrays_ok (e_trace s)" and inj: "inj_on L (dom L)"
    using replay_slot [OF inv x] x inv by (auto simp: replay_inv_def)
  obtain d' where d': "remove_range (tr_blocks (e_trace s) ! x) (e_driver s) = Some d'"
    "replay_inv env (L(x := None)) (ran L) (dom L) (s\<lparr>e_driver := d'\<rparr>)"
    by (rule replay_forget [OF inv x])
  obtain st' where st': "mm_free (at (heap_start (e_heap s)) (fst b)) (e_heap s) = Some st'"
    "replay_inv env (L(x := None)) (ran (L(x := None))) (dom L) (s\<lparr>e_driver := d', e_heap := st'\<rparr>)" "same_frame (e_heap s) st'"
    using replay_release [OF d'(2) inj x] by auto
  have "int x \<noteq> - 1"
    by simp
  then have "eval_free env (int x) s = Some (True, s\<lparr>e_driver := d', e_heap := st'\<rparr>)"
    using check_inv [OF inv x xd] d'(1) st'(1) sl ar by (simp add: eval_free_def set_arrays slot_ok_def del: fun_upd_apply)
  moreover have "replay_inv env (L(x := None)) (ran (L(x := None))) (dom (L(x := None))) (s\<lparr>e_driver := d', e_heap := st'\<rparr>)"
    by (rule replay_fewer [OF st'(2)]) auto
  ultimately show ?thesis
    using st'(3) by (auto simp: replayed_def same_frame_def)
qed


text \<open>\<open>mm_realloc\<close> to a positive size, when the heap has room: the first bytes of the block are found at its new place.\<close>

lemma realloc_fits:
  assumes al: "allocator st A" and b: "(i, k) \<in> A" and w: "w \<noteq> 0" "unat w < 2 ^ 62" and st: "unat (mem_brk st) < 2 ^ 63" "heap_start st \<noteq> NULL"
    and room: "unat (mem_brk st) + 8 * max (awords (unat w)) 2048 \<le> unat (mem_max_addr st)"
  obtains i' m st' where "mm_realloc (at (heap_start st) i) w st = Some (at (heap_start st) i', st')"
    "(i', m) \<notin> A - {(i, k)}" "allocator st' (insert (i', m) (A - {(i, k)}))" "keeps (A - {(i, k)}) st st'"
    "heap_start st' = heap_start st" "mem_max_addr st' = mem_max_addr st" "mem_brk st' \<le> mem_max_addr st"
    "unat (mem_brk st') \<le> unat (mem_brk st) + 8 * max (awords (unat w)) 2048" "unat w + 16 \<le> 8 * m"
    "\<forall>j < k - 2. words st' (i' + j) = words st (i + j)"
proof (cases "rwords (unat w) \<le> k - 2")
  case True
  have "unat w + 16 \<le> 8 * k"
    using True allocated_block(3) [OF al b] by (auto simp: rwords_def split: if_splits)
  moreover have "mm_realloc (at (heap_start st) i) w st = Some (at (heap_start st) i, st)"
    using realloc_step [OF al b w st] True by simp
  moreover have "insert (i, k) (A - {(i, k)}) = A"
    using b by auto
  moreover have "mem_brk st \<le> mem_max_addr st"
    using room by (simp add: word_le_nat_alt)
  ultimately show ?thesis
    using al by (intro that [of i st k]) simp_all
next
  case False
  obtain i1 m1 st1 where st1: "mm_malloc w st = Some (at (heap_start st) i1, st1)" "at (heap_start st) i1 \<noteq> NULL"
    "heap_start st1 = heap_start st" "mem_max_addr st1 = mem_max_addr st" "keeps A st st1"
    "unat (mem_brk st1) \<le> unat (mem_brk st) + 8 * max (awords (unat w)) 2048" "mem_brk st1 \<le> mem_max_addr st"
    "(i1, m1) \<notin> A" "allocator st1 (insert (i1, m1) A)" "awords (unat w) \<le> m1"
    by (rule malloc_fits [OF al w st(1) room])
  with realloc_step [OF al b w st, unfolded if_not_P [OF False]] obtain i' m st' where
    m: "mm_realloc (at (heap_start st) i) w st = Some (at (heap_start st) i', st')"
      "(i', m) \<notin> A" "awords (unat w) \<le> m" "allocator st' (insert (i', m) (A - {(i, k)}))"
      "keeps (A - {(i, k)}) st st'" "\<forall>j < k - 2. words st' (i' + j) = words st (i + j)" "same_frame st1 st'"
    by auto
  have "unat w + 16 \<le> 8 * m"
    using m(3) awords_props(3) [of "unat w"] by linarith
  with m(1,2,4-7) st1(3,4,6,7) show ?thesis
    by (intro that [of i' st' m]) (simp_all add: same_frame_def)
qed

lemma eval_realloc_zero:
  assumes env: "driver_env env N" and inv: "replay_inv env L (ran L) (dom L) s" and x: "L x = Some b"
  shows "\<exists>s'. eval_realloc env op (int x) 0 s = Some (True, s') \<and> replayed env 0 s (L(x := None)) s'"
proof -
  have dbg: "env_dbg env \<noteq> DBG_NONE"
    using env by (simp add: driver_env_def)
  have sl: "slot_ok env (dom L) s x b" and xd: "x \<in> dom L" and ar: "arrays_ok (e_trace s)" and inj: "inj_on L (dom L)"
    using replay_slot [OF inv x] x inv by (auto simp: replay_inv_def)
  then have xn: "x < tr_num_ids (e_trace s)" and old: "0 < tr_block_sizes (e_trace s) ! x"
    by (auto simp: slot_ok_def word_less_nat_alt)
  obtain d' where d': "remove_range (tr_blocks (e_trace s) ! x) (e_driver s) = Some d'"
    "replay_inv env (L(x := None)) (ran L) (dom L) (s\<lparr>e_driver := d'\<rparr>)"
    by (rule replay_forget [OF inv x])
  obtain st' where st': "mm_free (at (heap_start (e_heap s)) (fst b)) (e_heap s) = Some st'"
    "replay_inv env (L(x := None)) (ran (L(x := None))) (dom L) (s\<lparr>e_driver := d', e_heap := st'\<rparr>)" "same_frame (e_heap s) st'"
    using replay_release [OF d'(2) inj x] by auto
  have free: "mm_realloc (tr_blocks (e_trace s) ! x) 0 (e_heap s) = Some (NULL, st')"
    using st'(1) sl by (simp add: mm_realloc_def slot_ok_def)
  let ?tr = "(e_trace s)\<lparr>tr_blocks := (tr_blocks (e_trace s))[x := NULL], tr_block_sizes := (tr_block_sizes (e_trace s))[x := 0]\<rparr>"
  let ?s2 = "s\<lparr>e_heap := st', e_driver := d', e_trace := ?tr\<rparr>"
  have at: "block_at ?s2 x NULL 0"
    using xn ar by (simp add: block_at_def arrays_ok_def)
  obtain m' where m': "randomize_block env op (int x) ?s2 =
      Some (?s2\<lparr>e_trace := ?tr\<lparr>tr_rand_base := (tr_rand_base ?tr)[x := env_random env op]\<rparr>, e_heap := st'\<lparr>hmem := m'\<rparr>\<rparr>)"
    "\<forall>a. m' a = hmem st' a"
    using randomize_block_ok [OF dbg at, of op] by auto
  then have "st'\<lparr>hmem := m'\<rparr> = st'"
    by (simp add: fun_eq_iff [symmetric])
  note rand = m'(1) [unfolded this]
  let ?tr' = "?tr\<lparr>tr_rand_base := (tr_rand_base ?tr)[x := env_random env op]\<rparr>"
  let ?s' = "s\<lparr>e_driver := d', e_heap := st', e_trace := ?tr'\<rparr>"
  have "eval_realloc env op (int x) 0 s = Some (True, ?s')"
    using check_inv [OF inv x xd] d'(1) free rand old xn ar check_index_prefix [where env = env, OF at]
    by (simp add: eval_realloc_def set_arrays arrays_ok_def)
  moreover have "replay_inv env (L(x := None)) (ran (L(x := None))) (dom L) ?s'"
    using replay_trace [OF st'(2), of ?tr'] xn ar by (simp add: arrays_ok_def)
  then have "replay_inv env (L(x := None)) (ran (L(x := None))) (dom (L(x := None))) ?s'"
    by (rule replay_fewer) auto
  ultimately show ?thesis
    using st'(3) by (auto simp: replayed_def same_frame_def)
qed


lemma moved_bytes:
  assumes al: "allocator st A" "(i, k) \<in> A" "allocator st' A'" "(i', m) \<in> A'" "heap_start st' = heap_start st"
    and same: "\<forall>j < k - 2. words st' (i' + j) = words st (i + j)" and n: "b < n" "n + 16 \<le> 8 * k" "n + 16 \<le> 8 * m"
  shows "hmem st' (at (heap_start st) i' + of_nat b) = hmem st (at (heap_start st) i + of_nat b)"
proof -
  have j: "b div 8 < k - 2" "b div 8 < m - 2"
    using n by linarith+
  have "hmem st' (at (heap_start st) (i' + b div 8) + of_nat (b mod 8)) = hmem st (at (heap_start st) (i + b div 8) + of_nat (b mod 8))"
    by (rule word_bytes) (use same j al(5) allocated_block(5) [OF al(1,2)] allocated_block(5) [OF al(3,4)] in auto)
  then show ?thesis
    unfolding at_bytes [of _ _ b] .
qed

lemma place_in_heap:
  assumes "replay_inv env L A C s" "(i, m) \<in> A" "unat n + 16 \<le> 8 * m" "x < tr_num_ids (e_trace s)"
    "tr_blocks (e_trace s) ! x = at (heap_start (e_heap s)) i" "tr_block_sizes (e_trace s) ! x = n"
  shows "block_at s x (at (heap_start (e_heap s)) i) n"
proof -
  have al: "allocator (e_heap s) A" and ar: "arrays_ok (e_trace s)"
    using assms(1) by (simp_all add: replay_inv_def)
  show ?thesis
    using block_address [OF al assms(2), unfolded fst_conv snd_conv] assms(3-) ar by (simp add: block_at_def arrays_ok_def)
qed

lemma realloc_heap:
  assumes inv: "replay_inv env L (ran L) (dom L) s" and x: "L x = Some b"
    and w: "w \<noteq> 0" "unat w < 2 ^ 62" and nz: "heap_start (e_heap s) \<noteq> NULL"
    and room: "unat (mem_brk (e_heap s)) + 8 * max (awords (unat w)) 2048 \<le> unat (mem_max_addr (e_heap s))"
  obtains i m st' d where
    "mm_realloc (tr_blocks (e_trace s) ! x) w (e_heap s) = Some (at (heap_start (e_heap s)) i, st')" "at (heap_start (e_heap s)) i \<noteq> NULL"
    "remove_range (tr_blocks (e_trace s) ! x) (e_driver s) = Some d"
    "replay_inv env (L(x := None)) (insert (i, m) (ran (L(x := None)))) (dom (L(x := None))) (s\<lparr>e_driver := d, e_heap := st'\<rparr>)"
    "(i, m) \<notin> ran (L(x := None))" "unat w + 16 \<le> 8 * m" "heap_start st' = heap_start (e_heap s)" "mem_max_addr st' = mem_max_addr (e_heap s)"
    "unat (mem_brk st') \<le> unat (mem_brk (e_heap s)) + 8 * max (awords (unat w)) 2048"
    "\<forall>j < min (unat w) (unat (tr_block_sizes (e_trace s) ! x)).
      hmem st' (at (heap_start (e_heap s)) i + of_nat j) = hmem (e_heap s) (tr_blocks (e_trace s) ! x + of_nat j)"
proof -
  obtain i0 k where b: "b = (i0, k)"
    by (cases b)
  let ?st = "e_heap s" and ?L = "L(x := None)"
  let ?lo = "heap_start ?st"
  have sl: "slot_ok env (dom L) s x (i0, k)" and inj: "inj_on L (dom L)" and al: "allocator ?st (ran L)" and ik: "(i0, k) \<in> ran L"
    and brk: "mem_brk ?st \<le> mem_max_addr ?st" "unat (mem_max_addr ?st) < 2 ^ 63"
    using replay_slot [OF inv x] x inv b by (auto simp: replay_inv_def intro: ranI)
  have old: "tr_blocks (e_trace s) ! x = at ?lo i0" "unat (tr_block_sizes (e_trace s) ! x) + 16 \<le> 8 * k"
    using sl by (auto simp: slot_ok_def)
  note ran = drop_block [OF inj x, unfolded b]
  have "unat (mem_brk ?st) < 2 ^ 63"
    using brk by (simp add: word_le_nat_alt)
  then obtain i m st' where m: "mm_realloc (at ?lo i0) w ?st = Some (at ?lo i, st')"
    "(i, m) \<notin> ran L - {(i0, k)}" "allocator st' (insert (i, m) (ran L - {(i0, k)}))" "keeps (ran L - {(i0, k)}) ?st st'"
    "heap_start st' = ?lo" "mem_max_addr st' = mem_max_addr ?st" "mem_brk st' \<le> mem_max_addr ?st"
    "unat (mem_brk st') \<le> unat (mem_brk ?st) + 8 * max (awords (unat w)) 2048" "unat w + 16 \<le> 8 * m"
    "\<forall>j < k - 2. words st' (i + j) = words ?st (i0 + j)"
    by (rule realloc_fits [OF al ik w _ nz room])
  have A: "(i, m) \<in> insert (i, m) (ran ?L)" "(i, m) \<notin> ran ?L" "allocator st' (insert (i, m) (ran ?L))" "keeps (ran ?L) ?st st'"
    using m(2-4) unfolding ran by simp_all
  have p0: "at ?lo i \<noteq> NULL"
    using allocated_block(8) [OF A(3,1)] m(5) by simp
  obtain d where d: "remove_range (at ?lo i0) (e_driver s) = Some d" "replay_inv env ?L (ran L) (dom L) (s\<lparr>e_driver := d\<rparr>)"
    using replay_forget [OF inv x] old(1) by metis
  have "replay_inv env ?L (insert (i, m) (ran ?L)) (dom L) (s\<lparr>e_driver := d, e_heap := st'\<rparr>)"
    using replay_heap [OF d(2) A(3)] A(4) m(5-7) by auto
  then have "replay_inv env ?L (insert (i, m) (ran ?L)) (dom ?L) (s\<lparr>e_driver := d, e_heap := st'\<rparr>)"
    by (rule replay_fewer) auto
  moreover have "\<forall>j < min (unat w) (unat (tr_block_sizes (e_trace s) ! x)). hmem st' (at ?lo i + of_nat j) = hmem ?st (at ?lo i0 + of_nat j)"
    using moved_bytes [where n = "min (unat w) (unat (tr_block_sizes (e_trace s) ! x))", OF al ik A(3,1) m(5,10)] old(2) m(9) by simp
  ultimately show ?thesis
    using m(1,5,6,8,9) d(1) A(2) p0 unfolding old(1) [symmetric] by (intro that)
qed

text \<open>The two updates of the size around the second check.\<close>

lemma realloc_arrays:
  fixes p w :: u64
  assumes "arrays_ok tr" "x < tr_num_ids tr"
  defines "old \<equiv> tr_block_sizes tr ! x" and "tr0 \<equiv> tr\<lparr>tr_blocks := (tr_blocks tr)[x := p]\<rparr>"
  defines "tr1 \<equiv> tr0\<lparr>tr_block_sizes := (tr_block_sizes tr)[x := (if w < old then w else old)]\<rparr>"
  shows "set_block (int x) p tr = Some tr0" "idx_get (tr_block_sizes tr0) (int x) = Some old"
    "(if w < old then set_size (int x) w tr0 else Some tr0) = Some tr1"
    "set_size (int x) w tr1 = Some (tr0\<lparr>tr_block_sizes := (tr_block_sizes tr)[x := w]\<rparr>)"
  using assms by (auto simp: set_arrays arrays_ok_def intro!: trace_t.equality)

lemma eval_realloc_ok:
  assumes env: "driver_env env (tr_num_ids (e_trace s))" and inv: "replay_inv env L (ran L) (dom L) s" and x: "L x = Some b"
    and w: "w \<noteq> 0" "unat w < 2 ^ 62" and nz: "heap_start (e_heap s) \<noteq> NULL"
    and room: "unat (mem_brk (e_heap s)) + 8 * max (awords (unat w)) 2048 \<le> unat (mem_max_addr (e_heap s))"
  shows "\<exists>c s'. eval_realloc env op (int x) w s = Some (True, s') \<and> replayed env (8 * max (awords (unat w)) 2048) s (L(x \<mapsto> c)) s'"
proof -
  let ?st = "e_heap s" and ?tr = "e_trace s" and ?L = "L(x := None)"
  let ?lo = "heap_start ?st" and ?old = "tr_block_sizes ?tr ! x"
  have dbg: "env_dbg env \<noteq> DBG_NONE" and mal: "fresh_malloc (tr_num_ids ?tr) (env_malloc env)"
    using env by (simp_all add: driver_env_def)
  have sl: "slot_ok env (dom L) s x b" and xd: "x \<in> dom L" and ar: "arrays_ok ?tr"
    using replay_slot [OF inv x] x inv by (auto simp: replay_inv_def)
  obtain i m st' d1 where
    m: "mm_realloc (tr_blocks ?tr ! x) w ?st = Some (at ?lo i, st')" "at ?lo i \<noteq> NULL"
      "remove_range (tr_blocks ?tr ! x) (e_driver s) = Some d1"
      "replay_inv env ?L (insert (i, m) (ran ?L)) (dom ?L) (s\<lparr>e_driver := d1, e_heap := st'\<rparr>)"
      "(i, m) \<notin> ran ?L" "unat w + 16 \<le> 8 * m" "heap_start st' = ?lo" "mem_max_addr st' = mem_max_addr ?st"
      "unat (mem_brk st') \<le> unat (mem_brk ?st) + 8 * max (awords (unat w)) 2048"
      "\<forall>j < min (unat w) (unat ?old). hmem st' (at ?lo i + of_nat j) = hmem ?st (tr_blocks ?tr ! x + of_nat j)"
    by (rule realloc_heap [OF inv x w nz room])
  let ?A = "insert (i, m) (ran ?L)" and ?p = "at ?lo i" and ?s1 = "s\<lparr>e_driver := d1, e_heap := st'\<rparr>"
  have A: "(i, m) \<in> ?A" and xL: "x \<notin> dom ?L" and n: "0 < unat w" and xn: "x < tr_num_ids ?tr"
    using w(1) sl by (simp_all add: unat_gt_0 slot_ok_def)
  have "card (dom ?L) \<le> tr_num_ids ?tr"
    using live_bound(3) [OF m(4)] by simp
  then obtain d2 where d2: "add_range (env_dbg env) (env_malloc env) st' ?p w (int x) d1 = Some (True, d2)"
    "ranges_ok d2" "spans d2 = insert (?p, ?p + w - 1) (span_of ?s1 ` dom ?L)"
    using replay_range [OF m(4) A m(5) n m(6) dbg mal, of "int x"] m(7) by auto
  define n1 where "n1 = (if w < ?old then w else ?old)"
  let ?trb = "?tr\<lparr>tr_blocks := (tr_blocks ?tr)[x := ?p]\<rparr>"
  let ?s2 = "s\<lparr>e_heap := st', e_driver := d2, e_trace := ?trb\<lparr>tr_block_sizes := (tr_block_sizes ?tr)[x := n1]\<rparr>\<rparr>"
  let ?s3 = "s\<lparr>e_heap := st', e_driver := d2, e_trace := ?trb\<lparr>tr_block_sizes := (tr_block_sizes ?tr)[x := w]\<rparr>\<rparr>"
  have n1: "unat n1 \<le> unat w" "unat n1 \<le> unat ?old" "unat n1 = min (unat w) (unat ?old)"
    by (auto simp: n1_def word_less_nat_alt)
  have inv3: "replay_inv env (?L(x \<mapsto> (i, m))) ?A (dom ?L) ?s3"
    using replay_insert [OF m(4) d2(2) _ A m(5) n m(6) xL, of "e_trace ?s3"] d2(3) xn ar m(7)
    by (simp add: arrays_ok_def update_dead)
  have "block_at ?s3 x ?p w"
    using place_in_heap [OF inv3 A m(6)] xn ar m(7) by (simp add: arrays_ok_def)
  then have at: "block_at ?s2 x ?p n1"
    using n1(1) w(1) by (auto simp: block_at_def)
  have "hmem (e_heap ?s2) (?p + of_nat j) = random_byte env (tr_rand_base (e_trace ?s2) ! x) (of_nat j)" if j: "j < min (unat n1) 1024" for j
  proof -
    have "contents env (tr_rand_base ?tr ! x) (hmem ?st) (tr_blocks ?tr ! x) ?old"
      using sl xd by (auto simp: slot_ok_def)
    from contents_prefix [OF this, of j] show ?thesis
      using m(10) j n1(3) by simp
  qed
  note chk = check_index_prefix [OF at this]
  obtain s' where s': "randomize_block env op (int x) ?s3 = Some s'" "replay_inv env (?L(x \<mapsto> (i, m))) ?A (insert x (dom ?L)) s'"
    "mem_brk (e_heap s') = mem_brk (e_heap ?s3)" "mem_max_addr (e_heap s') = mem_max_addr (e_heap ?s3)"
    "heap_start (e_heap s') = heap_start (e_heap ?s3)" "tr_num_ids (e_trace s') = tr_num_ids (e_trace ?s3) \<and> tr_ops (e_trace s') = tr_ops (e_trace ?s3)"
    using randomize_inv [OF inv3 _ dbg, of x "(i, m)" op] by auto
  have "eval_realloc env op (int x) w s = Some (True, s')"
    using check_inv [OF inv x xd] m(1-3) w(1) d2(1) realloc_arrays(1,2) [OF ar xn, of ?p] realloc_arrays(3,4) [where p = ?p and w = w, OF ar xn] chk [unfolded n1_def] s'(1) xn ar
    by (simp add: eval_realloc_def set_arrays(3) unat_gt_0 word_gt_0 del: if_split)
  moreover have "replayed env (8 * max (awords (unat w)) 2048) s (L(x \<mapsto> (i, m))) s'"
    using s'(2-) m(7-9) ran_map_upd [of ?L x "(i, m)"] by (simp add: replayed_def insert_Diff_if)
  ultimately show ?thesis
    by blast
qed

lemma eval_op_ok:
  assumes env: "driver_env env (tr_num_ids (e_trace s))" and inv: "replay_inv env L (ran L) (dom L) s"
    and r: "op_ok (tr_num_ids (e_trace s)) (dom L) r" and nz: "heap_start (e_heap s) \<noteq> NULL"
    and room: "unat (mem_brk (e_heap s)) + op_demand r \<le> unat (mem_max_addr (e_heap s))"
  shows "\<exists>L' s'. eval_op env op r s = Some (True, s') \<and> replayed env (op_demand r) s L' s' \<and> dom L' = live_op (dom L) r \<and>
    (\<forall>y. y \<noteq> nat (op_index r) \<longrightarrow> L' y = L y)"
proof -
  let ?x = "nat (op_index r)"
  have i: "op_index r = int ?x" "?x < tr_num_ids (e_trace s)" "unat (op_size r) < 2 ^ 62"
    using r by (simp_all add: op_ok_def)
  show ?thesis
  proof (cases "op_type r")
    case ALLOC
    with r room have "?x \<notin> dom L" "op_size r \<noteq> 0"
      "unat (mem_brk (e_heap s)) + 8 * max (awords (unat (op_size r))) 2048 \<le> unat (mem_max_addr (e_heap s))"
      by (simp_all add: op_ok_def op_demand_def)
    from eval_alloc_ok [OF env inv i(2) this(1,2) i(3) this(3), of op] obtain b s' where
      "eval_op env op r s = Some (True, s')" "replayed env (op_demand r) s (L(?x \<mapsto> b)) s'"
      using ALLOC i(1) by (auto simp: eval_op_def op_demand_def)
    then show ?thesis
      using ALLOC by (intro exI [of _ "L(?x \<mapsto> b)"]) (auto simp: live_op_def)
  next
    case FREE
    with r obtain b where b: "L ?x = Some b"
      by (auto simp: op_ok_def)
    from eval_free_ok [OF inv this] obtain s' where
      "eval_op env op r s = Some (True, s')" "replayed env (op_demand r) s (L(?x := None)) s'"
      using FREE i(1) by (auto simp: eval_op_def op_demand_def)
    then show ?thesis
      using FREE by (intro exI [of _ "L(?x := None)"]) (auto simp: live_op_def)
  next
    case REALLOC
    with r obtain b where b: "L ?x = Some b"
      by (auto simp: op_ok_def)
    show ?thesis
    proof (cases "op_size r = 0")
      case True
      from eval_realloc_zero [OF env inv b, of op] obtain s' where
        "eval_op env op r s = Some (True, s')" "replayed env 0 s (L(?x := None)) s'"
        using REALLOC i(1) True by (auto simp: eval_op_def)
      then show ?thesis
        using REALLOC True by (intro exI [of _ "L(?x := None)"]) (auto simp: live_op_def replayed_def)
    next
      case False
      from room REALLOC have "unat (mem_brk (e_heap s)) + 8 * max (awords (unat (op_size r))) 2048 \<le> unat (mem_max_addr (e_heap s))"
        by (simp add: op_demand_def)
      from eval_realloc_ok [OF env inv b False i(3) nz this, of op] obtain c s' where
        "eval_op env op r s = Some (True, s')" "replayed env (op_demand r) s (L(?x \<mapsto> c)) s'"
        using REALLOC i(1) by (auto simp: eval_op_def op_demand_def)
      then show ?thesis
        using REALLOC False b by (intro exI [of _ "L(?x \<mapsto> c)"]) (auto simp: live_op_def)
    qed
  qed
qed

section \<open>Traces\<close>

fun trace_ok :: "nat \<Rightarrow> nat set \<Rightarrow> traceop_t list \<Rightarrow> bool" where
  "trace_ok n live [] \<longleftrightarrow> True"
| "trace_ok n live (r # rs) \<longleftrightarrow> op_ok n live r \<and> trace_ok n (live_op live r) rs"

definition demand :: "traceop_t list \<Rightarrow> nat" where
  "demand rs = sum_list (map op_demand rs)"

definition same_frames :: "eval_state \<Rightarrow> eval_state \<Rightarrow> bool" where
  "same_frames s s' \<longleftrightarrow> mem_max_addr (e_heap s') = mem_max_addr (e_heap s) \<and> heap_start (e_heap s') = heap_start (e_heap s) \<and>
     tr_num_ids (e_trace s') = tr_num_ids (e_trace s) \<and> tr_ops (e_trace s') = tr_ops (e_trace s)"

lemma eval_ops_ok:
  assumes "driver_env env (tr_num_ids (e_trace s))" "replay_inv env L (ran L) (dom L) s"
    and "trace_ok (tr_num_ids (e_trace s)) (dom L) rs" "heap_start (e_heap s) \<noteq> NULL"
    and "unat (mem_brk (e_heap s)) + demand rs \<le> unat (mem_max_addr (e_heap s))"
  shows "\<exists>L' s'. eval_ops env i rs s = Some (True, s') \<and> replay_inv env L' (ran L') (dom L') s' \<and>
    dom L' = fold (\<lambda>r live. live_op live r) rs (dom L) \<and> same_frames s s' \<and>
    (\<forall>y. (\<forall>r \<in> set rs. nat (op_index r) \<noteq> y) \<longrightarrow> L' y = L y)"
  using assms
proof (induction rs arbitrary: i L s)
  case (Cons r rs)
  have all: "check_all env s = Some (True, s)"
    using Cons.prems(1) by (simp add: check_all_def driver_env_def)
  have "op_ok (tr_num_ids (e_trace s)) (dom L) r" "unat (mem_brk (e_heap s)) + op_demand r \<le> unat (mem_max_addr (e_heap s))"
    using Cons.prems(3,5) by (simp_all add: demand_def)
  from eval_op_ok [OF Cons.prems(1,2) this(1) Cons.prems(4) this(2), of i] obtain L1 s1 where
    s1: "eval_op env i r s = Some (True, s1)" "replayed env (op_demand r) s L1 s1" "dom L1 = live_op (dom L) r"
      "\<forall>y. y \<noteq> nat (op_index r) \<longrightarrow> L1 y = L y"
    by blast
  then have "\<exists>L' s'. eval_ops env (Suc i) rs s1 = Some (True, s') \<and> replay_inv env L' (ran L') (dom L') s' \<and>
    dom L' = fold (\<lambda>r live. live_op live r) rs (dom L1) \<and> same_frames s1 s' \<and>
    (\<forall>y. (\<forall>r \<in> set rs. nat (op_index r) \<noteq> y) \<longrightarrow> L' y = L1 y)"
    using Cons.prems by (intro Cons.IH) (auto simp: replayed_def demand_def)
  moreover have "same_frames s s1"
    using s1(2) by (simp add: replayed_def same_frames_def)
  ultimately obtain L' s' where "eval_ops env (Suc i) rs s1 = Some (True, s')" "replay_inv env L' (ran L') (dom L') s'"
    "dom L' = fold (\<lambda>r live. live_op live r) rs (dom L1)" "same_frames s s'"
    "\<forall>y. (\<forall>r \<in> set rs. nat (op_index r) \<noteq> y) \<longrightarrow> L' y = L1 y"
    by (auto simp: same_frames_def)
  then show ?case
    using all s1(1,3,4) by (intro exI [of _ L'] exI [of _ s']) auto
qed (auto simp: same_frames_def)

text \<open>A driver and a heap that are ready for \<open>eval_mm_valid\<close>; of the trace, only its operations and the size of its
  arrays matter.\<close>

definition ready :: "env \<Rightarrow> eval_state \<Rightarrow> bool" where
  "ready env s \<longleftrightarrow> driver_env env (tr_num_ids (e_trace s)) \<and> ranges_ok (e_driver s) \<and> spans (e_driver s) = {} \<and>
     length (tr_rand_base (e_trace s)) = tr_num_ids (e_trace s) \<and>
     heap_start (e_heap s) \<noteq> NULL \<and> 16 dvd unat (heap_start (e_heap s)) \<and> unat (mem_max_addr (e_heap s)) < 2 ^ 63"

lemma init_fits:
  assumes "16 dvd unat (heap_start st)" "unat (mem_max_addr st) < 2 ^ 63" "unat (heap_start st) + 8 * 2052 \<le> unat (mem_max_addr st)"
  obtains st' where "mm_init (mem_reset_brk st) = Some (True, st')" "allocator st' {}" "heap_start st' = heap_start st"
    "mem_max_addr st' = mem_max_addr st" "unat (mem_brk st') = unat (heap_start st) + 8 * 2052" "heap_inv st' [(4, 2048, False)]"
proof -
  let ?st = "mem_reset_brk st"
  have r: "heap_wf ?st" "mem_brk ?st = heap_start ?st" "heap_start ?st = heap_start st" "mem_max_addr ?st = mem_max_addr st"
    using assms(1) by (simp_all add: mem_reset_brk_def heap_wf_def nwords_def)
  have small: "unat (mem_brk ?st) + 8 * 2052 < 2 ^ 64" "unat (mem_brk ?st) + 8 * 2052 \<le> unat (mem_max_addr ?st)"
    using assms(2,3) r(2-4) by simp_all
  from memlib.mm_init_cases [OF r(1,2) refl small(1)] small(2) r obtain st' where
    st': "mm_init ?st = Some (True, st')" "heap_inv st' [(4, 2048, False)]" "heap_start st' = heap_start st"
      "mem_max_addr st' = mem_max_addr st" "unat (mem_brk st') = unat (heap_start st) + 8 * 2052"
    unfolding mm_init_def by auto
  moreover have "allocator st' {}"
    using st'(2) by (auto simp: allocator_def alloc_set_def)
  ultimately show ?thesis
    by (intro that)
qed

lemma valid_replay:
  assumes "ready env s" "trace_ok (tr_num_ids (e_trace s)) {} (tr_ops (e_trace s))"
    and "unat (heap_start (e_heap s)) + 8 * 2052 + demand (tr_ops (e_trace s)) \<le> unat (mem_max_addr (e_heap s))"
  shows "\<exists>L s'. eval_mm_valid env s = Some (True, s') \<and> replay_inv env L (ran L) (dom L) s' \<and>
    dom L = fold (\<lambda>r live. live_op live r) (tr_ops (e_trace s)) {} \<and> same_frames s s'"
proof -
  let ?st = "mem_reset_brk (e_heap s)" and ?tr = "reinit_trace (e_trace s)"
  have r: "driver_env env (tr_num_ids ?tr)" "ranges_ok (e_driver s)" "spans (e_driver s) = {}" "arrays_ok ?tr"
    "heap_start (e_heap s) \<noteq> NULL" "16 dvd unat (heap_start (e_heap s))" "unat (mem_max_addr (e_heap s)) < 2 ^ 63"
    using assms(1) by (simp_all add: ready_def reinit_trace_def arrays_ok_def)
  have "unat (heap_start (e_heap s)) + 8 * 2052 \<le> unat (mem_max_addr (e_heap s))"
    using assms(3) by simp
  then obtain st' where st': "mm_init ?st = Some (True, st')" "allocator st' {}" "heap_start st' = heap_start (e_heap s)"
    "mem_max_addr st' = mem_max_addr (e_heap s)" "unat (mem_brk st') = unat (heap_start (e_heap s)) + 8 * 2052"
    by (rule init_fits [OF r(6,7)])
  let ?s1 = "s\<lparr>e_trace := ?tr, e_heap := st'\<rparr>"
  have "replay_inv env Map.empty (ran Map.empty) (dom Map.empty) ?s1"
    using r st'(2-5) assms(3) by (simp add: replay_inv_def word_le_nat_alt)
  from eval_ops_ok [of env ?s1, OF _ this, of "tr_ops ?tr" 0]
  have "\<exists>L s'. eval_ops env 0 (tr_ops ?tr) ?s1 = Some (True, s') \<and> replay_inv env L (ran L) (dom L) s' \<and>
    dom L = fold (\<lambda>r live. live_op live r) (tr_ops ?tr) {} \<and> same_frames ?s1 s'"
    using r(1,5) st'(3-5) assms(2,3) by (simp add: reinit_trace_def) blast
  then show ?thesis
    using st'(1,3,4) by (simp add: eval_mm_valid_def reinit_trace_def same_frames_def)
qed

lemma ready_again:
  assumes "ready env s" "replay_inv env L A C s'" "dom L = {}" "same_frames s s'"
  shows "ready env s'"
  using assms by (simp add: ready_def replay_inv_def same_frames_def arrays_ok_def)

text \<open>C32: The malloc package passes its driver. From a heap of any size, with an empty range set and the default
  debug mode, \<open>eval_mm_valid\<close> accepts every trace in which operations refer to live blocks (allocations to
  indices without one) and whose demands fit into the heap: it is defined, no call fails, no block is misaligned, leaves
  the heap or overlaps another, and no checked byte of a block changes before it is freed, nor while \<open>realloc\<close>
  moves it. At the end exactly the blocks of the indices that are still live are allocated, and recorded
  in the range set. If no index is live, the second validation of the trace accepts too.\<close>

theorem eval_mm_valid_accepts:
  assumes "ready env s" "trace_ok (tr_num_ids (e_trace s)) {} (tr_ops (e_trace s))"
    and "unat (heap_start (e_heap s)) + 8 * 2052 + demand (tr_ops (e_trace s)) \<le> unat (mem_max_addr (e_heap s))"
  shows "\<exists>L s'. eval_mm_valid env s = Some (True, s') \<and> replay_inv env L (ran L) (dom L) s' \<and>
    dom L = fold (\<lambda>r live. live_op live r) (tr_ops (e_trace s)) {} \<and>
    (dom L = {} \<longrightarrow> (\<exists>s''. validate env s = Some (True, s'')))"
proof -
  obtain L s' where s': "eval_mm_valid env s = Some (True, s')" "replay_inv env L (ran L) (dom L) s'"
    "dom L = fold (\<lambda>r live. live_op live r) (tr_ops (e_trace s)) {}" "same_frames s s'"
    using valid_replay [OF assms] by blast
  have "\<exists>s''. validate env s = Some (True, s'')" if "dom L = {}"
    using valid_replay [OF ready_again [OF assms(1) s'(2) that s'(4)]] assms(2,3) s'(1,4) by (auto simp: validate_def same_frames_def)
  with s' show ?thesis
    by blast
qed

definition some_ops :: "traceop_t list" where
  "some_ops = [\<lparr>op_type = ALLOC, op_index = 0, op_size = 100\<rparr>, \<lparr>op_type = ALLOC, op_index = 1, op_size = 5000\<rparr>,
     \<lparr>op_type = REALLOC, op_index = 0, op_size = 9000\<rparr>, \<lparr>op_type = FREE, op_index = 1, op_size = 0\<rparr>,
     \<lparr>op_type = REALLOC, op_index = 0, op_size = 40\<rparr>, \<lparr>op_type = ALLOC, op_index = 1, op_size = 1\<rparr>,
     \<lparr>op_type = REALLOC, op_index = 1, op_size = 0\<rparr>]"

definition some_state :: eval_state where
  "some_state = \<lparr>e_heap = the (mem_init 4096 start_state),
     e_trace = \<lparr>tr_filename = ''some.rep'', tr_data_bytes = 14000, tr_num_ids = 2, tr_weight = 1, tr_ops = some_ops,
       tr_blocks = [], tr_block_sizes = [], tr_rand_base = [0, 0]\<rparr>,
     e_driver = new_range_set some_driver\<rparr>"

lemma some_heap: "heap_start (e_heap some_state) = 4096" "unat (mem_max_addr (e_heap some_state)) = 4096 + 2 ^ 40"
proof -
  have i: "mem_init 4096 start_state = Some (e_heap some_state)"
    by (simp add: mem_init_def some_state_def)
  have a: "16 dvd unat (4096 :: u64)" "unat (4096 :: u64) + 2 ^ 40 < 2 ^ 64"
    by simp_all
  show "heap_start (e_heap some_state) = 4096" "unat (mem_max_addr (e_heap some_state)) = 4096 + 2 ^ 40"
    using fresh_heap(3,4) [OF a i] by simp_all
qed

lemma some_ready: "ready some_env some_state"
proof -
  have "fresh_malloc 2 (env_malloc some_env)"
    unfolding fresh_malloc_def
  proof (intro allI impI)
    fix S :: "u64 set"
    assume "finite S" "card S \<le> 2"
    then have "\<not> {16, 32, 48} \<subseteq> S"
      using card_mono [of S "{16, 32, 48}"] by auto
    then show "env_malloc some_env S \<noteq> NULL \<and> env_malloc some_env S \<notin> S"
      by (auto simp: some_env_def)
  qed
  moreover have "env_dbg some_env = DBG_CHEAP" "tr_num_ids (e_trace some_state) = 2" "tr_rand_base (e_trace some_state) = [0, 0]"
    "e_driver some_state = new_range_set some_driver"
    by (simp_all add: some_env_def some_state_def)
  ultimately show ?thesis
    using new_range_set_ok [of some_driver] some_heap by (simp add: ready_def driver_env_def)
qed

lemma some_trace_ok:
  "trace_ok 2 {} some_ops" "fold (\<lambda>r live. live_op live r) some_ops {} = {0}" "demand some_ops \<le> 200000"
  by (simp_all add: some_ops_def op_ok_def live_op_def demand_def op_demand_def awords_def)

theorem eval_mm_valid_accepts_witness:
  "\<exists>L s'. eval_mm_valid some_env some_state = Some (True, s') \<and> dom L = {0 :: nat} \<and> allocator (e_heap s') (ran L)"
proof -
  have "tr_num_ids (e_trace some_state) = 2" "tr_ops (e_trace some_state) = some_ops"
    by (simp_all add: some_state_def)
  then have t: "trace_ok (tr_num_ids (e_trace some_state)) {} (tr_ops (e_trace some_state))"
    "unat (heap_start (e_heap some_state)) + 8 * 2052 + demand (tr_ops (e_trace some_state)) \<le> unat (mem_max_addr (e_heap some_state))"
    "fold (\<lambda>r live. live_op live r) (tr_ops (e_trace some_state)) {} = {0}"
    using some_trace_ok some_heap by simp_all
  from eval_mm_valid_accepts [OF some_ready t(1,2)] t(3) obtain L s' where
    L: "eval_mm_valid some_env some_state = Some (True, s')" "replay_inv some_env L (ran L) (dom L) s'" "dom L = {0}"
    by metis
  then have "allocator (e_heap s') (ran L)"
    by (simp add: replay_inv_def)
  with L(1,3) show ?thesis
    by blast
qed


section \<open>A second validation\<close>

text \<open>The first block of a heap with one free block lies at its beginning, also when the heap has to be extended for it.\<close>

lemma first_block:
  assumes inv: "heap_inv st [(4, 2048, False)]" and w: "w \<noteq> 0" "unat w < 2 ^ 62" and brk: "unat (mem_brk st) < 2 ^ 63"
    and room: "unat (mem_brk st) + 8 * max (awords (unat w)) 2048 \<le> unat (mem_max_addr st)"
  obtains st' where "mm_malloc w st = Some (at (heap_start st) 4, st')"
proof (cases "awords (unat w) \<le> 2048")
  case True
  then have "fits (awords (unat w)) [(4, 2048, False)]"
    by (simp add: fits_def)
  moreover have "coalesced [(4, 2048, False)]" "free_set [(4, 2048, False)] = {(4, 2048)}"
    by (auto simp: free_set_def)
  ultimately show ?thesis
    using best_fit_step [OF inv _ w brk] that by auto
next
  case False
  let ?a = "awords (unat w)" and ?lo = "heap_start st"
  have a: "adjusted_size w = sz ?a" "4 \<le> ?a" "even ?a" "max ?a 2048 = ?a"
    using False awords_props(1,2) [of "unat w"] adjusted_size_awords [of w] w(2) by auto
  have up: "8 * ?a \<le> unat w + 31"
    using awords_props(4) [of "unat w"] False by auto
  have small: "unat (mem_brk st) + 8 * ?a < 2 ^ 64"
    using up w(2) brk by simp
  then have a61: "1 \<le> ?a" "?a < 2 ^ 61"
    using a(2) by simp_all
  have wf: "heap_wf st" and segs: "segs_ok ?lo (nwords st) (words st) (seg_list st) (free_set [(4, 2048, False)])"
    using inv unfolding heap_inv_def base_inv_def by blast+
  obtain r where r: "find_fit (sz ?a) st = Some r" "best_fit ?a (free_set [(4, 2048, False)]) ?lo r"
    using find_fit_ok [OF wf refl a61 segs] by blast
  have none: "{x \<in> free_set [(4, 2048, False)]. ?a \<le> snd x} = {}"
    using False by (auto simp: free_set_def)
  have r0: "r = NULL"
    using r(2) unfolding best_fit_def Let_def none by simp
  have n: "nwords st = 2052"
    using inv by (simp add: heap_inv_def)
  have ab: "absorb_left [(4, 2048, False)] (nwords st) ?a = ([], 4, 2048 + ?a)"
    by (simp add: absorb_left_def n)
  have "\<not> 2 ^ 63 \<le> 8 * ?a"
    using up w(2) by simp
  then obtain st1 where st1: "extend_heap mem_sbrk (of_nat ?a) st = Some (at ?lo 4, st1)" "heap_inv st1 [(4, 2048 + ?a, False)]"
    "heap_start st1 = ?lo"
    using memlib.extend_heap_cases [OF inv refl a(2,3) small ab] room a(4) by auto
  obtain st2 where st2: "place (at ?lo 4) (sz ?a) st1 = Some st2"
    using place_ok [of st1 "[]" 4 "2048 + ?a" "[]" ?lo ?a] st1(2,3) a(2,3) by auto
  have mx: "MAX64 (sz ?a) CHUNKSIZE div WSIZE = of_nat ?a"
  proof -
    have "MAX64 (sz ?a) CHUNKSIZE = sz ?a"
      using a61 a(4) by (auto simp: MAX64_def sz_consts(6) sz_less max_def split: if_splits)
    moreover have "unat (sz ?a div WSIZE) = ?a"
      using a61 by (simp add: unat_div unat_sz WSIZE_def)
    moreover have "unat (of_nat ?a :: u64) = ?a"
      using a61 by (simp add: unat_of_nat)
    ultimately show ?thesis
      by (metis word_unat_eq_iff)
  qed
  have "at ?lo 4 \<noteq> NULL"
    using at_not_NULL [OF wf refl, of 4] n by simp
  then have "mm_malloc w st = Some (at ?lo 4, st2)"
    using w(1) r(1) r0 st1(1) st2 mx by (simp add: mm_malloc_def malloc_with_def Let_def a(1))
  then show ?thesis
    by (rule that)
qed

text \<open>While the range set has a block at the beginning of the heap, a first allocation there is rejected.\<close>

lemma alloc_rejected:
  assumes env: "driver_env env (tr_num_ids (e_trace s))" and st: "heap_inv (e_heap s) [(4, 2048, False)]"
    and brk: "unat (mem_max_addr (e_heap s)) < 2 ^ 63" and n: "n \<noteq> 0" "unat n < 2 ^ 62"
    and room: "unat (mem_brk (e_heap s)) + 8 * max (awords (unat n)) 2048 \<le> unat (mem_max_addr (e_heap s))"
    and d: "ranges_ok (e_driver s)" "card (spans (e_driver s)) \<le> tr_num_ids (e_trace s)"
    "(at (heap_start (e_heap s)) 4, h) \<in> spans (e_driver s)" "at (heap_start (e_heap s)) 4 \<le> h"
  shows "\<exists>s'. eval_alloc env op (int x) n s = Some (False, s')"
proof -
  have top: "unat (mem_brk (e_heap s)) < 2 ^ 63"
    using brk room by linarith
  obtain st' where st': "mm_malloc n (e_heap s) = Some (at (heap_start (e_heap s)) 4, st')"
    by (rule first_block [OF st n top room])
  show ?thesis
  proof (cases "at (heap_start (e_heap s)) 4 = NULL")
    case True
    then show ?thesis
      using st' by (simp add: eval_alloc_def)
  next
    case False
    let ?lo = "at (heap_start (e_heap s)) 4"
    have wf: "heap_wf (e_heap s)" "4 \<le> nwords (e_heap s)" "nwords (e_heap s) = 2052"
      using st by (simp_all add: heap_inv_def base_inv_def)
    then have "unat ?lo + 8 * 2048 = unat (mem_brk (e_heap s))"
      using unat_at_wf [OF wf(1) refl wf(2)] by (simp add: heap_wf_def)
    then have lo: "unat ?lo + unat n \<le> 2 ^ 63"
      using awords_props(3) [of "unat n"] room brk by linarith
    have n0: "0 < n"
      using n(1) by (simp add: word_gt_0)
    have le: "?lo \<le> ?lo + n - 1"
      using last_byte(2) [OF n0 lo] .
    have "\<not> block_clear (e_driver s) ?lo (?lo + n - 1)"
      using d(3,4) le by (fastforce simp: block_clear_def spans_def)
    moreover have "\<not> (\<forall>(l, h) \<in> spans (e_driver s). l \<le> ?lo \<longrightarrow> h < ?lo)"
      using d(3,4) by (auto simp: not_less intro!: bexI [OF _ d(3)])
    ultimately have "\<exists>d'. add_range (env_dbg env) (env_malloc env) st' ?lo n (int x) (e_driver s) = Some (False, d')"
      using add_range_correct [OF d(1) fresh_mallocs [OF _ d(1,2)] _ n0 lo, of "env_malloc env" "env_dbg env" st' "int x"] env
      by (auto simp: driver_env_def)
    then show ?thesis
      using st' False by (auto simp: eval_alloc_def)
  qed
qed

text \<open>A validation whose trace begins with an allocation.\<close>

lemma begins_alloc:
  assumes "env_dbg env = DBG_CHEAP" "16 dvd unat (heap_start (e_heap s))" "unat (mem_max_addr (e_heap s)) < 2 ^ 63"
    and "unat (heap_start (e_heap s)) + 8 * 2052 \<le> unat (mem_max_addr (e_heap s))"
    and "tr_ops (e_trace s) = r # rs" "op_type r = ALLOC" "op_index r = int x"
  obtains s1 where "eval_mm_valid env s = do { (ok, s2) \<leftarrow> eval_alloc env 0 (int x) (op_size r) s1;
      if \<not> ok then Some (False, s2) else eval_ops env (Suc 0) rs s2 }" "heap_inv (e_heap s1) [(4, 2048, False)]"
    "heap_start (e_heap s1) = heap_start (e_heap s)" "mem_max_addr (e_heap s1) = mem_max_addr (e_heap s)"
    "unat (mem_brk (e_heap s1)) = unat (heap_start (e_heap s)) + 8 * 2052"
    "e_driver s1 = e_driver s" "e_trace s1 = reinit_trace (e_trace s)"
proof -
  obtain st' where st': "mm_init (mem_reset_brk (e_heap s)) = Some (True, st')" "heap_start st' = heap_start (e_heap s)"
    "mem_max_addr st' = mem_max_addr (e_heap s)" "unat (mem_brk st') = unat (heap_start (e_heap s)) + 8 * 2052"
    "heap_inv st' [(4, 2048, False)]"
    using init_fits [OF assms(2-4)] by blast
  let ?s1 = "s\<lparr>e_trace := reinit_trace (e_trace s), e_heap := st'\<rparr>"
  have "eval_mm_valid env s = do { (ok, s2) \<leftarrow> eval_alloc env 0 (int x) (op_size r) ?s1;
      if \<not> ok then Some (False, s2) else eval_ops env (Suc 0) rs s2 }"
    using st'(1) assms(1,5-7) by (simp add: eval_mm_valid_def reinit_trace_def check_all_def eval_op_def)
  then show ?thesis
    using st'(2-5) by (intro that [of ?s1]) simp_all
qed

lemma eval_alloc_block:
  assumes "eval_alloc env op (int x) w s = Some (True, s')" "arrays_ok (e_trace s)" "x < tr_num_ids (e_trace s)"
  shows "\<exists>st. mm_malloc w (e_heap s) = Some (tr_blocks (e_trace s') ! x, st)"
proof -
  have "randomize_block env op i t = Some t' \<Longrightarrow> tr_blocks (e_trace t') = tr_blocks (e_trace t)" for i t t'
    by (auto simp: randomize_block_def set_base_def Let_def Option.bind_eq_Some_conv split: if_splits prod.splits)
  with assms show ?thesis
    by (fastforce simp: eval_alloc_def set_arrays arrays_ok_def Let_def Option.bind_eq_Some_conv split: if_splits)
qed

text \<open>The first validation of a trace that keeps its first block: the block stays at the beginning of the heap.\<close>

lemma keeps_first:
  assumes ready: "ready env s" and ok: "trace_ok (tr_num_ids (e_trace s)) {} (tr_ops (e_trace s))"
    and room: "unat (heap_start (e_heap s)) + 8 * 2052 + demand (tr_ops (e_trace s)) \<le> unat (mem_max_addr (e_heap s))"
    and ops: "tr_ops (e_trace s) = r # rs" and keep: "\<forall>q \<in> set rs. op_index q \<noteq> op_index r"
  obtains L s' h where "eval_mm_valid env s = Some (True, s')" "replay_inv env L (ran L) (dom L) s'" "same_frames s s'"
    "(at (heap_start (e_heap s)) 4, h) \<in> spans (e_driver s')" "at (heap_start (e_heap s)) 4 \<le> h"
proof -
  let ?x = "nat (op_index r)" and ?n = "op_size r"
  have r: "op_type r = ALLOC" "op_index r = int ?x" "?x < tr_num_ids (e_trace s)" "?n \<noteq> 0" "unat ?n < 2 ^ 62"
    and rs: "trace_ok (tr_num_ids (e_trace s)) {?x} rs" "\<forall>q \<in> set rs. 0 \<le> op_index q"
  proof -
    have "trace_ok n X qs \<Longrightarrow> \<forall>q \<in> set qs. 0 \<le> op_index q" for n X qs
      by (induction qs arbitrary: X) (auto simp: op_ok_def)
    with ok show "op_type r = ALLOC" "op_index r = int ?x" "?x < tr_num_ids (e_trace s)" "?n \<noteq> 0" "unat ?n < 2 ^ 62"
      "trace_ok (tr_num_ids (e_trace s)) {?x} rs" "\<forall>q \<in> set rs. 0 \<le> op_index q"
      by (cases "op_type r"; fastforce simp: ops op_ok_def live_op_def)+
  qed
  have dem: "demand (tr_ops (e_trace s)) = 8 * max (awords (unat ?n)) 2048 + demand rs"
    using r(1) by (simp add: ops demand_def op_demand_def)
  have env: "env_dbg env = DBG_CHEAP" and heap: "16 dvd unat (heap_start (e_heap s))" "unat (mem_max_addr (e_heap s)) < 2 ^ 63"
    "unat (heap_start (e_heap s)) + 8 * 2052 \<le> unat (mem_max_addr (e_heap s))"
    using ready room by (simp_all add: ready_def driver_env_def)
  obtain s1 where s1: "eval_mm_valid env s = do { (ok, s2) \<leftarrow> eval_alloc env 0 (int ?x) ?n s1;
      if \<not> ok then Some (False, s2) else eval_ops env (Suc 0) rs s2 }" "heap_inv (e_heap s1) [(4, 2048, False)]"
    "heap_start (e_heap s1) = heap_start (e_heap s)" "mem_max_addr (e_heap s1) = mem_max_addr (e_heap s)"
    "unat (mem_brk (e_heap s1)) = unat (heap_start (e_heap s)) + 8 * 2052"
    "e_driver s1 = e_driver s" "e_trace s1 = reinit_trace (e_trace s)"
    by (rule begins_alloc [OF env heap ops r(1,2)])
  have fr1: "tr_num_ids (e_trace s1) = tr_num_ids (e_trace s)" "tr_ops (e_trace s1) = tr_ops (e_trace s)" "arrays_ok (e_trace s1)"
    using s1(7) ready by (simp_all add: reinit_trace_def arrays_ok_def ready_def)
  have room1: "unat (mem_brk (e_heap s1)) + 8 * max (awords (unat ?n)) 2048 + demand rs \<le> unat (mem_max_addr (e_heap s1))"
    using room dem s1(4,5) by simp
  have inv1: "replay_inv env Map.empty (ran Map.empty) (dom Map.empty) s1"
    using ready fr1 s1(2-6) heap allocator_init [OF s1(2)] by (simp add: replay_inv_def ready_def word_le_nat_alt)
  have env1: "driver_env env (tr_num_ids (e_trace s1))"
    using ready fr1(1) by (simp add: ready_def)
  obtain b s2 where s2: "eval_alloc env 0 (int ?x) ?n s1 = Some (True, s2)"
    "replayed env (8 * max (awords (unat ?n)) 2048) s1 [?x \<mapsto> b] s2"
    using eval_alloc_ok [OF env1 inv1 _ _ r(4,5), of ?x 0] r(3) fr1(1) room1 by auto
  have fr2: "tr_num_ids (e_trace s2) = tr_num_ids (e_trace s)" "heap_start (e_heap s2) = heap_start (e_heap s)"
    "same_frames s s2"
    using s2(2) fr1 s1(3,4) by (simp_all add: replayed_def same_frames_def)
  have "unat (mem_brk (e_heap s1)) < 2 ^ 63"
    using s1(5) heap(2,3) by linarith
  then obtain st where "mm_malloc ?n (e_heap s1) = Some (at (heap_start (e_heap s1)) 4, st)"
    by (rule first_block [OF s1(2) r(4,5)]) (use room1 in linarith)
  then have at4: "tr_blocks (e_trace s2) ! ?x = at (heap_start (e_heap s)) 4"
    using eval_alloc_block [OF s2(1) fr1(3)] r(3) fr1(1) s1(3) by auto
  have inv2: "replay_inv env [?x \<mapsto> b] (ran [?x \<mapsto> b]) (dom [?x \<mapsto> b]) s2"
    using s2(2) by (simp add: replayed_def)
  have "driver_env env (tr_num_ids (e_trace s2))" "trace_ok (tr_num_ids (e_trace s2)) (dom [?x \<mapsto> b]) rs"
    "heap_start (e_heap s2) \<noteq> NULL" "unat (mem_brk (e_heap s2)) + demand rs \<le> unat (mem_max_addr (e_heap s2))"
    using env1 fr1 fr2 rs(1) ready s2(2) room1 by (simp_all add: ready_def replayed_def)
  from eval_ops_ok [OF this(1) inv2 this(2-4), of "Suc 0"] obtain L s' where
    s': "eval_ops env (Suc 0) rs s2 = Some (True, s')" "replay_inv env L (ran L) (dom L) s'" "same_frames s2 s'"
    "\<forall>y. (\<forall>q \<in> set rs. nat (op_index q) \<noteq> y) \<longrightarrow> L y = [?x \<mapsto> b] y" by blast
  have "nat (op_index q) \<noteq> ?x" if "q \<in> set rs" for q
    using that keep rs(2) r(2) by (metis int_nat_eq)
  then have Lx: "L ?x = Some b"
    using s'(4) by auto
  note sl = replay_slot [OF inv2, of ?x b, simplified] and sl' = replay_slot [OF s'(2) Lx]
  have fr: "same_frames s s'"
    using fr2(3) s'(3) by (simp add: same_frames_def)
  let ?b = "tr_blocks (e_trace s') ! ?x" and ?m = "tr_block_sizes (e_trace s') ! ?x"
  have b: "?b = at (heap_start (e_heap s)) 4"
    using sl sl' at4 fr fr2(2) by (simp add: slot_ok_def same_frames_def)
  have "(?b, ?b + ?m - 1) \<in> spans (e_driver s')"
    using s'(2) Lx by (auto simp: replay_inv_def span_of_def)
  moreover have "?b \<le> ?b + ?m - 1"
  proof -
    have al: "allocator (e_heap s') (ran L)" "mem_brk (e_heap s') \<le> mem_max_addr (e_heap s')" "unat (mem_max_addr (e_heap s')) < 2 ^ 63"
      using s'(2) by (simp_all add: replay_inv_def)
    have "b \<in> ran L"
      using Lx by (rule ranI)
    note B = block_address [OF al(1) this]
    have "0 < ?m" "unat ?m + 16 \<le> 8 * snd b" "?b = at (heap_start (e_heap s')) (fst b)"
      using sl' by (simp_all add: slot_ok_def word_less_nat_alt)
    then show ?thesis
      using last_byte(2) [of ?m ?b] B al(2,3) by (simp add: word_le_nat_alt)
  qed
  ultimately show ?thesis
    using s1(1) s2(1) s'(1,2) fr b by (intro that [of s' L "?b + ?m - 1"]) simp_all
qed

text \<open>C36: The second validation rejects every well formed trace that fits into the heap and neither frees nor reallocates
  the block of its first request, although the package does nothing wrong and the first validation accepts: the range
  set still has that block of the first run, and the block of the same request in the second run, at the same address, is
  taken to overlap it.\<close>

theorem validate_rejects:
  assumes "ready env s" "trace_ok (tr_num_ids (e_trace s)) {} (tr_ops (e_trace s))"
    and "unat (heap_start (e_heap s)) + 8 * 2052 + demand (tr_ops (e_trace s)) \<le> unat (mem_max_addr (e_heap s))"
    and "tr_ops (e_trace s) = r # rs" "\<forall>q \<in> set rs. op_index q \<noteq> op_index r"
  shows "\<exists>s1 s2. eval_mm_valid env s = Some (True, s1) \<and> eval_mm_valid env s1 = Some (False, s2) \<and> validate env s = Some (False, s2)"
proof -
  obtain L s1 h where s1: "eval_mm_valid env s = Some (True, s1)" "replay_inv env L (ran L) (dom L) s1" "same_frames s s1"
    "(at (heap_start (e_heap s)) 4, h) \<in> spans (e_driver s1)" "at (heap_start (e_heap s)) 4 \<le> h"
    by (rule keeps_first [OF assms])
  have env: "driver_env env (tr_num_ids (e_trace s))" "env_dbg env = DBG_CHEAP"
    and heap: "16 dvd unat (heap_start (e_heap s))" "unat (mem_max_addr (e_heap s)) < 2 ^ 63"
    using assms(1) by (simp_all add: ready_def driver_env_def)
  have fr: "heap_start (e_heap s1) = heap_start (e_heap s)" "mem_max_addr (e_heap s1) = mem_max_addr (e_heap s)"
    "tr_num_ids (e_trace s1) = tr_num_ids (e_trace s)" "tr_ops (e_trace s1) = r # rs"
    using s1(3) assms(4) by (simp_all add: same_frames_def)
  have r: "op_type r = ALLOC" "op_index r = int (nat (op_index r))" "op_size r \<noteq> 0" "unat (op_size r) < 2 ^ 62"
    using assms(2) by (cases "op_type r"; fastforce simp: assms(4) op_ok_def)+
  have dem: "8 * max (awords (unat (op_size r))) 2048 \<le> demand (tr_ops (e_trace s))"
    using r(1) by (simp add: assms(4) demand_def op_demand_def)
  obtain u where u: "eval_mm_valid env s1 = do { (ok, s2) \<leftarrow> eval_alloc env 0 (int (nat (op_index r))) (op_size r) u;
      if \<not> ok then Some (False, s2) else eval_ops env (Suc 0) rs s2 }" "heap_inv (e_heap u) [(4, 2048, False)]"
    "heap_start (e_heap u) = heap_start (e_heap s1)" "mem_max_addr (e_heap u) = mem_max_addr (e_heap s1)"
    "unat (mem_brk (e_heap u)) = unat (heap_start (e_heap s1)) + 8 * 2052"
    "e_driver u = e_driver s1" "e_trace u = reinit_trace (e_trace s1)"
    by (rule begins_alloc [OF env(2) _ _ _ fr(4) r(1,2)]) (use heap fr assms(3) in simp_all)
  have ids: "tr_num_ids (e_trace u) = tr_num_ids (e_trace s)"
    using u(7) fr(3) by (simp add: reinit_trace_def)
  have d: "ranges_ok (e_driver s1)" "card (spans (e_driver s1)) \<le> tr_num_ids (e_trace s)"
  proof -
    have "spans (e_driver s1) = span_of s1 ` dom L"
      using s1(2) by (simp add: replay_inv_def)
    then show "card (spans (e_driver s1)) \<le> tr_num_ids (e_trace s)"
      using card_image_le [OF live_bound(2) [OF s1(2)], of "span_of s1"] live_bound(3) [OF s1(2)] fr(3) by simp
    show "ranges_ok (e_driver s1)"
      using s1(2) by (simp add: replay_inv_def)
  qed
  have "\<exists>s2. eval_alloc env 0 (int (nat (op_index r))) (op_size r) u = Some (False, s2)"
    by (rule alloc_rejected [OF _ u(2) _ r(3,4), where h = h])
      (use env(1) u(3-6) fr(1,2) heap(2) s1(4,5) d ids dem assms(3) in auto)
  then show ?thesis
    using s1(1) u(1) by (auto simp: validate_def)
qed

definition leaking_state :: eval_state where
  "leaking_state = some_state\<lparr>e_trace := \<lparr>tr_filename = ''leak.rep'', tr_data_bytes = 9100, tr_num_ids = 2, tr_weight = 1,
     tr_ops = [\<lparr>op_type = ALLOC, op_index = 0, op_size = 100\<rparr>, \<lparr>op_type = ALLOC, op_index = 1, op_size = 50000\<rparr>,
       \<lparr>op_type = REALLOC, op_index = 1, op_size = 9000\<rparr>, \<lparr>op_type = FREE, op_index = 1, op_size = 0\<rparr>],
     tr_blocks = [], tr_block_sizes = [], tr_rand_base = [0, 0]\<rparr>\<rparr>"

theorem validate_rejects_witness:
  "\<exists>s1 s2. eval_mm_valid some_env leaking_state = Some (True, s1) \<and> eval_mm_valid some_env s1 = Some (False, s2) \<and>
    validate some_env leaking_state = Some (False, s2)"
proof -
  have s: "e_heap leaking_state = e_heap some_state" "e_driver leaking_state = e_driver some_state"
    "tr_num_ids (e_trace leaking_state) = 2" "tr_rand_base (e_trace leaking_state) = [0, 0]"
    "tr_ops (e_trace leaking_state) = [\<lparr>op_type = ALLOC, op_index = 0, op_size = 100\<rparr>, \<lparr>op_type = ALLOC, op_index = 1, op_size = 50000\<rparr>,
       \<lparr>op_type = REALLOC, op_index = 1, op_size = 9000\<rparr>, \<lparr>op_type = FREE, op_index = 1, op_size = 0\<rparr>]"
    by (simp_all add: leaking_state_def)
  have "tr_num_ids (e_trace some_state) = 2"
    by (simp add: some_state_def)
  then have ready: "ready some_env leaking_state"
    using some_ready s by (simp add: ready_def)
  have t: "trace_ok (tr_num_ids (e_trace leaking_state)) {} (tr_ops (e_trace leaking_state))"
    "demand (tr_ops (e_trace leaking_state)) \<le> 200000"
    by (simp_all add: s op_ok_def live_op_def demand_def op_demand_def awords_def)
  from validate_rejects [OF ready t(1) _ s(5)] t(2) s(1) some_heap show ?thesis
    by simp
qed

end
