(* ===== verification/Driver_Util.thy ===== *)
theory Driver_Util
  imports Driver_Valid
begin

text \<open>
  The other evaluations of \<open>mdriver.c\<close>. The timed runs make the calls of the untimed ones, and the
  utilization that \<open>eval_mm_util\<close> reports is the peak of the bytes in use over the size of the heap, at most 1.
\<close>

section \<open>Timed and untimed runs\<close>

lemma libc_ops_agree: "libc_speed_ops L rs s = libc_valid_ops L rs s"
proof (induction rs arbitrary: s)
  case (Cons r rs)
  have "libc_speed_op L r s = libc_valid_op L r s"
    by (cases s) (simp add: libc_speed_op_def libc_valid_op_def Let_def split: op_type.split)
  moreover have "libc_speed_ops L rs = libc_valid_ops L rs"
    by (rule ext) (rule Cons.IH)
  ultimately show ?case
    by simp
qed simp

text \<open>The two loops are in the same state: the heap, and the blocks of the trace.\<close>

definition same_arrays :: "trace_t \<Rightarrow> bool" where
  "same_arrays tr \<longleftrightarrow> length (tr_block_sizes tr) = length (tr_blocks tr)"

definition in_step :: "util_state option \<Rightarrow> (heap_state \<times> trace_t) option \<Rightarrow> bool" where
  "in_step a b \<longleftrightarrow> rel_option (\<lambda>u (st, tr). st = u_heap u \<and> tr_blocks tr = tr_blocks (u_trace u) \<and> same_arrays (u_trace u)) a b"

lemma in_step_simps [simp]: "in_step None None" "in_step (Some u) (Some (st, tr)) \<longleftrightarrow>
    st = u_heap u \<and> tr_blocks tr = tr_blocks (u_trace u) \<and> same_arrays (u_trace u)"
  by (simp_all add: in_step_def)

lemma in_step_cases:
  assumes "in_step a b"
  obtains "a = None" "b = None"
  | u tr where "a = Some u" "b = Some (u_heap u, tr)" "tr_blocks tr = tr_blocks (u_trace u)" "same_arrays (u_trace u)"
  using assms by (auto simp: in_step_def elim!: option.rel_cases)

lemma util_speed_op:
  assumes "same_arrays (u_trace u)" "tr_blocks tr = tr_blocks (u_trace u)"
  shows "in_step (util_op r u) (speed_op r (u_heap u, tr))"
  using assms
  by (auto simp: util_op_def speed_op_def Let_def set_block_def set_size_def idx_set_def idx_get_def array_get_def array_set_def
      same_arrays_def split: op_type.split option.split prod.split Option.bind_split)

lemma util_speed_ops:
  assumes "same_arrays (u_trace u)" "tr_blocks tr = tr_blocks (u_trace u)"
  shows "in_step (util_ops rs u) (speed_ops rs (u_heap u, tr))"
  using assms
proof (induction rs arbitrary: u tr)
  case (Cons r rs)
  show ?case
  proof (rule in_step_cases [OF util_speed_op [OF Cons.prems, of r]])
    fix u' tr'
    assume "util_op r u = Some u'" "speed_op r (u_heap u, tr) = Some (u_heap u', tr')" "tr_blocks tr' = tr_blocks (u_trace u')"
      "same_arrays (u_trace u')"
    then show ?thesis
      using Cons.IH [of "high_water u'" tr'] by (simp add: high_water_def)
  qed simp
qed simp

text \<open>C38: The runs that are timed make the calls of those that are not: \<open>eval_mm_speed\<close> is defined exactly if
  \<open>eval_mm_util\<close> is, and leaves the same heap and the same blocks; \<open>eval_libc_speed\<close> is \<open>eval_libc_valid\<close>.\<close>

theorem timed_runs_agree:
  "map_option (\<lambda>(st', tr'). (st', tr_blocks tr')) (eval_mm_speed st tr) =
     map_option (\<lambda>(t, h, u). (u_heap u, tr_blocks (u_trace u))) (eval_mm_util st tr) \<and>
   eval_libc_speed L h tr = map_option snd (eval_libc_valid L h tr)"
proof
  have "same_arrays (reinit_trace tr)"
    by (simp add: same_arrays_def reinit_trace_def)
  then have step: "in_step (util_ops (tr_ops tr) \<lparr>u_heap = st', u_trace = reinit_trace tr, u_total = 0, u_max_total = 0, u_max_heap = 0\<rparr>)
      (speed_ops (tr_ops tr) (st', reinit_trace tr))" for st'
    using util_speed_ops [of "\<lparr>u_heap = st', u_trace = reinit_trace tr, u_total = 0, u_max_total = 0, u_max_heap = 0\<rparr>" "reinit_trace tr"]
    by simp
  have ops: "tr_ops (reinit_trace tr) = tr_ops tr"
    by (simp add: reinit_trace_def)
  show "map_option (\<lambda>(st', tr'). (st', tr_blocks tr')) (eval_mm_speed st tr) =
     map_option (\<lambda>(t, h, u). (u_heap u, tr_blocks (u_trace u))) (eval_mm_util st tr)"
  proof (cases "mm_init (mem_reset_brk st)")
    case (Some r)
    obtain ok st' where r: "r = (ok, st')"
      by (cases r)
    show ?thesis
      by (rule in_step_cases [OF step [of st']]; cases ok)
        (auto simp: eval_mm_speed_def eval_mm_util_def Let_def Some r ops)
  qed (simp add: eval_mm_speed_def eval_mm_util_def Let_def)
  show "eval_libc_speed L h tr = map_option snd (eval_libc_valid L h tr)"
    by (cases "libc_valid_ops L (tr_ops tr) (h, reinit_trace tr)")
      (auto simp: eval_libc_speed_def eval_libc_valid_def Let_def libc_ops_agree ops)
qed


section \<open>Utilization\<close>

text \<open>Specification: the sizes of the live blocks, and the peak of the bytes in use.\<close>

definition size_op :: "(nat \<rightharpoonup> u64) \<Rightarrow> traceop_t \<Rightarrow> (nat \<rightharpoonup> u64)" where
  "size_op m r = (if op_type r = FREE \<or> op_size r = 0 then m(nat (op_index r) := None) else m(nat (op_index r) \<mapsto> op_size r))"

definition in_use :: "(nat \<rightharpoonup> u64) \<Rightarrow> nat" where
  "in_use m = (\<Sum>x \<in> dom m. unat (the (m x)))"

fun peak :: "nat \<Rightarrow> (nat \<rightharpoonup> u64) \<Rightarrow> traceop_t list \<Rightarrow> nat" where
  "peak k m [] = k"
| "peak k m (r # rs) = peak (max k (in_use (size_op m r))) (size_op m r) rs"

text \<open>The blocks of the heap do not take more words than it has.\<close>

lemma tiles_sum: "tiles s bs e \<Longrightarrow> s + (\<Sum>b \<in> alloc_set bs. snd b) \<le> e"
proof (induction bs arbitrary: s)
  case (Cons b bs)
  obtain i k a where b: "b = (i, k, a)"
    by (cases b)
  have fin: "finite (alloc_set bs)" for bs
  proof (rule finite_subset)
    show "alloc_set bs \<subseteq> (\<lambda>(i, k, a). (i, k)) ` set bs"
      by (force simp: alloc_set_def)
  qed simp
  have "alloc_set (b # bs) \<subseteq> insert (i, k) (alloc_set bs)"
    by (auto simp: alloc_set_def b)
  then have "(\<Sum>b \<in> alloc_set (b # bs). snd b) \<le> (\<Sum>b \<in> insert (i, k) (alloc_set bs). snd b)"
    using fin by (intro sum_mono2) auto
  also have "\<dots> \<le> k + (\<Sum>b \<in> alloc_set bs. snd b)"
    using fin by (auto simp: sum.insert_if)
  finally show ?case
    using Cons by (auto simp: b dest!: Cons.IH)
qed (simp add: alloc_set_def)

lemma allocated_words: "allocator st A \<Longrightarrow> 4 + (\<Sum>b \<in> A. snd b) \<le> nwords st"
  using tiles_sum by (fastforce simp: allocator_def heap_inv_def)

lemma allocated_finite: "allocator st A \<Longrightarrow> finite A"
  using allocator_blocks(5) by (cases "A = {}") auto

lemma unat_sum_small: "(\<Sum>x \<in> X. unat (f x :: u64)) < 2 ^ 64 \<Longrightarrow> unat (\<Sum>x \<in> X. f x) = (\<Sum>x \<in> X. unat (f x))"
proof (induction X rule: infinite_finite_induct)
  case (insert x X)
  then show ?case
    by (simp add: unat_word_ariths)
qed simp_all

text \<open>The state after some operations: \<open>L\<close> maps the live indices to their blocks and \<open>m\<close> to their sizes; the
  blocks \<open>A\<close> are allocated.\<close>

definition util_inv :: "(nat \<rightharpoonup> nat \<times> nat) \<Rightarrow> (nat \<times> nat) set \<Rightarrow> (nat \<rightharpoonup> u64) \<Rightarrow> heap_state \<Rightarrow> trace_t \<Rightarrow> u64 \<Rightarrow> bool" where
  "util_inv L A m st tr t \<longleftrightarrow> allocator st A \<and> ran L \<subseteq> A \<and> inj_on L (dom L) \<and> finite (dom L) \<and> mem_brk st \<le> mem_max_addr st \<and>
     unat (mem_max_addr st) < 2 ^ 63 \<and> length (tr_blocks tr) = tr_num_ids tr \<and> length (tr_block_sizes tr) = tr_num_ids tr \<and>
     dom m = dom L \<and> t = (\<Sum>x \<in> dom m. the (m x)) \<and>
     (\<forall>x b. L x = Some b \<longrightarrow> x < tr_num_ids tr \<and> tr_blocks tr ! x = at (heap_start st) (fst b) \<and>
       m x = Some (tr_block_sizes tr ! x) \<and> unat (tr_block_sizes tr ! x) + 16 \<le> 8 * snd b)"

lemma util_fits:
  assumes "util_inv L A m st tr t"
  shows "unat t = in_use m" "t \<le> mem_heapsize st" "0 < mem_heapsize st"
proof -
  have al: "allocator st A" "ran L \<subseteq> A" and inj: "inj_on L (dom L)" and fin: "finite (dom L)" and d: "dom m = dom L" "t = (\<Sum>x \<in> dom m. the (m x))"
    and sl: "\<And>x b. L x = Some b \<Longrightarrow> m x = Some (tr_block_sizes tr ! x) \<and> unat (tr_block_sizes tr ! x) + 16 \<le> 8 * snd b"
    and brk: "mem_brk st \<le> mem_max_addr st" "unat (mem_max_addr st) < 2 ^ 63"
    using assms by (simp_all add: util_inv_def del: split_paired_All)
  have "unat (the (m x)) \<le> 8 * snd (the (L x))" if "x \<in> dom L" for x
    using sl that by fastforce
  then have "in_use m \<le> (\<Sum>x \<in> dom L. 8 * snd (the (L x)))"
    unfolding in_use_def d by (rule sum_mono)
  also have "\<dots> = 8 * (\<Sum>b \<in> ran L. snd b)"
  proof -
    have "ran L = (\<lambda>x. the (L x)) ` dom L"
      by (force simp: ran_def)
    moreover have "inj_on (\<lambda>x. the (L x)) (dom L)"
      by (intro inj_onI inj_onD [OF inj]) auto
    ultimately show ?thesis
      by (simp add: sum.reindex sum_distrib_left)
  qed
  also have "\<dots> \<le> 8 * nwords st"
    using allocated_words [OF al(1)] sum_mono2 [OF allocated_finite [OF al(1)] al(2), of snd] by simp
  finally have le: "in_use m \<le> 8 * nwords st" .
  have heap: "unat (mem_brk st) = unat (heap_start st) + 8 * nwords st"
    using al(1) by (auto simp: allocator_def heap_inv_def base_inv_def heap_wf_def)
  then have "unat (mem_heapsize st) = 8 * nwords st"
    by (simp add: mem_heapsize_def unat_sub_le word_le_nat_alt)
  moreover have "unat (mem_brk st) < 2 ^ 63"
    using brk by (simp add: word_le_nat_alt)
  moreover from calculation(1) show "0 < mem_heapsize st"
    using allocated_words [OF al(1)] by (simp add: word_less_nat_alt)
  ultimately show t: "unat t = in_use m" "t \<le> mem_heapsize st"
    using le heap unat_sum_small [of "\<lambda>x. the (m x)" "dom m"] d(2) by (simp_all add: in_use_def word_le_nat_alt)
qed


lemma util_slot:
  "util_inv L A m st tr t \<Longrightarrow> L x = Some b \<Longrightarrow> x < tr_num_ids tr \<and> tr_blocks tr ! x = at (heap_start st) (fst b) \<and>
    m x = Some (tr_block_sizes tr ! x) \<and> unat (tr_block_sizes tr ! x) + 16 \<le> 8 * snd b \<and> b \<in> A"
  by (cases b) (auto simp: util_inv_def dest: ranI)

lemma util_heap:
  assumes "util_inv L A m st tr t" "allocator st' A'" "ran L \<subseteq> A'" "heap_start st' = heap_start st"
    "mem_max_addr st' = mem_max_addr st" "mem_brk st' \<le> mem_max_addr st"
  shows "util_inv L A' m st' tr t"
  using assms by (simp add: util_inv_def)

lemma util_forget:
  assumes "util_inv L A m st tr t" "L x = Some b"
  shows "util_inv (L(x := None)) A (m(x := None)) st tr (t - tr_block_sizes tr ! x)"
proof -
  have "m x = Some (tr_block_sizes tr ! x)" "finite (dom m)"
    using util_slot [OF assms] assms(1) by (auto simp: util_inv_def)
  then have "(\<Sum>y \<in> dom m. the (m y)) = tr_block_sizes tr ! x + (\<Sum>y \<in> dom m - {x}. the (m y))"
    by (subst sum.remove [of _ x]) auto
  moreover have "(\<Sum>y \<in> dom m - {x}. the ((m(x := None)) y)) = (\<Sum>y \<in> dom m - {x}. the (m y))"
    by (rule sum.cong) auto
  moreover have "ran (L(x := None)) \<subseteq> ran L"
    by (auto simp: ran_def split: if_splits)
  moreover have "inj_on (L(x := None)) (dom (L(x := None)))"
    using assms(1) by (auto simp: util_inv_def inj_on_def)
  ultimately show ?thesis
    using assms(1) by (simp add: util_inv_def) blast
qed

lemma util_insert:
  assumes "util_inv L A m st tr t" "x \<notin> dom L" "x < tr_num_ids tr" "(i, k) \<in> A" "(i, k) \<notin> ran L" "unat n + 16 \<le> 8 * k"
    and tr': "tr' = tr\<lparr>tr_blocks := (tr_blocks tr)[x := at (heap_start st) i], tr_block_sizes := (tr_block_sizes tr)[x := n]\<rparr>"
  shows "util_inv (L(x \<mapsto> (i, k))) A (m(x \<mapsto> n)) st tr' (t + n)"
proof -
  have x: "x \<notin> dom m" "finite (dom m)"
    using assms(1,2) by (simp_all add: util_inv_def)
  then have "(\<Sum>y \<in> insert x (dom m). the ((m(x \<mapsto> n)) y)) = n + (\<Sum>y \<in> dom m. the ((m(x \<mapsto> n)) y))"
    by simp
  also have "(\<Sum>y \<in> dom m. the ((m(x \<mapsto> n)) y)) = (\<Sum>y \<in> dom m. the (m y))"
    using x(1) by (intro sum.cong) auto
  finally have t: "(\<Sum>y \<in> insert x (dom m). the ((m(x \<mapsto> n)) y)) = t + n"
    using assms(1) by (simp add: util_inv_def)
  have "ran (L(x \<mapsto> (i, k))) \<subseteq> A"
    using assms(1,4) by (auto simp: util_inv_def ran_def split: if_splits)
  moreover have "inj_on (L(x \<mapsto> (i, k))) (dom (L(x \<mapsto> (i, k))))"
    using assms(1,2,5) by (auto simp: util_inv_def inj_on_def ran_def)
  moreover have "y < tr_num_ids tr' \<and> tr_blocks tr' ! y = at (heap_start st) (fst b) \<and>
       (m(x \<mapsto> n)) y = Some (tr_block_sizes tr' ! y) \<and> unat (tr_block_sizes tr' ! y) + 16 \<le> 8 * snd b"
    if y: "(L(x \<mapsto> (i, k))) y = Some b" for y b
    using util_slot [OF assms(1), of y b] y assms(1,3,6) by (cases "y = x") (auto simp: tr' util_inv_def)
  ultimately show ?thesis
    using assms(1) t by (simp add: util_inv_def tr')
qed

lemma util_dead:
  assumes "util_inv L A m st tr t" "x \<notin> dom L"
  shows "util_inv L A m st (tr\<lparr>tr_blocks := (tr_blocks tr)[x := p], tr_block_sizes := (tr_block_sizes tr)[x := n]\<rparr>) t"
proof -
  have "x \<noteq> y" if "L y = Some (a, b)" for y a b
    using assms(2) that by auto
  then show ?thesis
    using assms(1) by (auto simp: util_inv_def)
qed


text \<open>One operation.\<close>

definition util_done :: "nat \<Rightarrow> util_state \<Rightarrow> (nat \<rightharpoonup> nat \<times> nat) \<Rightarrow> (nat \<rightharpoonup> u64) \<Rightarrow> util_state \<Rightarrow> bool" where
  "util_done k u L' m' u' \<longleftrightarrow> util_inv L' (ran L') m' (u_heap u') (u_trace u') (u_total u') \<and>
     unat (mem_brk (u_heap u')) \<le> unat (mem_brk (u_heap u)) + k \<and>
     mem_max_addr (u_heap u') = mem_max_addr (u_heap u) \<and> heap_start (u_heap u') = heap_start (u_heap u) \<and>
     tr_num_ids (u_trace u') = tr_num_ids (u_trace u) \<and> u_max_total u' = u_max_total u \<and> u_max_heap u' = u_max_heap u"

lemma util_alloc_ok:
  assumes inv: "util_inv L (ran L) m (u_heap u) (u_trace u) (u_total u)" and r: "r = \<lparr>op_type = ALLOC, op_index = int x, op_size = w\<rparr>"
    and x: "x < tr_num_ids (u_trace u)" "x \<notin> dom L" and w: "w \<noteq> 0" "unat w < 2 ^ 62"
    and room: "unat (mem_brk (u_heap u)) + 8 * max (awords (unat w)) 2048 \<le> unat (mem_max_addr (u_heap u))"
  shows "\<exists>b u'. util_op r u = Some u' \<and> util_done (8 * max (awords (unat w)) 2048) u (L(x \<mapsto> b)) (m(x \<mapsto> w)) u'"
proof -
  let ?st = "u_heap u" and ?tr = "u_trace u"
  have al: "allocator ?st (ran L)" and len: "length (tr_blocks ?tr) = tr_num_ids ?tr" "length (tr_block_sizes ?tr) = tr_num_ids ?tr"
    and brk: "unat (mem_brk ?st) < 2 ^ 63"
    using inv by (auto simp: util_inv_def word_le_nat_alt)
  obtain i k st' where m: "mm_malloc w ?st = Some (at (heap_start ?st) i, st')" "at (heap_start ?st) i \<noteq> NULL"
    "heap_start st' = heap_start ?st" "mem_max_addr st' = mem_max_addr ?st" "keeps (ran L) ?st st'"
    "unat (mem_brk st') \<le> unat (mem_brk ?st) + 8 * max (awords (unat w)) 2048" "mem_brk st' \<le> mem_max_addr ?st"
    "(i, k) \<notin> ran L" "allocator st' (insert (i, k) (ran L))" "awords (unat w) \<le> k"
    by (rule malloc_fits [OF al w brk room])
  let ?tr' = "?tr\<lparr>tr_blocks := (tr_blocks ?tr)[x := at (heap_start st') i], tr_block_sizes := (tr_block_sizes ?tr)[x := w]\<rparr>"
  let ?u' = "u\<lparr>u_heap := st', u_trace := ?tr', u_total := u_total u + w\<rparr>"
  have "util_op r u = Some ?u'"
    using m(1-3) x len by (simp add: util_op_def r set_block_def set_size_def idx_set_def)
  moreover have "unat w + 16 \<le> 8 * k"
    using awords_props(3) [of "unat w"] m(10) by linarith
  then have "util_inv (L(x \<mapsto> (i, k))) (insert (i, k) (ran L)) (m(x \<mapsto> w)) st' ?tr' (u_total u + w)"
    using util_heap [OF inv m(9) _ m(3,4,7)] x m(8) by (intro util_insert [OF _ x(2,1)]) auto
  then have "util_done (8 * max (awords (unat w)) 2048) u (L(x \<mapsto> (i, k))) (m(x \<mapsto> w)) ?u'"
    using m(3,4,6) ran_map_upd [of L x "(i, k)"] x(2) by (simp add: util_done_def domIff del: not_None_eq)
  ultimately show ?thesis
    by blast
qed

lemma util_release:
  assumes inv: "util_inv L (ran L) m st tr t" and x: "L x = Some b"
  obtains st' where "mm_free (tr_blocks tr ! x) st = Some st'" "same_frame st st'"
    "util_inv (L(x := None)) (ran (L(x := None))) (m(x := None)) st' tr (t - tr_block_sizes tr ! x)"
proof -
  have al: "allocator st (ran L)" and inj: "inj_on L (dom L)" and brk: "mem_brk st \<le> mem_max_addr st"
    using inv by (simp_all add: util_inv_def)
  from free_step [OF al, of "fst b" "snd b"] x obtain st' where st': "mm_free (at (heap_start st) (fst b)) st = Some st'"
    "allocator st' (ran L - {b})" "same_frame st st'"
    by (auto intro: ranI)
  have "util_inv (L(x := None)) (ran (L(x := None))) (m(x := None)) st' tr (t - tr_block_sizes tr ! x)"
    by (rule util_heap [OF util_forget [OF inv x]]) (use st'(2,3) brk drop_block [OF inj x] in \<open>simp_all add: same_frame_def\<close>)
  with st'(1,3) util_slot [OF inv x] show ?thesis
    by (intro that) simp_all
qed

lemma util_free_ok:
  assumes inv: "util_inv L (ran L) m (u_heap u) (u_trace u) (u_total u)" and r: "op_type r = FREE" "op_index r = int x"
    and x: "L x = Some b"
  shows "\<exists>u'. util_op r u = Some u' \<and> util_done 0 u (L(x := None)) (m(x := None)) u'"
proof -
  let ?tr = "u_trace u"
  have len: "x < length (tr_blocks ?tr)" "x < length (tr_block_sizes ?tr)"
    using inv util_slot [OF inv x] by (auto simp: util_inv_def)
  obtain st' where st': "mm_free (tr_blocks ?tr ! x) (u_heap u) = Some st'" "same_frame (u_heap u) st'"
    "util_inv (L(x := None)) (ran (L(x := None))) (m(x := None)) st' ?tr (u_total u - tr_block_sizes ?tr ! x)"
    by (rule util_release [OF inv x])
  have "util_op r u = Some (u\<lparr>u_heap := st', u_total := u_total u - tr_block_sizes ?tr ! x\<rparr>)"
    using st'(1) len by (simp add: util_op_def r idx_get_def)
  with st'(2,3) show ?thesis
    by (auto simp: util_done_def same_frame_def)
qed

lemma util_realloc_ok:
  assumes inv: "util_inv L (ran L) m (u_heap u) (u_trace u) (u_total u)" and r: "r = \<lparr>op_type = REALLOC, op_index = int x, op_size = w\<rparr>"
    and x: "L x = Some b" and w: "w \<noteq> 0" "unat w < 2 ^ 62" and nz: "heap_start (u_heap u) \<noteq> NULL"
    and room: "unat (mem_brk (u_heap u)) + 8 * max (awords (unat w)) 2048 \<le> unat (mem_max_addr (u_heap u))"
  shows "\<exists>c u'. util_op r u = Some u' \<and> util_done (8 * max (awords (unat w)) 2048) u (L(x \<mapsto> c)) (m(x \<mapsto> w)) u'"
proof -
  let ?st = "u_heap u" and ?tr = "u_trace u" and ?L = "L(x := None)"
  obtain i0 k0 where b: "b = (i0, k0)"
    by (cases b)
  have al: "allocator ?st (ran L)" and inj: "inj_on L (dom L)" and brk: "unat (mem_brk ?st) < 2 ^ 63"
    and len: "length (tr_blocks ?tr) = tr_num_ids ?tr" "length (tr_block_sizes ?tr) = tr_num_ids ?tr"
    using inv by (auto simp: util_inv_def word_le_nat_alt)
  have ik: "(i0, k0) \<in> ran L" and sl: "x < tr_num_ids ?tr" "tr_blocks ?tr ! x = at (heap_start ?st) i0"
    using util_slot [OF inv x] b by auto
  note ran = drop_block [OF inj x, unfolded b]
  obtain i k st' where m: "mm_realloc (at (heap_start ?st) i0) w ?st = Some (at (heap_start ?st) i, st')"
    "(i, k) \<notin> ran L - {(i0, k0)}" "allocator st' (insert (i, k) (ran L - {(i0, k0)}))" "keeps (ran L - {(i0, k0)}) ?st st'"
    "heap_start st' = heap_start ?st" "mem_max_addr st' = mem_max_addr ?st" "mem_brk st' \<le> mem_max_addr ?st"
    "unat (mem_brk st') \<le> unat (mem_brk ?st) + 8 * max (awords (unat w)) 2048" "unat w + 16 \<le> 8 * k"
    "\<forall>j < k0 - 2. words st' (i + j) = words ?st (i0 + j)"
    by (rule realloc_fits [OF al ik w brk nz room])
  have A: "(i, k) \<in> insert (i, k) (ran ?L)" "(i, k) \<notin> ran ?L" "allocator st' (insert (i, k) (ran ?L))"
    using m(2,3) unfolding ran by simp_all
  have p0: "at (heap_start ?st) i \<noteq> NULL"
    using allocated_block(8) [OF A(3,1)] m(5) by simp
  let ?tr' = "?tr\<lparr>tr_blocks := (tr_blocks ?tr)[x := at (heap_start st') i], tr_block_sizes := (tr_block_sizes ?tr)[x := w]\<rparr>"
  let ?u' = "u\<lparr>u_heap := st', u_trace := ?tr', u_total := u_total u + (w - tr_block_sizes ?tr ! x)\<rparr>"
  have "util_op r u = Some ?u'"
    using m(1,5) p0 sl len w(1) by (simp add: util_op_def r set_block_def set_size_def idx_set_def idx_get_def)
  moreover have "util_inv ?L (insert (i, k) (ran ?L)) (m(x := None)) st' ?tr (u_total u - tr_block_sizes ?tr ! x)"
    by (rule util_heap [OF util_forget [OF inv x] A(3)]) (use m(5-7) in auto)
  then have "util_inv (?L(x \<mapsto> (i, k))) (insert (i, k) (ran ?L)) ((m(x := None))(x \<mapsto> w)) st' ?tr'
      (u_total u - tr_block_sizes ?tr ! x + w)"
    by (rule util_insert [OF _ _ sl(1) A(1,2) m(9)]) simp_all
  then have "util_done (8 * max (awords (unat w)) 2048) u (L(x \<mapsto> (i, k))) (m(x \<mapsto> w)) ?u'"
    using m(5,6,8) ran_map_upd [of ?L x "(i, k)"] by (simp add: util_done_def algebra_simps)
  ultimately show ?thesis
    by blast
qed


lemma util_realloc_zero:
  assumes inv: "util_inv L (ran L) m (u_heap u) (u_trace u) (u_total u)" and r: "r = \<lparr>op_type = REALLOC, op_index = int x, op_size = 0\<rparr>"
    and x: "L x = Some b"
  shows "\<exists>u'. util_op r u = Some u' \<and> util_done 0 u (L(x := None)) (m(x := None)) u'"
proof -
  let ?tr = "u_trace u"
  have len: "x < length (tr_blocks ?tr)" "x < length (tr_block_sizes ?tr)"
    using inv util_slot [OF inv x] by (auto simp: util_inv_def)
  obtain st' where st': "mm_free (tr_blocks ?tr ! x) (u_heap u) = Some st'" "same_frame (u_heap u) st'"
    "util_inv (L(x := None)) (ran (L(x := None))) (m(x := None)) st' ?tr (u_total u - tr_block_sizes ?tr ! x)"
    by (rule util_release [OF inv x])
  let ?tr' = "?tr\<lparr>tr_blocks := (tr_blocks ?tr)[x := NULL], tr_block_sizes := (tr_block_sizes ?tr)[x := 0]\<rparr>"
  have "util_op r u = Some (u\<lparr>u_heap := st', u_trace := ?tr', u_total := u_total u - tr_block_sizes ?tr ! x\<rparr>)"
    using st'(1) len by (simp add: util_op_def r mm_realloc_def set_block_def set_size_def idx_set_def idx_get_def)
  with st'(2) util_dead [OF st'(3), of x NULL 0] show ?thesis
    by (auto simp: util_done_def same_frame_def)
qed

lemma util_op_ok:
  assumes inv: "util_inv L (ran L) m (u_heap u) (u_trace u) (u_total u)" and r: "op_ok (tr_num_ids (u_trace u)) (dom L) r"
    and nz: "heap_start (u_heap u) \<noteq> NULL" and room: "unat (mem_brk (u_heap u)) + op_demand r \<le> unat (mem_max_addr (u_heap u))"
  shows "\<exists>L' u'. util_op r u = Some u' \<and> util_done (op_demand r) u L' (size_op m r) u' \<and> dom L' = live_op (dom L) r"
proof -
  let ?x = "nat (op_index r)"
  have i: "op_index r = int ?x" "?x < tr_num_ids (u_trace u)" "unat (op_size r) < 2 ^ 62"
    using r by (simp_all add: op_ok_def)
  have rec: "r = \<lparr>op_type = op_type r, op_index = int ?x, op_size = op_size r\<rparr>"
    using i(1) by simp
  consider (alloc) "op_type r = ALLOC" | (free) "op_type r = FREE" | (zero) "op_type r = REALLOC" "op_size r = 0"
    | (move) "op_type r = REALLOC" "op_size r \<noteq> 0"
    by (cases "op_type r") auto
  then show ?thesis
  proof cases
    case alloc
    with r have "?x \<notin> dom L" "op_size r \<noteq> 0"
      by (simp_all add: op_ok_def)
    from util_alloc_ok [OF inv rec [unfolded alloc] i(2) this i(3)] room alloc obtain b u' where
      "util_op r u = Some u'" "util_done (op_demand r) u (L(?x \<mapsto> b)) (m(?x \<mapsto> op_size r)) u'"
      by (auto simp: op_demand_def)
    then show ?thesis
      using alloc \<open>op_size r \<noteq> 0\<close> by (intro exI [of _ "L(?x \<mapsto> b)"]) (auto simp: live_op_def size_op_def)
  next
    case free
    with r obtain b where b: "L ?x = Some b"
      by (auto simp: op_ok_def)
    from util_free_ok [OF inv free i(1) b] free show ?thesis
      by (intro exI [of _ "L(?x := None)"]) (auto simp: live_op_def size_op_def op_demand_def)
  next
    case zero
    with r obtain b where b: "L ?x = Some b"
      by (auto simp: op_ok_def)
    from util_realloc_zero [OF inv rec [unfolded zero] b] zero show ?thesis
      by (intro exI [of _ "L(?x := None)"]) (auto simp: live_op_def size_op_def util_done_def)
  next
    case move
    with r obtain b where b: "L ?x = Some b"
      by (auto simp: op_ok_def)
    from util_realloc_ok [OF inv rec [unfolded move(1)] b move(2) i(3) nz] room move obtain c u' where
      "util_op r u = Some u'" "util_done (op_demand r) u (L(?x \<mapsto> c)) (m(?x \<mapsto> op_size r)) u'"
      by (auto simp: op_demand_def)
    then show ?thesis
      using move b by (intro exI [of _ "L(?x \<mapsto> c)"]) (auto simp: live_op_def size_op_def)
  qed
qed


lemma util_ops_ok:
  assumes "util_inv L (ran L) m (u_heap u) (u_trace u) (u_total u)" "trace_ok (tr_num_ids (u_trace u)) (dom L) rs"
    and "heap_start (u_heap u) \<noteq> NULL" "unat (mem_brk (u_heap u)) + demand rs \<le> unat (mem_max_addr (u_heap u))"
    and "u_max_total u \<le> u_max_heap u" "u_max_heap u \<noteq> 0 \<or> rs \<noteq> []"
  shows "\<exists>u'. util_ops rs u = Some u' \<and> unat (u_max_total u') = peak (unat (u_max_total u)) m rs \<and>
    u_max_total u' \<le> u_max_heap u' \<and> u_max_heap u' \<noteq> 0"
  using assms
proof (induction rs arbitrary: L m u)
  case (Cons r rs)
  have "op_ok (tr_num_ids (u_trace u)) (dom L) r" "unat (mem_brk (u_heap u)) + op_demand r \<le> unat (mem_max_addr (u_heap u))"
    using Cons.prems(2,4) by (simp_all add: demand_def)
  from util_op_ok [OF Cons.prems(1) this(1) Cons.prems(3) this(2)] obtain L1 u1 where
    u1: "util_op r u = Some u1" "util_done (op_demand r) u L1 (size_op m r) u1" "dom L1 = live_op (dom L) r"
    by blast
  then have inv1: "util_inv L1 (ran L1) (size_op m r) (u_heap u1) (u_trace u1) (u_total u1)"
    by (simp add: util_done_def)
  note fits = util_fits [OF inv1]
  let ?u2 = "high_water u1"
  have mt: "u_max_total ?u2 = max (u_max_total u) (u_total u1)" "u_max_heap ?u2 = max (u_max_heap u) (mem_heapsize (u_heap u1))"
    using u1(2) by (auto simp: high_water_def util_done_def max_def)
  have hw: "u_max_total ?u2 \<le> u_max_heap ?u2" "u_max_heap ?u2 \<noteq> 0"
    using fits(2,3) Cons.prems(5) unfolding mt by (auto simp: max_def)
  have "unat (max a b) = max (unat a) (unat b)" for a b :: u64
    by (simp add: max_def word_le_nat_alt)
  then have pk: "unat (u_max_total ?u2) = max (unat (u_max_total u)) (in_use (size_op m r))"
    using fits(1) mt(1) by simp
  have "\<exists>u'. util_ops rs ?u2 = Some u' \<and> unat (u_max_total u') = peak (unat (u_max_total ?u2)) (size_op m r) rs \<and>
    u_max_total u' \<le> u_max_heap u' \<and> u_max_heap u' \<noteq> 0"
    by (rule Cons.IH [of L1 "size_op m r" ?u2])
      (use inv1 u1(2,3) Cons.prems hw in \<open>auto simp: high_water_def util_done_def demand_def\<close>)
  then show ?case
    using u1(1) pk by simp
qed auto

text \<open>C37: On a trace whose operations refer to live blocks and whose demands fit into the heap, \<open>eval_mm_util\<close> is
  defined, and what it divides are the peak of the bytes requested and not yet given back, without overflow, and a
  positive number that is at least as large: the utilization is at most 1.\<close>

theorem eval_mm_util_peak:
  assumes "heap_start st \<noteq> NULL" "16 dvd unat (heap_start st)" "unat (mem_max_addr st) < 2 ^ 63"
    and "trace_ok (tr_num_ids tr) {} (tr_ops tr)" "tr_ops tr \<noteq> []"
    and "unat (heap_start st) + 8 * 2052 + demand (tr_ops tr) \<le> unat (mem_max_addr st)"
  shows "\<exists>t h u. eval_mm_util st tr = Some (t, h, u) \<and> unat t = peak 0 Map.empty (tr_ops tr) \<and> t \<le> h \<and> h \<noteq> 0"
proof -
  let ?tr = "reinit_trace tr"
  have "unat (heap_start st) + 8 * 2052 \<le> unat (mem_max_addr st)"
    using assms(6) by simp
  then obtain st' where st': "mm_init (mem_reset_brk st) = Some (True, st')" "allocator st' {}" "heap_start st' = heap_start st"
    "mem_max_addr st' = mem_max_addr st" "unat (mem_brk st') = unat (heap_start st) + 8 * 2052"
    by (rule init_fits [OF assms(2,3)])
  let ?u = "\<lparr>u_heap = st', u_trace = ?tr, u_total = 0, u_max_total = 0, u_max_heap = 0\<rparr>"
  have "\<exists>u'. util_ops (tr_ops tr) ?u = Some u' \<and> unat (u_max_total u') = peak (unat (u_max_total ?u)) Map.empty (tr_ops tr) \<and>
    u_max_total u' \<le> u_max_heap u' \<and> u_max_heap u' \<noteq> 0"
    by (rule util_ops_ok [of Map.empty])
      (use assms st' in \<open>simp_all add: util_inv_def reinit_trace_def word_le_nat_alt\<close>)
  then obtain u' where "util_ops (tr_ops tr) ?u = Some u'" "unat (u_max_total u') = peak 0 Map.empty (tr_ops tr)"
    "u_max_total u' \<le> u_max_heap u'" "u_max_heap u' \<noteq> 0"
    by auto
  moreover have "tr_ops ?tr = tr_ops tr"
    by (simp add: reinit_trace_def)
  ultimately show ?thesis
    using st'(1) by (simp add: eval_mm_util_def Let_def)
qed

theorem eval_mm_util_peak_witness:
  "\<exists>h u. eval_mm_util (e_heap some_state) (e_trace some_state) = Some (14000, h, u) \<and> 14000 \<le> h"
proof -
  have tr: "tr_num_ids (e_trace some_state) = 2" "tr_ops (e_trace some_state) = some_ops" "some_ops \<noteq> []"
    by (simp_all add: some_state_def some_ops_def)
  have pk: "peak 0 Map.empty some_ops = 14000"
    by (simp add: some_ops_def size_op_def in_use_def)
  obtain t h u where u: "eval_mm_util (e_heap some_state) (e_trace some_state) = Some (t, h, u)" "unat t = 14000" "t \<le> h"
    using eval_mm_util_peak [of "e_heap some_state" "e_trace some_state"] some_heap some_trace_ok pk tr(3) unfolding tr(1,2) by auto
  then have "t = 14000"
    by (simp add: word_unat_eq_iff)
  with u show ?thesis
    by blast
qed

end
