(* ===== verification/Scanf.thy ===== *)
theory Scanf
  imports Printf_Spec
begin

text \<open>
  The conversions of \<open>fscanf\<close> that the programs of this repository use to read files, on the text of a file, and that
  they read back the numbers a file is written with.
\<close>

section \<open>\<open>fscanf\<close>\<close>

definition is_space :: "char \<Rightarrow> bool" where
  "is_space c \<longleftrightarrow> c \<in> {CHR '' '', CHR 0x09, CHR 0x0A, CHR 0x0B, CHR 0x0C, CHR 0x0D}"

definition skip_spaces :: "string \<Rightarrow> string" where
  "skip_spaces s = dropWhile is_space s"

definition is_digit :: "char \<Rightarrow> bool" where
  "is_digit c \<longleftrightarrow> CHR ''0'' \<le> c \<and> c \<le> CHR ''9''"

definition digit_of :: "char \<Rightarrow> nat" where
  "digit_of c = of_char c - 48"

text \<open>A decimal number with an optional sign; without a digit the conversion fails and stores nothing.\<close>

definition scan_sign :: "string \<Rightarrow> bool \<times> string" where
  "scan_sign s = (case s of c # r \<Rightarrow> if c = CHR ''-'' then (True, r) else if c = CHR ''+'' then (False, r) else (False, s) | [] \<Rightarrow> (False, s))"

definition scan_num :: "string \<Rightarrow> int option \<times> string" where
  "scan_num s = (let (neg, s) = scan_sign (skip_spaces s);
     ds = takeWhile is_digit s; n = int (read_base 10 (map digit_of ds)) in
     (if ds = [] then None else Some (if neg then - n else n), dropWhile is_digit s))"

text \<open>\<open>%s\<close>: \<open>None\<close> is \<open>EOF\<close>.\<close>

definition scan_word :: "string \<Rightarrow> (string \<times> string) option" where
  "scan_word s = (let s = skip_spaces s in
     if s = [] then None else Some (takeWhile (\<lambda>c. \<not> is_space c) s, dropWhile (\<lambda>c. \<not> is_space c) s))"

text \<open>Conversions: \<open>%d\<close> to \<open>int\<close>, \<open>%u\<close> to \<open>unsigned\<close>, whose bits the code keeps in an \<open>int\<close>, \<open>%lu\<close> to \<open>size_t\<close>, and \<open>%zd\<close>.
  A number that does not fit is undefined; the unsigned conversions negate in their type.\<close>

definition to_int :: "int \<Rightarrow> int option" where
  "to_int i = (if - (2 ^ 31) \<le> i \<and> i < 2 ^ 31 then Some i else None)"

definition to_unsigned :: "int \<Rightarrow> int option" where
  "to_unsigned i = (if - (2 ^ 32) < i \<and> i < 2 ^ 32 then Some (sint (of_int i :: u32)) else None)"

definition to_size :: "int \<Rightarrow> u64 option" where
  "to_size i = (if - (2 ^ 64) < i \<and> i < 2 ^ 64 then Some (of_int i) else None)"

definition to_ssize :: "int \<Rightarrow> u64 option" where
  "to_ssize i = (if - (2 ^ 63) \<le> i \<and> i < 2 ^ 63 then Some (of_int i) else None)"

text \<open>A conversion into a variable: what the variable holds when it fails stays.\<close>

definition scan_into :: "(int \<Rightarrow> 'a option) \<Rightarrow> 'a option \<Rightarrow> string \<Rightarrow> ('a option \<times> bool \<times> string) option" where
  "scan_into conv old s = (case scan_num s of
     (None, r) \<Rightarrow> Some (old, False, r)
   | (Some i, r) \<Rightarrow> (case conv i of None \<Rightarrow> None | Some v \<Rightarrow> Some (Some v, True, r)))"

lemma scan_num_length: "length (snd (scan_num s)) \<le> length s"
proof -
  have "length (snd (scan_sign r)) \<le> length r" for r
    by (auto simp: scan_sign_def split: list.split)
  moreover have "length (skip_spaces s) \<le> length s"
    by (simp add: skip_spaces_def length_dropWhile_le)
  ultimately show ?thesis
    using length_dropWhile_le [of is_digit] by (simp add: scan_num_def Let_def split_def) (meson le_trans)
qed

lemma scan_into_length: "scan_into conv old s = Some (v, ok, r) \<Longrightarrow> length r \<le> length s"
  using scan_num_length [of s] by (auto simp: scan_into_def split: prod.splits option.splits)

lemma scan_word_length: "scan_word s = Some (w, r) \<Longrightarrow> length r < length s"
proof -
  assume a: "scan_word s = Some (w, r)"
  then have "skip_spaces s \<noteq> []"
    by (auto simp: scan_word_def Let_def split: if_splits)
  then obtain c t where c: "skip_spaces s = c # t"
    by (cases "skip_spaces s") auto
  then have "\<not> is_space c"
    by (metis dropWhile_eq_Cons_conv skip_spaces_def)
  then have "r = dropWhile (\<lambda>c. \<not> is_space c) t"
    using a c by (auto simp: scan_word_def Let_def)
  then have "length r \<le> length t"
    by (simp add: length_dropWhile_le)
  also have "\<dots> < length (skip_spaces s)"
    by (simp add: c)
  also have "\<dots> \<le> length s"
    by (simp add: skip_spaces_def length_dropWhile_le)
  finally show ?thesis .
qed

section \<open>Numbers are read back\<close>

text \<open>Numbers in a file, and a line break.\<close>

definition newline :: char where
  "newline = CHR 0x0A"

definition show_nat :: "nat \<Rightarrow> string" where
  "show_nat n = map (nth HexDigits) (in_base 10 n)"

definition show_int :: "int \<Rightarrow> string" where
  "show_int i = (if i < 0 then CHR ''-'' # show_nat (nat (- i)) else show_nat (nat i))"

lemma digit_chars:
  assumes "d < 10"
  shows "is_digit (HexDigits ! d)" "digit_of (HexDigits ! d) = d" "HexDigits ! d \<noteq> CHR ''-''" "HexDigits ! d \<noteq> CHR ''+''"
    "\<not> is_space (HexDigits ! d)"
proof -
  have "d \<in> {0, 1, 2, 3, 4, 5, 6, 7, 8, 9}"
    using assms by auto
  then show "is_digit (HexDigits ! d)" "digit_of (HexDigits ! d) = d" "HexDigits ! d \<noteq> CHR ''-''" "HexDigits ! d \<noteq> CHR ''+''"
    "\<not> is_space (HexDigits ! d)"
    by (auto simp: HexDigits_def is_digit_def digit_of_def is_space_def less_eq_char_def)
qed

lemma show_nat_digits:
  "show_nat n \<noteq> []" "\<forall>c \<in> set (show_nat n). is_digit c \<and> \<not> is_space c \<and> c \<noteq> CHR ''-'' \<and> c \<noteq> CHR ''+''"
  "read_base 10 (map digit_of (show_nat n)) = n"
proof -
  have lt: "\<forall>d \<in> set (in_base 10 n). d < 10"
    using in_base_less [of 10] by auto
  show "show_nat n \<noteq> []"
    by (simp add: show_nat_def in_base.simps [of 10 n])
  show "\<forall>c \<in> set (show_nat n). is_digit c \<and> \<not> is_space c \<and> c \<noteq> CHR ''-'' \<and> c \<noteq> CHR ''+''"
    using lt digit_chars by (auto simp: show_nat_def)
  have "map digit_of (show_nat n) = in_base 10 n"
    using lt digit_chars(2) by (simp add: show_nat_def map_idI)
  then show "read_base 10 (map digit_of (show_nat n)) = n"
    by (simp add: read_in_base)
qed

definition stops :: "string \<Rightarrow> bool" where
  "stops s \<longleftrightarrow> s = [] \<or> \<not> is_digit (hd s)"

lemma scan_digits:
  assumes "stops rest"
  shows "takeWhile is_digit (show_nat n @ rest) = show_nat n" "dropWhile is_digit (show_nat n @ rest) = rest"
  using assms show_nat_digits(2) [of n]
  by (simp_all add: takeWhile_append dropWhile_append stops_def) (cases rest; auto simp: takeWhile_eq_Nil_iff)+

lemma skip_to: "\<forall>c \<in> set sp. is_space c \<Longrightarrow> s \<noteq> [] \<Longrightarrow> \<not> is_space (hd s) \<Longrightarrow> skip_spaces (sp @ s) = s"
  by (cases s) (simp_all add: skip_spaces_def dropWhile_append2)

lemma no_sign: "s \<noteq> [] \<Longrightarrow> hd s \<noteq> CHR ''-'' \<Longrightarrow> hd s \<noteq> CHR ''+'' \<Longrightarrow> scan_sign s = (False, s)"
  by (cases s) (simp_all add: scan_sign_def)

lemma show_nat_hd: "is_digit (hd (show_nat n @ r))" "\<not> is_space (hd (show_nat n @ r))" "hd (show_nat n @ r) \<noteq> CHR ''-''" "hd (show_nat n @ r) \<noteq> CHR ''+''"
  using show_nat_digits(1,2) [of n] by (simp_all add: hd_append)

lemma scan_num_show:
  assumes "stops rest" "\<forall>c \<in> set sp. is_space c"
  shows "scan_num (sp @ show_int i @ rest) = (Some i, rest)" "scan_num (sp @ show_nat n @ rest) = (Some (int n), rest)"
proof -
  show nat: "scan_num (sp @ show_nat n @ rest) = (Some (int n), rest)" for n
  proof -
    have "skip_spaces (sp @ show_nat n @ rest) = show_nat n @ rest"
      using assms(2) show_nat_digits(1) show_nat_hd(2) by (intro skip_to) auto
    moreover have "scan_sign (show_nat n @ rest) = (False, show_nat n @ rest)"
      using show_nat_digits(1) show_nat_hd(3,4) by (intro no_sign) auto
    ultimately show ?thesis
      using scan_digits [OF assms(1), of n] show_nat_digits(1,3) [of n] by (simp add: scan_num_def)
  qed
  show "scan_num (sp @ show_int i @ rest) = (Some i, rest)"
  proof (cases "i < 0")
    case True
    have "skip_spaces (sp @ CHR ''-'' # show_nat (nat (- i)) @ rest) = CHR ''-'' # show_nat (nat (- i)) @ rest"
      using assms(2) by (intro skip_to) (auto simp: is_space_def)
    then show ?thesis
      using True scan_digits [OF assms(1), of "nat (- i)"] show_nat_digits(1,3) [of "nat (- i)"]
      by (simp add: scan_num_def show_int_def scan_sign_def)
  next
    case False
    then show ?thesis
      using nat [of "nat i"] by (simp add: show_int_def)
  qed
qed

lemma scan_into_show:
  assumes "stops rest" "\<forall>c \<in> set sp. is_space c"
  shows "conv i = Some v \<Longrightarrow> scan_into conv old (sp @ show_int i @ rest) = Some (Some v, True, rest)"
    "conv (int n) = Some v \<Longrightarrow> scan_into conv old (sp @ show_nat n @ rest) = Some (Some v, True, rest)"
  using scan_num_show [OF assms] by (simp_all add: scan_into_def)

lemma conversions:
  "- (2 ^ 31) \<le> i \<Longrightarrow> i < 2 ^ 31 \<Longrightarrow> to_int i = Some i"
  "- 1 \<le> i \<Longrightarrow> i < 2 ^ 31 \<Longrightarrow> to_unsigned i = Some i"
  "to_size (int (unat w)) = Some w" "unat w < 2 ^ 63 \<Longrightarrow> to_ssize (int (unat w)) = Some w"
proof -
  show "to_unsigned i = Some i" if "- 1 \<le> i" "i < 2 ^ 31"
    using that by (simp add: to_unsigned_def signed_of_int signed_take_bit_int_eq_self)
  have "0 \<le> uint w"
    by (rule unsigned_greater_eq)
  then have "- (2 ^ 64) < uint w"
    by (rule order.strict_trans2 [rotated]) simp
  moreover have "uint w < 2 ^ LENGTH(64)"
    by (rule unsigned_less)
  ultimately show "to_size (int (unat w)) = Some w"
    by (simp add: to_size_def)
  show "to_ssize (int (unat w)) = Some w" if "unat w < 2 ^ 63"
  proof -
    have "int (unat w) < int (2 ^ 63)"
      using that by (simp only: of_nat_less_iff)
    then have "uint w < 2 ^ 63"
      by simp
    moreover have "- (2 ^ 63) \<le> uint w"
      using \<open>0 \<le> uint w\<close> by (rule order.trans [rotated]) simp
    ultimately show ?thesis
      by (simp add: to_ssize_def)
  qed
qed (simp add: to_int_def)

lemma stops_simps [simp]: "stops (newline # s)" "stops (CHR '' '' # s)" "stops []"
  by (simp_all add: stops_def newline_def is_digit_def less_eq_char_def)

end
