(* ===== verification/Trace_File.thy ===== *)
theory Trace_File
  imports Driver Scanf
begin

text \<open>
  The trace files \<open>mdriver.c\<close> reads: \<open>read_trace\<close> on the text of a file. \<open>None\<close> is undefined behaviour (an indeterminate value is
  used, a number does not fit, a write outside an array) or the exit of the program.
\<close>

section \<open>\<open>read_trace\<close>\<close>

definition MAXLINE :: nat where
  "MAXLINE = 1024"

text \<open>The variables of the loop; \<open>size\<close> is indeterminate (\<open>None\<close>) until it is read, and the array \<open>ops\<close> is
  filled from the front.\<close>

record reader =
  rd_index :: int
  rd_size :: "u64 option"
  rd_max_index :: int
  rd_ops :: "traceop_t list"

definition add_op :: "int \<Rightarrow> traceop_t \<Rightarrow> reader \<Rightarrow> reader option" where
  "add_op num_ops r st = do { guard (int (length (rd_ops st)) < num_ops); Some (st\<lparr>rd_ops := rd_ops st @ [r]\<rparr>) }"

text \<open>\<open>%u %lu\<close>: the second conversion is tried only after the first. Both variables are then stored.\<close>

definition read_request :: "int \<Rightarrow> op_type \<Rightarrow> reader \<Rightarrow> string \<Rightarrow> (reader \<times> string) option" where
  "read_request num_ops ty st s = do {
     (i, ok, s) \<leftarrow> scan_into to_unsigned (Some (rd_index st)) s;
     index \<leftarrow> i;
     (n, ok, s) \<leftarrow> (if ok then scan_into to_size (rd_size st) s else Some (rd_size st, False, s));
     st \<leftarrow> (case n of None \<Rightarrow> None
       | Some m \<Rightarrow> add_op num_ops \<lparr>op_type = ty, op_index = index, op_size = m\<rparr> (st\<lparr>rd_index := index, rd_size := n\<rparr>));
     Some (st\<lparr>rd_max_index := (if index > rd_max_index st then index else rd_max_index st)\<rparr>, s)
   }"

text \<open>\<open>junk\<close> is what the array holds in the field \<open>size\<close> of a \<open>FREE\<close>, which is not stored.\<close>

definition read_free :: "int \<Rightarrow> (nat \<Rightarrow> u64) \<Rightarrow> reader \<Rightarrow> string \<Rightarrow> (reader \<times> string) option" where
  "read_free num_ops junk st s = do {
     (i, ok, s) \<leftarrow> scan_into to_unsigned (Some (rd_index st)) s;
     index \<leftarrow> i;
     st \<leftarrow> add_op num_ops \<lparr>op_type = FREE, op_index = index, op_size = junk (length (rd_ops st))\<rparr> (st\<lparr>rd_index := index\<rparr>);
     Some (st, s)
   }"

definition read_op :: "int \<Rightarrow> (nat \<Rightarrow> u64) \<Rightarrow> reader \<Rightarrow> string \<Rightarrow> string \<Rightarrow> (reader \<times> string) option" where
  "read_op num_ops junk st ty s = do {
     guard (length ty < MAXLINE);
     case ty of
       [] \<Rightarrow> None
     | c # _ \<Rightarrow>
         if c = CHR ''a'' then read_request num_ops ALLOC st s
         else if c = CHR ''r'' then read_request num_ops REALLOC st s
         else if c = CHR ''f'' then read_free num_ops junk st s
         else None
   }"

lemma read_op_length: "read_op num_ops junk st ty s = Some (st', r) \<Longrightarrow> length r \<le> length s"
  by (auto simp: read_op_def read_request_def read_free_def Option.bind_eq_Some_conv
      split: list.splits if_splits option.splits dest!: scan_into_length)

text \<open>The loop ends because every word shortens the rest of the file.\<close>

function read_ops :: "int \<Rightarrow> (nat \<Rightarrow> u64) \<Rightarrow> reader \<Rightarrow> string \<Rightarrow> reader option" where
  "read_ops num_ops junk st s = (case scan_word s of
     None \<Rightarrow> Some st
   | Some (ty, s') \<Rightarrow> (case read_op num_ops junk st ty s' of
       None \<Rightarrow> None
     | Some (st', s'') \<Rightarrow> if int (length (rd_ops st')) = num_ops then Some st' else read_ops num_ops junk st' s''))"
  by pat_completeness auto

termination read_ops
  by (relation "measure (\<lambda>(num_ops, junk, st, s). length s)") (auto, meson le_less_trans read_op_length scan_word_length)

declare read_ops.simps [simp del]

text \<open>What is known of a trace; the fields the driver fills in later are not here.\<close>

record stats_t =
  st_filename :: string
  st_weight :: int
  st_ops :: int

text \<open>\<open>avail n\<close>: the C library can provide \<open>n\<close> bytes. \<open>file\<close> is the text of the file, if it can be opened.\<close>

definition read_trace :: "(int \<Rightarrow> bool) \<Rightarrow> (nat \<Rightarrow> u64) \<Rightarrow> stats_t \<Rightarrow> string \<Rightarrow> string \<Rightarrow> (string \<Rightarrow> string option) \<Rightarrow>
    (stats_t \<times> trace_t) option" where
  "read_trace avail junk stats tracedir filename file = do {
     guard (avail 1080);
     let name = tracedir @ filename;
     guard (length name < MAXLINE);
     s \<leftarrow> file name;
     (w, _, s) \<leftarrow> scan_into to_int None s;
     weight \<leftarrow> w;
     (i, _, s) \<leftarrow> scan_into to_int None s;
     (n, _, s) \<leftarrow> scan_into to_int None s;
     (b, _, s) \<leftarrow> scan_into to_ssize None s;
     guard (0 \<le> weight \<and> weight \<le> 3);
     num_ops \<leftarrow> n;
     guard (0 \<le> num_ops \<and> avail (24 * num_ops));
     num_ids \<leftarrow> i;
     guard (0 \<le> num_ids \<and> avail (8 * num_ids) \<and> avail (4 * num_ids));
     st \<leftarrow> read_ops num_ops junk \<lparr>rd_index = 0, rd_size = None, rd_max_index = 0, rd_ops = []\<rparr> s;
     guard (rd_max_index st = num_ids - 1);
     guard (num_ops = int (length (rd_ops st)));
     data_bytes \<leftarrow> b;
     Some (stats\<lparr>st_filename := name, st_weight := weight, st_ops := num_ops\<rparr>,
       \<lparr>tr_filename = name, tr_data_bytes = data_bytes, tr_num_ids = nat num_ids, tr_weight = weight,
       tr_ops = rd_ops st, tr_blocks = replicate (nat num_ids) NULL, tr_block_sizes = replicate (nat num_ids) 0,
       tr_rand_base = replicate (nat num_ids) 0\<rparr>)
   }"


section \<open>Trace files\<close>

text \<open>The text of a trace file.\<close>

definition print_op :: "traceop_t \<Rightarrow> string" where
  "print_op r = (case op_type r of
     ALLOC \<Rightarrow> ''a '' @ show_int (op_index r) @ '' '' @ show_nat (unat (op_size r))
   | REALLOC \<Rightarrow> ''r '' @ show_int (op_index r) @ '' '' @ show_nat (unat (op_size r))
   | FREE \<Rightarrow> ''f '' @ show_int (op_index r)) @ [newline]"

definition print_ops :: "traceop_t list \<Rightarrow> string" where
  "print_ops rs = concat (map print_op rs)"

definition print_trace :: "trace_t \<Rightarrow> string" where
  "print_trace t = show_int (tr_weight t) @ newline # show_nat (tr_num_ids t) @ newline # show_nat (length (tr_ops t)) @
     newline # show_nat (unat (tr_data_bytes t)) @ newline # print_ops (tr_ops t)"

text \<open>Operations that can be written and read back, and what reading them does to the largest index.\<close>

definition readable :: "(nat \<Rightarrow> u64) \<Rightarrow> nat \<Rightarrow> traceop_t \<Rightarrow> bool" where
  "readable junk k r \<longleftrightarrow> - 1 \<le> op_index r \<and> op_index r < 2 ^ 31 \<and> (op_type r = FREE \<longrightarrow> op_size r = junk k)"

definition top_index :: "traceop_t \<Rightarrow> int \<Rightarrow> int" where
  "top_index r m = (if op_type r \<noteq> FREE \<and> op_index r > m then op_index r else m)"

lemma scan_word_letter:
  "\<not> is_space c \<Longrightarrow> scan_word (newline # c # CHR '' '' # s) = Some ([c], CHR '' '' # s)"
  by (simp add: scan_word_def skip_spaces_def newline_def is_space_def Let_def)

lemma read_printed:
  assumes "readable junk (length (rd_ops st)) r" "int (length (rd_ops st)) < num_ops"
  shows "\<exists>ty s' st'. scan_word (newline # print_op r @ s) = Some (ty, s') \<and> read_op num_ops junk st ty s' = Some (st', newline # s) \<and>
    rd_ops st' = rd_ops st @ [r] \<and> rd_max_index st' = top_index r (rd_max_index st)"
proof -
  have sp: "\<forall>c \<in> set '' ''. is_space c"
    by (simp add: is_space_def)
  have u: "to_unsigned (op_index r) = Some (op_index r)"
    using assms(1) by (intro conversions) (simp_all add: readable_def)
  note index = scan_into_show(1) [where conv = to_unsigned, OF _ sp u]
  note sze = scan_into_show(2) [where conv = to_size, OF _ sp conversions(3)]
  have letters: "\<not> is_space CHR ''a''" "\<not> is_space CHR ''r''" "\<not> is_space CHR ''f''"
    by (simp_all add: is_space_def)
  show ?thesis
  proof (cases "op_type r")
    case ALLOC
    then show ?thesis
      using scan_word_letter [OF letters(1)] index sze assms(2)
      by (simp add: print_op_def read_op_def read_request_def MAXLINE_def add_op_def top_index_def)
  next
    case REALLOC
    then show ?thesis
      using scan_word_letter [OF letters(2)] index sze assms(2)
      by (simp add: print_op_def read_op_def read_request_def MAXLINE_def add_op_def top_index_def)
  next
    case FREE
    then show ?thesis
      using scan_word_letter [OF letters(3)] index assms
      by (simp add: print_op_def read_op_def read_free_def MAXLINE_def add_op_def top_index_def readable_def)
  qed
qed


lemma read_ops_printed:
  assumes "\<forall>k < length rs. readable junk (length (rd_ops st) + k) (rs ! k)" "int (length (rd_ops st) + length rs) = num_ops"
  shows "\<exists>st'. read_ops num_ops junk st (newline # print_ops rs) = Some st' \<and> rd_ops st' = rd_ops st @ rs \<and>
    rd_max_index st' = fold top_index rs (rd_max_index st)"
  using assms
proof (induction rs arbitrary: st)
  case Nil
  have "scan_word (newline # print_ops []) = None"
    by (simp add: print_ops_def scan_word_def skip_spaces_def newline_def is_space_def)
  then show ?case
    by (subst read_ops.simps) simp
next
  case (Cons r rs)
  have "readable junk (length (rd_ops st)) r" "int (length (rd_ops st)) < num_ops"
    using Cons.prems by (auto dest: spec [of _ 0])
  from read_printed [OF this, of "print_ops rs"] obtain ty s' st1 where
    s1: "scan_word (newline # print_ops (r # rs)) = Some (ty, s')" "read_op num_ops junk st ty s' = Some (st1, newline # print_ops rs)"
      "rd_ops st1 = rd_ops st @ [r]" "rd_max_index st1 = top_index r (rd_max_index st)"
    by (auto simp: print_ops_def)
  have "\<forall>k < length rs. readable junk (length (rd_ops st1) + k) (rs ! k)"
  proof (intro allI impI)
    fix k
    assume "k < length rs"
    then show "readable junk (length (rd_ops st1) + k) (rs ! k)"
      using Cons.prems(1) [rule_format, of "Suc k"] s1(3) by simp
  qed
  moreover have "int (length (rd_ops st1) + length rs) = num_ops"
    using Cons.prems(2) s1(3) by simp
  ultimately obtain st' where st': "read_ops num_ops junk st1 (newline # print_ops rs) = Some st'" "rd_ops st' = rd_ops st1 @ rs"
    "rd_max_index st' = fold top_index rs (rd_max_index st1)"
    using Cons.IH by blast
  show ?case
  proof (cases "int (length (rd_ops st1)) = num_ops")
    case True
    then have "rs = []"
      using Cons.prems(2) s1(3) by auto
    then show ?thesis
      using True s1 by (subst read_ops.simps) simp
  next
    case False
    then show ?thesis
      using s1 st' by (subst read_ops.simps) simp
  qed
qed

definition writable :: "(nat \<Rightarrow> u64) \<Rightarrow> trace_t \<Rightarrow> bool" where
  "writable junk t \<longleftrightarrow> length (tr_filename t) < MAXLINE \<and> 0 \<le> tr_weight t \<and> tr_weight t \<le> 3 \<and> tr_num_ids t < 2 ^ 31 \<and>
     length (tr_ops t) < 2 ^ 31 \<and> unat (tr_data_bytes t) < 2 ^ 63 \<and>
     (\<forall>k < length (tr_ops t). readable junk k (tr_ops t ! k)) \<and> fold top_index (tr_ops t) 0 = int (tr_num_ids t) - 1 \<and>
     tr_blocks t = replicate (tr_num_ids t) NULL \<and> tr_block_sizes t = replicate (tr_num_ids t) 0 \<and>
     tr_rand_base t = replicate (tr_num_ids t) 0"

text \<open>C39: \<open>read_trace\<close> reads back every trace written in the format of the trace files: the header, the
  operations in their order with their indices and sizes (\<open>-1\<close> included), and the cleared arrays; its
  assertions hold, and the name, weight and number of operations are noted in the statistics. The indices must be below \<open>num_ids\<close>, the greatest one equal to \<open>num_ids - 1\<close>.\<close>

theorem read_trace_roundtrip:
  assumes "writable junk t" "tr_filename t = tracedir @ filename" "file (tr_filename t) = Some (print_trace t)"
    and "\<And>n. 0 \<le> n \<Longrightarrow> n < 2 ^ 36 \<Longrightarrow> avail n"
  shows "read_trace avail junk stats tracedir filename file =
    Some (stats\<lparr>st_filename := tr_filename t, st_weight := tr_weight t, st_ops := int (length (tr_ops t))\<rparr>, t)"
proof -
  let ?n = "int (length (tr_ops t))" and ?i = "int (tr_num_ids t)"
  note W = assms(1) [unfolded writable_def]
  have nl: "\<forall>c \<in> set [newline]. is_space c" "\<forall>c \<in> set []. is_space c"
    by (simp_all add: newline_def is_space_def)
  have w: "scan_into to_int None (print_trace t) = Some (Some (tr_weight t), True, newline # show_nat (tr_num_ids t) @ newline #
      show_nat (length (tr_ops t)) @ newline # show_nat (unat (tr_data_bytes t)) @ newline # print_ops (tr_ops t))"
    using scan_into_show(1) [where sp = "[]" and i = "tr_weight t" and conv = to_int and old = None] conversions(1) [of "tr_weight t"] W by (simp add: print_trace_def)
  have nat: "scan_into to_int None (newline # show_nat n @ newline # s) = Some (Some (int n), True, newline # s)" if "n < 2 ^ 31" for n s
    using scan_into_show(2) [where sp = "[newline]" and n = n and old = None and rest = "newline # s" and conv = to_int] conversions(1) [of "int n"] nl that
    by simp
  have bytes: "scan_into to_ssize None (newline # show_nat (unat (tr_data_bytes t)) @ newline # s) = Some (Some (tr_data_bytes t), True, newline # s)" for s
    using scan_into_show(2) [where sp = "[newline]" and n = "unat (tr_data_bytes t)" and old = None and rest = "newline # s" and conv = to_ssize]
      conversions(4) [of "tr_data_bytes t"] nl W by simp
  let ?st = "\<lparr>rd_index = 0, rd_size = None, rd_max_index = 0, rd_ops = []\<rparr>"
  obtain st where st: "read_ops ?n junk ?st (newline # print_ops (tr_ops t)) = Some st" "rd_ops st = tr_ops t"
    "rd_max_index st = ?i - 1"
    using read_ops_printed [of "tr_ops t" junk ?st ?n] W by auto
  have av: "avail 1080" "avail (24 * ?n)" "avail (8 * ?i)" "avail (4 * ?i)"
    using W by (auto intro!: assms(4))
  show ?thesis
    unfolding read_trace_def
    using W w nat bytes st av assms(2) assms(3) by (simp add: Let_def)
qed


definition tiny_trace :: trace_t where
  "tiny_trace = \<lparr>tr_filename = ''traces/tiny.rep'', tr_data_bytes = 1536, tr_num_ids = 2, tr_weight = 1,
     tr_ops = [\<lparr>op_type = ALLOC, op_index = 0, op_size = 512\<rparr>, \<lparr>op_type = ALLOC, op_index = 1, op_size = 1024\<rparr>,
       \<lparr>op_type = REALLOC, op_index = 0, op_size = 60\<rparr>, \<lparr>op_type = FREE, op_index = 1, op_size = 7\<rparr>,
       \<lparr>op_type = FREE, op_index = - 1, op_size = 7\<rparr>],
     tr_blocks = [NULL, NULL], tr_block_sizes = [0, 0], tr_rand_base = [0, 0]\<rparr>"

definition no_stats :: stats_t where
  "no_stats = \<lparr>st_filename = [], st_weight = 0, st_ops = 0\<rparr>"

theorem read_trace_roundtrip_witness:
  "read_trace (\<lambda>n. n < 2 ^ 40) (\<lambda>k. 7) no_stats ''traces/'' ''tiny.rep'' (\<lambda>name. if name = ''traces/tiny.rep'' then Some (print_trace tiny_trace) else None) =
     Some (\<lparr>st_filename = ''traces/tiny.rep'', st_weight = 1, st_ops = 5\<rparr>, tiny_trace) \<and>
   print_trace tiny_trace = concat (map (\<lambda>l. l @ [newline]) [''1'', ''2'', ''5'', ''1536'', ''a 0 512'', ''a 1 1024'', ''r 0 60'', ''f 1'', ''f -1''])"
proof
  have five: "k < 5 \<longleftrightarrow> k = 0 \<or> k = 1 \<or> k = 2 \<or> k = 3 \<or> k = 4" for k :: nat
    by auto
  have two: "replicate 2 v = [v, v]" for v :: 'a
    by (simp add: numeral_2_eq_2)
  have "\<forall>k < 5. readable (\<lambda>k. 7) k (tr_ops tiny_trace ! k)"
    unfolding five by (auto simp: readable_def tiny_trace_def)
  then have "writable (\<lambda>k. 7) tiny_trace"
    by (simp add: writable_def MAXLINE_def) (simp add: tiny_trace_def top_index_def two)
  then show "read_trace (\<lambda>n. n < 2 ^ 40) (\<lambda>k. 7) no_stats ''traces/'' ''tiny.rep'' (\<lambda>name. if name = ''traces/tiny.rep'' then Some (print_trace tiny_trace) else None) =
     Some (\<lparr>st_filename = ''traces/tiny.rep'', st_weight = 1, st_ops = 5\<rparr>, tiny_trace)"
    using read_trace_roundtrip [of "\<lambda>k. 7" tiny_trace "''traces/''" "''tiny.rep''"
        "\<lambda>name. if name = ''traces/tiny.rep'' then Some (print_trace tiny_trace) else None" "\<lambda>n. n < 2 ^ 40" no_stats]
    by (simp add: tiny_trace_def no_stats_def)
  show "print_trace tiny_trace = concat (map (\<lambda>l. l @ [newline]) [''1'', ''2'', ''5'', ''1536'', ''a 0 512'', ''a 1 1024'', ''r 0 60'', ''f 1'', ''f -1''])"
    by (simp add: print_trace_def tiny_trace_def print_ops_def print_op_def show_int_def show_nat_def in_base_eval HexDigits_def)
qed

end
