(* ===== verification/Fcyc.thy ===== *)
theory Fcyc
  imports Prelude Complex_Main "HOL-Library.Multiset"
begin

text \<open>
  \<open>fcyc.c\<close> and \<open>clock.c\<close>: the time of a function, as the least of the measurements of a K-best sampler.
  A \<open>double\<close> is a real number, rounded by a parameter after each operation; infinities and NaN are left out.
\<close>

section \<open>State\<close>

record fcyc_params =
  kbest :: int
  clear_cache :: bool
  maxsamples :: int
  epsilon :: real
  cache_bytes :: int
  cache_block :: int
  min_reps :: int
  min_ticks :: int
  min_time :: real

definition default_params :: fcyc_params where
  "default_params = \<lparr>kbest = 3, clear_cache = False, maxsamples = 20, epsilon = 1 / 100, cache_bytes = 2 ^ 19,
     cache_block = 32, min_reps = 8, min_ticks = 1000, min_time = 0\<rparr>"

text \<open>\<open>world\<close>: all that the measured function and the clock depend on; \<open>cache_buf\<close> is \<open>None\<close> for \<open>NULL\<close>.\<close>

record 'w timer =
  cache_buf :: "int list option"
  sink :: int
  last_time :: "int \<times> int"
  cpu_mhz :: real
  world :: 'w

record sampler =
  smp_values :: "real list"
  samplecount :: int

text \<open>
  Parameters: the measured function applied to its argument, the thread clock in seconds and nanoseconds (\<open>None\<close>: the
  call fails), rounding, what \<open>malloc\<close> returns for the cache buffer, whether \<open>calloc\<close> returns memory, the
  lines \<open>fgets\<close> reads from \<open>/proc/cpuinfo\<close> (\<open>None\<close>: not readable), and what \<open>sscanf\<close> converts of a line.
\<close>

record 'w machine =
  m_run :: "'w \<Rightarrow> 'w option"
  m_gettime :: "'w \<Rightarrow> (int \<times> int) option \<times> 'w"
  m_round :: "real \<Rightarrow> real"
  m_buffer :: "int \<Rightarrow> int list option"
  m_calloc :: "int \<Rightarrow> bool"
  m_cpuinfo :: "string list option"
  m_scan_mhz :: "string \<Rightarrow> real option"

section \<open>The clock\<close>

definition timer_resolution :: "'w machine \<Rightarrow> real" where
  "timer_resolution M = m_round M (1 / 10 ^ 9)"

fun strstr :: "string \<Rightarrow> string \<Rightarrow> bool" where
  "strstr [] p \<longleftrightarrow> p = []"
| "strstr (c # s) p \<longleftrightarrow> take (length p) (c # s) = p \<or> strstr s p"

text \<open>The loop over the lines, with the speed of the block it stops in: \<open>sscanf\<close> stores into a variable that this block
  declares, and \<open>cpu_mhz\<close> of the file scope is not assigned. The result is the pair of the two.\<close>

fun cpuinfo_loop :: "'w machine \<Rightarrow> string list \<Rightarrow> real \<Rightarrow> real \<times> real option" where
  "cpuinfo_loop M [] speed = (speed, None)"
| "cpuinfo_loop M (buf # lines) speed =
     (if strstr buf ''cpu MHz'' then (speed, Some (case m_scan_mhz M buf of None \<Rightarrow> 0 | Some v \<Rightarrow> v))
      else cpuinfo_loop M lines speed)"

lemma cpuinfo_loop_speed: "fst (cpuinfo_loop M lines speed) = speed"
  by (induction lines) auto

definition core_mhz :: "'w machine \<Rightarrow> 'w timer \<Rightarrow> real \<times> 'w timer" where
  "core_mhz M t = (let t = t\<lparr>cpu_mhz := 0\<rparr> in
     case m_cpuinfo M of
       None \<Rightarrow> (1000, t\<lparr>cpu_mhz := 1000\<rparr>)
     | Some lines \<Rightarrow> let t = t\<lparr>cpu_mhz := fst (cpuinfo_loop M lines (cpu_mhz t))\<rparr> in
         if cpu_mhz t = 0 then (1000, t\<lparr>cpu_mhz := 1000\<rparr>) else (cpu_mhz t, t))"

definition mhz :: "'w machine \<Rightarrow> 'w timer \<Rightarrow> real \<times> 'w timer" where
  "mhz M t = core_mhz M t"

definition start_timer :: "'w machine \<Rightarrow> 'w timer \<Rightarrow> 'w timer option" where
  "start_timer M t = (let (r, w) = m_gettime M (world t) in
     case r of None \<Rightarrow> None | Some now \<Rightarrow> Some (t\<lparr>last_time := now, world := w\<rparr>))"

definition delta_secs :: "'w machine \<Rightarrow> int \<times> int \<Rightarrow> int \<times> int \<Rightarrow> real" where
  "delta_secs M before now = m_round M
     (m_round M (of_int (fst now - fst before)) + m_round M (m_round M (1 / 10 ^ 9) * m_round M (of_int (snd now - snd before))))"

definition get_timer :: "'w machine \<Rightarrow> 'w timer \<Rightarrow> (real \<times> 'w timer) option" where
  "get_timer M t = (let (r, w) = m_gettime M (world t) in
     case r of None \<Rightarrow> None | Some now \<Rightarrow> Some (delta_secs M (last_time t) now, t\<lparr>world := w\<rparr>))"

definition start_counter :: "'w machine \<Rightarrow> 'w timer \<Rightarrow> 'w timer option" where
  "start_counter M t = (let t = (if cpu_mhz t = 0 then snd (mhz M t) else t) in start_timer M t)"

definition get_counter :: "'w machine \<Rightarrow> 'w timer \<Rightarrow> (real \<times> 'w timer) option" where
  "get_counter M t = do {
     (secs, t) \<leftarrow> get_timer M t;
     Some (m_round M (m_round M (secs * cpu_mhz t) * 10 ^ 6), t)
   }"

section \<open>The sampler\<close>

definition init_min_time :: "'w machine \<Rightarrow> fcyc_params \<Rightarrow> fcyc_params" where
  "init_min_time M P = (if min_time P = 0 then P\<lparr>min_time := m_round M (of_int (min_ticks P) * timer_resolution M)\<rparr> else P)"

text \<open>Without memory \<open>values\<close> is \<open>NULL\<close>: here an array without elements.\<close>

definition init_sampler :: "'w machine \<Rightarrow> fcyc_params \<Rightarrow> sampler" where
  "init_sampler M P = \<lparr>smp_values = (if m_calloc M (kbest P) then replicate (nat (kbest P)) 0 else []), samplecount = 0\<rparr>"

definition value_get :: "real list \<Rightarrow> int \<Rightarrow> real option" where
  "value_get vs i = (if 0 \<le> i then array_get vs (nat i) else None)"

definition value_set :: "real list \<Rightarrow> int \<Rightarrow> real \<Rightarrow> real list option" where
  "value_set vs i v = (if 0 \<le> i then array_set vs (nat i) v else None)"

fun insertion :: "nat \<Rightarrow> real list \<Rightarrow> real list option" where
  "insertion 0 vs = Some vs"
| "insertion (Suc p) vs = do {
     a \<leftarrow> array_get vs p;
     b \<leftarrow> array_get vs (Suc p);
     if a > b then insertion p (vs[p := b, Suc p := a]) else Some vs
   }"

definition add_sample :: "fcyc_params \<Rightarrow> real \<Rightarrow> sampler \<Rightarrow> sampler option" where
  "add_sample P val s = do {
     (pos, vs) \<leftarrow> (if samplecount s < kbest P then do {
         vs \<leftarrow> value_set (smp_values s) (samplecount s) val;
         Some (samplecount s, vs)
       } else do {
         worst \<leftarrow> value_get (smp_values s) (kbest P - 1);
         if val < worst then do {
           vs \<leftarrow> value_set (smp_values s) (kbest P - 1) val;
           Some (kbest P - 1, vs)
         } else Some (0, smp_values s)
       });
     vs \<leftarrow> insertion (nat pos) vs;
     Some (s\<lparr>smp_values := vs, samplecount := samplecount s + 1\<rparr>)
   }"

definition has_converged :: "'w machine \<Rightarrow> fcyc_params \<Rightarrow> sampler \<Rightarrow> bool option" where
  "has_converged M P s =
     (if samplecount s \<ge> kbest P then do {
        best \<leftarrow> value_get (smp_values s) 0;
        worst \<leftarrow> value_get (smp_values s) (kbest P - 1);
        Some (m_round M (m_round M (1 + epsilon P) * best) \<ge> worst)
      } else Some False)"

section \<open>Clearing the cache\<close>

text \<open>\<open>long\<close> has 64 bits, and its overflow is undefined. The divisions by \<open>sizeof(long)\<close> are unsigned.\<close>

definition long_ok :: "int \<Rightarrow> bool" where
  "long_ok i \<longleftrightarrow> - (2 ^ 63) \<le> i \<and> i < 2 ^ 63"

definition longs_in :: "int \<Rightarrow> nat" where
  "longs_in bytes = unat ((of_int bytes :: u64) div 8)"

partial_function (option) clear_walk :: "int list \<Rightarrow> nat \<Rightarrow> nat \<Rightarrow> nat \<Rightarrow> int \<Rightarrow> int option" where
  "clear_walk buf cend incr cptr x =
     (if cptr < cend then do {
        v \<leftarrow> array_get buf cptr;
        guard (long_ok (x + v));
        clear_walk buf cend incr (cptr + incr) (x + v)
      } else Some x)"

definition clear :: "'w machine \<Rightarrow> fcyc_params \<Rightarrow> 'w timer \<Rightarrow> 'w timer option" where
  "clear M P t = do {
     let x = sink t;
     let incr = longs_in (cache_block P);
     buf \<leftarrow> (case cache_buf t of Some buf \<Rightarrow> Some buf | None \<Rightarrow> m_buffer M (cache_bytes P));
     let t = t\<lparr>cache_buf := Some buf\<rparr>;
     x \<leftarrow> clear_walk buf (longs_in (cache_bytes P)) incr 0 x;
     Some (t\<lparr>sink := x\<rparr>)
   }"

definition maybe_clear :: "'w machine \<Rightarrow> fcyc_params \<Rightarrow> 'w timer \<Rightarrow> 'w timer option" where
  "maybe_clear M P t = (if clear_cache P then clear M P t else Some t)"

section \<open>Measuring\<close>

fun run_reps :: "'w machine \<Rightarrow> nat \<Rightarrow> 'w \<Rightarrow> 'w option" where
  "run_reps M 0 w = Some w"
| "run_reps M (Suc r) w = do { w \<leftarrow> m_run M w; run_reps M r w }"

definition time_run :: "'w machine \<Rightarrow> fcyc_params \<Rightarrow> int \<Rightarrow> 'w timer \<Rightarrow> (real \<times> 'w timer) option" where
  "time_run M P reps t = do {
     t \<leftarrow> maybe_clear M P t;
     t \<leftarrow> start_timer M t;
     w \<leftarrow> run_reps M (nat reps) (world t);
     get_timer M (t\<lparr>world := w\<rparr>)
   }"

text \<open>The repetitions are doubled until they take a meaningful time.\<close>

partial_function (option) reps_loop ::
  "'w machine \<Rightarrow> fcyc_params \<Rightarrow> real \<Rightarrow> int \<Rightarrow> 'w timer \<Rightarrow> (int \<times> 'w timer) option" where
  "reps_loop M P sec reps t =
     (if sec < min_time P then do {
        (sec, t) \<leftarrow> time_run M P reps t;
        reps \<leftarrow> (if sec < min_time P then do { guard (long_ok (reps + reps)); Some (reps + reps) } else Some reps);
        reps_loop M P sec reps t
      } else Some (reps, t))"

definition sample_cyc :: "'w machine \<Rightarrow> fcyc_params \<Rightarrow> int \<Rightarrow> 'w timer \<Rightarrow> (real \<times> 'w timer) option" where
  "sample_cyc M P reps t = do {
     t \<leftarrow> maybe_clear M P t;
     t \<leftarrow> start_counter M t;
     w \<leftarrow> run_reps M (nat reps) (world t);
     (c, t) \<leftarrow> get_counter M (t\<lparr>world := w\<rparr>);
     guard (reps \<noteq> 0);
     Some (m_round M (c / m_round M (of_int reps)), t)
   }"

definition sample_sec :: "'w machine \<Rightarrow> fcyc_params \<Rightarrow> int \<Rightarrow> 'w timer \<Rightarrow> (real \<times> 'w timer) option" where
  "sample_sec M P reps t = do {
     (sec, t) \<leftarrow> time_run M P reps t;
     guard (reps \<noteq> 0);
     Some (m_round M (sec / m_round M (of_int reps)), t)
   }"

text \<open>The loop of both functions; \<open>msr\<close> is one of the two samples. Values that are not positive do not count.\<close>

partial_function (option) sample_loop ::
  "'w machine \<Rightarrow> fcyc_params \<Rightarrow> ('w timer \<Rightarrow> (real \<times> 'w timer) option) \<Rightarrow> sampler \<Rightarrow> 'w timer \<Rightarrow> (sampler \<times> 'w timer) option" where
  "sample_loop M P msr s t = do {
     (v, t) \<leftarrow> msr t;
     s \<leftarrow> (if v > 0 then add_sample P v s else Some s);
     c \<leftarrow> has_converged M P s;
     if \<not> c \<and> samplecount s < maxsamples P then sample_loop M P msr s t else Some (s, t)
   }"

definition fcyc :: "'w machine \<Rightarrow> fcyc_params \<Rightarrow> 'w timer \<Rightarrow> (real \<times> fcyc_params \<times> 'w timer) option" where
  "fcyc M P t = do {
     let P = init_min_time M P;
     (reps, t) \<leftarrow> reps_loop M P 0 (min_reps P) t;
     (s, t) \<leftarrow> sample_loop M P (sample_cyc M P reps) (init_sampler M P) t;
     result \<leftarrow> value_get (smp_values s) 0;
     Some (result, P, t)
   }"

definition fsec :: "'w machine \<Rightarrow> fcyc_params \<Rightarrow> 'w timer \<Rightarrow> (real \<times> fcyc_params \<times> 'w timer) option" where
  "fsec M P t = do {
     let P = init_min_time M P;
     (reps, t) \<leftarrow> reps_loop M P 0 (min_reps P) t;
     (s, t) \<leftarrow> sample_loop M P (sample_sec M P reps) (init_sampler M P) t;
     result \<leftarrow> value_get (smp_values s) 0;
     Some (result, P, t)
   }"

text \<open>The parameters.\<close>

definition set_fcyc_min_ticks :: "int \<Rightarrow> fcyc_params \<Rightarrow> fcyc_params" where
  "set_fcyc_min_ticks t P = P\<lparr>min_ticks := t\<rparr>"

definition set_fcyc_min_reps :: "int \<Rightarrow> fcyc_params \<Rightarrow> fcyc_params" where
  "set_fcyc_min_reps r P = P\<lparr>min_reps := r\<rparr>"

definition set_fcyc_clear_cache :: "int \<Rightarrow> fcyc_params \<Rightarrow> fcyc_params" where
  "set_fcyc_clear_cache c P = P\<lparr>clear_cache := c \<noteq> 0\<rparr>"

definition set_fcyc_cache_size :: "int \<Rightarrow> fcyc_params \<Rightarrow> 'w timer \<Rightarrow> fcyc_params \<times> 'w timer" where
  "set_fcyc_cache_size bytes P t =
     (if bytes \<noteq> cache_bytes P then (P\<lparr>cache_bytes := bytes\<rparr>, t\<lparr>cache_buf := None\<rparr>) else (P, t))"

definition set_fcyc_cache_block :: "int \<Rightarrow> fcyc_params \<Rightarrow> fcyc_params" where
  "set_fcyc_cache_block bytes P = P\<lparr>cache_block := bytes\<rparr>"

definition set_fcyc_k :: "int \<Rightarrow> fcyc_params \<Rightarrow> fcyc_params" where
  "set_fcyc_k k P = P\<lparr>kbest := k\<rparr>"

definition set_fcyc_maxsamples :: "int \<Rightarrow> fcyc_params \<Rightarrow> fcyc_params" where
  "set_fcyc_maxsamples m P = P\<lparr>maxsamples := m\<rparr>"

definition set_fcyc_epsilon :: "real \<Rightarrow> fcyc_params \<Rightarrow> fcyc_params" where
  "set_fcyc_epsilon e P = P\<lparr>epsilon := e\<rparr>"


section \<open>The sampler keeps the least values\<close>

lemma insort_below:
  assumes "sorted (ws @ [w])" "y < w"
  shows "insort y (ws @ [w]) = insort y ws @ [w]"
  using assms by (induction ws) auto

lemma insort_above:
  assumes "sorted ws" "\<forall>w \<in> set ws. w \<le> y"
  shows "insort y ws = ws @ [y :: real]"
proof -
  have "sorted (ws @ [y])" "mset (ws @ [y]) = mset (insort y ws)"
    using assms by (simp_all add: sorted_append)
  then show ?thesis
    using assms(1) by (metis properties_for_sort sorted_insort sorted_sort_id)
qed

lemma insertion_insort:
  "sorted ws \<Longrightarrow> insertion (length ws) (ws @ y # zs) = Some (insort y ws @ zs)"
proof (induction ws arbitrary: zs rule: rev_induct)
  case (snoc w ws)
  show ?case
  proof (cases "w > y")
    case True
    have "insertion (length ws) (ws @ y # w # zs) = Some (insort y ws @ w # zs)"
      using snoc.IH [of "w # zs"] snoc.prems by (simp add: sorted_append)
    with True insort_below [OF snoc.prems True] show ?thesis
      by (simp add: nth_append list_update_append)
  next
    case False
    then have "insort y (ws @ [w]) = (ws @ [w]) @ [y]"
      using snoc.prems by (intro insort_above) (auto simp: sorted_append)
    with False show ?thesis
      by (simp add: nth_append)
  qed
qed simp

text \<open>Of the values \<open>vs\<close> measured so far the sampler has the \<open>k\<close> least, in order.\<close>

definition keeps_best :: "nat \<Rightarrow> real list \<Rightarrow> sampler \<Rightarrow> bool" where
  "keeps_best k vs s \<longleftrightarrow> samplecount s = int (length vs) \<and> length (smp_values s) = k \<and>
     take (min k (length vs)) (smp_values s) = take k (sort vs)"

lemma take_insort: "take k (insort (v :: real) xs) = take k (insort v (take k xs))"
proof (induction xs arbitrary: k)
  case (Cons x xs)
  show ?case
  proof (cases k)
    case (Suc n)
    then show ?thesis
      using Cons.IH [of n] by (cases n) (auto simp: take_Cons')
  qed simp
qed simp


lemma sort_insort: "sort (v # vs) = insort v (sort vs)"
  by simp

lemma keeps_bestD:
  assumes "keeps_best k vs s"
  shows "length vs < k \<Longrightarrow> smp_values s = sort vs @ drop (length vs) (smp_values s)"
    "k \<le> length vs \<Longrightarrow> smp_values s = take k (sort vs)"
proof -
  show "smp_values s = sort vs @ drop (length vs) (smp_values s)" if "length vs < k"
    using assms that append_take_drop_id [of "length vs" "smp_values s"] by (simp add: keeps_best_def)
  show "smp_values s = take k (sort vs)" if "k \<le> length vs"
    using assms that by (auto simp: keeps_best_def min_absorb1)
qed

lemma add_sample_ok:
  assumes s: "keeps_best k vs s" and k: "0 < k" "kbest P = int k"
  obtains s' where "add_sample P v s = Some s'" "keeps_best k (v # vs) s'"
proof (cases "length vs < k")
  case True
  note vals = keeps_bestD(1) [OF s True]
  have n: "samplecount s = int (length vs)" "length (smp_values s) = k"
    using s by (simp_all add: keeps_best_def)
  have "(smp_values s)[length vs := v] = sort vs @ v # drop (Suc (length vs)) (smp_values s)"
    using n(2) True by (subst vals) (simp add: list_update_append Cons_nth_drop_Suc [symmetric])
  then have "insertion (length vs) ((smp_values s)[length vs := v]) = Some (insort v (sort vs) @ drop (Suc (length vs)) (smp_values s))"
    using insertion_insort [of "sort vs" v] by simp
  then have "add_sample P v s = Some (s\<lparr>smp_values := insort v (sort vs) @ drop (Suc (length vs)) (smp_values s), samplecount := samplecount s + 1\<rparr>)"
    using n k True by (simp add: add_sample_def value_set_def)
  then show ?thesis
    by (rule that) (use n True in \<open>simp add: keeps_best_def\<close>)
next
  case False
  then have kn: "k \<le> length vs"
    by simp
  note vals = keeps_bestD(2) [OF s kn]
  have n: "samplecount s = int (length vs)" "length (smp_values s) = k"
    using s by (simp_all add: keeps_best_def)
  have sorted: "sorted (smp_values s)"
    unfolding vals by (simp add: sorted_wrt_take)
  obtain ws w where ws: "smp_values s = ws @ [w]"
    using n(2) k(1) by (metis append_butlast_last_id length_greater_0_conv)
  then have lw: "length ws = k - 1" "(smp_values s) ! (k - 1) = w"
    using n(2) by (auto simp: nth_append)
  have best: "take k (sort (v # vs)) = take k (insort v (smp_values s))"
    unfolding sort_insort vals by (rule take_insort)
  have km: "nat (int k - 1) = k - 1" "0 \<le> int k - 1"
    using k(1) by auto
  show ?thesis
  proof (cases "v < w")
    case True
    have "(smp_values s)[k - 1 := v] = ws @ [v]"
      using ws lw(1) by (simp add: list_update_append)
    then have "insertion (k - 1) ((smp_values s)[k - 1 := v]) = Some (insort v ws)"
      using insertion_insort [of ws v "[]"] sorted ws lw(1) by (simp add: sorted_append)
    then have "add_sample P v s = Some (s\<lparr>smp_values := insort v ws, samplecount := samplecount s + 1\<rparr>)"
      using n k kn km True lw(2) by (simp add: add_sample_def value_set_def value_get_def)
    moreover have "take k (insort v (smp_values s)) = insort v ws"
      using insort_below [OF sorted [unfolded ws] True] lw(1) k(1) ws by simp
    ultimately show ?thesis
      by (intro that) (use n(1) kn lw(1) k(1) best in \<open>auto simp: keeps_best_def min_absorb1\<close>)
  next
    case False
    have "add_sample P v s = Some (s\<lparr>samplecount := samplecount s + 1\<rparr>)"
      using n k kn km False lw(2) by (simp add: add_sample_def value_get_def)
    moreover have "insort v (smp_values s) = smp_values s @ [v]"
      using sorted False ws by (intro insort_above) (auto simp: sorted_append)
    ultimately show ?thesis
      by (intro that) (use n kn best in \<open>auto simp: keeps_best_def min_absorb1\<close>)
  qed
qed


section \<open>Measurements end\<close>

text \<open>\<open>n\<close> measurements one after the other.\<close>

fun samples :: "('w timer \<Rightarrow> (real \<times> 'w timer) option) \<Rightarrow> nat \<Rightarrow> 'w timer \<Rightarrow> (real list \<times> 'w timer) option" where
  "samples f 0 t = Some ([], t)"
| "samples f (Suc n) t = do { (v, t) \<leftarrow> f t; (vs, t) \<leftarrow> samples f n t; Some (v # vs, t) }"

text \<open>In the states \<open>I\<close> the measurement is defined and positive, and leads to a state of \<open>I\<close>.\<close>

definition measures :: "'w timer set \<Rightarrow> ('w timer \<Rightarrow> (real \<times> 'w timer) option) \<Rightarrow> bool" where
  "measures I f \<longleftrightarrow> (\<forall>t \<in> I. \<exists>v t'. f t = Some (v, t') \<and> 0 < v \<and> t' \<in> I)"

lemma sort_least:
  assumes "vs \<noteq> []"
  shows "sort vs ! 0 = Min (set (vs :: real list))"
proof (rule Min_eqI [symmetric])
  fix y
  assume "y \<in> set vs"
  then obtain i where "i < length (sort vs)" "sort vs ! i = y"
    using in_set_conv_nth [of y "sort vs"] by auto
  then show "sort vs ! 0 \<le> y"
    using sorted_nth_mono [of "sort vs" 0 i] by simp
next
  show "sort vs ! 0 \<in> set vs"
    using nth_mem [of 0 "sort vs"] assms by simp
qed simp

lemma has_converged_value:
  assumes "keeps_best k vs s" "0 < k" "kbest P = int k" "vs \<noteq> []"
  shows "value_get (smp_values s) 0 = Some (Min (set vs))"
    "has_converged M P s = Some (k \<le> length vs \<and> m_round M (m_round M (1 + epsilon P) * Min (set vs)) \<ge> sort vs ! (k - 1))"
proof -
  have n: "samplecount s = int (length vs)" "length (smp_values s) = k"
    using assms(1) by (simp_all add: keeps_best_def)
  have "sort vs ! 0 = Min (set vs)"
    by (rule sort_least [OF assms(4)])
  moreover have "take (min k (length vs)) (smp_values s) ! 0 = take k (sort vs) ! 0"
    using assms(1) by (simp add: keeps_best_def)
  then have "smp_values s ! 0 = sort vs ! 0"
    using assms(2,4) by simp
  ultimately show v: "value_get (smp_values s) 0 = Some (Min (set vs))"
    using n(2) assms(2) by (simp add: value_get_def)
  have "smp_values s ! (k - 1) = sort vs ! (k - 1)" if "k \<le> length vs"
    using keeps_bestD(2) [OF assms(1) that] assms(2) by simp
  moreover have "nat (int k - 1) = k - 1"
    using assms(2) by simp
  ultimately show "has_converged M P s = Some (k \<le> length vs \<and> m_round M (m_round M (1 + epsilon P) * Min (set vs)) \<ge> sort vs ! (k - 1))"
    using v n assms(2,3) by (auto simp: has_converged_def value_get_def)
qed


lemma samples_Suc: "f t = Some (v, t1) \<Longrightarrow> samples f n t1 = Some (vs, t') \<Longrightarrow> samples f (Suc n) t = Some (v # vs, t')"
  by simp

lemma sample_loop_ends:
  assumes f: "measures I f" and k: "0 < k" "kbest P = int k"
    and s: "keeps_best k ws s" and t: "t \<in> I" and n: "int (length ws) < max 1 (maxsamples P)"
  shows "\<exists>n vs s' t'. sample_loop M P f s t = Some (s', t') \<and> samples f (Suc n) t = Some (vs, t') \<and>
    length vs = Suc n \<and> keeps_best k (rev vs @ ws) s' \<and> int (length (rev vs @ ws)) \<le> max 1 (maxsamples P) \<and>
    (has_converged M P s' = Some True \<or> maxsamples P \<le> int (length (rev vs @ ws)))"
  using s t n
proof (induction "nat (max 1 (maxsamples P)) - length ws" arbitrary: ws s t rule: less_induct)
  case less
  obtain v t1 where v: "f t = Some (v, t1)" "0 < v" "t1 \<in> I"
    using f less.prems(2) by (auto simp: measures_def)
  obtain s1 where s1: "add_sample P v s = Some s1" "keeps_best k (v # ws) s1"
    by (rule add_sample_ok [OF less.prems(1) k])
  have cnt: "samplecount s1 = int (length (v # ws))"
    using s1(2) by (simp add: keeps_best_def)
  obtain c where c: "has_converged M P s1 = Some c"
    using has_converged_value(2) [OF s1(2) k] by auto
  show ?case
  proof (cases "\<not> c \<and> samplecount s1 < maxsamples P")
    case True
    then have "sample_loop M P f s t = sample_loop M P f s1 t1"
      using v s1(1) c by (subst sample_loop.simps) simp
    moreover obtain n vs s' t' where IH: "sample_loop M P f s1 t1 = Some (s', t')" "samples f (Suc n) t1 = Some (vs, t')"
      "length vs = Suc n" "keeps_best k (rev vs @ v # ws) s'" "int (length (rev vs @ v # ws)) \<le> max 1 (maxsamples P)"
      "has_converged M P s' = Some True \<or> maxsamples P \<le> int (length (rev vs @ v # ws))"
      using less.hyps [OF _ s1(2) v(3)] True cnt by (fastforce simp del: samples.simps)
    moreover have "samples f (Suc (Suc n)) t = Some (v # vs, t')"
      by (rule samples_Suc [OF v(1) IH(2)])
    moreover have "rev (v # vs) @ ws = rev vs @ v # ws" "length (v # vs) = Suc (Suc n)"
      using IH(3) by simp_all
    ultimately show ?thesis
      using IH(4-6) by (intro exI [of _ "Suc n"] exI [of _ "v # vs"] exI [of _ s'] exI [of _ t']) (simp only: simp_thms)
  next
    case False
    then have "sample_loop M P f s t = Some (s1, t1)"
      using v s1(1) c by (subst sample_loop.simps) auto
    then show ?thesis
      using v(1) s1(2) c False cnt less.prems(3) by (intro exI [of _ 0] exI [of _ "[v]"] exI [of _ s1] exI [of _ t1]) auto
  qed
qed


text \<open>The clock makes progress: in the states \<open>I\<close> every timed run is defined, and one of \<open>2^62\<close> repetitions takes the
  minimal time.\<close>

definition progresses :: "'w machine \<Rightarrow> fcyc_params \<Rightarrow> 'w timer set \<Rightarrow> bool" where
  "progresses M P I \<longleftrightarrow> (\<forall>reps > 0. \<forall>t \<in> I. \<exists>sec t'. time_run M P reps t = Some (sec, t') \<and> t' \<in> I \<and>
     (2 ^ 62 \<le> reps \<longrightarrow> min_time P \<le> sec))"

lemma reps_loop_ends:
  assumes I: "progresses M P I" "t \<in> I" and reps: "0 < reps" "reps < 2 ^ 63"
  shows "\<exists>reps' t'. reps_loop M P sec reps t = Some (reps', t') \<and> reps \<le> reps' \<and> t' \<in> I"
  using I(2) reps
proof (induction "nat (2 ^ 63 - reps)" arbitrary: sec reps t rule: less_induct)
  case less
  obtain sec' t1 where run: "time_run M P reps t = Some (sec', t1)" "t1 \<in> I" "2 ^ 62 \<le> reps \<Longrightarrow> min_time P \<le> sec'"
    using I(1) less.prems by (fastforce simp: progresses_def)
  consider "\<not> sec < min_time P" | "sec < min_time P" "\<not> sec' < min_time P" | "sec < min_time P" "sec' < min_time P"
    by blast
  then show ?case
  proof cases
    case 1
    then show ?thesis
      using less.prems(1) by (subst reps_loop.simps) auto
  next
    case 2
    then show ?thesis
      using run by (subst reps_loop.simps, subst reps_loop.simps) auto
  next
    case 3
    then have small: "reps < 2 ^ 62"
      using run(3) by force
    then have "reps_loop M P sec reps t = reps_loop M P sec' (reps + reps) t1"
      using run(1) 3 less.prems(2) by (subst reps_loop.simps) (simp add: long_ok_def)
    moreover have "\<exists>reps' t'. reps_loop M P sec' (reps + reps) t1 = Some (reps', t') \<and> reps + reps \<le> reps' \<and> t' \<in> I"
      using small less.prems(2) by (intro less.hyps run(2)) auto
    ultimately show ?thesis
      using less.prems(2) by force
  qed
qed

definition usable :: "'w machine \<Rightarrow> fcyc_params \<Rightarrow> 'w timer set \<Rightarrow> bool" where
  "usable M P I \<longleftrightarrow> 0 < kbest P \<and> m_calloc M (kbest P) \<and> 0 < min_reps P \<and> min_reps P < 2 ^ 63 \<and>
     progresses M (init_min_time M P) I \<and> (\<forall>reps > 0. measures I (sample_cyc M (init_min_time M P) reps))"

text \<open>C40: \<open>fcyc\<close> ends, if the clock makes progress and the samples are positive. It doubles the repetitions until a
  run takes the minimal time, measures at least one and at most \<open>maxsamples\<close> samples, and returns the least of
  them. If it stops before \<open>maxsamples\<close>, the \<open>kbest\<close> least samples are within \<open>epsilon\<close> of the result.\<close>

theorem fcyc_ends:
  assumes "usable M P I" "t \<in> I"
  shows "\<exists>reps t0 n vs t'. min_reps P \<le> reps \<and> reps_loop M (init_min_time M P) 0 (min_reps P) t = Some (reps, t0) \<and>
    samples (sample_cyc M (init_min_time M P) reps) (Suc n) t0 = Some (vs, t') \<and>
    fcyc M P t = Some (Min (set vs), init_min_time M P, t') \<and> int (Suc n) \<le> max 1 (maxsamples P) \<and>
    (int (Suc n) < maxsamples P \<longrightarrow> kbest P \<le> int (Suc n) \<and>
      sort vs ! (nat (kbest P) - 1) \<le> m_round M (m_round M (1 + epsilon P) * Min (set vs)))"
proof -
  let ?P = "init_min_time M P" and ?k = "nat (kbest P)"
  have P: "kbest ?P = int ?k" "0 < ?k" "maxsamples ?P = maxsamples P" "epsilon ?P = epsilon P" "min_reps ?P = min_reps P"
    and M: "m_calloc M (kbest ?P)" "0 < min_reps P" "min_reps P < 2 ^ 63" "progresses M ?P I"
    "\<And>reps. 0 < reps \<Longrightarrow> measures I (sample_cyc M ?P reps)"
    using assms(1) by (auto simp: usable_def init_min_time_def)
  obtain reps t0 where reps: "reps_loop M ?P 0 (min_reps P) t = Some (reps, t0)" "min_reps P \<le> reps" "t0 \<in> I"
    using reps_loop_ends [OF M(4) assms(2) M(2,3)] by blast
  have "keeps_best ?k [] (init_sampler M ?P)"
    using M(1) P(1) by (simp add: keeps_best_def init_sampler_def)
  moreover have "measures I (sample_cyc M ?P reps)"
    using M(2) reps(2) by (intro M(5)) linarith
  moreover have "int (length []) < max 1 (maxsamples ?P)"
    by simp
  ultimately obtain n vs s' t' where s': "sample_loop M ?P (sample_cyc M ?P reps) (init_sampler M ?P) t0 = Some (s', t')"
    "samples (sample_cyc M ?P reps) (Suc n) t0 = Some (vs, t')" "length vs = Suc n" "keeps_best ?k (rev vs @ []) s'"
    "int (length (rev vs @ [])) \<le> max 1 (maxsamples ?P)"
    "has_converged M ?P s' = Some True \<or> maxsamples ?P \<le> int (length (rev vs @ []))"
    using sample_loop_ends [OF _ P(2,1) _ reps(3), of "sample_cyc M ?P reps" "[]" "init_sampler M ?P" M] by blast
  have vs: "keeps_best ?k (rev vs) s'" "rev vs \<noteq> []"
    using s'(3,4) by auto
  note conv = has_converged_value [OF vs(1) P(2,1) vs(2)]
  have "sort (rev vs) = sort vs"
    by (rule properties_for_sort) simp_all
  then have "int (Suc n) < maxsamples P \<longrightarrow> kbest P \<le> int (Suc n) \<and>
      sort vs ! (?k - 1) \<le> m_round M (m_round M (1 + epsilon P) * Min (set vs))"
    using conv(2) [of M] s'(3,6) P by auto
  moreover have "fcyc M P t = Some (Min (set vs), ?P, t')"
    using reps(1) s'(1) conv(1) P(5) by (simp add: fcyc_def Let_def)
  ultimately show ?thesis
    using reps(1,2) s'(2,3,5) P(3) by fastforce
qed


text \<open>A machine whose clock counts the calls, in nanoseconds.\<close>

definition some_machine :: "nat machine" where
  "some_machine = \<lparr>m_run = (\<lambda>w. Some (w + 1)), m_gettime = (\<lambda>w. (Some (int (w div 10 ^ 9), int (w mod 10 ^ 9)), w)),
     m_round = id, m_buffer = (\<lambda>b. Some (replicate (longs_in b) 0)), m_calloc = (\<lambda>k. True), m_cpuinfo = Some [], m_scan_mhz = (\<lambda>l. None)\<rparr>"

definition some_timer :: "nat timer" where
  "some_timer = \<lparr>cache_buf = None, sink = 0, last_time = (0, 0), cpu_mhz = 0, world = 0\<rparr>"

lemma some_run: "run_reps some_machine n w = Some (w + n)"
  by (induction n arbitrary: w) (simp_all add: some_machine_def)

lemma some_delta:
  "delta_secs some_machine (int (w div 10 ^ 9), int (w mod 10 ^ 9)) (int ((w + n) div 10 ^ 9), int ((w + n) mod 10 ^ 9)) = real n / 10 ^ 9"
proof -
  have d: "real v = 10 ^ 9 * real (v div 10 ^ 9) + real (v mod 10 ^ 9)" for v :: nat
  proof -
    have "real v = real (10 ^ 9 * (v div 10 ^ 9) + v mod 10 ^ 9)"
      by (simp only: mult_div_mod_eq)
    also have "\<dots> = 10 ^ 9 * real (v div 10 ^ 9) + real (v mod 10 ^ 9)"
      by (simp only: of_nat_add of_nat_mult of_nat_power of_nat_numeral)
    finally show ?thesis .
  qed
  have "real (w + n) = real w + real n"
    by simp
  then show ?thesis
    using d [of w] d [of "w + n"] by (simp add: delta_secs_def some_machine_def field_simps)
qed

lemma some_time_run:
  "\<not> clear_cache P \<Longrightarrow> time_run some_machine P reps t = Some (real (nat reps) / 10 ^ 9,
    t\<lparr>last_time := (int (world t div 10 ^ 9), int (world t mod 10 ^ 9)), world := world t + nat reps\<rparr>)"
  using some_delta [of "world t" "nat reps"] some_run [of "nat reps" "world t"]
  by (simp add: time_run_def maybe_clear_def start_timer_def get_timer_def) (simp add: some_machine_def)

lemma some_sample:
  assumes "\<not> clear_cache P" "cpu_mhz t = 0 \<or> cpu_mhz t = 1000" "0 < reps"
  shows "\<exists>t'. sample_cyc some_machine P reps t = Some (1, t') \<and> cpu_mhz t' = 1000"
proof -
  have "(real (nat reps) / 10 ^ 9 * 1000 * 10 ^ 6) / of_int reps = 1"
    using assms(3) by (simp add: field_simps)
  then show ?thesis
    using assms some_delta [of "world t" "nat reps"] some_run [of "nat reps" "world t"]
    by (auto simp: sample_cyc_def maybe_clear_def start_counter_def mhz_def core_mhz_def cpuinfo_loop_speed start_timer_def get_counter_def get_timer_def Let_def
        some_machine_def)
qed

lemma some_usable: "usable some_machine default_params {t. cpu_mhz t = 0 \<or> cpu_mhz t = 1000}"
proof -
  let ?P = "init_min_time some_machine default_params"
  have P: "\<not> clear_cache ?P" "min_time ?P = 1 / 10 ^ 6"
    by (simp_all add: init_min_time_def default_params_def timer_resolution_def some_machine_def)
  have "progresses some_machine ?P {t. cpu_mhz t = 0 \<or> cpu_mhz t = 1000}"
    unfolding progresses_def
  proof (intro allI impI ballI)
    fix reps :: int and t :: "nat timer"
    assume t: "t \<in> {t. cpu_mhz t = 0 \<or> cpu_mhz t = 1000}"
    let ?t' = "t\<lparr>last_time := (int (world t div 10 ^ 9), int (world t mod 10 ^ 9)), world := world t + nat reps\<rparr>"
    have "?t' \<in> {t. cpu_mhz t = 0 \<or> cpu_mhz t = 1000}"
      using t by simp
    moreover have "2 ^ 62 \<le> reps \<longrightarrow> min_time ?P \<le> real (nat reps) / 10 ^ 9"
      unfolding P(2) by simp
    ultimately show "\<exists>sec t'. time_run some_machine ?P reps t = Some (sec, t') \<and> t' \<in> {t. cpu_mhz t = 0 \<or> cpu_mhz t = 1000} \<and>
        (2 ^ 62 \<le> reps \<longrightarrow> min_time ?P \<le> sec)"
      using some_time_run [OF P(1), of reps t] by blast
  qed
  moreover have "measures {t. cpu_mhz t = 0 \<or> cpu_mhz t = 1000} (sample_cyc some_machine ?P reps)" if "0 < reps" for reps
    using some_sample [OF P(1) _ that] by (fastforce simp: measures_def)
  ultimately show ?thesis
    by (simp add: usable_def) (simp add: default_params_def some_machine_def)
qed

theorem fcyc_ends_witness:
  "\<exists>r P t. fcyc some_machine default_params some_timer = Some (r, P, t)"
  using fcyc_ends [OF some_usable, of some_timer] by (auto simp: some_timer_def)


section \<open>Where the measurement goes wrong\<close>

text \<open>The clock rate is 1000 MHz whatever \<open>/proc/cpuinfo\<close> says.\<close>

lemma core_mhz_constant: "core_mhz M t = (1000, t\<lparr>cpu_mhz := 1000\<rparr>)"
  by (simp add: core_mhz_def cpuinfo_loop_speed Let_def split: option.split)

text \<open>With a cache block of less than 8 bytes the loop of \<open>clear\<close> does not move.\<close>

lemma clear_walk_stuck:
  assumes "clear_walk buf cend incr cptr x = Some y"
  shows "\<not> (incr = 0 \<and> cptr < cend)"
  by (rule clear_walk.raw_induct [where P = "\<lambda>buf cend incr cptr x y. \<not> (incr = 0 \<and> cptr < cend)" and xa = "((((buf, cend), incr), cptr), x)", unfolded prod.case, OF _ assms])
    (fastforce simp: Option.bind_eq_Some_conv split: if_splits)

lemma clear_stuck:
  assumes "longs_in (cache_block P) = 0" "0 < longs_in (cache_bytes P)"
  shows "clear M P t = None"
proof -
  have "clear_walk buf (longs_in (cache_bytes P)) (longs_in (cache_block P)) 0 x = None" for buf x
    using clear_walk_stuck [of buf "longs_in (cache_bytes P)" "longs_in (cache_block P)" 0 x] assms by (cases "clear_walk buf (longs_in (cache_bytes P)) (longs_in (cache_block P)) 0 x") auto
  then show ?thesis
    by (auto simp: clear_def Let_def split: option.split Option.bind_split)
qed

end
