(* ===== verification/Topology.thy ===== *)
theory Topology
  imports Scanf
begin

text \<open>
  The topology of the stress test of the channels (\<open>stress.c\<close>): the matrix of distances read from a file and its solution,
  the distances of shortest routes, against which the test compares what the router threads agree on.
\<close>

section \<open>State\<close>

type_synonym distance_t = u32

record topology_t =
  num_channel :: u64
  topology :: "distance_t list"
  solution :: "distance_t list"

definition inf_distance :: distance_t where
  "inf_distance = 0x7fffffff"

definition cell :: "topology_t \<Rightarrow> u64 \<Rightarrow> u64 \<Rightarrow> nat" where
  "cell t src dst = unat (src * num_channel t + dst)"

definition get_link_distance :: "topology_t \<Rightarrow> u64 \<Rightarrow> u64 \<Rightarrow> distance_t option" where
  "get_link_distance t src dst = array_get (topology t) (cell t src dst)"

definition set_link_distance :: "u64 \<Rightarrow> u64 \<Rightarrow> distance_t \<Rightarrow> topology_t \<Rightarrow> topology_t option" where
  "set_link_distance src dst distance t = do {
     a \<leftarrow> array_set (topology t) (cell t src dst) distance;
     Some (t\<lparr>topology := a\<rparr>)
   }"

definition get_solution_distance :: "topology_t \<Rightarrow> u64 \<Rightarrow> u64 \<Rightarrow> distance_t option" where
  "get_solution_distance t src dst = array_get (solution t) (cell t src dst)"

definition set_solution_distance :: "u64 \<Rightarrow> u64 \<Rightarrow> distance_t \<Rightarrow> topology_t \<Rightarrow> topology_t option" where
  "set_solution_distance src dst distance t = do {
     a \<leftarrow> array_set (solution t) (cell t src dst) distance;
     Some (t\<lparr>solution := a\<rparr>)
   }"

section \<open>\<open>floyd_warshall\<close>\<close>

text \<open>The body of the three loops. A loop over \<open>i < n\<close> is the recursion that runs its first \<open>n\<close> rounds.\<close>

definition relax :: "u64 \<Rightarrow> u64 \<Rightarrow> u64 \<Rightarrow> topology_t \<Rightarrow> topology_t option" where
  "relax intermediate src dst t = do {
     a \<leftarrow> get_solution_distance t src intermediate;
     b \<leftarrow> get_solution_distance t intermediate dst;
     c \<leftarrow> get_solution_distance t src dst;
     if a + b < c then set_solution_distance src dst (a + b) t else Some t
   }"

fun relax_row :: "u64 \<Rightarrow> u64 \<Rightarrow> nat \<Rightarrow> topology_t \<Rightarrow> topology_t option" where
  "relax_row intermediate src 0 t = Some t"
| "relax_row intermediate src (Suc dst) t = do {
     t \<leftarrow> relax_row intermediate src dst t;
     relax intermediate src (of_nat dst) t
   }"

fun relax_rows :: "u64 \<Rightarrow> nat \<Rightarrow> topology_t \<Rightarrow> topology_t option" where
  "relax_rows intermediate 0 t = Some t"
| "relax_rows intermediate (Suc src) t = do {
     t \<leftarrow> relax_rows intermediate src t;
     relax_row intermediate (of_nat src) (unat (num_channel t)) t
   }"

fun relax_all :: "nat \<Rightarrow> topology_t \<Rightarrow> topology_t option" where
  "relax_all 0 t = Some t"
| "relax_all (Suc intermediate) t = do {
     t \<leftarrow> relax_all intermediate t;
     relax_rows (of_nat intermediate) (unat (num_channel t)) t
   }"

text \<open>\<open>memcpy\<close> of \<open>4 * num_channel * num_channel\<close> bytes.\<close>

definition matrix_cells :: "u64 \<Rightarrow> nat" where
  "matrix_cells n = unat (4 * n * n) div 4"

definition copy_topology :: "topology_t \<Rightarrow> topology_t option" where
  "copy_topology t = (let k = matrix_cells (num_channel t) in do {
     guard (k \<le> length (topology t) \<and> k \<le> length (solution t));
     Some (t\<lparr>solution := take k (topology t) @ drop k (solution t)\<rparr>)
   })"

definition floyd_warshall :: "topology_t \<Rightarrow> topology_t option" where
  "floyd_warshall t = do {
     t \<leftarrow> copy_topology t;
     relax_all (unat (num_channel t)) t
   }"

section \<open>\<open>create_topology\<close>\<close>

text \<open>One number of the matrix; negative ones stand for no link.\<close>

definition read_cell :: "u64 \<Rightarrow> u64 \<Rightarrow> topology_t \<times> string \<Rightarrow> (topology_t \<times> string) option" where
  "read_cell src dst ts = (case ts of (t, s) \<Rightarrow> do {
     (v, ok, s) \<leftarrow> scan_into to_int None s;
     guard ok;
     i \<leftarrow> v;
     let distance = (of_int i :: distance_t);
     let distance = (if distance > inf_distance then inf_distance else distance);
     t \<leftarrow> set_link_distance src dst distance t;
     Some (t, s)
   })"

fun read_row :: "u64 \<Rightarrow> nat \<Rightarrow> topology_t \<times> string \<Rightarrow> (topology_t \<times> string) option" where
  "read_row src 0 ts = Some ts"
| "read_row src (Suc dst) ts = do { ts \<leftarrow> read_row src dst ts; read_cell src (of_nat dst) ts }"

fun read_rows :: "nat \<Rightarrow> topology_t \<times> string \<Rightarrow> (topology_t \<times> string) option" where
  "read_rows 0 ts = Some ts"
| "read_rows (Suc src) ts = do {
     ts \<leftarrow> read_rows src ts;
     read_row (of_nat src) (unat (num_channel (fst ts))) ts
   }"

text \<open>\<open>file\<close>: the text of the file, if it can be opened. \<open>avail n\<close>: the library can provide \<open>n\<close> bytes; the two arrays hold
  \<open>junk\<close> and \<open>junk'\<close> before they are written. A failed assertion is \<open>None\<close>.\<close>

definition create_topology :: "(u64 \<Rightarrow> bool) \<Rightarrow> (nat \<Rightarrow> distance_t) \<Rightarrow> (nat \<Rightarrow> distance_t) \<Rightarrow> string option \<Rightarrow> topology_t \<Rightarrow> (bool \<times> topology_t) option" where
  "create_topology avail junk junk' file t = (case file of
     None \<Rightarrow> Some (False, t)
   | Some s \<Rightarrow> do {
       (n, ok, s) \<leftarrow> scan_into to_size None s;
       guard ok;
       n \<leftarrow> n;
       guard (n > 0);
       guard (avail (4 * n * n));
       let k = matrix_cells n;
       (t, s) \<leftarrow> read_rows (unat n) (\<lparr>num_channel = n, topology = map junk [0..<k], solution = map junk' [0..<k]\<rparr>, s);
       t \<leftarrow> floyd_warshall t;
       Some (True, t)
     })"

definition destroy_topology :: "topology_t \<Rightarrow> topology_t" where
  "destroy_topology t = t\<lparr>topology := [], solution := []\<rparr>"


section \<open>Shortest routes\<close>

text \<open>\<open>route_length W i xs j\<close>: the length of the route from \<open>i\<close> to \<open>j\<close> over the nodes \<open>xs\<close>. \<open>shortest W S i j m\<close>: the
  least length of a route over nodes in \<open>S\<close> is \<open>m\<close>.\<close>

fun route_length :: "(nat \<Rightarrow> nat \<Rightarrow> nat) \<Rightarrow> nat \<Rightarrow> nat list \<Rightarrow> nat \<Rightarrow> nat" where
  "route_length W i [] j = W i j"
| "route_length W i (x # xs) j = W i x + route_length W x xs j"

definition shortest :: "(nat \<Rightarrow> nat \<Rightarrow> nat) \<Rightarrow> nat set \<Rightarrow> nat \<Rightarrow> nat \<Rightarrow> nat \<Rightarrow> bool" where
  "shortest W S i j m \<longleftrightarrow> (\<exists>xs. set xs \<subseteq> S \<and> route_length W i xs j = m) \<and>
     (\<forall>xs. set xs \<subseteq> S \<longrightarrow> m \<le> route_length W i xs j)"

lemma route_append: "route_length W i (xs @ k # ys) j = route_length W i xs k + route_length W k ys j"
  by (induction xs arbitrary: i) auto

lemma shortest_unique: "shortest W S i j m \<Longrightarrow> shortest W S i j m' \<Longrightarrow> m = m'"
  by (auto simp: shortest_def intro: antisym)

lemma shortest_direct: "shortest W {} i j (W i j)"
  by (simp add: shortest_def)

lemma route_from:
  assumes "shortest W S k j b" "set ys \<subseteq> insert k S"
  shows "b \<le> route_length W k ys j"
proof (cases "k \<in> set ys")
  case True
  then obtain xs zs where ys: "ys = xs @ k # zs" "k \<notin> set zs"
    by (meson split_list_last)
  then have "b \<le> route_length W k zs j"
    using assms by (auto simp: shortest_def)
  then show ?thesis
    by (simp add: ys(1) route_append)
next
  case False
  then have "set ys \<subseteq> S"
    using assms(2) by blast
  then show ?thesis
    using assms(1) by (simp add: shortest_def)
qed

lemma shortest_over:
  assumes "shortest W S i k a" "shortest W S k j b" "shortest W S i j c"
  shows "shortest W (insert k S) i j (min (a + b) c)"
  unfolding shortest_def
proof (intro conjI allI impI)
  obtain xs ys zs where r: "set xs \<subseteq> S" "route_length W i xs k = a" "set ys \<subseteq> S" "route_length W k ys j = b"
    "set zs \<subseteq> S" "route_length W i zs j = c"
    using assms by (auto simp: shortest_def)
  then have "route_length W i (xs @ k # ys) j = a + b" "set (xs @ k # ys) \<subseteq> insert k S" "set zs \<subseteq> insert k S"
    by (auto simp: route_append)
  then show "\<exists>xs. set xs \<subseteq> insert k S \<and> route_length W i xs j = min (a + b) c"
    using r(6) by (metis min_def)
next
  fix xs
  assume xs: "set xs \<subseteq> insert k S"
  show "min (a + b) c \<le> route_length W i xs j"
  proof (cases "k \<in> set xs")
    case True
    then obtain ys zs where s: "xs = ys @ k # zs" "k \<notin> set ys"
      by (meson split_list_first)
    then have "a \<le> route_length W i ys k"
      using assms(1) xs by (auto simp: shortest_def)
    moreover have "b \<le> route_length W k zs j"
      using route_from [OF assms(2)] xs s(1) by auto
    ultimately show ?thesis
      by (simp add: s(1) route_append)
  next
    case False
    then have "set xs \<subseteq> S"
      using xs by blast
    then show ?thesis
      using assms(3) by (auto simp: shortest_def min_def intro: le_trans [of _ c])
  qed
qed

text \<open>Routes to and from the new node do not get shorter.\<close>

lemma shortest_ends:
  assumes "shortest W S i j m" "shortest W S k k d" "i = k \<or> j = k"
  shows "shortest W (insert k S) i j m"
  using shortest_over [of W S i k _ j] assms by (metis le_add1 le_add2 min.absorb2)


section \<open>The matrix\<close>

abbreviation size_of :: "topology_t \<Rightarrow> nat" where
  "size_of t \<equiv> unat (num_channel t)"

definition sized :: "topology_t \<Rightarrow> bool" where
  "sized t \<longleftrightarrow> size_of t * size_of t < 2 ^ 62 \<and> length (solution t) = size_of t * size_of t \<and>
     length (topology t) = size_of t * size_of t"

definition dist :: "topology_t \<Rightarrow> nat \<Rightarrow> nat \<Rightarrow> nat" where
  "dist t i j = unat (solution t ! (i * size_of t + j))"

definition capped :: "topology_t \<Rightarrow> bool" where
  "capped t \<longleftrightarrow> (\<forall>d \<in> set (solution t). d \<le> inf_distance)"

lemma cell_less: "i < n \<Longrightarrow> j < n \<Longrightarrow> i * n + j < n * n" for n :: nat
  by (metis add.commute add_less_cancel_left less_le_trans mult_Suc mult_le_mono1 Suc_leI)

lemma cell_inj: "j < n \<Longrightarrow> j' < n \<Longrightarrow> i * n + j = i' * n + j' \<longleftrightarrow> i = i' \<and> j = j'" for n :: nat
  by (metis add.commute div_mult_self1 div_less mod_mult_self2 mod_less mult.commute less_nat_zero_code add_0 neq0_conv)

lemma cell_at:
  assumes "size_of t * size_of t < 2 ^ 62" "i < size_of t" "j < size_of t"
  shows "cell t (of_nat i) (of_nat j) = i * size_of t + j"
proof -
  have "of_nat i * num_channel t + of_nat j = (of_nat (i * size_of t + j) :: u64)"
    by simp
  moreover have "i * size_of t + j < 2 ^ 64"
    using cell_less [OF assms(2,3)] assms(1) by simp
  ultimately show ?thesis
    unfolding cell_def by (simp only: unat_of_nat) (simp add: take_bit_nat_eq_self)
qed

lemma get_solution:
  assumes "sized t" "i < size_of t" "j < size_of t"
  shows "\<exists>d. get_solution_distance t (of_nat i) (of_nat j) = Some d \<and> unat d = dist t i j \<and> d \<in> set (solution t)"
  using assms cell_at [of t i j] cell_less [OF assms(2,3)] by (simp add: get_solution_distance_def sized_def dist_def)

lemma set_solution:
  assumes "sized t" "i < size_of t" "j < size_of t"
  shows "set_solution_distance (of_nat i) (of_nat j) d t = Some (t\<lparr>solution := (solution t)[i * size_of t + j := d]\<rparr>)"
  using assms cell_at [of t i j] cell_less [OF assms(2,3)] by (simp add: set_solution_distance_def sized_def)

text \<open>What no round of \<open>floyd_warshall\<close> changes, and the new distance over the node \<open>k\<close>.\<close>

definition same_matrix :: "topology_t \<Rightarrow> topology_t \<Rightarrow> bool" where
  "same_matrix t t' \<longleftrightarrow> num_channel t' = num_channel t \<and> topology t' = topology t \<and> sized t' \<and> capped t'"

lemma same_matrix_trans: "same_matrix t t1 \<Longrightarrow> same_matrix t1 t2 \<Longrightarrow> same_matrix t t2"
  by (simp add: same_matrix_def)

definition over :: "nat \<Rightarrow> (nat \<Rightarrow> nat \<Rightarrow> nat) \<Rightarrow> nat \<Rightarrow> nat \<Rightarrow> nat" where
  "over k D i j = min (D i k + D k j) (D i j)"

lemma over_ends [simp]: "over k D i k = D i k" "over k D k j = D k j"
  by (simp_all add: over_def)

lemma relax_ok:
  assumes "sized t" "capped t" "k < size_of t" "i < size_of t" "j < size_of t"
  shows "\<exists>t'. relax (of_nat k) (of_nat i) (of_nat j) t = Some t' \<and> same_matrix t t' \<and>
    (\<forall>i' < size_of t. \<forall>j' < size_of t. dist t' i' j' = (if i' = i \<and> j' = j then over k (dist t) i j else dist t i' j'))"
proof -
  obtain a b c where abc: "get_solution_distance t (of_nat i) (of_nat k) = Some a" "unat a = dist t i k" "a \<in> set (solution t)"
    "get_solution_distance t (of_nat k) (of_nat j) = Some b" "unat b = dist t k j" "b \<in> set (solution t)"
    "get_solution_distance t (of_nat i) (of_nat j) = Some c" "unat c = dist t i j" "c \<in> set (solution t)"
    using get_solution [OF assms(1,4,3)] get_solution [OF assms(1,3,5)] get_solution [OF assms(1,4,5)] by blast
  then have le: "unat a \<le> 0x7fffffff" "unat b \<le> 0x7fffffff" "unat c \<le> 0x7fffffff"
    using assms(2) by (auto simp: capped_def inf_distance_def word_le_unat)
  then have ab: "unat (a + b) = dist t i k + dist t k j"
    using abc by (simp add: unat_add_small)
  show ?thesis
  proof (cases "a + b < c")
    case True
    let ?t = "t\<lparr>solution := (solution t)[i * size_of t + j := a + b]\<rparr>"
    have "relax (of_nat k) (of_nat i) (of_nat j) t = Some ?t"
      using abc True set_solution [OF assms(1,4,5)] by (simp add: relax_def)
    moreover have "same_matrix t ?t"
    proof -
      have "a + b \<le> inf_distance"
        using True le(3) by (simp add: inf_distance_def word_le_unat word_less_unat)
      then have "\<forall>d \<in> set ((solution t)[i * size_of t + j := a + b]). d \<le> inf_distance"
        using assms(2) set_update_subset_insert [of "solution t" "i * size_of t + j" "a + b"] by (auto simp: capped_def)
      then show ?thesis
        using assms(1) by (simp add: same_matrix_def sized_def capped_def)
    qed
    moreover have "dist ?t i' j' = (if i' = i \<and> j' = j then over k (dist t) i j else dist t i' j')"
      if "i' < size_of t" "j' < size_of t" for i' j'
      using that True ab abc(8) cell_less [OF that] cell_inj [OF assms(5) that(2), of i i'] assms(1)
      by (auto simp: dist_def over_def sized_def word_less_unat nth_list_update)
    ultimately show ?thesis
      by blast
  next
    case False
    then have "dist t i j \<le> dist t i k + dist t k j"
      using ab abc(8) by (simp add: word_less_unat)
    with False abc assms(1,2) show ?thesis
      by (auto simp: relax_def same_matrix_def over_def min_def)
  qed
qed

lemma relax_row_ok:
  assumes "sized t" "capped t" "k < size_of t" "i < size_of t" "m \<le> size_of t"
  shows "\<exists>t'. relax_row (of_nat k) (of_nat i) m t = Some t' \<and> same_matrix t t' \<and>
    (\<forall>i' < size_of t. \<forall>j' < size_of t. dist t' i' j' = (if i' = i \<and> j' < m then over k (dist t) i j' else dist t i' j'))"
  using assms(5)
proof (induction m)
  case 0
  then show ?case
    using assms by (simp add: same_matrix_def)
next
  case (Suc m)
  then obtain t1 where t1: "relax_row (of_nat k) (of_nat i) m t = Some t1" "same_matrix t t1"
    "\<forall>i' < size_of t. \<forall>j' < size_of t. dist t1 i' j' = (if i' = i \<and> j' < m then over k (dist t) i j' else dist t i' j')"
    by auto
  then have f: "sized t1" "capped t1" "size_of t1 = size_of t"
    by (simp_all add: same_matrix_def)
  from relax_ok [OF f(1,2), of k i m] obtain t2 where t2: "relax (of_nat k) (of_nat i) (of_nat m) t1 = Some t2" "same_matrix t1 t2"
    "\<forall>i' < size_of t. \<forall>j' < size_of t. dist t2 i' j' = (if i' = i \<and> j' = m then over k (dist t1) i m else dist t1 i' j')"
    using f(3) assms(3,4) Suc.prems by auto
  have "over k (dist t1) i m = over k (dist t) i m"
    unfolding over_def using t1(3) assms(3,4) Suc.prems by (simp add: over_def)
  then have "\<forall>i' < size_of t. \<forall>j' < size_of t. dist t2 i' j' = (if i' = i \<and> j' < Suc m then over k (dist t) i j' else dist t i' j')"
    using t1(3) t2(3) by (auto simp: less_Suc_eq)
  then show ?case
    using t1(1) t2(1) same_matrix_trans [OF t1(2) t2(2)] by simp
qed

lemma relax_rows_ok:
  assumes "sized t" "capped t" "k < size_of t" "m \<le> size_of t"
  shows "\<exists>t'. relax_rows (of_nat k) m t = Some t' \<and> same_matrix t t' \<and>
    (\<forall>i' < size_of t. \<forall>j' < size_of t. dist t' i' j' = (if i' < m then over k (dist t) i' j' else dist t i' j'))"
  using assms(4)
proof (induction m)
  case 0
  then show ?case
    using assms by (simp add: same_matrix_def)
next
  case (Suc m)
  then obtain t1 where t1: "relax_rows (of_nat k) m t = Some t1" "same_matrix t t1"
    "\<forall>i' < size_of t. \<forall>j' < size_of t. dist t1 i' j' = (if i' < m then over k (dist t) i' j' else dist t i' j')"
    by auto
  then have f: "sized t1" "capped t1" "size_of t1 = size_of t"
    by (simp_all add: same_matrix_def)
  from relax_row_ok [OF f(1,2), of k m "size_of t"] obtain t2 where t2: "relax_row (of_nat k) (of_nat m) (size_of t) t1 = Some t2"
    "same_matrix t1 t2"
    "\<forall>i' < size_of t. \<forall>j' < size_of t. dist t2 i' j' = (if i' = m then over k (dist t1) m j' else dist t1 i' j')"
    using f(3) assms(3) Suc.prems by auto
  have "over k (dist t1) m j' = over k (dist t) m j'" if "j' < size_of t" for j'
    unfolding over_def [of k "dist t1"] using t1(3) assms(3) Suc.prems that by (simp add: over_def)
  then have "\<forall>i' < size_of t. \<forall>j' < size_of t. dist t2 i' j' = (if i' < Suc m then over k (dist t) i' j' else dist t i' j')"
    using t1(3) t2(3) by (auto simp: less_Suc_eq)
  then show ?case
    using t1(1) t2(1) same_matrix_trans [OF t1(2) t2(2)] f(3) by simp
qed

lemma relax_all_ok:
  assumes "sized t" "capped t" "m \<le> size_of t"
  shows "\<exists>t'. relax_all m t = Some t' \<and> same_matrix t t' \<and>
    (\<forall>i < size_of t. \<forall>j < size_of t. shortest (dist t) {..<m} i j (dist t' i j))"
  using assms(3)
proof (induction m)
  case 0
  then show ?case
    using assms by (simp add: same_matrix_def shortest_direct)
next
  case (Suc m)
  then obtain t1 where t1: "relax_all m t = Some t1" "same_matrix t t1"
    "\<forall>i < size_of t. \<forall>j < size_of t. shortest (dist t) {..<m} i j (dist t1 i j)"
    by auto
  then have f: "sized t1" "capped t1" "size_of t1 = size_of t"
    by (simp_all add: same_matrix_def)
  from relax_rows_ok [OF f(1,2), of m "size_of t"] obtain t2 where t2: "relax_rows (of_nat m) (size_of t) t1 = Some t2"
    "same_matrix t1 t2" "\<forall>i < size_of t. \<forall>j < size_of t. dist t2 i j = over m (dist t1) i j"
    using f(3) Suc.prems by auto
  have "shortest (dist t) {..<Suc m} i j (dist t2 i j)" if "i < size_of t" "j < size_of t" for i j
    using shortest_over [of "dist t" "{..<m}" i m "dist t1 i m" j "dist t1 m j" "dist t1 i j"] t1(3) t2(3) that Suc.prems
    by (simp add: over_def lessThan_Suc)
  then show ?case
    using t1(1) t2(1) same_matrix_trans [OF t1(2) t2(2)] f(3) by simp
qed


lemma route_cong:
  "\<forall>i < n. \<forall>j < n. W i j = W' i j \<Longrightarrow> set xs \<subseteq> {..<n} \<Longrightarrow> i < n \<Longrightarrow> j < n \<Longrightarrow> route_length W i xs j = route_length W' i xs j"
  by (induction xs arbitrary: i) auto

lemma shortest_cong:
  assumes "\<forall>i < n. \<forall>j < n. W i j = W' i j" "i < n" "j < n" "shortest W {..<n} i j m"
  shows "shortest W' {..<n} i j m"
  using assms route_cong [OF assms(1) _ assms(2,3)] unfolding shortest_def by metis

lemma matrix_cells_square:
  assumes "unat n * unat n < 2 ^ 62"
  shows "matrix_cells n = unat n * unat n"
proof -
  have "4 * n * n = (of_nat (4 * (unat n * unat n)) :: u64)"
    by simp
  moreover have "4 * (unat n * unat n) < 2 ^ 64"
    using assms by simp
  ultimately have "unat (4 * n * n) = 4 * (unat n * unat n)"
    by (simp only: unat_of_nat) (simp add: take_bit_nat_eq_self)
  then show ?thesis
    by (simp add: matrix_cells_def)
qed

definition link :: "topology_t \<Rightarrow> nat \<Rightarrow> nat \<Rightarrow> nat" where
  "link t i j = unat (topology t ! (i * size_of t + j))"

lemma floyd_warshall_shortest:
  assumes "sized t" "\<forall>d \<in> set (topology t). d \<le> inf_distance"
  shows "\<exists>t'. floyd_warshall t = Some t' \<and> same_matrix t t' \<and>
    (\<forall>i < size_of t. \<forall>j < size_of t. shortest (link t) {..<size_of t} i j (dist t' i j))"
proof -
  let ?t = "t\<lparr>solution := topology t\<rparr>"
  have len: "matrix_cells (num_channel t) = length (topology t)" "length (solution t) = length (topology t)"
    using assms(1) matrix_cells_square by (simp_all add: sized_def)
  then have copy: "copy_topology t = Some ?t"
    by (simp add: copy_topology_def)
  have t: "sized ?t" "capped ?t" "dist ?t = link t"
    using assms by (auto simp: sized_def capped_def dist_def link_def fun_eq_iff)
  from relax_all_ok [OF t(1,2), of "size_of t"] obtain t' where "relax_all (size_of t) ?t = Some t'" "same_matrix ?t t'"
    "\<forall>i < size_of t. \<forall>j < size_of t. shortest (link t) {..<size_of t} i j (dist t' i j)"
    using t(3) by auto
  then show ?thesis
    using copy by (simp add: floyd_warshall_def same_matrix_def)
qed

section \<open>Topology files\<close>

definition print_row :: "int list \<Rightarrow> string" where
  "print_row row = concat (map (\<lambda>d. show_int d @ '' '') row)"

definition print_rows :: "int list list \<Rightarrow> string" where
  "print_rows rows = concat (map (\<lambda>row. print_row row @ [newline]) rows)"

definition print_topology :: "int list list \<Rightarrow> string" where
  "print_topology rows = show_nat (length rows) @ newline # print_rows rows"

definition to_distance :: "int \<Rightarrow> distance_t" where
  "to_distance d = (if d < 0 then inf_distance else of_int d)"

lemma to_distance_cut:
  assumes "- (2 ^ 31) \<le> d" "d < 2 ^ 31"
  shows "(if (of_int d :: distance_t) > inf_distance then inf_distance else of_int d) = to_distance d" "to_distance d \<le> inf_distance"
proof -
  have u: "uint (of_int d :: distance_t) = d mod 2 ^ 32"
    by (simp add: unsigned_of_int take_bit_eq_mod)
  have "d mod 2 ^ 32 = (if d < 0 then d + 2 ^ 32 else d)"
    using assms mod_add_self2 [of d "2 ^ 32"] by (auto simp: mod_pos_pos_trivial simp del: mod_add_self2)
  then have "(of_int d :: distance_t) > inf_distance \<longleftrightarrow> d < 0"
    using u assms by (auto simp: word_less_def inf_distance_def)
  then show "(if (of_int d :: distance_t) > inf_distance then inf_distance else of_int d) = to_distance d" "to_distance d \<le> inf_distance"
    by (auto simp: to_distance_def)
qed

text \<open>Reading the matrix: cell by cell in the order of the file.\<close>

definition blank :: "string \<Rightarrow> bool" where
  "blank sp \<longleftrightarrow> (\<forall>c \<in> set sp. is_space c)"

definition filled_in :: "topology_t \<Rightarrow> topology_t \<Rightarrow> bool" where
  "filled_in t t' \<longleftrightarrow> num_channel t' = num_channel t \<and> solution t' = solution t \<and> length (topology t') = length (topology t)"

lemma read_cell_ok:
  assumes "sized t" "i < size_of t" "j < size_of t" "- (2 ^ 31) \<le> d" "d < 2 ^ 31" "blank sp"
  shows "read_cell (of_nat i) (of_nat j) (t, sp @ show_int d @ '' '' @ rest) =
    Some (t\<lparr>topology := (topology t)[i * size_of t + j := to_distance d]\<rparr>, '' '' @ rest)"
  using assms scan_into_show(1) [of "'' '' @ rest" sp to_int d d] conversions(1) [of d] to_distance_cut [OF assms(4,5)]
    cell_at [of t i j] cell_less [OF assms(2,3)]
  by (simp add: read_cell_def blank_def set_link_distance_def sized_def Let_def)


lemma filled_in_sized: "filled_in t t' \<Longrightarrow> sized t \<Longrightarrow> sized t'"
  by (simp add: filled_in_def sized_def)

lemma filled_in_trans: "filled_in t t1 \<Longrightarrow> filled_in t1 t2 \<Longrightarrow> filled_in t t2"
  by (simp add: filled_in_def)

definition in_range :: "int \<Rightarrow> bool" where
  "in_range d \<longleftrightarrow> - (2 ^ 31) \<le> d \<and> d < 2 ^ 31"

lemma read_row_ok:
  assumes "sized t" "i < size_of t" "length row \<le> size_of t" "\<forall>d \<in> set row. in_range d" "blank sp"
  shows "\<exists>t' sp'. read_row (of_nat i) (length row) (t, sp @ print_row row @ rest) = Some (t', sp' @ rest) \<and> blank sp' \<and> filled_in t t' \<and>
    (\<forall>i' < size_of t. \<forall>j' < size_of t. topology t' ! (i' * size_of t + j') =
      (if i' = i \<and> j' < length row then to_distance (row ! j') else topology t ! (i' * size_of t + j')))"
  using assms(3,4)
proof (induction row arbitrary: rest rule: rev_induct)
  case Nil
  then show ?case
    using assms(5) by (intro exI [of _ t] exI [of _ sp]) (simp add: print_row_def filled_in_def)
next
  case (snoc d row)
  have "length row \<le> size_of t" "\<forall>d \<in> set row. in_range d"
    using snoc.prems by auto
  from snoc.IH [OF this, of "show_int d @ '' '' @ rest"] obtain t1 sp1 where t1: "read_row (of_nat i) (length row) (t, sp @ print_row row @ show_int d @ '' '' @ rest) = Some (t1, sp1 @ show_int d @ '' '' @ rest)"
    "blank sp1" "filled_in t t1"
    "\<forall>i' < size_of t. \<forall>j' < size_of t. topology t1 ! (i' * size_of t + j') =
      (if i' = i \<and> j' < length row then to_distance (row ! j') else topology t ! (i' * size_of t + j'))"
    by blast
  let ?m = "length row"
  let ?t = "t1\<lparr>topology := (topology t1)[i * size_of t + ?m := to_distance d]\<rparr>"
  have n: "size_of t1 = size_of t" "sized t1"
    using t1(3) filled_in_sized [OF t1(3) assms(1)] by (simp_all add: filled_in_def)
  have m: "?m < size_of t"
    using snoc.prems by simp
  have "read_cell (of_nat i) (of_nat ?m) (t1, sp1 @ show_int d @ '' '' @ rest) = Some (?t, '' '' @ rest)"
    using read_cell_ok [OF n(2), of i ?m d sp1 rest] n(1) assms(2) m t1(2) snoc.prems(2) by (simp add: in_range_def)
  then have "read_row (of_nat i) (length (row @ [d])) (t, sp @ print_row (row @ [d]) @ rest) = Some (?t, '' '' @ rest)"
    using t1(1) by (simp add: print_row_def)
  moreover have "blank '' ''"
    by (simp add: blank_def is_space_def)
  moreover have "filled_in t ?t"
    using t1(3) by (simp add: filled_in_def)
  moreover have "topology ?t ! (i' * size_of t + j') =
      (if i' = i \<and> j' < length (row @ [d]) then to_distance ((row @ [d]) ! j') else topology t ! (i' * size_of t + j'))"
    if "i' < size_of t" "j' < size_of t" for i' j'
    using t1(4) that m n cell_less [OF that] cell_inj [OF that(2) m, of i' i]
    by (auto simp: nth_list_update sized_def nth_append less_Suc_eq)
  ultimately show ?case
    by blast
qed

lemma read_rows_ok:
  assumes "sized t" "length rows \<le> size_of t" "\<forall>row \<in> set rows. length row = size_of t \<and> (\<forall>d \<in> set row. in_range d)" "blank sp"
  shows "\<exists>t' s. read_rows (length rows) (t, sp @ print_rows rows @ rest) = Some (t', s @ rest) \<and> blank s \<and> filled_in t t' \<and>
    (\<forall>i < size_of t. \<forall>j < size_of t. topology t' ! (i * size_of t + j) =
      (if i < length rows then to_distance (rows ! i ! j) else topology t ! (i * size_of t + j)))"
  using assms(2,3)
proof (induction rows arbitrary: rest rule: rev_induct)
  case Nil
  then show ?case
    using assms(4) by (intro exI [of _ t] exI [of _ sp]) (simp add: print_rows_def filled_in_def)
next
  case (snoc row rows)
  let ?m = "length rows"
  have "print_rows (rows @ [row]) @ rest = print_rows rows @ print_row row @ newline # rest"
    by (simp add: print_rows_def)
  moreover have "?m \<le> size_of t" "\<forall>row \<in> set rows. length row = size_of t \<and> (\<forall>d \<in> set row. in_range d)"
    using snoc.prems by auto
  note snoc.IH [OF this, of "print_row row @ newline # rest"]
  ultimately obtain t1 sp1 where t1: "read_rows ?m (t, sp @ print_rows (rows @ [row]) @ rest) = Some (t1, sp1 @ print_row row @ newline # rest)"
    "blank sp1" "filled_in t t1"
    "\<forall>i < size_of t. \<forall>j < size_of t. topology t1 ! (i * size_of t + j) =
      (if i < ?m then to_distance (rows ! i ! j) else topology t ! (i * size_of t + j))"
    by auto
  have n: "size_of t1 = size_of t" "sized t1"
    using t1(3) filled_in_sized [OF t1(3) assms(1)] by (simp_all add: filled_in_def)
  have row: "length row = size_of t" "\<forall>d \<in> set row. in_range d" "?m < size_of t"
    using snoc.prems by auto
  from read_row_ok [OF n(2), of ?m row sp1 "newline # rest"] obtain t2 sp2 where
    t2: "read_row (of_nat ?m) (length row) (t1, sp1 @ print_row row @ newline # rest) = Some (t2, sp2 @ newline # rest)" "blank sp2" "filled_in t1 t2"
    "\<forall>i' < size_of t. \<forall>j' < size_of t. topology t2 ! (i' * size_of t + j') =
      (if i' = ?m \<and> j' < length row then to_distance (row ! j') else topology t1 ! (i' * size_of t + j'))"
    using n(1) row t1(2) by auto
  have "read_rows (length (rows @ [row])) (t, sp @ print_rows (rows @ [row]) @ rest) = Some (t2, (sp2 @ [newline]) @ rest)"
    using t1(1) t2(1) row(1) n(1) by simp
  moreover have "blank (sp2 @ [newline])"
    using t2(2) by (auto simp: blank_def is_space_def newline_def)
  moreover have "filled_in t t2"
    by (rule filled_in_trans [OF t1(3) t2(3)])
  moreover have "\<forall>i < size_of t. \<forall>j < size_of t. topology t2 ! (i * size_of t + j) =
      (if i < length (rows @ [row]) then to_distance ((rows @ [row]) ! i ! j) else topology t ! (i * size_of t + j))"
    using t1(4) t2(4) row(1) by (auto simp: nth_append less_Suc_eq)
  ultimately show ?case
    by blast
qed

text \<open>C21: \<open>create_topology\<close> reads a matrix of distances, negative ones standing for \<open>inf_distance\<close>, and its solution has for
  every pair of nodes the length of a shortest route in this matrix: some route has this length and none is
  shorter. No sum of the algorithm overflows its 32 bits, and no access leaves the matrices.\<close>

theorem create_topology_solves:
  assumes "rows \<noteq> []" "length rows < 2 ^ 31" "\<forall>row \<in> set rows. length row = length rows \<and> (\<forall>d \<in> set row. in_range d)"
    and "avail (4 * of_nat (length rows) * of_nat (length rows))"
  shows "\<exists>t'. create_topology avail junk junk' (Some (print_topology rows)) t = Some (True, t') \<and> num_channel t' = of_nat (length rows) \<and>
    (\<forall>i < length rows. \<forall>j < length rows.
      get_link_distance t' (of_nat i) (of_nat j) = Some (to_distance (rows ! i ! j)) \<and>
      (\<exists>d. get_solution_distance t' (of_nat i) (of_nat j) = Some d \<and>
        shortest (\<lambda>i j. unat (to_distance (rows ! i ! j))) {..<length rows} i j (unat d)))"
proof -
  let ?n = "length rows" and ?N = "of_nat (length rows) :: u64"
  have N: "unat ?N = ?n"
    using assms(2) by (simp add: unat_of_nat take_bit_nat_eq_self)
  have sq: "?n * ?n < 2 ^ 62"
    using mult_strict_mono [OF assms(2,2)] by simp
  let ?t = "\<lparr>num_channel = ?N, topology = map junk [0..<matrix_cells ?N], solution = map junk' [0..<matrix_cells ?N]\<rparr>"
  have t: "sized ?t" "size_of ?t = ?n"
    using matrix_cells_square [of ?N] sq N by (simp_all add: sized_def)
  have "blank [newline]"
    by (simp add: blank_def is_space_def newline_def)
  from read_rows_ok [OF t(1), of rows "[newline]" "[]"] this t(2) assms(3) obtain t1 s where
    t1: "read_rows ?n (?t, newline # print_rows rows) = Some (t1, s)" "filled_in ?t t1"
    "\<forall>i < ?n. \<forall>j < ?n. topology t1 ! (i * ?n + j) = to_distance (rows ! i ! j)"
    by auto
  have n1: "size_of t1 = ?n" "sized t1"
    using t1(2) filled_in_sized [OF t1(2) t(1)] N by (simp_all add: filled_in_def)
  have "d \<le> inf_distance" if d: "d \<in> set (topology t1)" for d
  proof -
    obtain c where "c < length (topology t1)" "d = topology t1 ! c"
      using d by (auto simp: in_set_conv_nth)
    moreover have "length (topology t1) = ?n * ?n"
      using n1 by (simp add: sized_def)
    ultimately have c: "c < ?n * ?n" "d = topology t1 ! c"
      by simp_all
    then have "c div ?n < ?n" "c mod ?n < ?n" "c = c div ?n * ?n + c mod ?n"
      using assms(1) by (simp_all add: less_mult_imp_div_less)
    then have "d = to_distance (rows ! (c div ?n) ! (c mod ?n))" "rows ! (c div ?n) ! (c mod ?n) \<in> set (rows ! (c div ?n))"
      using t1(3) c(2) assms(3) nth_mem [of "c div ?n" rows] by (metis, metis nth_mem)
    then show ?thesis
      using assms(3) \<open>c div ?n < ?n\<close> to_distance_cut(2) nth_mem [of "c div ?n" rows] by (metis in_range_def)
  qed
  then obtain t2 where t2: "floyd_warshall t1 = Some t2" "same_matrix t1 t2"
    "\<forall>i < ?n. \<forall>j < ?n. shortest (link t1) {..<?n} i j (dist t2 i j)"
    using floyd_warshall_shortest [OF n1(2)] n1(1) by auto
  have n2: "size_of t2 = ?n" "sized t2" "topology t2 = topology t1" "num_channel t2 = ?N"
    using t2(2) n1(1) t1(2) by (simp_all add: same_matrix_def filled_in_def)
  have "create_topology avail junk junk' (Some (print_topology rows)) t = Some (True, t2)"
  proof -
    have "stops (newline # print_rows rows)"
      by simp
    then have "scan_into to_size None (show_nat ?n @ newline # print_rows rows) = Some (Some ?N, True, newline # print_rows rows)"
      using scan_into_show(2) [of "newline # print_rows rows" "[]" to_size ?n ?N None] conversions(3) [of ?N] N by simp
    moreover have "0 < ?N"
      using assms(1) N by (simp add: word_less_unat)
    ultimately show ?thesis
      using t1(1) t2(1) N assms(4) by (simp add: create_topology_def print_topology_def Let_def)
  qed
  moreover have "get_link_distance t2 (of_nat i) (of_nat j) = Some (to_distance (rows ! i ! j))" if "i < ?n" "j < ?n" for i j
    using that n2 t1(3) cell_at [of t2 i j] cell_less [OF that] by (simp add: get_link_distance_def sized_def)
  moreover have "\<exists>d. get_solution_distance t2 (of_nat i) (of_nat j) = Some d \<and>
        shortest (\<lambda>i j. unat (to_distance (rows ! i ! j))) {..<?n} i j (unat d)" if ij: "i < ?n" "j < ?n" for i j
  proof -
    have "\<forall>i < ?n. \<forall>j < ?n. link t1 i j = unat (to_distance (rows ! i ! j))"
      using t1(3) n1(1) by (simp add: link_def)
    moreover have "shortest (link t1) {..<?n} i j (dist t2 i j)"
      using t2(3) ij by blast
    ultimately have "shortest (\<lambda>i j. unat (to_distance (rows ! i ! j))) {..<?n} i j (dist t2 i j)"
      by (rule shortest_cong [OF _ ij])
    moreover obtain d where "get_solution_distance t2 (of_nat i) (of_nat j) = Some d" "unat d = dist t2 i j"
      using get_solution [OF n2(2), of i j] n2(1) ij by auto
    ultimately show ?thesis
      by simp
  qed
  ultimately show ?thesis
    using n2(4) by blast
qed


definition some_rows :: "int list list" where
  "some_rows = [[0, 5, - 1], [- 1, 0, 2], [1, - 1, 0]]"

theorem create_topology_solves_witness:
  "\<exists>t d. create_topology (\<lambda>n. True) (\<lambda>c. 7) (\<lambda>c. 9) (Some (print_topology some_rows)) \<lparr>num_channel = 0, topology = [], solution = []\<rparr> = Some (True, t) \<and>
    get_link_distance t 0 2 = Some inf_distance \<and> get_solution_distance t 0 2 = Some d \<and> unat d \<le> 7"
proof -
  obtain t where t: "create_topology (\<lambda>n. True) (\<lambda>c. 7) (\<lambda>c. 9) (Some (print_topology some_rows)) \<lparr>num_channel = 0, topology = [], solution = []\<rparr> = Some (True, t)"
    and each: "\<forall>i < length some_rows. \<forall>j < length some_rows.
      get_link_distance t (of_nat i) (of_nat j) = Some (to_distance (some_rows ! i ! j)) \<and>
      (\<exists>d. get_solution_distance t (of_nat i) (of_nat j) = Some d \<and>
        shortest (\<lambda>i j. unat (to_distance (some_rows ! i ! j))) {..<length some_rows} i j (unat d))"
    using create_topology_solves [of some_rows "\<lambda>n. True" "\<lambda>c. 7" "\<lambda>c. 9" "\<lparr>num_channel = 0, topology = [], solution = []\<rparr>"]
    by (auto simp: some_rows_def in_range_def)
  have "length some_rows = 3"
    by (simp add: some_rows_def)
  then obtain d where d: "get_link_distance t 0 2 = Some (to_distance (some_rows ! 0 ! 2))" "get_solution_distance t 0 2 = Some d"
    "shortest (\<lambda>i j. unat (to_distance (some_rows ! i ! j))) {..<3} 0 2 (unat d)"
    using each [rule_format, of 0 2] by auto
  then have "unat d \<le> route_length (\<lambda>i j. unat (to_distance (some_rows ! i ! j))) 0 [1] 2"
    unfolding shortest_def by (intro d(3) [unfolded shortest_def, THEN conjunct2, rule_format]) simp
  then have "unat d \<le> 7"
    by (simp add: some_rows_def to_distance_def)
  moreover have "to_distance (some_rows ! 0 ! 2) = inf_distance"
    by (simp add: some_rows_def to_distance_def)
  ultimately show ?thesis
    using t d(1,2) by metis
qed

end
