(* ===== verification/Spec2Isabelle.thy ===== *)
theory Spec2Isabelle
  imports Channel_Wakeup Kernel_Boot Driver_Util Trace_File Fcyc Topology
begin

text \<open>
  Verification library of the three operating-system projects of this repository: the malloc
  package (\<open>src/p1-memory-management\<close>), the small kernel with its page tables, allocator, formatted
  output and frame buffer console (\<open>src/p2-page-tables\<close>), and the concurrent channels
  (\<open>src/p3-concurrent-channels\<close>).

  \<^bold>\<open>Conventions.\<close> Machine integers are words of their width (\<open>Prelude\<close>). A function of the code is
  a definition of the same name that takes and returns the state it works on; \<open>None\<close> of an option is
  undefined behaviour (a dereference of NULL, an access outside its object, a loop the code does
  not leave). A loop is a recursive function: structural or with a measure where it ends, a
  \<open>partial_function\<close> where a walk over a linked list ends only on well formed lists; each theorem then
  proves that the result is defined. Results of the code that are errors are values.
  Each theorem named in the manifest stands after a text that states it, and its instance on
  concrete data (\<open>_witness\<close>) shows that its hypotheses can hold.

  \<^bold>\<open>Malloc package.\<close>
  \<^item> \<open>Memory\<close>: byte addressed memory, little-endian 64-bit accesses, and the locale of aligned words.
  \<^item> \<open>Memlib\<close>: \<open>memlib.c\<close> (the simulated break, \<open>mem_sbrk\<close>, word-wise \<open>mem_memcpy\<close> and \<open>mem_memset\<close>) and the
    kernel's \<open>kernel_malloc.c\<close> and \<open>string.c\<close>; the word-wise and the byte-wise loops do the same.
  \<^item> \<open>Mm\<close>: \<open>mm.c\<close>, every function: the boundary tags (\<open>GET\<close> to \<open>SET_PTR\<close>), the 61 segregated lists
    (\<open>node_add\<close>, \<open>node_remove\<close>), \<open>coalesce\<close>, \<open>extend_heap\<close>, \<open>find_fit\<close>, \<open>place\<close>, \<open>mm_init\<close>, \<open>malloc\<close>, \<open>free\<close>,
    \<open>realloc\<close>, \<open>calloc\<close>, \<open>mm_checkheap\<close>. \<open>mem_sbrk\<close> is an argument of those that reach it, because the
    kernel runs the same text on another break.
  \<^item> \<open>Mm_Lists\<close>, \<open>Mm_Blocks\<close>, \<open>Mm_Alloc\<close>, \<open>Mm_Heap\<close>: the heap as a list of blocks that tile it
    (\<open>heap_inv\<close>): tags agree with the blocks, free blocks are exactly the members of the list of their size
    class, sorted by size, and no two free blocks are neighbours (\<open>coalesced\<close>). Opening a hole in the tiling,
    changing its tags and closing it is the step from which coalescing, splitting and growing the heap
    are put together. The locale \<open>break_provider\<close> is the contract of a break; it is interpreted on
    \<open>mem_sbrk\<close> and on the break of the kernel, and its lemmas on \<open>malloc\<close> are proved once.
  \<^item> \<open>Mm_Calls\<close>: what the calls promise to a client, including runs of calls, best fit, and the sizes
    near \<open>2^64\<close> and the NULL arguments at which the code goes wrong.

  \<^bold>\<open>Driver of the malloc package.\<close>
  \<^item> \<open>Stree\<close>: \<open>stree.c\<close>, the splay tree in which the driver finds the blocks of the allocator, on a store of
    nodes with parent pointers. \<open>Stree_Splay\<close>: the tree a store represents and positions in it; a rotation moves
    the nodes of a position, and \<open>splay\<close> ends with its node at the root. \<open>Stree_Map\<close>: the calls refine a map
    from keys to records, stated for all sequences of calls by the locale \<open>simulation\<close>.
  \<^item> \<open>Range_Set\<close>: the range sets of \<open>mdriver.c\<close> (\<open>add_range\<close>, \<open>remove_range\<close>): records in a list and in the
    splay tree. \<open>spans\<close> is the set of intervals they stand for; \<open>ranges_ok\<close> says that these are disjoint,
    that the tree finds them, and that a link of the list leads to the neighbour, or is missing.
  \<^item> \<open>Driver\<close>: the replay of traces in \<open>mdriver.c\<close>: \<open>eval_mm_valid\<close> with \<open>randomize_block\<close> and \<open>check_index\<close>,
    \<open>eval_mm_util\<close> and \<open>eval_mm_speed\<close>, and the same for the allocator of the C library. \<open>Driver_Valid\<close>: the check of the contents of blocks is exact, and the
    malloc package passes its driver on every well formed trace: \<open>replay_inv\<close> relates the arrays of the
    trace, the range set and the allocated blocks of the heap. \<open>malloc\<close> of the C library is a parameter, of
    which only that it returns fresh addresses is assumed. The driver validates each trace twice (\<open>validate\<close>); the second
    run accepts what the first does if no block is left allocated, and rejects every trace that keeps the block of
    its first request, because the range set is not emptied.
  \<^item> \<open>Driver_Util\<close>: the runs that are timed make the same calls as those that are not; what \<open>eval_mm_util\<close>
    divides is the peak of the requested bytes by the size of the heap, and is at most 1.
  \<^item> \<open>Scanf\<close>: the conversions of \<open>fscanf\<close> the programs use, and printed numbers, which they read back. \<open>Trace_File\<close>:
    \<open>read_trace\<close> on the text of a file: printing a trace in the format of the files and reading it is the identity.
  \<^item> \<open>Fcyc\<close>: \<open>fcyc.c\<close> and \<open>clock.c\<close>, the K-best sampler that times the runs. A \<open>double\<close> is a real number rounded by a
    parameter after each operation; the measured function, the thread clock and \<open>/proc/cpuinfo\<close> are parameters
    too. The loops may not end, so they are partial functions; \<open>fcyc_ends\<close> shows that they do when the clock makes
    progress.

  \<^bold>\<open>Kernel.\<close>
  \<^item> \<open>Kernel_Alloc\<close>: \<open>kernel_extra.c\<close>, and the allocator test of \<open>kernel_malloc.c\<close>, which passes. \<open>Kernel_Frame\<close>: whatever
    state they start from, the allocator and its test write only inside the memory of the heap.
  \<^item> \<open>Page_Tables\<close>: \<open>kernel_code.c\<close>: the entries as bit-fields written to memory, the loops of \<open>kernel_init\<close>
    (over a million entries; the proofs are by induction, not by evaluation), and the page walk of the
    processor as specification: the tables mean the intended address map, and keep it while nobody writes to
    them.
  \<^item> \<open>Printf\<close>: the interpreter of formats in \<open>printf.c\<close>, a state machine over the characters of the
    format, with the output function as argument. \<open>Printf_Spec\<close>: formats as lists of directives and the
    text they stand for; the interpreter emits that text. The locale \<open>char_output\<close> is what printing needs
    of an output; it is interpreted on \<open>vsnprintf_output\<close>, \<open>vsprintf_output\<close> and, in \<open>Framebuffer\<close>, on \<open>fb_output\<close>.
  \<^item> \<open>Ascii_Font\<close>, \<open>Framebuffer\<close>: the font table and \<open>fb.c\<close>. The pixels show a grid of characters with a
    cursor; every operation is one on the grid, and no write leaves the array.
  \<^item> \<open>Kernel_Boot\<close>: \<open>kernel.c\<close>, \<open>kernel_init\<close> and \<open>user.c\<close>: the composition of all of these, up to what is on the
    console, what the registers hold, and which addresses are mapped when the user program starts. \<open>load_page_table\<close> is a
    parameter, of which only that it loads finished tables without an error is assumed. After the switch of CR3 each access to the heap and
    the screen is guarded by \<open>mapped\<close>, the page walk through the tables as they are in memory.

  \<^bold>\<open>Channels.\<close>
  \<^item> \<open>Chan_Buffer\<close>: \<open>buffer.c\<close>, a ring buffer that refines a bounded queue.
  \<^item> \<open>Dlink\<close>, \<open>Linked_List\<close>: chains of doubly linked cells (shared with the allocator's lists), and
    \<open>linked_list.c\<close> on an explicit store of nodes.
  \<^item> \<open>Channel\<close>: \<open>channel.c\<close> as the calling thread runs it: semaphores, lock, buffer and the two lists of
    waiting selects are the state. A wait on a semaphore of value 0 is the outcome that the caller
    blocks. \<open>Channel_Runs\<close>: sequences of calls refine a bounded queue with a closed flag, as long as the message
    \<open>(void*)-1\<close> is not sent; each of these loses a slot.
  \<^item> \<open>Channel_Select\<close>: \<open>channel_select\<close>: registration, scan, unregistration and sleep; a select performs
    the first ready entry, and sleeps registered on all channels exactly when there is none.
  \<^item> \<open>Channel_Wakeup\<close>: no wake-up is lost. The state of a sleeper (\<open>asleep\<close>) is an invariant of the calls other threads make:
    either its semaphore has been posted or none of its entries can proceed. Resumed, it performs the first
    entry that can, or uses up its posts and sleeps again.
  \<^item> \<open>Topology\<close>: the reference solution of the stress test \<open>stress.c\<close>: reading the matrix of distances, and the lengths of shortest
    routes by three nested loops on 32-bit numbers.

  \<^bold>\<open>Not modelled.\<close> The rest of \<open>mdriver.c\<close> (\<open>main\<close> with its options, the scores in floating point, the printed tables, the look-up of the
  reference throughput), the branches of \<open>fcyc.c\<close> and \<open>clock.c\<close> that are not compiled, \<open>tree_show\<close>, the router threads of \<open>stress.c\<close>, \<open>stress_send_recv.c\<close> and \<open>test.c\<close>, which are programs that run
  threads; the code and the stack of the kernel in its page tables; \<open>mem_deinit\<close>, \<open>mem_pagesize\<close> and \<open>hprobe\<close>; the assembly files; and the interleaving of two threads
  inside one channel operation, which the lock of the channel excludes except in \<open>channel_select\<close> and
  between the semaphores and the lock. A call of \<open>channel_send\<close> or \<open>channel_receive\<close> that blocks is a reply that leaves the
  state as it is; its later completion is the same call made again.
\<close>

end
